(* ===== verification/Prelude.thy ===== *)
theory Prelude
  imports Main "HOL-Library.Word" "HOL-Library.Multiset" "HOL-Library.AList"
begin

text \<open>
  What every component shares: the machine integers of the code, the ways a C++ program
  can leave its defined behaviour (as values, so that an operation that may fault returns
  \<open>fault + 'a\<close>), the sequencing of such operations, \<open>memcpy\<close> with its bounds, and the
  facts on lists, arrays and association lists the component proofs rest on.
\<close>

unbundle bit_operations_syntax

named_theorems exec_simps "how a sequence of operations that may fault evaluates"
named_theorems array_simps "how arrays written by copies read back"

subsection \<open>Machine integers\<close>

type_synonym byte = "8 word"
type_synonym u16 = "16 word"
type_synonym u32 = "32 word"
type_synonym u64 = "64 word"

text \<open>
  Sums and differences that do not leave the range read as the ones on \<open>nat\<close>.
\<close>

lemma unat_u64_add: "unat (x :: u64) + unat y < 2 ^ 64 \<Longrightarrow> unat (x + y) = unat x + unat y"
  by (simp add: unat_word_ariths)

lemma unat_u64_sub: "unat (y :: u64) \<le> unat x \<Longrightarrow> unat (x - y) = unat x - unat y"
  by (simp add: unat_sub word_le_nat_alt)

lemma unat_u64_mod: "unat ((x :: u64) mod y) = unat x mod unat y"
  by (rule unat_mod_distrib)

lemma unat_u64_of_nat: "n < 2 ^ 64 \<Longrightarrow> unat (word_of_nat n :: u64) = n"
  by (simp add: unat_of_nat)

lemma unat_u32_of_u64: "unat (ucast (x :: u64) :: u32) = unat x mod 2 ^ 32"
  by (simp add: unsigned_ucast_eq take_bit_eq_mod)

lemma unat_u64_of_u32: "unat (ucast (x :: u32) :: u64) = unat x"
proof -
  have "unat x < 2 ^ LENGTH(32)" by (rule unsigned_less)
  then show ?thesis by (simp add: unsigned_ucast_eq take_bit_nat_eq_self_iff)
qed

lemma unat_u64_double: "unat (x :: u64) < 2 ^ 63 \<Longrightarrow> unat (push_bit 1 x) = 2 * unat x"
  by (simp add: push_bit_eq_mult unat_word_ariths mult.commute)

text \<open>A \<open>size_t\<close> is 64 bits wide on the platforms the model describes.\<close>

subsection \<open>Faults\<close>

text \<open>
  \<open>Assert_failed\<close> is a failed \<open>assert\<close> of a build without \<open>NDEBUG\<close>; \<open>Aborted\<close> is a call of
  \<open>abort\<close>; \<open>Diverges\<close> is code that never returns, because it waits for a lock nobody gives back
  or calls itself without end; the others are undefined behaviour of C++ (or an exception nobody
  catches), which a running process shows as a crash or as corrupted memory.
\<close>

datatype fault =
    Null_deref
  | Use_after_free
  | Double_free
  | Buffer_overflow
  | Div_by_zero
  | Bad_alloc
  | Iterator_invalidated
  | Uninitialised_read
  | Uncaught_exception
  | Assert_failed
  | Aborted
  | Diverges

type_synonym 'a exec = "fault + 'a"

fun exec_bind :: "'a exec \<Rightarrow> ('a \<Rightarrow> 'b exec) \<Rightarrow> 'b exec" where
  "exec_bind (Inl f) k = Inl f"
| "exec_bind (Inr x) k = k x"

text \<open>\<open>assert(c)\<close>: checked in a debug build, nothing at all in a release build.\<close>

definition cassert :: "bool \<Rightarrow> bool \<Rightarrow> unit exec" where
  "cassert dbg c = (if dbg \<and> \<not> c then Inl Assert_failed else Inr ())"

lemma exec_bind_Inr_iff [exec_simps]:
  "exec_bind m k = Inr y \<longleftrightarrow> (\<exists>x. m = Inr x \<and> k x = Inr y)"
  by (cases m) auto

lemma exec_bind_Inl_iff:
  "exec_bind m k = Inl f \<longleftrightarrow> m = Inl f \<or> (\<exists>x. m = Inr x \<and> k x = Inl f)"
  by (cases m) auto

lemma exec_bind_assoc:
  "exec_bind (exec_bind m k) l = exec_bind m (\<lambda>x. exec_bind (k x) l)"
  by (cases m) auto

lemma exec_bind_Inr_right [simp]: "exec_bind m Inr = m"
  by (cases m) auto

lemma cassert_simps [simp]:
  "cassert False c = Inr ()"
  "cassert dbg True = Inr ()"
  "cassert True False = Inl Assert_failed"
  by (simp_all add: cassert_def)

lemma cassert_Inr_iff [exec_simps]: "cassert dbg c = Inr u \<longleftrightarrow> (dbg \<longrightarrow> c)"
  by (auto simp: cassert_def)

text \<open>A loop over a list whose body may fault and threads a state.\<close>

fun exec_foldl :: "('s \<Rightarrow> 'a \<Rightarrow> 's exec) \<Rightarrow> 's \<Rightarrow> 'a list \<Rightarrow> 's exec" where
  "exec_foldl f s [] = Inr s"
| "exec_foldl f s (x # xs) = exec_bind (f s x) (\<lambda>s'. exec_foldl f s' xs)"

lemma exec_foldl_append:
  "exec_foldl f s (xs @ ys) = exec_bind (exec_foldl f s xs) (\<lambda>s'. exec_foldl f s' ys)"
  by (induction xs arbitrary: s) (auto simp: exec_bind_assoc)

lemma exec_foldl_invariant:
  assumes "exec_foldl f s xs = Inr s'" and "P s"
    and "\<And>s x t. x \<in> set xs \<Longrightarrow> P s \<Longrightarrow> f s x = Inr t \<Longrightarrow> P t"
  shows "P s'"
  using assms
proof (induction xs arbitrary: s)
  case (Cons x xs)
  from Cons.prems(1) obtain t where t: "f s x = Inr t" "exec_foldl f t xs = Inr s'"
    by (auto simp: exec_simps)
  show ?case
    by (rule Cons.IH [OF t(2)]) (use Cons.prems t(1) in auto)
qed simp

lemma exec_foldl_total:
  assumes "P s" and "\<And>s x. x \<in> set xs \<Longrightarrow> P s \<Longrightarrow> \<exists>t. f s x = Inr t \<and> P t"
  shows "\<exists>t. exec_foldl f s xs = Inr t \<and> P t"
  using assms
proof (induction xs arbitrary: s)
  case (Cons x xs)
  obtain t where t: "f s x = Inr t" "P t" using Cons.prems(2) [of x s] Cons.prems(1) by auto
  then show ?case using Cons.IH [OF t(2)] Cons.prems(2) by simp
qed simp

lemma exec_foldl_pure:
  assumes "\<And>s x. x \<in> set xs \<Longrightarrow> f s x = Inr (g s x)"
  shows "exec_foldl f s xs = Inr (foldl g s xs)"
  using assms by (induction xs arbitrary: s) auto

text \<open>A loop that collects one result per element.\<close>

fun exec_map :: "('a \<Rightarrow> 'b exec) \<Rightarrow> 'a list \<Rightarrow> 'b list exec" where
  "exec_map f [] = Inr []"
| "exec_map f (x # xs) = exec_bind (f x) (\<lambda>y. exec_bind (exec_map f xs) (\<lambda>ys. Inr (y # ys)))"

lemma exec_map_pure: "(\<And>x. x \<in> set xs \<Longrightarrow> f x = Inr (g x)) \<Longrightarrow> exec_map f xs = Inr (map g xs)"
  by (induction xs) auto

subsection \<open>Arrays and copies\<close>

text \<open>\<open>list_write xs i ys\<close> is the array \<open>xs\<close> with \<open>ys\<close> stored from index \<open>i\<close> on.\<close>

definition list_write :: "'a list \<Rightarrow> nat \<Rightarrow> 'a list \<Rightarrow> 'a list" where
  "list_write xs i ys = take i xs @ ys @ drop (i + length ys) xs"

lemma length_list_write [simp]:
  "i + length ys \<le> length xs \<Longrightarrow> length (list_write xs i ys) = length xs"
  by (simp add: list_write_def)

lemma nth_list_write [array_simps]:
  assumes "i + length ys \<le> length xs" and "j < length xs"
  shows "list_write xs i ys ! j =
    (if i \<le> j \<and> j < i + length ys then ys ! (j - i) else xs ! j)"
  using assms by (auto simp: list_write_def nth_append min_def)

lemma list_write_Nil [simp]: "i \<le> length xs \<Longrightarrow> list_write xs i [] = xs"
  by (simp add: list_write_def)

lemma list_write_append:
  "length ys + length zs \<le> length xs \<Longrightarrow>
   list_write (list_write xs 0 ys) (length ys) zs = list_write xs 0 (ys @ zs)"
  by (simp add: list_write_def add.commute)

text \<open>
  \<open>memcpy(dst + d, src + s, n)\<close>: the destination array afterwards, or a fault when either
  range leaves its array.
\<close>

definition memcpy :: "'a list \<Rightarrow> nat \<Rightarrow> 'a list \<Rightarrow> nat \<Rightarrow> nat \<Rightarrow> 'a list exec" where
  "memcpy dst d src s n =
     (if d + n \<le> length dst \<and> s + n \<le> length src
      then Inr (list_write dst d (take n (drop s src)))
      else Inl Buffer_overflow)"

lemma memcpy_ok [exec_simps]:
  "d + n \<le> length dst \<Longrightarrow> s + n \<le> length src \<Longrightarrow>
   memcpy dst d src s n = Inr (list_write dst d (take n (drop s src)))"
  by (simp add: memcpy_def)

lemma memcpy_overflow [exec_simps]:
  "length dst < d + n \<or> length src < s + n \<Longrightarrow> memcpy dst d src s n = Inl Buffer_overflow"
  by (auto simp: memcpy_def)


subsection \<open>Association lists\<close>

named_theorems alist_simps "association lists after an update or a deletion"

declare AList.update_conv' [alist_simps] AList.delete_conv' [alist_simps]
  AList.distinct_update [alist_simps] AList.distinct_delete [alist_simps]

lemma set_alist_update [alist_simps]:
  "distinct (map fst al) \<Longrightarrow>
   set (AList.update k v al) = insert (k, v) {e \<in> set al. fst e \<noteq> k}"
  by (induction al) force+

lemma set_alist_delete [alist_simps]: "set (AList.delete k al) = {e \<in> set al. fst e \<noteq> k}"
  by (auto simp: AList.delete_eq)

lemma alist_update_new: "k \<notin> fst ` set al \<Longrightarrow> AList.update k v al = al @ [(k, v)]"
  by (induction al) auto

lemma alist_update_last:
  "k \<notin> fst ` set al \<Longrightarrow> AList.update k v (al @ [(k, w)]) = al @ [(k, v)]"
  by (induction al) auto

lemma alist_delete_last:
  "k \<notin> fst ` set al \<Longrightarrow> AList.delete k (al @ [(k, w)]) = al"
  by (induction al) auto

lemma alist_update_delete_new:
  "k \<notin> fst ` set al \<Longrightarrow> AList.delete k (AList.update k v al) = al"
  by (induction al) auto

lemma map_of_eq_Some_iff_distinct:
  "distinct (map fst al) \<Longrightarrow> map_of al k = Some v \<longleftrightarrow> (k, v) \<in> set al"
  by (rule map_of_eq_Some_iff)

end
