(* ===== verification/Fifo.thy ===== *)
theory Fifo
  imports Prelude
begin

text \<open>
  The contract of a byte queue: what its clients may rely on, stated over an abstract
  content. The reference machine \<open>spec_run\<close> is a plain list; \<open>fifo_run\<close> drives the four
  operations of an implementation. The locale \<open>fifo\<close> holds the laws of the operations and
  proves once that an implementation with these laws behaves like the reference machine.
\<close>

datatype 'x fifo_op = Put "'x list" | Get u64 | Discard u64 | Clear

fun spec_step :: "('x \<Rightarrow> 'a) \<Rightarrow> 'x fifo_op \<Rightarrow> 'a list \<Rightarrow> 'a list \<times> 'a list" where
  "spec_step emb (Put xs) q = ([], q @ map emb xs)"
| "spec_step emb (Get n) q = (take (unat n) q, drop (unat n) q)"
| "spec_step emb (Discard n) q = ([], drop (unat n) q)"
| "spec_step emb Clear q = ([], [])"

fun spec_run :: "('x \<Rightarrow> 'a) \<Rightarrow> 'x fifo_op list \<Rightarrow> 'a list \<Rightarrow> 'a list list \<times> 'a list" where
  "spec_run emb [] q = ([], q)"
| "spec_run emb (x # xs) q =
     (let (out, q') = spec_step emb x q; (outs, q'') = spec_run emb xs q' in (out # outs, q''))"

fun put_total :: "'x fifo_op list \<Rightarrow> nat" where
  "put_total [] = 0"
| "put_total (Put xs # ops) = length xs + put_total ops"
| "put_total (_ # ops) = put_total ops"

fun puts :: "'x fifo_op list \<Rightarrow> 'x list" where
  "puts [] = []"
| "puts (Put xs # ops) = xs @ puts ops"
| "puts (_ # ops) = puts ops"

fun lossless :: "'x fifo_op \<Rightarrow> bool" where
  "lossless (Put xs) = True"
| "lossless (Get n) = True"
| "lossless _ = False"

fun fifo_step :: "('x list \<Rightarrow> 'q \<Rightarrow> 'q exec) \<Rightarrow> (u64 \<Rightarrow> 'q \<Rightarrow> ('a list \<times> 'q) exec) \<Rightarrow>
    (u64 \<Rightarrow> 'q \<Rightarrow> 'q exec) \<Rightarrow> ('q \<Rightarrow> 'q) \<Rightarrow> 'x fifo_op \<Rightarrow> 'q \<Rightarrow> ('a list \<times> 'q) exec" where
  "fifo_step put get discard clear (Put xs) q = exec_bind (put xs q) (\<lambda>q'. Inr ([], q'))"
| "fifo_step put get discard clear (Get n) q = get n q"
| "fifo_step put get discard clear (Discard n) q = exec_bind (discard n q) (\<lambda>q'. Inr ([], q'))"
| "fifo_step put get discard clear Clear q = Inr ([], clear q)"

fun fifo_run :: "('x list \<Rightarrow> 'q \<Rightarrow> 'q exec) \<Rightarrow> (u64 \<Rightarrow> 'q \<Rightarrow> ('a list \<times> 'q) exec) \<Rightarrow>
    (u64 \<Rightarrow> 'q \<Rightarrow> 'q exec) \<Rightarrow> ('q \<Rightarrow> 'q) \<Rightarrow> 'x fifo_op list \<Rightarrow> 'q \<Rightarrow> ('a list list \<times> 'q) exec" where
  "fifo_run put get discard clear [] q = Inr ([], q)"
| "fifo_run put get discard clear (x # xs) q =
     exec_bind (fifo_step put get discard clear x q) (\<lambda>(out, q').
     exec_bind (fifo_run put get discard clear xs q') (\<lambda>(outs, q''). Inr (out # outs, q'')))"

text \<open>On the reference machine nothing is lost or reordered.\<close>

lemma spec_run_conserves:
  "list_all lossless ops \<Longrightarrow> spec_run emb ops q = (outs, q') \<Longrightarrow>
   concat outs @ q' = q @ map emb (puts ops)"
proof (induction ops arbitrary: q outs q')
  case (Cons x ops)
  show ?case
  proof (cases x)
    case (Put xs)
    with Cons show ?thesis by (fastforce split: prod.splits)
  next
    case (Get n)
    with Cons.prems obtain os where
      "outs = take (unat n) q # os" "spec_run emb ops (drop (unat n) q) = (os, q')"
      by (auto split: prod.splits)
    with Get Cons.IH [of "drop (unat n) q" os q'] Cons.prems(1) show ?thesis
      by simp
  qed (use Cons.prems(1) in auto)
qed simp

lemma spec_step_length:
  "spec_step emb x q = (out, q') \<Longrightarrow> length q' \<le> length q + put_total [x]"
  by (cases x) auto

lemma put_total_Cons: "put_total (x # ops) = put_total [x] + put_total ops"
  by (cases x) auto

locale fifo =
  fixes inv :: "'q \<Rightarrow> bool" and content :: "'q \<Rightarrow> 'a list" and emb :: "'x \<Rightarrow> 'a"
    and cap :: nat
    and put :: "'x list \<Rightarrow> 'q \<Rightarrow> 'q exec" and get :: "u64 \<Rightarrow> 'q \<Rightarrow> ('a list \<times> 'q) exec"
    and discard :: "u64 \<Rightarrow> 'q \<Rightarrow> 'q exec" and clear :: "'q \<Rightarrow> 'q"
  assumes put_law: "inv q \<Longrightarrow> length xs + length (content q) < cap \<Longrightarrow>
      \<exists>q'. put xs q = Inr q' \<and> inv q' \<and> content q' = content q @ map emb xs"
    and get_law: "inv q \<Longrightarrow>
      \<exists>q'. get n q = Inr (take (unat n) (content q), q') \<and> inv q' \<and>
           content q' = drop (unat n) (content q)"
    and discard_law: "inv q \<Longrightarrow>
      \<exists>q'. discard n q = Inr q' \<and> inv q' \<and> content q' = drop (unat n) (content q)"
    and clear_law: "inv q \<Longrightarrow> inv (clear q) \<and> content (clear q) = []"
begin

lemma step_refines:
  assumes "inv q" and "put_total [x] + length (content q) < cap"
  shows "\<exists>q'. fifo_step put get discard clear x q = Inr (fst (spec_step emb x (content q)), q') \<and>
    inv q' \<and> content q' = snd (spec_step emb x (content q))"
proof (cases x)
  case (Put xs)
  then show ?thesis using put_law [OF assms(1), of xs] assms(2) by auto
next
  case (Get n)
  then show ?thesis using get_law [OF assms(1), of n] by auto
next
  case (Discard n)
  then show ?thesis using discard_law [OF assms(1), of n] by auto
next
  case Clear
  then show ?thesis using clear_law [OF assms(1)] by simp
qed

lemma run_refines:
  assumes "inv q" and "put_total ops + length (content q) < cap"
    and "spec_run emb ops (content q) = (outs, c')"
  shows "\<exists>q'. fifo_run put get discard clear ops q = Inr (outs, q') \<and> inv q' \<and> content q' = c'"
  using assms
proof (induction ops arbitrary: q outs)
  case (Cons x ops)
  obtain out c1 where s: "spec_step emb x (content q) = (out, c1)" by fastforce
  obtain outs1 where r: "spec_run emb ops c1 = (outs1, c')" "outs = out # outs1"
    using Cons.prems(3) s by (auto split: prod.splits)
  have b: "put_total [x] + put_total ops + length (content q) < cap"
    using Cons.prems(2) put_total_Cons [of x ops] by simp
  obtain q1 where q1: "fifo_step put get discard clear x q = Inr (out, q1)" "inv q1" "content q1 = c1"
    using step_refines [OF Cons.prems(1), of x] s b by fastforce
  have "put_total ops + length (content q1) < cap"
    using b spec_step_length [OF s] q1(3) by simp
  with Cons.IH [OF q1(2)] r(1) q1(3) obtain q2 where
    "fifo_run put get discard clear ops q1 = Inr (outs1, q2)" "inv q2" "content q2 = c'"
    by blast
  with q1(1) r(2) show ?case by simp
qed simp

lemma run_conserves:
  assumes "inv q" and "put_total ops + length (content q) < cap" and "list_all lossless ops"
  obtains outs q' where "fifo_run put get discard clear ops q = Inr (outs, q')" and "inv q'"
    and "concat outs @ content q' = content q @ map emb (puts ops)"
  using run_refines [OF assms(1,2)] spec_run_conserves [OF assms(3), of emb "content q"]
  by (metis surj_pair)

end

end
