(* ===== verification/Circular_Buffer.thy ===== *)
theory Circular_Buffer
  imports Fifo
begin

text \<open>
  \<open>class dynamic_circular_buffer\<close> (\<open>libdaylite/src/dynamic_circular_buffer.hpp\<close> and
  \<open>.cpp\<close>): a ring of bytes that is replaced by a larger array when a write does not fit.
  The record has the four members of the class. Sizes are \<open>size_t\<close>; the argument of
  \<open>resize_backing\<close> is a \<open>uint32_t\<close>, so the new size is cut to 32 bits on the way in. A
  cell of the array is \<open>None\<close> until it has been written, as \<open>new uint8_t[n]\<close> leaves it.
  The argument \<open>dbg\<close> tells a debug build, where \<open>assert\<close> is checked, from a release
  build (\<open>-DNDEBUG\<close>, the default of the top \<open>CMakeLists.txt\<close>).
\<close>

type_synonym cell = "byte option"

record dcb =
  dcb_head :: u64
  virtual_size :: u64
  physical_size :: u64
  backing :: "cell list"

text \<open>\<open>new uint8_t[n]\<close> throws when the array would exceed \<open>PTRDIFF_MAX\<close> bytes.\<close>

definition new_bytes :: "u64 \<Rightarrow> cell list exec" where
  "new_bytes n = (if unat n < 2 ^ 63 then Inr (replicate (unat n) None) else Inl Bad_alloc)"

definition dcb_new :: "u64 \<Rightarrow> dcb exec" where
  "dcb_new initial_capacity =
     exec_bind (new_bytes initial_capacity) (\<lambda>mem. Inr
       \<lparr>dcb_head = 0, virtual_size = 0, physical_size = initial_capacity, backing = mem\<rparr>)"

definition dcb_size :: "dcb \<Rightarrow> u64" where
  "dcb_size b = virtual_size b"

definition dcb_physical_size :: "dcb \<Rightarrow> u64" where
  "dcb_physical_size b = physical_size b"

definition contiguous_read_possible :: "u64 \<Rightarrow> dcb \<Rightarrow> bool" where
  "contiguous_read_possible n b \<longleftrightarrow>
     n \<le> virtual_size b \<and> dcb_head b + n \<le> physical_size b"

text \<open>\<open>data()\<close> is the address \<open>_backing + _head\<close>: the cells from the head to the end.\<close>

definition dcb_data :: "dcb \<Rightarrow> cell list" where
  "dcb_data b = drop (unat (dcb_head b)) (backing b)"

definition can_grow :: "dcb \<Rightarrow> bool" where
  "can_grow b \<longleftrightarrow> physical_size b < 1000000"

text \<open>\<open>(x + y) % n\<close> on \<open>size_t\<close>: a division by zero traps.\<close>

definition mod_size :: "u64 \<Rightarrow> u64 \<Rightarrow> u64 exec" where
  "mod_size x n = (if n = 0 then Inl Div_by_zero else Inr (x mod n))"

definition dcb_count :: "u64 \<Rightarrow> dcb \<Rightarrow> u64" where
  "dcb_count max_count b = (if max_count > virtual_size b then virtual_size b else max_count)"

text \<open>
  \<open>read(data, max_count)\<close>: the number of bytes read, the array at \<open>data\<close> afterwards and
  the buffer afterwards.
\<close>

definition dcb_read :: "bool \<Rightarrow> cell list \<Rightarrow> u64 \<Rightarrow> dcb \<Rightarrow> (u64 \<times> cell list \<times> dcb) exec" where
  "dcb_read dbg dst max_count b =
     (let count = dcb_count max_count b in
      exec_bind
        (if dcb_head b + count \<le> physical_size b
         then memcpy dst 0 (backing b) (unat (dcb_head b)) (unat count)
         else
           let first_chunk_size = physical_size b - dcb_head b;
               second_chunk_size = count - first_chunk_size
           in exec_bind (cassert dbg (first_chunk_size + second_chunk_size = count)) (\<lambda>_.
              exec_bind (memcpy dst 0 (backing b) (unat (dcb_head b)) (unat first_chunk_size)) (\<lambda>dst'.
              memcpy dst' (unat first_chunk_size) (backing b) 0 (unat second_chunk_size))))
        (\<lambda>dst'. exec_bind (mod_size (dcb_head b + count) (physical_size b)) (\<lambda>h.
           Inr (count, dst', b\<lparr>dcb_head := h, virtual_size := virtual_size b - count\<rparr>))))"

definition dcb_discard :: "u64 \<Rightarrow> dcb \<Rightarrow> (u64 \<times> dcb) exec" where
  "dcb_discard max_count b =
     (let count = dcb_count max_count b in
      exec_bind (mod_size (dcb_head b + count) (physical_size b)) (\<lambda>h.
        Inr (count, b\<lparr>dcb_head := h, virtual_size := virtual_size b - count\<rparr>)))"

definition dcb_clear :: "dcb \<Rightarrow> dcb" where
  "dcb_clear b = b\<lparr>dcb_head := 0, virtual_size := 0\<rparr>"

definition resize_backing :: "bool \<Rightarrow> u32 \<Rightarrow> dcb \<Rightarrow> dcb exec" where
  "resize_backing dbg new_size b =
     exec_bind (cassert dbg (can_grow b)) (\<lambda>_.
     exec_bind (new_bytes (ucast new_size)) (\<lambda>new_backing.
     exec_bind (dcb_read dbg new_backing (virtual_size b) b) (\<lambda>(_, new_backing', b').
     Inr (b'\<lparr>dcb_head := 0, physical_size := ucast new_size,
             virtual_size := virtual_size b, backing := new_backing'\<rparr>))))"

text \<open>
  \<open>write(data, count)\<close> in two parts: the copy behind the content (lines 30 to 47 of the
  source), and the growth before it.
\<close>

definition dcb_store :: "bool \<Rightarrow> cell list \<Rightarrow> u64 \<Rightarrow> dcb \<Rightarrow> dcb exec" where
  "dcb_store dbg src cnt b =
     exec_bind (mod_size (dcb_head b + virtual_size b) (physical_size b)) (\<lambda>insertion_point.
     exec_bind
       (if insertion_point + cnt \<le> physical_size b
        then memcpy (backing b) (unat insertion_point) src 0 (unat cnt)
        else
          let first_chunk_size = physical_size b - insertion_point;
              second_chunk_size = cnt - first_chunk_size
          in exec_bind (cassert dbg (first_chunk_size + second_chunk_size = cnt)) (\<lambda>_.
             exec_bind (memcpy (backing b) (unat insertion_point) src 0 (unat first_chunk_size))
             (\<lambda>mem. memcpy mem 0 src (unat first_chunk_size) (unat second_chunk_size))))
       (\<lambda>mem. Inr (b\<lparr>backing := mem, virtual_size := virtual_size b + cnt\<rparr>)))"

definition dcb_write :: "bool \<Rightarrow> byte list \<Rightarrow> dcb \<Rightarrow> dcb exec" where
  "dcb_write dbg bytes b =
     (let count = word_of_nat (length bytes) in
      exec_bind
        (if count + virtual_size b > physical_size b
         then resize_backing dbg (ucast (push_bit 1 (count + virtual_size b))) b
         else Inr b)
        (dcb_store dbg (map Some bytes) count))"

subsection \<open>Rings\<close>

text \<open>
  \<open>ring xs h n\<close> are the \<open>n\<close> cells of the array \<open>xs\<close> from index \<open>h\<close> on, going round at
  the end: the abstract content of a circular buffer.
\<close>

definition ring :: "'a list \<Rightarrow> nat \<Rightarrow> nat \<Rightarrow> 'a list" where
  "ring xs h n = map (\<lambda>i. xs ! ((h + i) mod length xs)) [0..<n]"

lemma length_ring [simp]: "length (ring xs h n) = n"
  by (simp add: ring_def)

lemma ring_0 [simp]: "ring xs h 0 = []"
  by (simp add: ring_def)

lemma ring_cong:
  assumes "length xs = length ys"
    and "\<And>i. i < n \<Longrightarrow> xs ! ((h + i) mod length xs) = ys ! ((h + i) mod length xs)"
  shows "ring xs h n = ring ys h n"
  using assms by (auto simp: ring_def)

lemma ring_contiguous: "h + n \<le> length xs \<Longrightarrow> ring xs h n = take n (drop h xs)"
  by (intro nth_equalityI) (auto simp: ring_def)

lemma ring_add: "ring xs h (a + b) = ring xs h a @ ring xs ((h + a) mod length xs) b"
proof -
  have "ring xs h (a + b) ! i = (ring xs h a @ ring xs ((h + a) mod length xs) b) ! i"
    if "i < a + b" for i
    using that by (auto simp: ring_def nth_append mod_add_left_eq add.assoc)
  then show ?thesis by (intro nth_equalityI) auto
qed

lemma ring_wrapped:
  assumes "h < length xs" and "length xs < h + n" and "n \<le> length xs"
  shows "ring xs h n = drop h xs @ take (n - (length xs - h)) xs"
proof -
  have "ring xs h n = ring xs h ((length xs - h) + (n - (length xs - h)))"
    using assms by simp
  also have "\<dots> = ring xs h (length xs - h) @ ring xs 0 (n - (length xs - h))"
    using assms by (subst ring_add) simp
  finally show ?thesis using assms by (simp add: ring_contiguous)
qed

lemma ring_slots_distinct:
  fixes h i j L :: nat
  assumes eq: "(h + i) mod L = (h + j) mod L" and "i < j" and "j < L"
  shows False
proof -
  have "L dvd (h + j) - (h + i)"
    using eq assms by (subst mod_eq_dvd_iff_nat [symmetric]) auto
  then have "L dvd j - i" by simp
  then show False using assms dvd_imp_le [of L "j - i"] by auto
qed

text \<open>
  Storing \<open>d\<close> behind the content, in one piece or in two, extends the content by \<open>d\<close>.
\<close>

lemma ring_extend:
  assumes len: "length xs' = length xs" and room: "n + length d \<le> length xs"
    and put: "ring xs' ((h + n) mod length xs) (length d) = d"
    and keep: "\<And>k. k < length xs \<Longrightarrow>
      (\<And>j. j < length d \<Longrightarrow> k \<noteq> ((h + n) mod length xs + j) mod length xs) \<Longrightarrow> xs' ! k = xs ! k"
  shows "ring xs' h (n + length d) = ring xs h n @ d"
proof -
  have "ring xs' h n = ring xs h n"
  proof (rule ring_cong)
    fix i assume i: "i < n"
    then have "0 < length xs" using room by linarith
    then show "xs' ! ((h + i) mod length xs') = xs ! ((h + i) mod length xs')"
      unfolding len using i room \<open>0 < length xs\<close>
      by (intro keep)
         (auto simp: mod_add_left_eq add.assoc
           dest: ring_slots_distinct)
  qed (fact len)
  then show ?thesis by (simp add: ring_add put len)
qed

lemma ring_put_contiguous:
  assumes "n + length d \<le> length xs" and "(h + n) mod length xs + length d \<le> length xs"
  shows "ring (list_write xs ((h + n) mod length xs) d) h (n + length d) = ring xs h n @ d"
proof (rule ring_extend)
  let ?p = "(h + n) mod length xs"
  show "ring (list_write xs ?p d) ?p (length d) = d"
    using assms(2) by (simp add: ring_contiguous) (simp add: list_write_def)
  fix k assume k: "k < length xs" and out: "\<And>j. j < length d \<Longrightarrow> k \<noteq> (?p + j) mod length xs"
  have "\<not> (?p \<le> k \<and> k < ?p + length d)"
    using out [of "k - ?p"] k by (auto simp: less_diff_conv2)
  then show "list_write xs ?p d ! k = xs ! k"
    using assms(2) k by (auto simp: array_simps)
qed (use assms in auto)

lemma ring_put_wrapped:
  assumes room: "n + length d \<le> length xs" and "xs \<noteq> []"
    and p: "p = (h + n) mod length xs"
    and wrap: "length xs < p + length d"
  shows "ring (list_write (list_write xs p (take (length xs - p) d)) 0 (drop (length xs - p) d))
           h (n + length d) = ring xs h n @ d"
    (is "ring ?xs' _ _ = _")
proof (rule ring_extend)
  have pl: "p < length xs" using \<open>xs \<noteq> []\<close> p by simp
  show len: "length ?xs' = length xs" using pl wrap room by simp
  have sl: "?xs' ! k = (if k < length d - (length xs - p) then d ! (k + (length xs - p))
      else if p \<le> k then d ! (k - p) else xs ! k)" if "k < length xs" for k
    using that pl wrap room by (auto simp: array_simps add.commute)
  have "ring ?xs' p (length d) = d"
  proof (rule nth_equalityI)
    fix i assume "i < length (ring ?xs' p (length d))"
    then have i: "i < length d" by simp
    have "(p + i) mod length xs = (if p + i < length xs then p + i else p + i - length xs)"
      using i room pl by (auto simp: mod_if)
    then show "ring ?xs' p (length d) ! i = d ! i"
      using i room pl by (auto simp: ring_def len sl simp del: list_write_def)
  qed simp
  then show "ring ?xs' ((h + n) mod length xs) (length d) = d" by (simp add: p)
  fix k assume k: "k < length xs"
    and "\<And>j. j < length d \<Longrightarrow> k \<noteq> ((h + n) mod length xs + j) mod length xs"
  then have out: "\<And>j. j < length d \<Longrightarrow> k \<noteq> (p + j) mod length xs" by (simp add: p)
  have "\<not> p \<le> k"
    using out [of "k - p"] k wrap by (auto simp: less_diff_conv2)
  moreover have "(p + (k + (length xs - p))) mod length xs = k"
    using k pl by simp
  then have "\<not> k < length d - (length xs - p)"
    using out [of "k + (length xs - p)"] by linarith
  ultimately show "?xs' ! k = xs ! k" using k by (simp add: sl)
qed (fact room)


subsection \<open>Invariant and content\<close>

definition dcb_inv :: "dcb \<Rightarrow> bool" where
  "dcb_inv b \<longleftrightarrow> dcb_head b < physical_size b \<and> virtual_size b \<le> physical_size b \<and>
     length (backing b) = unat (physical_size b) \<and> unat (physical_size b) < 2 ^ 63"

definition dcb_content :: "dcb \<Rightarrow> cell list" where
  "dcb_content b = ring (backing b) (unat (dcb_head b)) (unat (virtual_size b))"

lemma dcb_inv_nat:
  assumes "dcb_inv b"
  shows "unat (dcb_head b) < unat (physical_size b)"
    and "unat (virtual_size b) \<le> unat (physical_size b)"
    and "length (backing b) = unat (physical_size b)"
    and "unat (physical_size b) < 2 ^ 63"
    and "physical_size b \<noteq> 0"
  using assms by (auto simp: dcb_inv_def word_less_nat_alt word_le_nat_alt)

lemma dcb_invI:
  "unat (dcb_head b) < unat (physical_size b) \<Longrightarrow>
   unat (virtual_size b) \<le> unat (physical_size b) \<Longrightarrow>
   length (backing b) = unat (physical_size b) \<Longrightarrow>
   unat (physical_size b) < 2 ^ 63 \<Longrightarrow> dcb_inv b"
  by (simp add: dcb_inv_def word_less_nat_alt word_le_nat_alt)

lemma length_dcb_content [simp]: "length (dcb_content b) = unat (virtual_size b)"
  by (simp add: dcb_content_def)

lemma unat_dcb_count: "unat (dcb_count m b) = min (unat m) (unat (virtual_size b))"
  by (auto simp: dcb_count_def word_less_nat_alt)

lemma dcb_new_content:
  assumes "0 < unat n" and "unat n < 2 ^ 63"
  obtains b where "dcb_new n = Inr b" and "dcb_inv b" and "dcb_content b = []"
    and "physical_size b = n"
  using assms
  by (intro that [of "\<lparr>dcb_head = 0, virtual_size = 0, physical_size = n,
        backing = replicate (unat n) None\<rparr>"])
     (auto simp: dcb_new_def new_bytes_def dcb_content_def intro!: dcb_invI)

text \<open>Moving the head by \<open>count\<close> bytes drops them from the content.\<close>

lemma dcb_advance:
  assumes inv: "dcb_inv b" and c: "c = dcb_count m b"
    and b': "b' = b\<lparr>dcb_head := (dcb_head b + c) mod physical_size b,
                    virtual_size := virtual_size b - c\<rparr>"
  shows "dcb_inv b'" and "dcb_content b' = drop (unat m) (dcb_content b)"
proof -
  note n = dcb_inv_nat [OF inv]
  have c_le: "unat c \<le> unat (virtual_size b)" by (simp add: c unat_dcb_count)
  have head: "unat ((dcb_head b + c) mod physical_size b) =
      (unat (dcb_head b) + unat c) mod unat (physical_size b)"
    using n c_le by (simp add: unat_u64_mod unat_u64_add)
  have vs: "unat (virtual_size b - c) = unat (virtual_size b) - unat c"
    using c_le by (rule unat_u64_sub)
  have pos: "0 < unat (physical_size b)" using n(1) by linarith
  show "dcb_inv b'"
    using n(2-4) pos by (intro dcb_invI) (simp_all add: b' head vs)
  have "dcb_content b = ring (backing b) (unat (dcb_head b)) (unat c + (unat (virtual_size b) - unat c))"
    using c_le by (simp add: dcb_content_def)
  also have "\<dots> = ring (backing b) (unat (dcb_head b)) (unat c) @ dcb_content b'"
    by (subst ring_add) (simp add: dcb_content_def b' head vs n(3))
  finally have "dcb_content b' = drop (unat c) (dcb_content b)" by simp
  also have "\<dots> = drop (unat m) (dcb_content b)"
    by (cases "unat m \<le> unat (virtual_size b)") (auto simp: c unat_dcb_count min_def)
  finally show "dcb_content b' = drop (unat m) (dcb_content b)" .
qed

lemma take_dcb_content:
  assumes "dcb_inv b"
  shows "take (unat m) (dcb_content b) = ring (backing b) (unat (dcb_head b)) (unat (dcb_count m b))"
proof -
  have "dcb_content b = ring (backing b) (unat (dcb_head b))
      (unat (dcb_count m b) + (unat (virtual_size b) - unat (dcb_count m b)))"
    by (simp add: dcb_content_def unat_dcb_count)
  then have "take (unat (dcb_count m b)) (dcb_content b) =
      ring (backing b) (unat (dcb_head b)) (unat (dcb_count m b))"
    by (simp add: ring_add)
  then show ?thesis
    by (cases "unat m \<le> unat (virtual_size b)") (auto simp: unat_dcb_count min_def)
qed

lemma memcpy_two_chunks:
  assumes "a + c \<le> length dst" and "s + a \<le> length src" and "c \<le> length src"
  shows "exec_bind (memcpy dst 0 src s a) (\<lambda>dst'. memcpy dst' a src 0 c) =
    Inr (list_write dst 0 (take a (drop s src) @ take c src))"
  using assms list_write_append [of "take a (drop s src)" "take c src" dst]
  by (simp add: exec_simps min_absorb2)

lemma dcb_read_spec:
  assumes inv: "dcb_inv b" and room: "unat (dcb_count m b) \<le> length dst"
  obtains b' where "dcb_read dbg dst m b =
      Inr (dcb_count m b, list_write dst 0 (take (unat m) (dcb_content b)), b')"
    and "dcb_inv b'" and "dcb_content b' = drop (unat m) (dcb_content b)"
    and "physical_size b' = physical_size b"
proof -
  note n = dcb_inv_nat [OF inv]
  define c where "c = dcb_count m b"
  have c_le: "unat c \<le> unat (virtual_size b)" by (simp add: c_def unat_dcb_count)
  have room': "unat c \<le> length dst" using room by (simp add: c_def)
  have sum: "unat (dcb_head b + c) = unat (dcb_head b) + unat c"
    using n c_le by (intro unat_u64_add) simp
  have tk: "take (unat m) (dcb_content b) = ring (backing b) (unat (dcb_head b)) (unat c)"
    unfolding c_def by (rule take_dcb_content [OF inv])
  let ?f = "physical_size b - dcb_head b"
  have f: "unat ?f = unat (physical_size b) - unat (dcb_head b)"
    using n by (intro unat_u64_sub) simp
  have copy: "(if dcb_head b + c \<le> physical_size b
         then memcpy dst 0 (backing b) (unat (dcb_head b)) (unat c)
         else exec_bind (memcpy dst 0 (backing b) (unat (dcb_head b)) (unat ?f)) (\<lambda>dst'.
              memcpy dst' (unat ?f) (backing b) 0 (unat (c - ?f)))) =
       Inr (list_write dst 0 (take (unat m) (dcb_content b)))"
  proof (cases "dcb_head b + c \<le> physical_size b")
    case True
    then show ?thesis
      using n room' by (simp add: word_le_nat_alt sum exec_simps tk ring_contiguous)
  next
    case False
    then have wrap: "unat (physical_size b) < unat (dcb_head b) + unat c"
      by (simp add: word_le_nat_alt sum)
    then have s: "unat (c - ?f) = unat c - (unat (physical_size b) - unat (dcb_head b))"
      using f by (subst unat_u64_sub) auto
    show ?thesis
      using False n room' wrap c_le
      by (simp add: s f memcpy_two_chunks tk ring_wrapped)
  qed
  let ?b' = "b\<lparr>dcb_head := (dcb_head b + c) mod physical_size b,
              virtual_size := virtual_size b - c\<rparr>"
  have "dcb_read dbg dst m b = Inr (c, list_write dst 0 (take (unat m) (dcb_content b)), ?b')"
    using copy n(5)
    by (simp add: dcb_read_def Let_def c_def [symmetric] mod_size_def split: if_splits)
  with dcb_advance [OF inv c_def refl] show thesis
    by (intro that [of ?b']) (auto simp: c_def)
qed

lemma dcb_discard_spec:
  assumes inv: "dcb_inv b"
  obtains b' where "dcb_discard m b = Inr (dcb_count m b, b')"
    and "dcb_inv b'" and "dcb_content b' = drop (unat m) (dcb_content b)"
    and "physical_size b' = physical_size b"
  using dcb_advance [OF inv refl refl, of m] dcb_inv_nat(5) [OF inv]
  by (intro that [of "b\<lparr>dcb_head := (dcb_head b + dcb_count m b) mod physical_size b,
        virtual_size := virtual_size b - dcb_count m b\<rparr>"])
     (auto simp: dcb_discard_def mod_size_def Let_def)

lemma dcb_clear_spec: "dcb_inv b \<Longrightarrow> dcb_inv (dcb_clear b) \<and> dcb_content (dcb_clear b) = []"
  using dcb_inv_nat [of b] by (auto simp: dcb_clear_def dcb_content_def intro!: dcb_invI)


subsection \<open>Writing\<close>

text \<open>
  When a write succeeds: the data fits behind the content, or the doubled size survives
  the cut to 32 bits (and, in a debug build, the buffer has not yet passed its limit).
\<close>

definition dcb_fits :: "bool \<Rightarrow> nat \<Rightarrow> dcb \<Rightarrow> bool" where
  "dcb_fits dbg n b \<longleftrightarrow>
     n + unat (virtual_size b) \<le> unat (physical_size b) \<or>
     (n + unat (virtual_size b) < 2 ^ 31 \<and> (dbg \<longrightarrow> can_grow b))"

lemma resize_backing_spec:
  assumes inv: "dcb_inv b" and grow: "dbg \<longrightarrow> can_grow b"
    and room: "unat (virtual_size b) \<le> unat n" and pos: "0 < unat n"
  obtains b' where "resize_backing dbg n b = Inr b'" and "dcb_inv b'"
    and "dcb_content b' = dcb_content b" and "unat (physical_size b') = unat n"
    and "virtual_size b' = virtual_size b"
proof -
  have bound: "unat n < 2 ^ 32" using unsigned_less [of n, where 'a = nat] by simp
  let ?vs = "virtual_size b" and ?mem = "replicate (unat n) (None :: cell)"
  obtain b1 where r: "dcb_read dbg ?mem ?vs b =
      Inr (dcb_count ?vs b, list_write ?mem 0 (dcb_content b), b1)"
    using dcb_read_spec [OF inv, of ?vs ?mem dbg] room by (auto simp: unat_dcb_count)
  let ?b' = "b1\<lparr>dcb_head := 0, physical_size := ucast n, virtual_size := ?vs,
      backing := list_write ?mem 0 (dcb_content b)\<rparr>"
  have len: "length (list_write ?mem 0 (dcb_content b)) = unat n" using room by simp
  have eq: "resize_backing dbg n b = Inr ?b'"
    using bound grow r by (simp add: resize_backing_def new_bytes_def unat_u64_of_u32 cassert_def)
  have inv': "dcb_inv ?b'"
    using pos bound room len by (intro dcb_invI) (simp_all add: unat_u64_of_u32)
  have "dcb_content ?b' = ring (list_write ?mem 0 (dcb_content b)) 0 (unat ?vs)"
    by (simp add: dcb_content_def)
  also have "\<dots> = dcb_content b"
    using room len by (simp add: ring_contiguous) (simp add: list_write_def)
  finally have "dcb_content ?b' = dcb_content b" .
  with eq inv' show thesis by (intro that [of ?b']) (simp_all add: unat_u64_of_u32)
qed

text \<open>The second half of \<open>write\<close>, where the data fits.\<close>

lemma dcb_store_spec:
  assumes inv: "dcb_inv b" and room: "length bytes + unat (virtual_size b) \<le> unat (physical_size b)"
    and c: "c = word_of_nat (length bytes)" and src: "src = map Some bytes"
  obtains b' where "dcb_store dbg src c b = Inr b'" and "dcb_inv b'"
    and "dcb_content b' = dcb_content b @ src" and "physical_size b' = physical_size b"
proof -
  note n = dcb_inv_nat [OF inv]
  let ?L = "length (backing b)" and ?h = "unat (dcb_head b)" and ?v = "unat (virtual_size b)"
  define p where "p = (dcb_head b + virtual_size b) mod physical_size b"
  have uc: "unat c = length src"
    using n room by (simp add: c src unat_u64_of_nat)
  have up: "unat p = (?h + ?v) mod ?L"
    using n by (simp add: p_def unat_u64_mod unat_u64_add)
  have p_lt: "unat p < ?L" using n by (simp add: up)
  have sum: "unat (p + c) = unat p + unat c"
    using n p_lt uc room src by (intro unat_u64_add) simp
  have f: "unat (physical_size b - p) = ?L - unat p"
    using n p_lt by (subst unat_u64_sub) auto
  define mem where "mem = (if unat p + length src \<le> ?L then list_write (backing b) (unat p) src
      else list_write (list_write (backing b) (unat p) (take (?L - unat p) src)) 0
             (drop (?L - unat p) src))"
  have copy: "(if p + c \<le> physical_size b
      then memcpy (backing b) (unat p) src 0 (unat c)
      else exec_bind (memcpy (backing b) (unat p) src 0 (unat (physical_size b - p)))
             (\<lambda>mem. memcpy mem 0 src (unat (physical_size b - p)) (unat (c - (physical_size b - p))))) =
     Inr mem"
  proof (cases "unat p + length src \<le> ?L")
    case True
    then show ?thesis using n by (simp add: word_le_nat_alt sum uc exec_simps mem_def)
  next
    case False
    have s: "unat (c - (physical_size b - p)) = length src - (?L - unat p)"
      using False f uc by (subst unat_u64_sub) auto
    show ?thesis
      using False n p_lt room src by (simp add: word_le_nat_alt sum uc f s exec_simps mem_def)
  qed
  have len: "length mem = ?L" using n p_lt room src by (auto simp: mem_def)
  have vs: "unat (virtual_size b + c) = ?v + length src"
    using n room uc src by (subst unat_u64_add) auto
  have room': "?v + length src \<le> ?L" using room src n by simp
  have ring: "ring mem ?h (?v + length src) = ring (backing b) ?h ?v @ src"
  proof (cases "unat p + length src \<le> ?L")
    case True
    then show ?thesis
      using ring_put_contiguous [OF room', of ?h] by (simp only: mem_def up if_True)
  next
    case False
    then show ?thesis
      using ring_put_wrapped [OF room' _ up] p_lt by (simp only: mem_def) force
  qed
  have content: "dcb_content (b\<lparr>backing := mem, virtual_size := virtual_size b + c\<rparr>) =
      dcb_content b @ src"
    using ring by (simp add: dcb_content_def vs)
  have inv': "dcb_inv (b\<lparr>backing := mem, virtual_size := virtual_size b + c\<rparr>)"
    using n room len src by (intro dcb_invI) (simp_all add: vs)
  have "dcb_store dbg src c b = Inr (b\<lparr>backing := mem, virtual_size := virtual_size b + c\<rparr>)"
    using copy n(5)
    by (simp add: dcb_store_def Let_def mod_size_def p_def [symmetric] split: if_splits)
  from this inv' content show thesis by (rule that) simp
qed

lemma dcb_write_spec:
  assumes inv: "dcb_inv b" and fits: "dcb_fits dbg (length bytes) b"
  obtains b' where "dcb_write dbg bytes b = Inr b'" and "dcb_inv b'"
    and "dcb_content b' = dcb_content b @ map Some bytes"
    and "length bytes + unat (virtual_size b) \<le> unat (physical_size b) \<Longrightarrow>
         physical_size b' = physical_size b"
proof -
  note n = dcb_inv_nat [OF inv]
  define c :: u64 where "c = word_of_nat (length bytes)"
  have small: "length bytes + unat (virtual_size b) < 2 ^ 63"
    using fits n by (auto simp: dcb_fits_def)
  then have uc: "unat c = length bytes" by (simp add: c_def unat_u64_of_nat)
  have sum: "unat (c + virtual_size b) = length bytes + unat (virtual_size b)"
    using small uc by (subst unat_u64_add) auto
  define m where "m = (if c + virtual_size b > physical_size b
      then resize_backing dbg (ucast (push_bit 1 (c + virtual_size b))) b else Inr b)"
  obtain b1 where b1: "m = Inr b1" "dcb_inv b1" "dcb_content b1 = dcb_content b"
      "virtual_size b1 = virtual_size b"
      "length bytes + unat (virtual_size b) \<le> unat (physical_size b1)"
      "length bytes + unat (virtual_size b) \<le> unat (physical_size b) \<Longrightarrow> b1 = b"
  proof (cases "length bytes + unat (virtual_size b) \<le> unat (physical_size b)")
    case True
    then have "m = Inr b" by (auto simp: m_def word_less_nat_alt sum)
    with True inv show thesis by (intro that) auto
  next
    case False
    with fits have lt: "length bytes + unat (virtual_size b) < 2 ^ 31" "dbg \<longrightarrow> can_grow b"
      by (auto simp: dcb_fits_def)
    define n2 :: u32 where "n2 = ucast (push_bit 1 (c + virtual_size b))"
    have "unat (push_bit 1 (c + virtual_size b)) = 2 * (length bytes + unat (virtual_size b))"
      unfolding sum [symmetric] by (rule unat_u64_double) (use lt sum in simp)
    then have un: "unat n2 = 2 * (length bytes + unat (virtual_size b))"
      unfolding n2_def unat_u32_of_u64 using lt(1) by simp
    have n_room: "unat (virtual_size b) \<le> unat n2" "0 < unat n2"
      unfolding un using False by auto
    obtain b' where "resize_backing dbg n2 b = Inr b'" "dcb_inv b'"
        "dcb_content b' = dcb_content b" "unat (physical_size b') = unat n2"
        "virtual_size b' = virtual_size b"
      using resize_backing_spec [OF inv lt(2) n_room] by metis
    moreover from this False have "m = Inr b'"
      unfolding m_def n2_def [symmetric] by (simp add: word_less_nat_alt sum)
    ultimately show thesis
      using False un by (intro that [of b']) auto
  qed
  obtain b' where "dcb_store dbg (map Some bytes) c b1 = Inr b'" "dcb_inv b'"
      "dcb_content b' = dcb_content b1 @ map Some bytes" "physical_size b' = physical_size b1"
    using dcb_store_spec [OF b1(2) _ c_def refl, of dbg] b1(4,5) by auto
  moreover from this(1) have "dcb_write dbg bytes b = Inr b'"
    using b1(1) unfolding dcb_write_def Let_def c_def [symmetric] m_def by simp
  ultimately show thesis using b1(3,6) by (intro that [of b']) auto
qed


subsection \<open>The buffer as a queue of bytes\<close>

text \<open>
  A client that reads at most \<open>n\<close> bytes hands \<open>read\<close> an array of \<open>n\<close> cells and looks at
  the cells the returned count covers.
\<close>

definition dcb_get :: "bool \<Rightarrow> u64 \<Rightarrow> dcb \<Rightarrow> (cell list \<times> dcb) exec" where
  "dcb_get dbg n b =
     exec_bind (dcb_read dbg (replicate (unat n) None) n b)
       (\<lambda>(c, dst, b'). Inr (take (unat c) dst, b'))"

definition dcb_drop :: "u64 \<Rightarrow> dcb \<Rightarrow> dcb exec" where
  "dcb_drop n b = exec_bind (dcb_discard n b) (\<lambda>(_, b'). Inr b')"

abbreviation dcb_run :: "bool \<Rightarrow> byte fifo_op list \<Rightarrow> dcb \<Rightarrow> (cell list list \<times> dcb) exec" where
  "dcb_run dbg \<equiv> fifo_run (dcb_write dbg) (dcb_get dbg) dcb_drop dcb_clear"

lemma dcb_get_spec:
  assumes "dcb_inv b"
  obtains b' where "dcb_get dbg n b = Inr (take (unat n) (dcb_content b), b')" and "dcb_inv b'"
    and "dcb_content b' = drop (unat n) (dcb_content b)"
proof -
  obtain b' where "dcb_read dbg (replicate (unat n) None) n b =
      Inr (dcb_count n b, list_write (replicate (unat n) None) 0 (take (unat n) (dcb_content b)), b')"
      "dcb_inv b'" "dcb_content b' = drop (unat n) (dcb_content b)"
    using dcb_read_spec [OF assms, of n "replicate (unat n) None" dbg]
    by (auto simp: unat_dcb_count)
  moreover have "take (unat (dcb_count n b))
      (list_write (replicate (unat n) None) 0 (take (unat n) (dcb_content b))) =
      take (unat n) (dcb_content b)"
    by (cases "unat n \<le> unat (virtual_size b)") (simp_all add: list_write_def unat_dcb_count)
  ultimately show thesis by (intro that [of b']) (simp_all add: dcb_get_def)
qed

interpretation dcb_fifo: fifo dcb_inv dcb_content Some "2 ^ 31"
  "dcb_write False" "dcb_get False" dcb_drop dcb_clear
proof unfold_locales
  fix b :: dcb and xs :: "byte list"
  assume "dcb_inv b" and "length xs + length (dcb_content b) < 2 ^ 31"
  then show "\<exists>b'. dcb_write False xs b = Inr b' \<and> dcb_inv b' \<and>
      dcb_content b' = dcb_content b @ map Some xs"
    by (metis dcb_fits_def dcb_write_spec length_dcb_content)
next
  fix b :: dcb and n :: u64
  assume "dcb_inv b"
  then show "\<exists>b'. dcb_get False n b = Inr (take (unat n) (dcb_content b), b') \<and> dcb_inv b' \<and>
      dcb_content b' = drop (unat n) (dcb_content b)"
    by (metis dcb_get_spec)
next
  fix b :: dcb and n :: u64
  assume "dcb_inv b"
  then obtain b' where "dcb_discard n b = Inr (dcb_count n b, b')" "dcb_inv b'"
      "dcb_content b' = drop (unat n) (dcb_content b)"
    by (rule dcb_discard_spec)
  then show "\<exists>b'. dcb_drop n b = Inr b' \<and> dcb_inv b' \<and>
      dcb_content b' = drop (unat n) (dcb_content b)"
    by (simp add: dcb_drop_def)
qed (use dcb_clear_spec in auto)


subsection \<open>Properties\<close>

lemma dcb_store_sizes:
  "dcb_store dbg src c b = Inr b' \<Longrightarrow>
   physical_size b' = physical_size b \<and> virtual_size b' = virtual_size b + c"
  by (auto simp: dcb_store_def exec_simps)

lemma resize_backing_sizes:
  "resize_backing dbg n b = Inr b' \<Longrightarrow>
   physical_size b' = ucast n \<and> virtual_size b' = virtual_size b"
  by (auto simp: resize_backing_def exec_simps)

text \<open>C9: In a release build a buffer made with any capacity behaves like an unbounded queue of
  bytes: whatever sequence of writes, reads, discards and clears a client runs, as long as
  less than 2 GiB are written, every operation succeeds, every read returns exactly the
  oldest unread bytes in the order they were written (never an unwritten cell), and the
  invariant of the ring holds afterwards.\<close>

theorem dcb_refines_queue:
  assumes "0 < unat n" and "unat n < 2 ^ 63" and "put_total ops < 2 ^ 31"
    and "dcb_new n = Inr b"
  shows "\<exists>b'. dcb_run False ops b = Inr (fst (spec_run Some ops []), b') \<and> dcb_inv b' \<and>
    dcb_content b' = snd (spec_run Some ops [])"
proof -
  have b: "dcb_inv b" "dcb_content b = []"
    using dcb_new_content [OF assms(1,2)] assms(4) by auto
  then have "put_total ops + length (dcb_content b) < 2 ^ 31" using assms(3) by simp
  from dcb_fifo.run_refines [OF b(1) this] show ?thesis
    by (simp add: b(2) prod.case_eq_if)
qed

theorem dcb_refines_queue_witness:
  "\<exists>b b'. dcb_new 3 = Inr b \<and>
    dcb_run False [Put [1, 2], Get 1, Put [3, 4], Get 2, Put [5], Discard 1, Get 9] b =
      Inr ([[], [Some 1], [], [Some 2, Some 3], [], [], [Some 5]], b')"
proof -
  let ?ops = "[Put [1, 2], Get 1, Put [3, 4], Get 2, Put [5], Discard 1, Get 9] :: byte fifo_op list"
  obtain b where b: "dcb_new 3 = Inr b" by (simp add: dcb_new_def new_bytes_def)
  show ?thesis using dcb_refines_queue [of 3 ?ops b] b by auto
qed

text \<open>
  The growth limit of \<open>can_grow\<close> is only an assertion: a write stops with a failed
  assertion exactly when it is a debug build, the buffer has already reached 1000000 bytes
  and the data does not fit. In every other case (data below 2 GiB) it succeeds.
\<close>

theorem dcb_write_assertion:
  assumes inv: "dcb_inv b" and small: "length bytes + unat (virtual_size b) < 2 ^ 31"
  shows "(dcb_write dbg bytes b = Inl Assert_failed \<longleftrightarrow>
      dbg \<and> \<not> can_grow b \<and> unat (physical_size b) < length bytes + unat (virtual_size b)) \<and>
    ((\<exists>f. dcb_write dbg bytes b = Inl f) \<longrightarrow> dcb_write dbg bytes b = Inl Assert_failed)"
proof (cases "dcb_fits dbg (length bytes) b")
  case True
  then obtain b' where "dcb_write dbg bytes b = Inr b'"
    using dcb_write_spec [OF inv] by metis
  moreover have "\<not> (dbg \<and> \<not> can_grow b \<and> unat (physical_size b) < length bytes + unat (virtual_size b))"
    using True by (auto simp: dcb_fits_def)
  ultimately show ?thesis by simp
next
  case False
  then have f: "dbg" "\<not> can_grow b" "unat (physical_size b) < length bytes + unat (virtual_size b)"
    using small by (auto simp: dcb_fits_def)
  let ?c = "word_of_nat (length bytes) :: u64"
  have "unat (?c + virtual_size b) = length bytes + unat (virtual_size b)"
    using small by (subst unat_u64_add) (auto simp: unat_u64_of_nat)
  then have "?c + virtual_size b > physical_size b" using f(3) by (simp add: word_less_nat_alt)
  then have "dcb_write dbg bytes b = Inl Assert_failed"
    using f(1,2) by (simp add: dcb_write_def Let_def resize_backing_def)
  with f show ?thesis by simp
qed

theorem dcb_write_assertion_witness:
  "\<exists>b bytes. dcb_new 1000000 = Inr b \<and> length bytes = 1000001 \<and>
    dcb_write True bytes b = Inl Assert_failed"
proof -
  obtain b where b: "dcb_new 1000000 = Inr b" "dcb_inv b" "dcb_content b = []"
      "physical_size b = 1000000"
    using dcb_new_content [of 1000000] by auto
  then have v: "unat (virtual_size b) = 0" by (metis length_dcb_content list.size(3))
  obtain bytes :: "byte list" where len: "length bytes = 1000001"
    using Ex_list_of_length by blast
  have "\<not> can_grow b" "unat (physical_size b) < length bytes + unat (virtual_size b)"
    "length bytes + unat (virtual_size b) < 2 ^ 31"
    unfolding len v can_grow_def b(4) by simp_all
  then have "dcb_write True bytes b = Inl Assert_failed"
    using dcb_write_assertion [OF b(2), of bytes True] by blast
  with b(1) len show ?thesis by blast
qed

text \<open>C33: The new size is handed to \<open>resize_backing\<close> as a 32-bit number: a write that needs to
  grow the buffer to hold 2 GiB or more (and below 4 GiB) never leaves a valid buffer
  behind. It either faults or ends with more bytes in the buffer than the array has cells.\<close>

theorem dcb_write_truncated_size:
  assumes inv: "dcb_inv b"
    and grow: "unat (physical_size b) < length bytes + unat (virtual_size b)"
    and big: "2 ^ 31 \<le> length bytes + unat (virtual_size b)"
      "length bytes + unat (virtual_size b) < 2 ^ 32"
  shows "\<not> (\<exists>b'. dcb_write dbg bytes b = Inr b' \<and> unat (virtual_size b') \<le> unat (physical_size b'))"
proof
  assume "\<exists>b'. dcb_write dbg bytes b = Inr b' \<and> unat (virtual_size b') \<le> unat (physical_size b')"
  then obtain b' where ret: "dcb_write dbg bytes b = Inr b'"
    and le: "unat (virtual_size b') \<le> unat (physical_size b')" by blast
  define N where "N = length bytes + unat (virtual_size b)"
  define c :: u64 where "c = word_of_nat (length bytes)"
  have uc: "unat c = length bytes" using big by (simp add: c_def unat_u64_of_nat)
  have sum: "unat (c + virtual_size b) = N" "unat (virtual_size b + c) = N"
    using big uc by (subst unat_u64_add; simp add: N_def)+
  define n2 :: u32 where "n2 = ucast (push_bit 1 (c + virtual_size b))"
  have "unat (push_bit 1 (c + virtual_size b)) = 2 * N"
    unfolding sum(1) [symmetric] by (rule unat_u64_double) (use big sum N_def in simp)
  then have un: "unat n2 = 2 * N - 2 ^ 32"
    unfolding n2_def unat_u32_of_u64 using big by (simp add: mod_if N_def)
  have "c + virtual_size b > physical_size b"
    using grow sum by (simp add: word_less_nat_alt N_def)
  then obtain b1 where "resize_backing dbg n2 b = Inr b1" "dcb_store dbg (map Some bytes) c b1 = Inr b'"
    using ret unfolding dcb_write_def Let_def c_def [symmetric] n2_def [symmetric]
    by (auto simp: exec_simps)
  then have "physical_size b' = ucast n2" "virtual_size b' = virtual_size b + c"
    using resize_backing_sizes dcb_store_sizes by metis+
  then have "unat (physical_size b') = 2 * N - 2 ^ 32" "unat (virtual_size b') = N"
    using un sum by (simp_all add: unat_u64_of_u32)
  with big le show False by (simp add: N_def)
qed

theorem dcb_write_truncated_size_witness:
  "\<exists>b bytes. dcb_new 0xFFFF = Inr b \<and> length bytes = 2 ^ 31 \<and>
    \<not> (\<exists>b'. dcb_write False bytes b = Inr b' \<and> unat (virtual_size b') \<le> unat (physical_size b'))"
proof -
  obtain b where b: "dcb_new 0xFFFF = Inr b" "dcb_inv b" "dcb_content b = []"
      "physical_size b = 0xFFFF"
    using dcb_new_content [of "0xFFFF"] by auto
  then have v: "unat (virtual_size b) = 0" by (metis length_dcb_content list.size(3))
  obtain bytes :: "byte list" where len: "length bytes = 2 ^ 31"
    using Ex_list_of_length by blast
  have "\<not> (\<exists>b'. dcb_write False bytes b = Inr b' \<and> unat (virtual_size b') \<le> unat (physical_size b'))"
    using b v len by (intro dcb_write_truncated_size) auto
  with b(1) len show ?thesis by blast
qed

end
