(* ===== verification/Results.thy ===== *)
theory Results
  imports Prelude
begin

text \<open>
  \<open>result<T>\<close> and \<open>option<T>\<close> (\<open>include/daylite/result.hpp\<close>, \<open>option.hpp\<close>) and the
  assertions on results (\<open>src/assert.hpp\<close>). A \<open>result\<close> has a flag, a message, a code and raw
  storage \<open>_ret\<close> for the value: \<open>None\<close> where no value has been constructed in it. A
  \<open>void_result\<close> is a \<open>result<bool>\<close>: two booleans, of which \<open>operator bool\<close> reads the flag and
  \<open>unwrap\<close> the value.
\<close>

record 'a result =
  res_success :: bool
  res_message :: string
  res_code :: u32
  res_ret :: "'a option"

type_synonym void_result = "bool result"

subsection \<open>Constructors, copies and conversions\<close>

text \<open>
  The two constructors. Overload resolution takes the first whenever the first argument
  is followed by a message, and the second for a message and a code.
\<close>

definition result_of_value :: "'a \<Rightarrow> string \<Rightarrow> u32 \<Rightarrow> 'a result" where
  "result_of_value v msg c = \<lparr>res_success = True, res_message = msg, res_code = c, res_ret = Some v\<rparr>"

definition result_of_message :: "string \<Rightarrow> u32 \<Rightarrow> 'a result" where
  "result_of_message msg c = \<lparr>res_success = False, res_message = msg, res_code = c, res_ret = None\<rparr>"

text \<open>
  The copy constructors; \<open>f\<close> is the conversion from the value type of the source (the
  identity for the non-template one). The value is copied only when the flag is set.
\<close>

definition result_copy :: "('d \<Rightarrow> 'a) \<Rightarrow> 'd result \<Rightarrow> 'a result" where
  "result_copy f rhs =
     \<lparr>res_success = res_success rhs, res_message = res_message rhs, res_code = res_code rhs,
      res_ret = (if res_success rhs then map_option f (res_ret rhs) else None)\<rparr>"

definition result_assign :: "('d \<Rightarrow> 'a) \<Rightarrow> 'a result \<Rightarrow> 'd result \<Rightarrow> 'a result" where
  "result_assign f this rhs =
     (let r0 = this\<lparr>res_ret := (if res_success this then None else res_ret this)\<rparr>;
          r1 = r0\<lparr>res_success := res_success rhs, res_message := res_message rhs,
                  res_code := res_code rhs\<rparr>
      in if res_success r1 then r1\<lparr>res_ret := map_option f (res_ret rhs)\<rparr> else r1)"

definition result_unwrap :: "'a result \<Rightarrow> 'a exec" where
  "result_unwrap r = (case res_ret r of None \<Rightarrow> Inl Uninitialised_read | Some v \<Rightarrow> Inr v)"

definition result_or_else :: "'a result \<Rightarrow> 'a \<Rightarrow> 'a exec" where
  "result_or_else r t = (if res_success r then result_unwrap r else Inr t)"

definition result_failure :: "'a result \<Rightarrow> bool" where
  "result_failure r \<longleftrightarrow> \<not> res_success r"

text \<open>\<open>operator bool\<close>, which every \<open>if(r)\<close> and every conversion to a \<open>bool\<close> calls.\<close>

definition to_bool :: "'a result \<Rightarrow> bool" where
  "to_bool r = res_success r"

text \<open>
  \<open>result<bool>(_success, _message)\<close>: a flag and a message, so the constructor is the one
  that builds a success around a value.
\<close>

definition to_void_result :: "'a result \<Rightarrow> void_result" where
  "to_void_result r = result_of_value (res_success r) (res_message r) 0"

text \<open>The free functions.\<close>

definition success :: void_result where
  "success = result_of_value True [] 0"

definition success_value :: "'a \<Rightarrow> 'a result" where
  "success_value v = result_of_value v [] 0"

definition failure :: "string \<Rightarrow> u32 \<Rightarrow> 'a result" where
  "failure msg c = result_of_message msg c"

subsection \<open>Assertions on results\<close>

definition assert_result :: "'a result \<Rightarrow> unit exec" where
  "assert_result r = (if to_bool r then Inr () else Inl Aborted)"

definition assert_result_eq :: "bool \<Rightarrow> 'a result \<Rightarrow> 'a \<Rightarrow> unit exec" where
  "assert_result_eq dbg r expected =
     (if \<not> to_bool r then Inl Aborted
      else if dbg
        then exec_bind (result_unwrap r) (\<lambda>v. cassert dbg (v = expected))
        else Inr ())"

subsection \<open>Options\<close>

text \<open>
  \<open>option<T>\<close> is HOL's type: \<open>some(t)\<close> is \<open>Some t\<close>, \<open>none<T>()\<close> is \<open>None\<close>. \<open>unwrap\<close> does not
  look at the flag.
\<close>

definition option_some :: "'a option \<Rightarrow> bool" where
  "option_some o' \<longleftrightarrow> o' \<noteq> None"

definition option_none :: "'a option \<Rightarrow> bool" where
  "option_none o' \<longleftrightarrow> \<not> option_some o'"

definition option_unwrap :: "'a option \<Rightarrow> 'a exec" where
  "option_unwrap o' = (case o' of None \<Rightarrow> Inl Uninitialised_read | Some v \<Rightarrow> Inr v)"

definition option_or_else :: "'a option \<Rightarrow> 'a \<Rightarrow> 'a" where
  "option_or_else o' rhs = (case o' of Some v \<Rightarrow> v | None \<Rightarrow> rhs)"

subsection \<open>Facts\<close>

lemma result_simps [simp]:
  "to_bool (result_of_value v m c)" "res_ret (result_of_value v m c) = Some v"
  "\<not> to_bool (result_of_message m c)" "res_ret (result_of_message m c) = None"
  "res_code (result_of_value v m c) = c" "res_code (result_of_message m c) = c"
  "res_message (result_of_value v m c) = m" "res_message (result_of_message m c) = m"
  "res_success (result_of_value v m c)" "\<not> res_success (result_of_message m c)"
  by (simp_all add: to_bool_def result_of_value_def result_of_message_def)

lemma success_simps [simp]:
  "to_bool success" "to_bool (success_value v)" "\<not> to_bool (failure m c)"
  "res_ret (success_value v) = Some v" "res_code (failure m c) = c"
  "res_code success = 0" "res_code (success_value v) = 0"
  by (simp_all add: success_def success_value_def failure_def)

lemma result_unwrap_simps [simp]:
  "result_unwrap (result_of_value v m c) = Inr v"
  "result_unwrap (success_value v) = Inr v"
  by (simp_all add: result_unwrap_def)

lemma assert_result_iff [exec_simps]: "assert_result r = Inr u \<longleftrightarrow> to_bool r"
  by (simp add: assert_result_def)

lemma assert_result_success [simp]: "assert_result success = Inr ()"
  by (simp add: assert_result_def)

text \<open>The storage holds a value exactly when the flag is set.\<close>

definition result_wf :: "'a result \<Rightarrow> bool" where
  "result_wf r \<longleftrightarrow> (res_success r \<longleftrightarrow> res_ret r \<noteq> None)"

lemma result_wf_simps [simp]: "result_wf (success_value x)" "result_wf (failure m c)"
  by (simp_all add: result_wf_def success_value_def failure_def)



end
