(* ===== verification/Lifetimes.thy ===== *)
theory Lifetimes
  imports Results
begin

text \<open>
  The lifetimes behind \<open>option<T>\<close> (\<open>option.hpp\<close>): a flag and raw storage in which an object of
  type \<open>T\<close> is made by placement new and destroyed by hand. \<open>Results\<close> and the theories above it
  use HOL's options instead; here is what that rests on, and where the code breaks it.

  An object has an identity, which the bytes of the storage name, and a value while it lives.
\<close>

subsection \<open>Storage\<close>

record 'v objects =
  ob_live :: "nat \<Rightarrow> 'v option"
  ob_next :: nat

record opt =
  op_some :: bool
  op_t :: "nat option"

definition place_new :: "'v \<Rightarrow> 'v objects \<Rightarrow> nat \<times> 'v objects" where
  "place_new v h = (ob_next h, h\<lparr>ob_live := (ob_live h)(ob_next h \<mapsto> v), ob_next := Suc (ob_next h)\<rparr>)"

definition destroy_object :: "nat option \<Rightarrow> 'v objects \<Rightarrow> 'v objects exec" where
  "destroy_object t h =
     (case t of
        None \<Rightarrow> Inl Uninitialised_read
      | Some a \<Rightarrow> if ob_live h a = None then Inl Double_free else Inr (h\<lparr>ob_live := (ob_live h)(a := None)\<rparr>))"

subsection \<open>The class\<close>

definition opt_of :: "'v \<Rightarrow> 'v objects \<Rightarrow> opt \<times> 'v objects" where
  "opt_of d h = (case place_new d h of (a, h') \<Rightarrow> (\<lparr>op_some = True, op_t = Some a\<rparr>, h'))"

definition opt_none :: opt where
  "opt_none = \<lparr>op_some = False, op_t = None\<rparr>"

definition opt_unwrap :: "opt \<Rightarrow> 'v objects \<Rightarrow> 'v exec" where
  "opt_unwrap o' h =
     (case op_t o' of
        None \<Rightarrow> Inl Uninitialised_read
      | Some a \<Rightarrow> (case ob_live h a of None \<Rightarrow> Inl Use_after_free | Some v \<Rightarrow> Inr v))"

definition opt_copy :: "opt \<Rightarrow> 'v objects \<Rightarrow> (opt \<times> 'v objects) exec" where
  "opt_copy rhs h =
     (if \<not> op_some rhs then Inr (\<lparr>op_some = False, op_t = None\<rparr>, h)
      else exec_bind (opt_unwrap rhs h) (\<lambda>v. case place_new v h of
        (a, h') \<Rightarrow> Inr (\<lparr>op_some = op_some rhs, op_t = Some a\<rparr>, h')))"

definition opt_destroy :: "opt \<Rightarrow> 'v objects \<Rightarrow> 'v objects exec" where
  "opt_destroy o' h = (if \<not> op_some o' then Inr h else destroy_object (op_t o') h)"

text \<open>The template assignment, which a right side of another type selects.\<close>

definition opt_assign :: "opt \<Rightarrow> opt \<Rightarrow> 'v objects \<Rightarrow> (opt \<times> 'v objects) exec" where
  "opt_assign l rhs h =
     exec_bind (if op_some l then destroy_object (op_t l) h else Inr h) (\<lambda>h1.
       if op_some rhs then exec_bind (opt_unwrap rhs h1) (\<lambda>v. case place_new v h1 of
         (a, h2) \<Rightarrow> Inr (l\<lparr>op_some := op_some rhs, op_t := Some a\<rparr>, h2))
       else Inr (l\<lparr>op_some := op_some rhs\<rparr>, h1))"

text \<open>
  The assignment a right side of the same type selects: a template is no copy assignment, so
  the compiler makes one, which copies the members. \<open>assign_some\<close> is \<open>l = some(v)\<close>, as in
  \<open>tcp_socket::bind\<close> and \<open>tcp_socket::connect\<close>: the temporary dies at the end.
\<close>

definition opt_assign_members :: "opt \<Rightarrow> opt \<Rightarrow> opt" where
  "opt_assign_members l rhs = l\<lparr>op_some := op_some rhs, op_t := op_t rhs\<rparr>"

definition assign_some :: "opt \<Rightarrow> 'v \<Rightarrow> 'v objects \<Rightarrow> (opt \<times> 'v objects) exec" where
  "assign_some l v h =
     (case opt_of v h of
        (tmp, h1) \<Rightarrow> exec_bind (opt_destroy tmp h1) (\<lambda>h2. Inr (opt_assign_members l tmp, h2)))"

subsection \<open>Programs that use options\<close>

text \<open>Variables in scope and the objects; and the same operations on HOL's options.\<close>

datatype 'v opt_op = Make nat 'v | Make_none nat | Copy nat nat | Assign nat nat | Leave_scope nat

type_synonym 'v scope = "(nat \<Rightarrow> opt option) \<times> 'v objects"

fun opt_run :: "'v scope \<Rightarrow> 'v opt_op \<Rightarrow> 'v scope exec" where
  "opt_run (s, h) (Make x v) = (case opt_of v h of (o', h') \<Rightarrow> Inr (s(x \<mapsto> o'), h'))"
| "opt_run (s, h) (Make_none x) = Inr (s(x \<mapsto> opt_none), h)"
| "opt_run (s, h) (Copy x y) = exec_bind (opt_copy (the (s y)) h) (\<lambda>(o', h'). Inr (s(x \<mapsto> o'), h'))"
| "opt_run (s, h) (Assign x y) = exec_bind (opt_assign (the (s x)) (the (s y)) h) (\<lambda>(o', h'). Inr (s(x \<mapsto> o'), h'))"
| "opt_run (s, h) (Leave_scope x) = exec_bind (opt_destroy (the (s x)) h) (\<lambda>h'. Inr (s(x := None), h'))"

fun opt_spec :: "(nat \<Rightarrow> 'v option option) \<Rightarrow> 'v opt_op \<Rightarrow> nat \<Rightarrow> 'v option option" where
  "opt_spec e (Make x v) = e(x \<mapsto> Some v)"
| "opt_spec e (Make_none x) = e(x \<mapsto> None)"
| "opt_spec e (Copy x y) = e(x := e y)"
| "opt_spec e (Assign x y) = e(x := e y)"
| "opt_spec e (Leave_scope x) = e(x := None)"

fun scoped :: "(nat \<Rightarrow> 'v option option) \<Rightarrow> 'v opt_op \<Rightarrow> bool" where
  "scoped e (Make x v) \<longleftrightarrow> e x = None"
| "scoped e (Make_none x) \<longleftrightarrow> e x = None"
| "scoped e (Copy x y) \<longleftrightarrow> e x = None \<and> e y \<noteq> None"
| "scoped e (Assign x y) \<longleftrightarrow> e x \<noteq> None \<and> e y \<noteq> None \<and> x \<noteq> y"
| "scoped e (Leave_scope x) \<longleftrightarrow> e x \<noteq> None"

fun all_scoped :: "(nat \<Rightarrow> 'v option option) \<Rightarrow> 'v opt_op list \<Rightarrow> bool" where
  "all_scoped e [] \<longleftrightarrow> True"
| "all_scoped e (op # ops) \<longleftrightarrow> scoped e op \<and> all_scoped (opt_spec e op) ops"

subsection \<open>Ownership\<close>

definition holds :: "opt \<Rightarrow> nat option" where
  "holds o' = (if op_some o' then op_t o' else None)"

text \<open>
  Every variable holds what its HOL option says, no two hold the same object, and every living
  object is held.
\<close>

definition owned :: "(nat \<Rightarrow> opt option) \<Rightarrow> 'v objects \<Rightarrow> (nat \<Rightarrow> 'v option option) \<Rightarrow> bool" where
  "owned s h e \<longleftrightarrow>
     (\<forall>x. e x = map_option (\<lambda>o'. Option.bind (holds o') (ob_live h)) (s x)) \<and>
     (\<forall>x o'. s x = Some o' \<longrightarrow> op_some o' \<longrightarrow> (\<exists>a v. op_t o' = Some a \<and> ob_live h a = Some v)) \<and>
     (\<forall>x y o1 o2 a. s x = Some o1 \<longrightarrow> s y = Some o2 \<longrightarrow> holds o1 = Some a \<longrightarrow> holds o2 = Some a \<longrightarrow> x = y) \<and>
     (\<forall>a v. ob_live h a = Some v \<longrightarrow> a < ob_next h \<and> (\<exists>x o'. s x = Some o' \<and> holds o' = Some a))"

lemma ownedD:
  assumes "owned s h e"
  shows "e x = map_option (\<lambda>o'. Option.bind (holds o') (ob_live h)) (s x)"
    and "s x = Some o' \<Longrightarrow> op_some o' \<Longrightarrow> \<exists>a v. op_t o' = Some a \<and> ob_live h a = Some v"
    and "s x = Some o1 \<Longrightarrow> s y = Some o2 \<Longrightarrow> holds o1 = Some a \<Longrightarrow> holds o2 = Some a \<Longrightarrow> x = y"
    and "ob_live h a = Some v \<Longrightarrow> a < ob_next h" and "ob_live h a = Some v \<Longrightarrow> \<exists>x o'. s x = Some o' \<and> holds o' = Some a"
  using assms unfolding owned_def by blast+

lemma ownedI:
  assumes "\<And>x. e x = map_option (\<lambda>o'. Option.bind (holds o') (ob_live h)) (s x)"
    and "\<And>x o'. s x = Some o' \<Longrightarrow> op_some o' \<Longrightarrow> \<exists>a v. op_t o' = Some a \<and> ob_live h a = Some v"
    and "\<And>x y o1 o2 a. s x = Some o1 \<Longrightarrow> s y = Some o2 \<Longrightarrow> holds o1 = Some a \<Longrightarrow> holds o2 = Some a \<Longrightarrow> x = y"
    and "\<And>a v. ob_live h a = Some v \<Longrightarrow> a < ob_next h \<and> (\<exists>x o'. s x = Some o' \<and> holds o' = Some a)"
  shows "owned s h e"
  using assms unfolding owned_def by blast

lemma owned_none: "owned s h e \<Longrightarrow> s x = None \<longleftrightarrow> e x = None"
  using ownedD(1) [of s h e x] by simp

lemma owned_fresh: "owned s h e \<Longrightarrow> s y = Some oy \<Longrightarrow> holds oy \<noteq> Some (ob_next h)"
  using ownedD(2) [of s h e y oy] ownedD(4) [of s h e "ob_next h"] by (auto simp: holds_def)

text \<open>A variable that holds nothing gets a new object, or none, or leaves the scope.\<close>

lemma owned_new:
  assumes ow: "owned s h e" and x: "\<forall>o'. s x = Some o' \<longrightarrow> holds o' = None" and o': "op_some o'" "op_t o' = Some (ob_next h)"
  shows "owned (s(x \<mapsto> o')) (snd (place_new v h)) (e(x \<mapsto> Some v))"
proof -
  note d = ownedD [OF ow] and fr = owned_fresh [OF ow]
  show ?thesis
  proof (rule ownedI)
    fix y show "(e(x \<mapsto> Some v)) y = map_option (\<lambda>o'. Option.bind (holds o') (ob_live (snd (place_new v h)))) ((s(x \<mapsto> o')) y)"
    proof (cases "y = x")
      case True
      then show ?thesis using o' by (simp add: place_new_def holds_def)
    next
      case False
      then show ?thesis using d(1) [of y] fr [of y]
        by (cases "s y"; cases "holds (the (s y))") (auto simp: place_new_def)
    qed
    fix oy assume "(s(x \<mapsto> o')) y = Some oy" "op_some oy"
    then show "\<exists>a w. op_t oy = Some a \<and> ob_live (snd (place_new v h)) a = Some w"
      using d(2) [of y oy] o' by (cases "y = x") (auto simp: place_new_def)
  next
    fix y z o1 o2 b assume "(s(x \<mapsto> o')) y = Some o1" "(s(x \<mapsto> o')) z = Some o2" "holds o1 = Some b" "holds o2 = Some b"
    then show "y = z" using d(3) [of y o1 z o2 b] fr [of y o1] fr [of z o2] o'
      by (cases "y = x"; cases "z = x") (auto simp: holds_def)
  next
    fix b w assume b: "ob_live (snd (place_new v h)) b = Some w"
    show "b < ob_next (snd (place_new v h)) \<and> (\<exists>y oy. (s(x \<mapsto> o')) y = Some oy \<and> holds oy = Some b)"
    proof (cases "b = ob_next h")
      case True
      then show ?thesis using o' by (intro conjI exI [of _ x] exI [of _ o']) (auto simp: holds_def place_new_def)
    next
      case False
      then have w: "ob_live h b = Some w" using b by (simp add: place_new_def)
      obtain y oy where y: "s y = Some oy" "holds oy = Some b" using d(5) [OF w] by blast
      then have "y \<noteq> x" using x by auto
      then show ?thesis using y d(4) [OF w] by (intro conjI exI [of _ y] exI [of _ oy]) (auto simp: place_new_def)
    qed
  qed
qed

lemma owned_nothing:
  assumes ow: "owned s h e" and x: "\<forall>o'. s x = Some o' \<longrightarrow> holds o' = None" and z: "\<forall>o'. z = Some o' \<longrightarrow> \<not> op_some o'"
  shows "owned (s(x := z)) h (e(x := map_option (\<lambda>_. None) z))"
proof -
  note d = ownedD [OF ow]
  have n: "holds o' = None" if "z = Some o'" for o' using z that by (simp add: holds_def)
  show ?thesis
  proof (rule ownedI)
    fix y show "(e(x := map_option (\<lambda>_. None) z)) y = map_option (\<lambda>o'. Option.bind (holds o') (ob_live h)) ((s(x := z)) y)"
      using d(1) [of y] n by (cases "y = x"; cases z) auto
    fix oy assume "(s(x := z)) y = Some oy" "op_some oy"
    then show "\<exists>a w. op_t oy = Some a \<and> ob_live h a = Some w" using d(2) [of y oy] z by (cases "y = x") auto
  next
    fix y y' o1 o2 b assume "(s(x := z)) y = Some o1" "(s(x := z)) y' = Some o2" "holds o1 = Some b" "holds o2 = Some b"
    then show "y = y'" using d(3) [of y o1 y' o2 b] n by (cases "y = x"; cases "y' = x") auto
  next
    fix b w assume b: "ob_live h b = Some w"
    obtain y oy where y: "s y = Some oy" "holds oy = Some b" using d(5) [OF b] by blast
    then have "y \<noteq> x" using x by auto
    then show "b < ob_next h \<and> (\<exists>y oy. (s(x := z)) y = Some oy \<and> holds oy = Some b)"
      using y d(4) [OF b] by (intro conjI exI [of _ y] exI [of _ oy]) auto
  qed
qed

text \<open>Destroying what a variable holds; afterwards it holds nothing that lives.\<close>

lemma owned_destroy:
  assumes ow: "owned s h e" and x: "s x = Some o'"
  obtains h' where "opt_destroy o' h = Inr h'" and "owned (s(x := None)) h' (e(x := None))" and "ob_next h' = ob_next h"
    and "\<And>y oy. y \<noteq> x \<Longrightarrow> s y = Some oy \<Longrightarrow> op_some oy \<Longrightarrow> opt_unwrap oy h' = opt_unwrap oy h"
proof (cases "op_some o'")
  case False
  then have "owned (s(x := None)) h (e(x := None))"
    using owned_nothing [OF ow, of x None] x by (simp add: holds_def)
  then show thesis using False by (intro that [of h]) (simp_all add: opt_destroy_def)
next
  case True
  note d = ownedD [OF ow]
  obtain a v where a: "op_t o' = Some a" "ob_live h a = Some v" using d(2) [OF x True] by blast
  let ?h = "h\<lparr>ob_live := (ob_live h)(a := None)\<rparr>"
  have ha: "holds o' = Some a" using True a by (simp add: holds_def)
  have ne: "holds oy \<noteq> Some a" if "y \<noteq> x" "s y = Some oy" for y oy using d(3) [OF that(2) x] ha that(1) by blast
  show thesis
  proof (rule that)
    show "opt_destroy o' h = Inr ?h" using True a by (simp add: opt_destroy_def destroy_object_def)
    show "owned (s(x := None)) ?h (e(x := None))"
    proof (rule ownedI)
      fix y show "(e(x := None)) y = map_option (\<lambda>o'. Option.bind (holds o') (ob_live ?h)) ((s(x := None)) y)"
        using d(1) [of y] ne [of y] by (cases "y = x"; cases "s y"; cases "holds (the (s y))") auto
      fix oy assume "(s(x := None)) y = Some oy" "op_some oy"
      then show "\<exists>a w. op_t oy = Some a \<and> ob_live ?h a = Some w"
        using d(2) [of y oy] ne [of y oy] by (cases "y = x") (auto simp: holds_def)
    next
      fix y y' o1 o2 b assume "(s(x := None)) y = Some o1" "(s(x := None)) y' = Some o2" "holds o1 = Some b" "holds o2 = Some b"
      then show "y = y'" using d(3) [of y o1 y' o2 b] by (cases "y = x"; cases "y' = x") auto
    next
      fix b w assume b: "ob_live ?h b = Some w"
      then have w: "ob_live h b = Some w" "b \<noteq> a" by (auto split: if_splits)
      obtain y oy where y: "s y = Some oy" "holds oy = Some b" using d(5) [OF w(1)] by blast
      then have "y \<noteq> x" using x ha w(2) by auto
      then show "b < ob_next ?h \<and> (\<exists>y oy. (s(x := None)) y = Some oy \<and> holds oy = Some b)"
        using y d(4) [OF w(1)] by (intro conjI exI [of _ y] exI [of _ oy]) auto
    qed
    show "opt_unwrap oy ?h = opt_unwrap oy h" if "y \<noteq> x" "s y = Some oy" "op_some oy" for y oy
      using ne [OF that(1,2)] that(3) by (cases "op_t oy") (auto simp: opt_unwrap_def holds_def)
  qed simp
qed

lemma owned_unwrap:
  assumes "owned s h e" and "s y = Some oy" and "op_some oy"
  shows "\<exists>v. opt_unwrap oy h = Inr v \<and> e y = Some (Some v)"
  using ownedD(1) [OF assms(1), of y] ownedD(2) [OF assms] assms(2,3) by (auto simp: opt_unwrap_def holds_def)

lemma opt_assign_eq:
  "opt_assign l rhs h = exec_bind (opt_destroy l h) (\<lambda>h1.
     if op_some rhs then exec_bind (opt_unwrap rhs h1) (\<lambda>v.
       Inr (l\<lparr>op_some := True, op_t := Some (ob_next h1)\<rparr>, snd (place_new v h1)))
     else Inr (l\<lparr>op_some := False\<rparr>, h1))"
  by (cases "op_some l") (auto simp: opt_assign_def opt_destroy_def place_new_def intro!: arg_cong2 [where f = exec_bind])

lemma owned_step:
  assumes ow: "owned s h e" and sc: "scoped e op"
  shows "\<exists>s' h'. opt_run (s, h) op = Inr (s', h') \<and> owned s' h' (opt_spec e op)"
proof (cases op)
  case (Make x v)
  have "owned (s(x \<mapsto> \<lparr>op_some = True, op_t = Some (ob_next h)\<rparr>)) (snd (place_new v h)) (e(x \<mapsto> Some v))"
    by (rule owned_new [OF ow]) (use sc owned_none [OF ow, of x] in \<open>simp_all add: Make\<close>)
  then show ?thesis by (simp add: Make opt_of_def place_new_def)
next
  case (Make_none x)
  then show ?thesis
    using owned_nothing [OF ow, of x "Some opt_none"] sc owned_none [OF ow, of x] by (simp add: opt_none_def)
next
  case (Copy x y)
  then have x: "\<forall>o'. s x = Some o' \<longrightarrow> holds o' = None" using sc owned_none [OF ow, of x] by simp
  obtain oy where y: "s y = Some oy" using sc owned_none [OF ow, of y] by (auto simp: Copy)
  show ?thesis
  proof (cases "op_some oy")
    case True
    obtain v where v: "opt_unwrap oy h = Inr v" "e y = Some (Some v)" using owned_unwrap [OF ow y True] by blast
    have "owned (s(x \<mapsto> \<lparr>op_some = True, op_t = Some (ob_next h)\<rparr>)) (snd (place_new v h)) (e(x \<mapsto> Some v))"
      by (rule owned_new [OF ow x]) simp_all
    then show ?thesis using v True by (simp add: Copy y opt_copy_def place_new_def)
  next
    case False
    then have "e y = Some None" using ownedD(1) [OF ow, of y] y by (simp add: holds_def)
    then show ?thesis
      using owned_nothing [OF ow x, of "Some \<lparr>op_some = False, op_t = None\<rparr>"] False by (simp add: Copy y opt_copy_def)
  qed
next
  case (Assign x y)
  obtain ox where x: "s x = Some ox" using sc owned_none [OF ow, of x] by (auto simp: Assign)
  obtain oy where y: "s y = Some oy" "y \<noteq> x" using sc owned_none [OF ow, of y] by (auto simp: Assign)
  obtain h1 where h1: "opt_destroy ox h = Inr h1" "owned (s(x := None)) h1 (e(x := None))"
    "op_some oy \<Longrightarrow> opt_unwrap oy h1 = opt_unwrap oy h"
    by (rule owned_destroy [OF ow x]) (use y in blast)
  have x1: "\<forall>o'. (s(x := None)) x = Some o' \<longrightarrow> holds o' = None" by simp
  show ?thesis
  proof (cases "op_some oy")
    case True
    obtain v where v: "opt_unwrap oy h = Inr v" "e y = Some (Some v)" using owned_unwrap [OF ow y(1) True] by blast
    have "owned ((s(x := None))(x \<mapsto> ox\<lparr>op_some := True, op_t := Some (ob_next h1)\<rparr>)) (snd (place_new v h1)) ((e(x := None))(x \<mapsto> Some v))"
      by (rule owned_new [OF h1(2) x1]) simp_all
    then show ?thesis using h1(1,3) True v by (simp add: Assign x y opt_assign_eq)
  next
    case False
    then have "e y = Some None" using ownedD(1) [OF ow, of y] y by (simp add: holds_def)
    moreover have "owned (s(x \<mapsto> ox\<lparr>op_some := False\<rparr>)) h1 (e(x \<mapsto> None))"
      using owned_nothing [OF h1(2) x1, of "Some (ox\<lparr>op_some := False\<rparr>)"] by (simp only: fun_upd_upd option.map) simp
    ultimately show ?thesis using h1(1) False by (simp add: Assign x y opt_assign_eq)
  qed
next
  case (Leave_scope x)
  obtain ox where x: "s x = Some ox" using sc owned_none [OF ow, of x] by (auto simp: Leave_scope)
  obtain h1 where "opt_destroy ox h = Inr h1" "owned (s(x := None)) h1 (e(x := None))" by (rule owned_destroy [OF ow x])
  then show ?thesis by (simp add: Leave_scope x)
qed

lemma owned_steps:
  assumes "owned s h e" and "all_scoped e ops"
  shows "\<exists>s' h'. exec_foldl opt_run (s, h) ops = Inr (s', h') \<and> owned s' h' (foldl opt_spec e ops)"
  using assms
proof (induction ops arbitrary: s h e)
  case (Cons op ops)
  then obtain s1 h1 where "opt_run (s, h) op = Inr (s1, h1)" "owned s1 h1 (opt_spec e op)" using owned_step [of s h e op] by auto
  with Cons.IH [of s1 h1 "opt_spec e op"] Cons.prems(2) show ?case by simp
qed auto

subsection \<open>Properties\<close>



text \<open>C40: The assignment the compiler makes is not that of an option: after \<open>l = some(v)\<close>, which is
  how \<open>bind\<close> and \<open>connect\<close> set the associated address of a socket, \<open>l\<close> claims to hold a value but
  its bytes name the destroyed temporary: reading it is a use after free, its destructor and any
  later template assignment destroy the object a second time, and what \<open>l\<close> held before is never
  destroyed.\<close>

theorem option_assign_dangles:
  assumes "\<forall>a \<ge> ob_next h. ob_live h a = None"
  shows "\<exists>l' h'. assign_some l v h = Inr (l', h') \<and> op_some l' \<and> opt_unwrap l' h' = Inl Use_after_free \<and>
    opt_destroy l' h' = Inl Double_free \<and> opt_assign l' rhs h' = Inl Double_free \<and>
    (\<forall>a. holds l = Some a \<longrightarrow> a < ob_next h \<longrightarrow> ob_live h' a = ob_live h a)"
  by (simp add: assign_some_def opt_of_def place_new_def opt_destroy_def destroy_object_def opt_assign_members_def
      opt_unwrap_def opt_assign_eq)

theorem option_assign_dangles_witness:
  "\<exists>l' h'. assign_some opt_none ''10.0.0.2'' \<lparr>ob_live = Map.empty, ob_next = 0\<rparr> = Inr (l', h') \<and>
    opt_unwrap l' h' = Inl Use_after_free"
  using option_assign_dangles [of "\<lparr>ob_live = Map.empty, ob_next = 0\<rparr>" opt_none "''10.0.0.2''" opt_none] by auto

end
