(* ===== verification/Crc.thy ===== *)
theory Crc
  imports Prelude
begin

text \<open>
  The CRC-32 routines (\<open>crc.h\<close>, \<open>crc.cpp\<close>): the table-driven update, the reflection, and the
  initial and final values. \<open>crc_bit\<close> is the definition of the code by polynomial division, one
  bit at a time, which the table is an optimisation of.
\<close>

type_synonym crc_t = u32

definition crc_table :: "crc_t list" where
  "crc_table =
    [0x00000000, 0x77073096, 0xee0e612c, 0x990951ba,
     0x076dc419, 0x706af48f, 0xe963a535, 0x9e6495a3,
     0x0edb8832, 0x79dcb8a4, 0xe0d5e91e, 0x97d2d988,
     0x09b64c2b, 0x7eb17cbd, 0xe7b82d07, 0x90bf1d91,
     0x1db71064, 0x6ab020f2, 0xf3b97148, 0x84be41de,
     0x1adad47d, 0x6ddde4eb, 0xf4d4b551, 0x83d385c7,
     0x136c9856, 0x646ba8c0, 0xfd62f97a, 0x8a65c9ec,
     0x14015c4f, 0x63066cd9, 0xfa0f3d63, 0x8d080df5,
     0x3b6e20c8, 0x4c69105e, 0xd56041e4, 0xa2677172,
     0x3c03e4d1, 0x4b04d447, 0xd20d85fd, 0xa50ab56b,
     0x35b5a8fa, 0x42b2986c, 0xdbbbc9d6, 0xacbcf940,
     0x32d86ce3, 0x45df5c75, 0xdcd60dcf, 0xabd13d59,
     0x26d930ac, 0x51de003a, 0xc8d75180, 0xbfd06116,
     0x21b4f4b5, 0x56b3c423, 0xcfba9599, 0xb8bda50f,
     0x2802b89e, 0x5f058808, 0xc60cd9b2, 0xb10be924,
     0x2f6f7c87, 0x58684c11, 0xc1611dab, 0xb6662d3d,
     0x76dc4190, 0x01db7106, 0x98d220bc, 0xefd5102a,
     0x71b18589, 0x06b6b51f, 0x9fbfe4a5, 0xe8b8d433,
     0x7807c9a2, 0x0f00f934, 0x9609a88e, 0xe10e9818,
     0x7f6a0dbb, 0x086d3d2d, 0x91646c97, 0xe6635c01,
     0x6b6b51f4, 0x1c6c6162, 0x856530d8, 0xf262004e,
     0x6c0695ed, 0x1b01a57b, 0x8208f4c1, 0xf50fc457,
     0x65b0d9c6, 0x12b7e950, 0x8bbeb8ea, 0xfcb9887c,
     0x62dd1ddf, 0x15da2d49, 0x8cd37cf3, 0xfbd44c65,
     0x4db26158, 0x3ab551ce, 0xa3bc0074, 0xd4bb30e2,
     0x4adfa541, 0x3dd895d7, 0xa4d1c46d, 0xd3d6f4fb,
     0x4369e96a, 0x346ed9fc, 0xad678846, 0xda60b8d0,
     0x44042d73, 0x33031de5, 0xaa0a4c5f, 0xdd0d7cc9,
     0x5005713c, 0x270241aa, 0xbe0b1010, 0xc90c2086,
     0x5768b525, 0x206f85b3, 0xb966d409, 0xce61e49f,
     0x5edef90e, 0x29d9c998, 0xb0d09822, 0xc7d7a8b4,
     0x59b33d17, 0x2eb40d81, 0xb7bd5c3b, 0xc0ba6cad,
     0xedb88320, 0x9abfb3b6, 0x03b6e20c, 0x74b1d29a,
     0xead54739, 0x9dd277af, 0x04db2615, 0x73dc1683,
     0xe3630b12, 0x94643b84, 0x0d6d6a3e, 0x7a6a5aa8,
     0xe40ecf0b, 0x9309ff9d, 0x0a00ae27, 0x7d079eb1,
     0xf00f9344, 0x8708a3d2, 0x1e01f268, 0x6906c2fe,
     0xf762575d, 0x806567cb, 0x196c3671, 0x6e6b06e7,
     0xfed41b76, 0x89d32be0, 0x10da7a5a, 0x67dd4acc,
     0xf9b9df6f, 0x8ebeeff9, 0x17b7be43, 0x60b08ed5,
     0xd6d6a3e8, 0xa1d1937e, 0x38d8c2c4, 0x4fdff252,
     0xd1bb67f1, 0xa6bc5767, 0x3fb506dd, 0x48b2364b,
     0xd80d2bda, 0xaf0a1b4c, 0x36034af6, 0x41047a60,
     0xdf60efc3, 0xa867df55, 0x316e8eef, 0x4669be79,
     0xcb61b38c, 0xbc66831a, 0x256fd2a0, 0x5268e236,
     0xcc0c7795, 0xbb0b4703, 0x220216b9, 0x5505262f,
     0xc5ba3bbe, 0xb2bd0b28, 0x2bb45a92, 0x5cb36a04,
     0xc2d7ffa7, 0xb5d0cf31, 0x2cd99e8b, 0x5bdeae1d,
     0x9b64c2b0, 0xec63f226, 0x756aa39c, 0x026d930a,
     0x9c0906a9, 0xeb0e363f, 0x72076785, 0x05005713,
     0x95bf4a82, 0xe2b87a14, 0x7bb12bae, 0x0cb61b38,
     0x92d28e9b, 0xe5d5be0d, 0x7cdcefb7, 0x0bdbdf21,
     0x86d3d2d4, 0xf1d4e242, 0x68ddb3f8, 0x1fda836e,
     0x81be16cd, 0xf6b9265b, 0x6fb077e1, 0x18b74777,
     0x88085ae6, 0xff0f6a70, 0x66063bca, 0x11010b5c,
     0x8f659eff, 0xf862ae69, 0x616bffd3, 0x166ccf45,
     0xa00ae278, 0xd70dd2ee, 0x4e048354, 0x3903b3c2,
     0xa7672661, 0xd06016f7, 0x4969474d, 0x3e6e77db,
     0xaed16a4a, 0xd9d65adc, 0x40df0b66, 0x37d83bf0,
     0xa9bcae53, 0xdebb9ec5, 0x47b2cf7f, 0x30b5ffe9,
     0xbdbdf21c, 0xcabac28a, 0x53b39330, 0x24b4a3a6,
     0xbad03605, 0xcdd70693, 0x54de5729, 0x23d967bf,
     0xb3667a2e, 0xc4614ab8, 0x5d681b02, 0x2a6f2b94,
     0xb40bbe37, 0xc30c8ea1, 0x5a05df1b, 0x2d02ef8d]"

definition crc_init :: crc_t where
  "crc_init = 0xffffffff"

definition crc_finalize :: "crc_t \<Rightarrow> crc_t" where
  "crc_finalize crc = crc XOR 0xffffffff"

text \<open>\<open>i\<close> counts the turns that are left; \<open>data_len\<close> of 0 is handled like 1.\<close>

fun reflect_loop :: "nat \<Rightarrow> crc_t \<Rightarrow> crc_t \<Rightarrow> crc_t" where
  "reflect_loop 0 data ret = ret"
| "reflect_loop (Suc i) data ret =
     (let data' = drop_bit 1 data in reflect_loop i data' (push_bit 1 ret OR (data' AND 1)))"

definition crc_reflect :: "crc_t \<Rightarrow> nat \<Rightarrow> crc_t" where
  "crc_reflect data data_len = reflect_loop (data_len - 1) data (data AND 1)"

fun crc_update :: "crc_t \<Rightarrow> byte list \<Rightarrow> crc_t" where
  "crc_update crc [] = crc AND 0xffffffff"
| "crc_update crc (d # data) =
     (let tbl_idx = unat ((crc XOR ucast d) AND 0xff)
      in crc_update ((crc_table ! tbl_idx XOR drop_bit 8 crc) AND 0xffffffff) data)"

subsection \<open>The reference\<close>

definition crc_bit :: "crc_t \<Rightarrow> crc_t" where
  "crc_bit c = (if bit c 0 then drop_bit 1 c XOR 0xedb88320 else drop_bit 1 c)"

definition crc_byte :: "crc_t \<Rightarrow> byte \<Rightarrow> crc_t" where
  "crc_byte c d = (crc_bit ^^ 8) (c XOR ucast d)"

text \<open>
  The reference: the message as a sequence of bits, the lowest of each byte first, each
  added to the register before it is shifted.
\<close>

definition crc_feed :: "crc_t \<Rightarrow> bool \<Rightarrow> crc_t" where
  "crc_feed c b = crc_bit (c XOR of_bool b)"

definition message_bits :: "byte list \<Rightarrow> bool list" where
  "message_bits data = concat (map (\<lambda>d. map (bit d) [0..<8]) data)"

subsection \<open>The table\<close>

lemma crc_bit_xor: "crc_bit (x XOR y) = crc_bit x XOR crc_bit y"
  by (rule bit_word_eqI) (auto simp: crc_bit_def bit_simps)

lemma crc_bits_xor: "(crc_bit ^^ n) (x XOR y) = (crc_bit ^^ n) x XOR (crc_bit ^^ n) y"
  by (induction n) (simp_all add: crc_bit_xor)

lemma crc_bits_shift: "(\<forall>i < n. \<not> bit x i) \<Longrightarrow> (crc_bit ^^ n) x = drop_bit n x"
proof (induction n)
  case (Suc n)
  then have "\<not> bit (drop_bit n x) 0" and n: "(crc_bit ^^ n) x = drop_bit n x" by (auto simp: bit_simps)
  then have "crc_bit (drop_bit n x) = drop_bit 1 (drop_bit n x)" by (simp add: crc_bit_def)
  then show ?case by (simp add: n)
qed simp

text \<open>
  Eight turns for the single bits, from the highest, and the rows of the table as sums of
  the entry of a single bit and the entries before it.
\<close>

lemma table_powers:
  "crc_table ! 128 = crc_bit 1" "crc_table ! 64 = crc_bit (crc_table ! 128)"
  "crc_table ! 32 = crc_bit (crc_table ! 64)" "crc_table ! 16 = crc_bit (crc_table ! 32)"
  "crc_table ! 8 = crc_bit (crc_table ! 16)" "crc_table ! 4 = crc_bit (crc_table ! 8)"
  "crc_table ! 2 = crc_bit (crc_table ! 4)" "crc_table ! 1 = crc_bit (crc_table ! 2)"
  by (simp_all add: crc_table_def crc_bit_def)

lemma crc_bits_1:
  "(crc_bit ^^ 1) 1 = crc_table ! 128" "(crc_bit ^^ 2) 1 = crc_table ! 64"
  "(crc_bit ^^ 3) 1 = crc_table ! 32" "(crc_bit ^^ 4) 1 = crc_table ! 16"
  "(crc_bit ^^ 5) 1 = crc_table ! 8" "(crc_bit ^^ 6) 1 = crc_table ! 4"
  "(crc_bit ^^ 7) 1 = crc_table ! 2" "(crc_bit ^^ 8) 1 = crc_table ! 1"
  unfolding table_powers by (simp_all only: eval_nat_numeral funpow.simps o_apply id_apply BitM.simps One_nat_def)

lemma table_rows:
  "take 1 (drop 1 crc_table) = map (\<lambda>y. crc_table ! 1 XOR y) (take 1 crc_table)"
  "take 2 (drop 2 crc_table) = map (\<lambda>y. crc_table ! 2 XOR y) (take 2 crc_table)"
  "take 4 (drop 4 crc_table) = map (\<lambda>y. crc_table ! 4 XOR y) (take 4 crc_table)"
  "take 8 (drop 8 crc_table) = map (\<lambda>y. crc_table ! 8 XOR y) (take 8 crc_table)"
  "take 16 (drop 16 crc_table) = map (\<lambda>y. crc_table ! 16 XOR y) (take 16 crc_table)"
  "take 32 (drop 32 crc_table) = map (\<lambda>y. crc_table ! 32 XOR y) (take 32 crc_table)"
  "take 64 (drop 64 crc_table) = map (\<lambda>y. crc_table ! 64 XOR y) (take 64 crc_table)"
  "take 128 (drop 128 crc_table) = map (\<lambda>y. crc_table ! 128 XOR y) (take 128 crc_table)"
  by (simp_all add: crc_table_def)

lemma length_crc_table [simp]: "length crc_table = 256"
  by (simp add: crc_table_def)

lemma less_8: "k < 8 \<Longrightarrow> k = 0 \<or> k = 1 \<or> k = 2 \<or> k = 3 \<or> k = 4 \<or> k = 5 \<or> k = 6 \<or> k = (7 :: nat)"
  by arith

lemma table_row:
  assumes "k < 8" and "j < 2 ^ k"
  shows "crc_table ! (2 ^ k + j) = crc_table ! (2 ^ k) XOR crc_table ! j"
proof -
  have "take (2 ^ k) (drop (2 ^ k) crc_table) = map (\<lambda>y. crc_table ! (2 ^ k) XOR y) (take (2 ^ k) crc_table)"
    using less_8 [OF assms(1)] table_rows by auto
  then have "take (2 ^ k) (drop (2 ^ k) crc_table) ! j =
      map (\<lambda>y. crc_table ! (2 ^ k) XOR y) (take (2 ^ k) crc_table) ! j"
    by simp
  moreover have "(2 :: nat) ^ k \<le> 128"
    using power_increasing [of k 7 "2 :: nat"] assms(1) by simp
  ultimately show ?thesis using assms(2) by simp
qed

lemma table_power:
  assumes "k < 8"
  shows "crc_table ! (2 ^ k) = (crc_bit ^^ 8) (2 ^ k)"
proof -
  have "(crc_bit ^^ k) (2 ^ k) = drop_bit k (2 ^ k)"
    by (rule crc_bits_shift) (simp add: bit_simps)
  also have "\<dots> = 1" using assms by (intro bit_word_eqI) (auto simp: bit_simps)
  finally have k: "(crc_bit ^^ k) (2 ^ k) = 1" .
  have "8 - k + k = 8" using assms by simp
  moreover have "(crc_bit ^^ (8 - k + k)) (2 ^ k) = (crc_bit ^^ (8 - k)) ((crc_bit ^^ k) (2 ^ k))"
    by (simp only: funpow_add o_apply)
  ultimately have "(crc_bit ^^ 8) (2 ^ k) = (crc_bit ^^ (8 - k)) 1" by (simp only: k)
  have one: "(crc_bit ^^ Suc 0) 1 = crc_table ! 128"
    using crc_bits_1(1) by (simp only: One_nat_def)
  have "crc_table ! (2 ^ k) = (crc_bit ^^ (8 - k)) 1"
    using less_8 [OF assms] by (elim disjE) (simp_all add: crc_bits_1 one del: funpow.simps)
  with \<open>(crc_bit ^^ 8) (2 ^ k) = (crc_bit ^^ (8 - k)) 1\<close> show ?thesis by simp
qed

lemma crc_table_entry: "i < 256 \<Longrightarrow> crc_table ! i = (crc_bit ^^ 8) (word_of_nat i)"
proof -
  have "k \<le> 8 \<Longrightarrow> i < 2 ^ k \<Longrightarrow> crc_table ! i = (crc_bit ^^ 8) (word_of_nat i)" for k
  proof (induction k arbitrary: i)
    case 0
    then show ?case by (simp add: crc_table_def crc_bits_shift)
  next
    case (Suc k)
    show ?case
    proof (cases "i < 2 ^ k")
      case True then show ?thesis using Suc by simp
    next
      case False
      define j where "j = i - 2 ^ k"
      have j: "i = 2 ^ k + j" "j < 2 ^ k" using False Suc.prems by (simp_all add: j_def)
      have "(2 ^ k + word_of_nat j :: u32) = 2 ^ k XOR word_of_nat j"
      proof (rule disjunctive_add_eq_xor, rule bit_word_eqI)
        fix n
        have "\<not> bit j k" using j(2) by (simp add: bit_iff_odd)
        then show "bit (2 ^ k AND word_of_nat j :: u32) n \<longleftrightarrow> bit (0 :: u32) n"
          by (auto simp: bit_simps)
      qed
      then have "(word_of_nat i :: u32) = 2 ^ k XOR word_of_nat j" by (simp add: j(1))
      then show ?thesis
        using Suc j table_row [of k j] table_power [of k] by (simp add: crc_bits_xor)
    qed
  qed
  from this [of 8] show "i < 256 \<Longrightarrow> ?thesis" by simp
qed

subsection \<open>Facts\<close>

text \<open>One byte of the table-driven update is eight steps of the division.\<close>

lemma crc_step: "crc_table ! unat ((c XOR ucast d) AND 0xff) XOR drop_bit 8 c = crc_byte c d"
  for d :: byte
proof -
  let ?x = "c XOR ucast d :: u32"
  have lt: "unat (?x AND 0xff) < 256"
  proof -
    have "?x AND 0xff = take_bit 8 ?x" by (simp add: take_bit_eq_mask mask_eq_exp_minus_1)
    then show ?thesis by (simp add: unat_mod take_bit_eq_mod)
  qed
  have x: "?x = (?x AND 0xff) XOR push_bit 8 (drop_bit 8 ?x)"
  proof (rule bit_word_eqI)
    fix n assume "n < LENGTH(32)"
    have "bit (0xff :: u32) n \<longleftrightarrow> n < 8"
    proof -
      have "(0xff :: u32) = mask 8" by (simp add: mask_eq_exp_minus_1)
      then show ?thesis by (simp only: bit_mask_iff) auto
    qed
    then show "bit ?x n \<longleftrightarrow> bit ((?x AND 0xff) XOR push_bit 8 (drop_bit 8 ?x)) n"
      using \<open>n < LENGTH(32)\<close> by (auto simp: bit_simps)
  qed
  have d: "drop_bit 8 ?x = drop_bit 8 c"
    by (rule bit_word_eqI) (auto simp: bit_simps dest: bit_imp_le_length)
  have "crc_byte c d = (crc_bit ^^ 8) ((?x AND 0xff) XOR push_bit 8 (drop_bit 8 ?x))"
    using x by (simp add: crc_byte_def)
  also have "\<dots> = (crc_bit ^^ 8) (?x AND 0xff) XOR (crc_bit ^^ 8) (push_bit 8 (drop_bit 8 ?x))"
    by (rule crc_bits_xor)
  also have "(crc_bit ^^ 8) (push_bit 8 (drop_bit 8 ?x)) = drop_bit 8 (push_bit 8 (drop_bit 8 ?x))"
    by (rule crc_bits_shift) (simp add: bit_simps)
  also have "\<dots> = drop_bit 8 c"
    unfolding d by (rule bit_word_eqI) (auto simp: bit_simps dest: bit_imp_le_length)
  also have "(crc_bit ^^ 8) (?x AND 0xff) = crc_table ! unat (?x AND 0xff)"
  proof -
    have "word_of_nat (unat (?x AND 0xff)) = ?x AND 0xff" by simp
    then show ?thesis using crc_table_entry [OF lt] by (simp only:)
  qed
  finally show ?thesis by simp
qed

lemma and_all_ones [simp]: "c AND 0xffffffff = c" for c :: u32
proof -
  have "(0xffffffff :: u32) = mask 32" by (simp add: mask_eq_exp_minus_1)
  then show ?thesis by (intro bit_word_eqI) (simp only: bit_and_iff bit_mask_iff, simp)
qed

lemma crc_update_foldl: "crc_update c data = foldl crc_byte c data"
  by (induction data arbitrary: c) (simp_all add: Let_def crc_step)

lemma xor_right_cancel: "a XOR z = b XOR z \<Longrightarrow> a = b" for a b z :: crc_t
proof -
  assume "a XOR z = b XOR z"
  then have "(a XOR z) XOR z = (b XOR z) XOR z" by simp
  then show "a = b" by (simp add: xor.assoc)
qed

lemma crc_bit_inj: "inj crc_bit"
proof (rule injI)
  fix x y assume eq: "crc_bit x = crc_bit y"
  have top: "bit (crc_bit z) 31 \<longleftrightarrow> bit z 0" for z
  proof -
    have "bit (0xedb88320 :: u32) 31" by simp
    moreover have "\<not> bit (drop_bit 1 z) 31" by (auto simp: bit_simps dest: bit_imp_le_length)
    ultimately show ?thesis by (simp add: crc_bit_def bit_xor_iff)
  qed
  have b0: "bit x 0 = bit y 0" using top [of x] top [of y] eq by simp
  have "drop_bit 1 x = drop_bit 1 y"
    using eq b0 by (cases "bit x 0") (auto simp: crc_bit_def dest: xor_right_cancel)
  then have s: "bit x (Suc n) = bit y (Suc n)" for n
    by (metis bit_drop_bit_eq comp_apply plus_1_eq_Suc)
  show "x = y"
    by (rule bit_word_eqI) (metis b0 s not0_implies_Suc)
qed

lemma crc_byte_inj: "crc_byte c d = crc_byte c' d' \<Longrightarrow> c XOR ucast d = c' XOR ucast d'"
  unfolding crc_byte_def using inj_fn [OF crc_bit_inj] by (meson injD)

lemma feed_bits: "foldl crc_feed c (map (bit d) [0..<n]) = (crc_bit ^^ n) (c XOR take_bit n d)"
  for d :: crc_t
proof (induction n)
  case (Suc n)
  have t: "take_bit (Suc n) d = take_bit n d XOR push_bit n (of_bool (bit d n))"
    by (rule bit_word_eqI) (auto simp: bit_simps less_Suc_eq)
  have p: "(crc_bit ^^ n) (push_bit n (of_bool (bit d n))) = of_bool (bit d n)"
  proof -
    have "(crc_bit ^^ n) (push_bit n (of_bool (bit d n))) = drop_bit n (push_bit n (of_bool (bit d n)))"
      by (rule crc_bits_shift) (simp add: bit_simps)
    also have "\<dots> = of_bool (bit d n)"
      by (rule bit_word_eqI) (auto simp: bit_simps dest: bit_imp_le_length)
    finally show ?thesis .
  qed
  have "foldl crc_feed c (map (bit d) [0..<Suc n]) = crc_bit ((crc_bit ^^ n) (c XOR take_bit n d) XOR of_bool (bit d n))"
    by (simp add: Suc crc_feed_def)
  also have "\<dots> = crc_bit ((crc_bit ^^ n) (c XOR take_bit n d) XOR (crc_bit ^^ n) (push_bit n (of_bool (bit d n))))"
    by (simp only: p)
  also have "\<dots> = (crc_bit ^^ Suc n) (c XOR take_bit (Suc n) d)"
    by (simp add: crc_bits_xor [symmetric] t xor.assoc)
  finally show ?case .
qed simp

lemma crc_byte_bits: "crc_byte c d = foldl crc_feed c (map (bit d) [0..<8])"
proof -
  have "map (bit d) [0..<8] = map (bit (ucast d :: crc_t)) [0..<8]" by (simp add: bit_simps)
  moreover have "take_bit 8 (ucast d :: crc_t) = ucast d"
    by (rule bit_word_eqI) (auto simp: bit_simps dest: bit_imp_le_length)
  ultimately show ?thesis by (simp only: feed_bits crc_byte_def)
qed

text \<open>Up to four bytes as one little-endian word, and their effect on the register.\<close>

fun le_word :: "byte list \<Rightarrow> crc_t" where
  "le_word [] = 0"
| "le_word (d # ds) = ucast d XOR push_bit 8 (le_word ds)"

lemma le_word_bits: "bit (le_word ds) n \<Longrightarrow> n < 8 * length ds"
proof (induction ds arbitrary: n)
  case (Cons d ds)
  then show ?case
    by (cases "n < 8") (auto simp: bit_simps dest: bit_imp_le_length Cons.IH)
qed simp

lemma le_word_shift:
  "length ds \<le> 3 \<Longrightarrow> (crc_bit ^^ 8) (push_bit 8 (le_word ds)) = le_word ds"
proof -
  assume "length ds \<le> 3"
  then have *: "bit (le_word ds) n \<Longrightarrow> n < 24" for n using le_word_bits [of ds n] by simp
  have "(crc_bit ^^ 8) (push_bit 8 (le_word ds)) = drop_bit 8 (push_bit 8 (le_word ds))"
    by (rule crc_bits_shift) (simp add: bit_simps)
  also have "\<dots> = le_word ds"
    by (rule bit_word_eqI) (use * in \<open>auto simp: bit_simps\<close>)
  finally show ?thesis .
qed

lemma crc_bytes_le_word:
  "length ds \<le> 4 \<Longrightarrow> foldl crc_byte c ds = (crc_bit ^^ (8 * length ds)) (c XOR le_word ds)"
proof (induction ds arbitrary: c)
  case (Cons d ds)
  then have "foldl crc_byte c (d # ds) = (crc_bit ^^ (8 * length ds)) (crc_byte c d XOR le_word ds)" by simp
  also have "crc_byte c d XOR le_word ds = (crc_bit ^^ 8) (c XOR le_word (d # ds))"
    using Cons.prems by (simp add: crc_byte_def le_word_shift crc_bits_xor xor.assoc del: funpow.simps)
  also have "(crc_bit ^^ (8 * length ds)) \<dots> = (crc_bit ^^ (8 * length (d # ds))) (c XOR le_word (d # ds))"
  proof -
    have "8 * length (d # ds) = 8 * length ds + 8" by simp
    then show ?thesis by (simp only: funpow_add o_apply)
  qed
  finally show ?case .
qed simp

lemma le_word_inj: "length ds = length es \<Longrightarrow> length ds \<le> 4 \<Longrightarrow> le_word ds = le_word es \<Longrightarrow> ds = es"
proof (induction ds es rule: list_induct2)
  case (Cons d ds e es)
  have b: "bit (ucast d XOR push_bit 8 (le_word ds) :: crc_t) n = bit (ucast e XOR push_bit 8 (le_word es)) n" for n
    using Cons.prems(2) by simp
  have "d = e"
  proof (rule bit_word_eqI)
    fix n assume "n < LENGTH(8)"
    then show "bit d n = bit e n" using b [of n] by (simp add: bit_simps)
  qed
  moreover have "le_word ds = le_word es"
  proof (rule bit_word_eqI)
    fix n assume n: "n < LENGTH(32)"
    show "bit (le_word ds) n = bit (le_word es) n"
    proof (cases "n < 24")
      case True
      then show ?thesis using b [of "n + 8"] by (auto simp: bit_simps dest: bit_imp_le_length)
    next
      case False
      then have "\<not> bit (le_word ds) n" "\<not> bit (le_word es) n"
        using le_word_bits [of ds n] le_word_bits [of es n] Cons by auto
      then show ?thesis by simp
    qed
  qed
  ultimately show ?case using Cons by simp
qed simp

lemma foldl_crc_byte_inj: "foldl crc_byte c ds = foldl crc_byte c' ds \<Longrightarrow> c = c'"
proof (induction ds arbitrary: c c')
  case (Cons d ds)
  then have "crc_byte c d = crc_byte c' d" by auto
  from crc_byte_inj [OF this] show ?case by (rule xor_right_cancel)
qed simp

lemma reflect_loop_bit:
  "bit (reflect_loop i data ret) n \<longleftrightarrow> (if n < i then bit data (i - n) else n < 32 \<and> bit ret (n - i))"
  if "i \<le> 31"
  using that
proof (induction i arbitrary: data ret)
  case 0
  then show ?case by (auto dest: bit_imp_le_length)
next
  case (Suc i)
  let ?d = "drop_bit 1 data"
  let ?r = "push_bit 1 ret OR (?d AND 1)"
  have r: "bit ?r m \<longleftrightarrow> (if m = 0 then bit data 1 else m < 32 \<and> bit ret (m - 1))" for m
    by (simp only: bit_or_iff bit_push_bit_iff bit_and_iff bit_drop_bit_eq bit_1_iff o_apply)
       (auto dest: bit_imp_le_length)
  have "bit (reflect_loop (Suc i) data ret) n \<longleftrightarrow> (if n < i then bit ?d (i - n) else n < 32 \<and> bit ?r (n - i))"
    using Suc by (simp add: Let_def)
  also have "\<dots> \<longleftrightarrow> (if n < Suc i then bit data (Suc i - n) else n < 32 \<and> bit ret (n - Suc i))"
    unfolding r using Suc.prems by (auto simp: bit_simps Suc_diff_le less_Suc_eq)
  finally show ?case .
qed

subsection \<open>Properties\<close>

text \<open>C37: The table-driven update computes the CRC: it is the division of the whole message, one bit
  at a time, lowest bit of each byte first, from any register, so with the initial and the final
  value it is CRC-32 as the header specifies it.\<close>

theorem crc_update_reference:
  "crc_update c data = foldl crc_feed c (message_bits data)"
  unfolding crc_update_foldl message_bits_def
  by (induction data arbitrary: c) (simp_all add: crc_byte_bits)

text \<open>C38: The CRC detects every change that is confined to four neighbouring bytes, wherever it is
  in a message of any length.\<close>

theorem crc_detects_bursts:
  assumes "length new = length old" and "length old \<le> 4" and "new \<noteq> old"
  shows "crc_finalize (crc_update crc_init (pre @ new @ post)) \<noteq> crc_finalize (crc_update crc_init (pre @ old @ post))"
proof
  assume "crc_finalize (crc_update crc_init (pre @ new @ post)) = crc_finalize (crc_update crc_init (pre @ old @ post))"
  then have "foldl crc_byte crc_init (pre @ new @ post) XOR 0xffffffff =
      foldl crc_byte crc_init (pre @ old @ post) XOR 0xffffffff"
    by (simp only: crc_finalize_def crc_update_foldl)
  then have "foldl crc_byte crc_init (pre @ new @ post) = foldl crc_byte crc_init (pre @ old @ post)"
    by (rule xor_right_cancel)
  then have "foldl crc_byte (foldl crc_byte crc_init pre) new = foldl crc_byte (foldl crc_byte crc_init pre) old"
    using foldl_crc_byte_inj by simp
  then have "(crc_bit ^^ (8 * length old)) (foldl crc_byte crc_init pre XOR le_word new) =
      (crc_bit ^^ (8 * length old)) (foldl crc_byte crc_init pre XOR le_word old)"
    using assms by (simp add: crc_bytes_le_word)
  then have "foldl crc_byte crc_init pre XOR le_word new = foldl crc_byte crc_init pre XOR le_word old"
    using inj_fn [OF crc_bit_inj] by (meson injD)
  then have "le_word new XOR foldl crc_byte crc_init pre = le_word old XOR foldl crc_byte crc_init pre"
    by (simp only: xor.commute)
  then have "le_word new = le_word old" by (rule xor_right_cancel)
  then show False using le_word_inj [of new old] assms by simp
qed

theorem crc_detects_bursts_witness:
  "crc_finalize (crc_update crc_init ([1] @ [2, 3] @ [4])) \<noteq> crc_finalize (crc_update crc_init ([1] @ [2, 7] @ [4]))"
  by (rule crc_detects_bursts) simp_all

text \<open>
  \<open>crc_reflect\<close> reverses the order of the low \<open>data_len\<close> bits and drops the others, so
  reflecting twice gives the low bits back.
\<close>

theorem crc_reflect_reverses:
  assumes "1 \<le> len" and "len \<le> 32"
  shows "(\<forall>n. bit (crc_reflect d len) n \<longleftrightarrow> n < len \<and> bit d (len - 1 - n)) \<and>
    crc_reflect (crc_reflect d len) len = take_bit len d"
proof -
  have b: "bit (crc_reflect d len) n \<longleftrightarrow> n < len \<and> bit d (len - 1 - n)" for d n
  proof -
    have low: "bit (d AND 1) m \<longleftrightarrow> m = 0 \<and> bit d 0" for m by (auto simp: bit_simps)
    have le: "len - 1 \<le> 31" using assms by simp
    show ?thesis
      unfolding crc_reflect_def reflect_loop_bit [OF le] low
      using assms by (cases "n = len - 1") auto
  qed
  moreover have "crc_reflect (crc_reflect d len) len = take_bit len d"
    by (rule bit_word_eqI) (use assms in \<open>auto simp: b bit_simps\<close>)
  ultimately show ?thesis by blast
qed

theorem crc_reflect_reverses_witness:
  "crc_reflect (crc_reflect 0x123 8) 8 = take_bit 8 0x123"
  using crc_reflect_reverses [of 8 "0x123"] by simp

end
