(* ===== verification/Packet.thy ===== *)
theory Packet
  imports Results
begin

text \<open>
  Topics (\<open>topic.hpp\<close>, \<open>topic.cpp\<close>), the message schemas (\<open>msgs/*.bsonbind\<close>), the wrapper
  \<open>class bson\<close> (\<open>bson.hpp\<close>, \<open>bson.cpp\<close>) and \<open>class packet\<close> (\<open>packet.hpp\<close>, \<open>packet.cpp\<close>).

  The BSON library and the \<open>bind\<close>/\<open>unbind\<close> functions the build generates from the schemas
  are not part of the repository: they are the fields of the record \<open>bson_lib\<close>, an argument
  of every definition that uses them.
\<close>

subsection \<open>Topics\<close>

type_synonym topic = string

definition topic_any :: topic where
  "topic_any = ''*''"

definition topic_internal :: topic where
  "topic_internal = ''!''"

lemma topic_any_not_internal [simp]: "topic_any \<noteq> topic_internal" "topic_internal \<noteq> topic_any"
  by (simp_all add: topic_any_def topic_internal_def)

subsection \<open>Messages\<close>

record network_time =
  seconds :: u32
  microseconds :: u32

record meta =
  m_topic :: topic
  m_stamp :: network_time
  m_origin_id :: u32
  m_id :: u32
  m_path :: "u32 list"
  m_droppable :: bool

record network_interface =
  if_name :: string
  if_address :: string
  if_netmask :: string
  if_port :: "u16 option"

record splat_info =
  splat_node_id :: u32
  splat_topic :: topic
  splat_size :: u32

record node_info =
  n_name :: string
  n_alive :: bool
  n_id :: u32
  n_hosts :: "network_interface list"
  n_in_topics :: "topic list"
  n_splats :: "splat_info list"
  n_out_topics :: "topic list"

subsection \<open>The BSON library\<close>

text \<open>
  A document is a value of the type \<open>'b\<close>; its elements are keys with values, in order. Of
  the value types the code tells apart a document from everything else.
\<close>

datatype 'b bson_value = Document 'b | Undefined | Other_type nat

text \<open>
  \<open>iter_init\<close> is \<open>bson_iter_init\<close> with the elements the iterator will walk over (\<open>None\<close>
  when it returns false). \<open>bson_build\<close> is \<open>bson_new\<close> followed by one append per element and
  \<open>append_ok\<close> tells that no append failed (a document is limited to 2 GiB). An \<open>unbind\<close> that
  throws \<open>std::invalid_argument\<close> is \<open>None\<close>. \<open>meta_default\<close> and \<open>info_default\<close> are what a
  default-constructed struct holds. \<open>bson_data\<close> is the wire form (\<open>bson_get_data\<close>, of
  length \<open>len\<close>), \<open>reader_ok\<close> tells that \<open>bson_reader_new_from_data\<close> made a reader and
  \<open>bson_read\<close> is \<open>bson_reader_read\<close> on a buffer (\<open>None\<close> for a null pointer).
\<close>

record 'b bson_lib =
  iter_init :: "'b \<Rightarrow> (string \<times> 'b bson_value) list option"
  bson_build :: "(string \<times> 'b bson_value) list \<Rightarrow> 'b"
  append_ok :: "(string \<times> 'b bson_value) list \<Rightarrow> bool"
  meta_bind :: "meta \<Rightarrow> 'b"
  meta_unbind :: "'b \<Rightarrow> meta option"
  meta_default :: meta
  info_bind :: "node_info \<Rightarrow> 'b"
  info_unbind :: "'b \<Rightarrow> node_info option"
  info_default :: node_info
  bson_data :: "'b \<Rightarrow> byte list"
  reader_ok :: "byte list \<Rightarrow> bool"
  bson_read :: "byte list \<Rightarrow> 'b option"

text \<open>
  What the code relies on: a document is read back as it was built, and the generated
  functions are inverse to each other.
\<close>

definition bson_laws :: "'b bson_lib \<Rightarrow> bool" where
  "bson_laws lib \<longleftrightarrow>
     (\<forall>es. append_ok lib es \<longrightarrow> iter_init lib (bson_build lib es) = Some es) \<and>
     (\<forall>m. meta_unbind lib (meta_bind lib m) = Some m) \<and>
     (\<forall>i. info_unbind lib (info_bind lib i) = Some i)"

text \<open>\<open>bson_iter_find\<close> walks forward from where the iterator stands and does not turn back.\<close>

fun iter_find :: "string \<Rightarrow> (string \<times> 'v) list \<Rightarrow> ('v \<times> (string \<times> 'v) list) option" where
  "iter_find key [] = None"
| "iter_find key ((k, v) # es) = (if k = key then Some (v, es) else iter_find key es)"

subsection \<open>The wrapper class\<close>

text \<open>
  \<open>class bson\<close> is a shared pointer to a document that nobody modifies: a document or
  nothing. The constructor from a pointer to a constant document copies the document, and
  \<open>bson_copy\<close> may not be given a null pointer.
\<close>

type_synonym 'b bson = "'b option"

definition bson_null :: "'b bson" where
  "bson_null = None"

definition bson_own :: "'b option \<Rightarrow> bool \<Rightarrow> 'b bson exec" where
  "bson_own raw owns = (if owns then Inr raw else case raw of None \<Rightarrow> Inl Null_deref | Some d \<Rightarrow> Inr (Some d))"

definition bson_of_const :: "'b option \<Rightarrow> 'b bson exec" where
  "bson_of_const raw = (case raw of None \<Rightarrow> Inl Null_deref | Some d \<Rightarrow> Inr (Some d))"

subsection \<open>Packets\<close>

record 'b packet =
  p_null :: bool
  p_meta :: meta
  p_msg :: "'b bson"
  p_packed :: "'b bson"
  p_local_only :: bool

text \<open>
  The default constructor and the one from a packed document do not initialise
  \<open>_local_only\<close>: its value is whatever the memory held, the argument \<open>junk\<close>.
\<close>

definition packet_null :: "'b bson_lib \<Rightarrow> bool \<Rightarrow> 'b packet" where
  "packet_null lib junk =
     \<lparr>p_null = True, p_meta = meta_default lib, p_msg = bson_null, p_packed = bson_null,
      p_local_only = junk\<rparr>"

definition packet_build :: "'b bson_lib \<Rightarrow> 'b packet \<Rightarrow> 'b packet" where
  "packet_build lib p =
     (if p_null p then p
      else p\<lparr>p_packed := Some (bson_build lib
        [(''meta'', Document (meta_bind lib (p_meta p))),
         (''msg'', (case p_msg p of Some d \<Rightarrow> Document d | None \<Rightarrow> Undefined))])\<rparr>)"

definition packet_new :: "'b bson_lib \<Rightarrow> topic \<Rightarrow> network_time \<Rightarrow> 'b bson \<Rightarrow> bool \<Rightarrow> 'b packet" where
  "packet_new lib t stamp raw_msg autobuild =
     (let p = \<lparr>p_null = False,
               p_meta = (meta_default lib)\<lparr>m_topic := t, m_stamp := stamp, m_droppable := False\<rparr>,
               p_msg = raw_msg, p_packed = bson_null, p_local_only = False\<rparr>
      in if autobuild then packet_build lib p else p)"

text \<open>
  The constructor from a packed document. Nothing catches what \<open>meta::unbind\<close> throws.
\<close>

definition packet_of_packed :: "'b bson_lib \<Rightarrow> bool \<Rightarrow> 'b bson \<Rightarrow> 'b packet exec" where
  "packet_of_packed lib junk packed_msg =
     (let p0 = (packet_null lib junk)\<lparr>p_null := False, p_packed := packed_msg\<rparr> in
      case packed_msg of
        None \<Rightarrow> Inl Null_deref
      | Some doc \<Rightarrow>
        (case iter_init lib doc of
           None \<Rightarrow> Inr p0
         | Some es \<Rightarrow>
           (case iter_find ''meta'' es of
              None \<Rightarrow> Inr p0
            | Some (v, es') \<Rightarrow>
              exec_bind
                (case v of
                   Document d \<Rightarrow>
                     (case meta_unbind lib d of
                        None \<Rightarrow> Inl Uncaught_exception
                      | Some m \<Rightarrow> Inr (p0\<lparr>p_meta := m\<rparr>))
                 | _ \<Rightarrow> Inr p0)
                (\<lambda>p. case iter_find ''msg'' es' of
                   None \<Rightarrow> Inr p
                 | Some (v', _) \<Rightarrow>
                   (case v' of
                      Document d \<Rightarrow> Inr (p\<lparr>p_msg := Some d\<rparr>)
                    | _ \<Rightarrow> Inr p)))))"

definition packet_topic :: "'b packet \<Rightarrow> topic" where
  "packet_topic p = m_topic (p_meta p)"

definition packet_stamp :: "'b packet \<Rightarrow> network_time" where
  "packet_stamp p = m_stamp (p_meta p)"

definition set_local_only :: "bool \<Rightarrow> 'b packet \<Rightarrow> 'b packet" where
  "set_local_only l p = p\<lparr>p_local_only := l\<rparr>"

text \<open>
  Copies, and the move constructor (the new packet and what is left of the old one; the
  moved-from metadata is the argument \<open>m0\<close>). Move assignment copies, because \<open>class bson\<close>
  has no move assignment.
\<close>

definition packet_copy :: "'b packet \<Rightarrow> 'b packet" where
  "packet_copy rhs =
     \<lparr>p_null = p_null rhs, p_meta = p_meta rhs, p_msg = p_msg rhs, p_packed = p_packed rhs,
      p_local_only = p_local_only rhs\<rparr>"

definition packet_move :: "meta \<Rightarrow> 'b packet \<Rightarrow> 'b packet \<times> 'b packet" where
  "packet_move m0 rhs =
     (packet_copy rhs, rhs\<lparr>p_meta := m0, p_msg := bson_null, p_packed := bson_null\<rparr>)"

definition packet_move_assign :: "meta \<Rightarrow> 'b packet \<Rightarrow> 'b packet \<times> 'b packet" where
  "packet_move_assign m0 rhs = (packet_copy rhs, rhs\<lparr>p_meta := m0\<rparr>)"

subsection \<open>Facts\<close>

lemma packet_copy_id [simp]: "packet_copy p = p"
  by (simp add: packet_copy_def)

lemma packet_build_simps [simp]:
  "p_null (packet_build lib p) = p_null p" "p_meta (packet_build lib p) = p_meta p"
  "p_msg (packet_build lib p) = p_msg p" "p_local_only (packet_build lib p) = p_local_only p"
  "packet_topic (packet_build lib p) = packet_topic p"
  by (simp_all add: packet_build_def packet_topic_def)

lemma packet_build_idem [simp]: "packet_build lib (packet_build lib p) = packet_build lib p"
  by (simp add: packet_build_def)

lemma packet_new_simps [simp]:
  "\<not> p_null (packet_new lib t s d a)" "p_msg (packet_new lib t s d a) = d"
  "packet_topic (packet_new lib t s d a) = t" "packet_stamp (packet_new lib t s d a) = s"
  "\<not> p_local_only (packet_new lib t s d a)" "\<not> m_droppable (p_meta (packet_new lib t s d a))"
  "m_topic (p_meta (packet_new lib t s d a)) = t" "m_stamp (p_meta (packet_new lib t s d a)) = s"
  by (simp_all add: packet_new_def packet_topic_def packet_stamp_def Let_def)

lemma packet_of_packed_packed:
  "packet_of_packed lib junk b = Inr p \<Longrightarrow> p_packed p = b \<and> \<not> p_null p \<and> p_local_only p = junk"
  unfolding packet_of_packed_def packet_null_def Let_def
  by (simp add: exec_simps split: option.split_asm)
     (auto split: option.split_asm bson_value.split_asm)

lemma packed_read_back:
  assumes "bson_laws lib" and "\<not> p_null p"
    and "append_ok lib [(''meta'', Document (meta_bind lib (p_meta p))),
          (''msg'', (case p_msg p of Some d \<Rightarrow> Document d | None \<Rightarrow> Undefined))]"
  shows "packet_of_packed lib junk (p_packed (packet_build lib p)) =
    Inr ((packet_build lib p)\<lparr>p_local_only := junk\<rparr>)"
  using assms
  by (cases "p_msg p")
     (simp_all add: packet_of_packed_def packet_build_def packet_null_def bson_laws_def Let_def
       bson_null_def)

text \<open>A packet whose packed form is its own, as \<open>build\<close> leaves it.\<close>

definition packet_sendable :: "'b bson_lib \<Rightarrow> 'b packet \<Rightarrow> bool" where
  "packet_sendable lib p \<longleftrightarrow> \<not> p_null p \<and> packet_build lib p = p \<and>
     append_ok lib [(''meta'', Document (meta_bind lib (p_meta p))),
       (''msg'', (case p_msg p of Some d \<Rightarrow> Document d | None \<Rightarrow> Undefined))]"

lemma sendable_packed: "packet_sendable lib p \<Longrightarrow> \<exists>doc. p_packed p = Some doc"
  unfolding packet_sendable_def packet_build_def by (metis (no_types, lifting) packet.select_convs(4) packet.surjective packet.update_convs(4))

lemma sendable_read_back:
  "bson_laws lib \<Longrightarrow> packet_sendable lib p \<Longrightarrow>
   packet_of_packed lib junk (p_packed p) = Inr (p\<lparr>p_local_only := junk\<rparr>)"
  using packed_read_back [of lib p junk] by (simp add: packet_sendable_def)

subsection \<open>A sample library\<close>

text \<open>
  A library with the documented laws, for evaluating the model on concrete packets: its
  documents are the trees themselves.
\<close>

datatype sample_doc =
    Meta_doc meta
  | Info_doc node_info
  | Text_doc string
  | Elements "(string \<times> sample_doc bson_value) list"

definition sample_meta :: meta where
  "sample_meta = \<lparr>m_topic = [], m_stamp = \<lparr>seconds = 0, microseconds = 0\<rparr>, m_origin_id = 0,
     m_id = 0, m_path = [], m_droppable = False\<rparr>"

definition sample_info :: node_info where
  "sample_info = \<lparr>n_name = [], n_alive = False, n_id = 0, n_hosts = [], n_in_topics = [],
     n_splats = [], n_out_topics = []\<rparr>"

definition sample_lib :: "sample_doc bson_lib" where
  "sample_lib =
     \<lparr>iter_init = (\<lambda>d. case d of Elements es \<Rightarrow> Some es | _ \<Rightarrow> None),
      bson_build = Elements, append_ok = (\<lambda>_. True),
      meta_bind = Meta_doc, meta_unbind = (\<lambda>d. case d of Meta_doc m \<Rightarrow> Some m | _ \<Rightarrow> None),
      meta_default = sample_meta,
      info_bind = Info_doc, info_unbind = (\<lambda>d. case d of Info_doc i \<Rightarrow> Some i | _ \<Rightarrow> None),
      info_default = sample_info,
      bson_data = (\<lambda>_. []), reader_ok = (\<lambda>_. True), bson_read = (\<lambda>_. None)\<rparr>"

lemma sample_lib_simps [simp]:
  "iter_init sample_lib (Elements es) = Some es" "bson_build sample_lib es = Elements es"
  "append_ok sample_lib es" "meta_bind sample_lib m = Meta_doc m"
  "meta_unbind sample_lib (Meta_doc m) = Some m" "meta_default sample_lib = sample_meta"
  "info_bind sample_lib i = Info_doc i" "info_unbind sample_lib (Info_doc i) = Some i"
  "info_default sample_lib = sample_info"
  by (simp_all add: sample_lib_def)

lemma sample_lib_laws: "bson_laws sample_lib"
  by (simp add: bson_laws_def)

subsection \<open>Properties\<close>

text \<open>C13: Packing is a round trip: the document \<open>build\<close> makes of a packet (of which no append
  failed) is read back by the receiving constructor as a packet with the same metadata and the
  same message, for packets with and without a message, and \<open>build\<close> changes nothing but the
  packed form.\<close>

theorem packet_roundtrip:
  assumes "bson_laws lib" and "\<not> p_null p"
    and "append_ok lib [(''meta'', Document (meta_bind lib (p_meta p))),
          (''msg'', (case p_msg p of Some d \<Rightarrow> Document d | None \<Rightarrow> Undefined))]"
  shows "packet_of_packed lib junk (p_packed (packet_build lib p)) =
    Inr ((packet_build lib p)\<lparr>p_local_only := junk\<rparr>)"
  using assms by (rule packed_read_back)

theorem packet_roundtrip_witness:
  "\<exists>p. p = packet_new sample_lib ''/test'' \<lparr>seconds = 3, microseconds = 7\<rparr> (Some (Text_doc ''hello'')) True \<and>
    packet_of_packed sample_lib True (p_packed p) = Inr (p\<lparr>p_local_only := True\<rparr>)"
  using packet_roundtrip [OF sample_lib_laws,
      of "packet_new sample_lib ''/test'' \<lparr>seconds = 3, microseconds = 7\<rparr> (Some (Text_doc ''hello'')) False" True]
  by (simp add: packet_new_def Let_def packet_build_def)

end
