(* ===== verification/Post_Office.thy ===== *)
theory Post_Office
  imports Packet
begin

text \<open>
  The contract between a mail router and its clients: which mailboxes are members of a
  topic, and how registering and unregistering change that. A router files a mailbox under
  a key it computes from the mailbox; its laws only hold while the keys of the members are
  distinct.
\<close>

locale post_office =
  fixes inv :: "'m \<Rightarrow> bool" and members :: "'m \<Rightarrow> topic \<Rightarrow> 'a set"
    and topic_of :: "'m \<Rightarrow> 'a \<Rightarrow> topic option" and key :: "'a \<Rightarrow> 'k"
    and register :: "'a \<Rightarrow> 'm \<Rightarrow> 'm exec" and unregister :: "'a \<Rightarrow> 'm \<Rightarrow> 'm exec"
  assumes register_law: "inv m \<Longrightarrow> topic_of m a = Some t \<Longrightarrow>
      \<forall>t'. \<forall>b \<in> members m t'. key b \<noteq> key a \<Longrightarrow>
      \<exists>m'. register a m = Inr m' \<and> inv m' \<and>
           members m' = (members m)(t := insert a (members m t)) \<and> topic_of m' = topic_of m"
    and unregister_law: "inv m \<Longrightarrow> topic_of m a = Some t \<Longrightarrow> a \<in> members m t \<Longrightarrow>
      \<exists>m'. unregister a m = Inr m' \<and> inv m' \<and>
           members m' = (members m)(t := members m t - {a}) \<and> topic_of m' = topic_of m"
begin

lemma register_unregister:
  assumes "inv m" and "topic_of m a = Some t"
    and fresh: "\<forall>t'. \<forall>b \<in> members m t'. key b \<noteq> key a"
  obtains m' where "exec_bind (register a m) (unregister a) = Inr m'" and "inv m'"
    and "members m' = members m"
proof -
  obtain m1 where m1: "register a m = Inr m1" "inv m1"
      "members m1 = (members m)(t := insert a (members m t))" "topic_of m1 = topic_of m"
    using register_law [OF assms(1,2) fresh] by blast
  then have "a \<in> members m1 t" and "topic_of m1 a = Some t" using assms(2) by auto
  then obtain m2 where m2: "unregister a m1 = Inr m2" "inv m2"
      "members m2 = (members m1)(t := members m1 t - {a})"
    using unregister_law [OF m1(2)] by blast
  have "a \<notin> members m t" using fresh by blast
  then have "members m2 = members m" by (auto simp: m2(3) m1(3))
  with m1 m2 show thesis by (intro that [of m2]) auto
qed

text \<open>Registering a series of mailboxes with distinct keys makes each a member of its topic.\<close>

lemma register_series:
  assumes "inv m" and "distinct (map key as)"
    and "\<forall>a \<in> set as. topic_of m a \<noteq> None"
    and "\<forall>a \<in> set as. \<forall>t. \<forall>b \<in> members m t. key b \<noteq> key a"
  obtains m' where "exec_foldl (\<lambda>m a. register a m) m as = Inr m'" and "inv m'"
    and "\<And>t. members m' t = members m t \<union> {a \<in> set as. topic_of m a = Some t}"
    and "topic_of m' = topic_of m"
  using assms
proof (induction as arbitrary: m thesis)
  case Nil
  show ?case by (rule Nil.prems(1) [of m]) (simp_all add: Nil.prems(2))
next
  case (Cons a as)
  obtain t where t: "topic_of m a = Some t" using Cons.prems(4) by auto
  have "\<forall>t'. \<forall>b \<in> members m t'. key b \<noteq> key a" using Cons.prems(5) by auto
  then obtain m1 where m1: "register a m = Inr m1" "inv m1"
      "members m1 = (members m)(t := insert a (members m t))" "topic_of m1 = topic_of m"
    using register_law [OF Cons.prems(2) t] by blast
  have fresh: "\<forall>c \<in> set as. \<forall>t. \<forall>b \<in> members m1 t. key b \<noteq> key c"
    using Cons.prems(3,5) by (auto simp: m1(3) rev_image_eqI split: if_splits)
  obtain m2 where m2: "exec_foldl (\<lambda>m a. register a m) m1 as = Inr m2" "inv m2"
      "\<And>t. members m2 t = members m1 t \<union> {a \<in> set as. topic_of m1 a = Some t}"
      "topic_of m2 = topic_of m1"
    using Cons.IH [OF _ m1(2) _ _ fresh] Cons.prems(3,4) m1(4) by auto
  show ?case
    by (rule Cons.prems(1) [of m2]) (use m1 m2 t in \<open>auto split: if_splits\<close>)
qed

end

end
