(* ===== verification/Mailman.thy ===== *)
theory Mailman
  imports Post_Office
begin

text \<open>
  \<open>class mailbox\<close> (\<open>mailbox.hpp\<close>, \<open>mailbox.cpp\<close>) and \<open>class mailman\<close> (\<open>mailman.hpp\<close>,
  \<open>mailman.cpp\<close>): the local router of a node. A mailbox is an object at an address; its id
  is that address, a 64-bit number, while the mailman files it under a \<open>uint32_t\<close> and takes
  the sender's id as a \<open>uint32_t\<close>: both are cut to 32 bits.

  An incoming-mail callback is a closure: a value of the type \<open>'cb\<close> that the argument
  \<open>run\<close> executes on a packet and on the state \<open>'w\<close> the closures share. The only
  outgoing-mail callback of the code is the one \<open>register_mailbox\<close> installs, so a flag
  tells whether it is there.

  The table is an association list in the order its entries were made. The iteration order
  of \<open>std::unordered_map\<close> is not specified, and no statement depends on it.
\<close>

subsection \<open>Mailboxes\<close>

record 'cb mailbox =
  mb_topic :: topic
  mb_incoming :: "'cb option"
  mb_outgoing :: bool

type_synonym ('cb, 'b, 'w) runner = "'cb \<Rightarrow> 'b packet \<Rightarrow> 'w \<Rightarrow> (void_result \<times> 'w) exec"

definition mailbox_new :: "topic \<Rightarrow> 'cb option \<Rightarrow> bool \<Rightarrow> 'cb mailbox" where
  "mailbox_new t incoming outgoing =
     \<lparr>mb_topic = t, mb_incoming = incoming, mb_outgoing = outgoing\<rparr>"

definition set_incoming_mail_callback :: "'cb option \<Rightarrow> 'cb mailbox \<Rightarrow> void_result \<times> 'cb mailbox" where
  "set_incoming_mail_callback cb mb = (success, mb\<lparr>mb_incoming := cb\<rparr>)"

definition set_outgoing_mail_callback :: "bool \<Rightarrow> 'cb mailbox \<Rightarrow> void_result \<times> 'cb mailbox" where
  "set_outgoing_mail_callback cb mb = (success, mb\<lparr>mb_outgoing := cb\<rparr>)"

definition mailbox_id :: "u64 \<Rightarrow> u64" where
  "mailbox_id this = this"

definition place_incoming_mail ::
    "('cb, 'b, 'w) runner \<Rightarrow> 'cb mailbox \<Rightarrow> 'b packet \<Rightarrow> 'w \<Rightarrow> (void_result \<times> 'w) exec" where
  "place_incoming_mail run mb p w =
     (case mb_incoming mb of Some cb \<Rightarrow> run cb p w | None \<Rightarrow> Inr (success, w))"

subsection \<open>The mailman\<close>

record 'cb mailman =
  mm_boxes :: "u64 \<Rightarrow> 'cb mailbox option"
  mm_slots :: "(topic \<times> (u32 \<times> u64 option) list) list"

text \<open>The key a mailbox is filed under: its id cut to 32 bits.\<close>

definition box_key :: "u64 \<Rightarrow> u32" where
  "box_key a = ucast (mailbox_id a)"

definition box_at :: "'cb mailman \<Rightarrow> u64 option \<Rightarrow> 'cb mailbox exec" where
  "box_at mm a =
     (case a of None \<Rightarrow> Inl Null_deref
      | Some x \<Rightarrow> (case mm_boxes mm x of None \<Rightarrow> Inl Use_after_free | Some mb \<Rightarrow> Inr mb))"

text \<open>\<open>_mailboxes[t]\<close> and \<open>_mailboxes[t][k]\<close>: a missing entry is made, empty or null.\<close>

definition topic_slot :: "'cb mailman \<Rightarrow> topic \<Rightarrow> (u32 \<times> u64 option) list" where
  "topic_slot mm t = (case map_of (mm_slots mm) t of None \<Rightarrow> [] | Some es \<Rightarrow> es)"

definition slot_entry :: "'cb mailman \<Rightarrow> topic \<Rightarrow> u32 \<Rightarrow> u64 option" where
  "slot_entry mm t k = (case map_of (topic_slot mm t) k of None \<Rightarrow> None | Some a \<Rightarrow> a)"

definition register_mailbox :: "u64 \<Rightarrow> 'cb mailman \<Rightarrow> 'cb mailman exec" where
  "register_mailbox a mm =
     exec_bind (box_at mm (Some a)) (\<lambda>mb.
       let mb' = snd (set_outgoing_mail_callback True mb);
           t = mb_topic mb'
       in Inr (mm\<lparr>mm_boxes := (mm_boxes mm)(a \<mapsto> mb'),
                  mm_slots := AList.update t
                    (AList.update (box_key a) (Some a) (topic_slot mm t)) (mm_slots mm)\<rparr>))"

definition unregister_mailbox :: "u64 \<Rightarrow> 'cb mailman \<Rightarrow> 'cb mailman exec" where
  "unregister_mailbox a mm =
     exec_bind (box_at mm (Some a)) (\<lambda>mb.
       let t = mb_topic mb; x = slot_entry mm t (box_key a) in
       exec_bind (box_at mm x) (\<lambda>mbx.
         let mbx' = snd (set_outgoing_mail_callback False mbx);
             es = AList.delete (box_key a) (topic_slot mm t)
         in Inr (mm\<lparr>mm_boxes := (mm_boxes mm)(the x \<mapsto> mbx'),
                    mm_slots := (if es = [] then AList.delete t (mm_slots mm)
                                 else AList.update t es (mm_slots mm))\<rparr>)))"

fun deliver :: "('cb, 'b, 'w) runner \<Rightarrow> 'cb mailman \<Rightarrow> u32 \<Rightarrow> 'b packet \<Rightarrow>
    (u32 \<times> u64 option) list \<Rightarrow> 'w \<Rightarrow> 'w exec" where
  "deliver run mm sender_id p [] w = Inr w"
| "deliver run mm sender_id p ((k, a) # es) w =
     (if k = sender_id then deliver run mm sender_id p es w
      else exec_bind (box_at mm a) (\<lambda>mb.
           exec_bind (place_incoming_mail run mb p w) (\<lambda>(r, w').
           exec_bind (assert_result r) (\<lambda>_.
           deliver run mm sender_id p es w'))))"

definition mailman_send ::
    "('cb, 'b, 'w) runner \<Rightarrow> 'cb mailman \<Rightarrow> u32 \<Rightarrow> 'b packet \<Rightarrow> 'w \<Rightarrow> (void_result \<times> 'w) exec" where
  "mailman_send run mm sender_id p w =
     exec_bind (case map_of (mm_slots mm) (packet_topic p) of
                  None \<Rightarrow> Inr w
                | Some es \<Rightarrow> deliver run mm sender_id p es w) (\<lambda>w1.
     exec_bind (case map_of (mm_slots mm) topic_any of
                  None \<Rightarrow> Inr w1
                | Some es \<Rightarrow> deliver run mm sender_id p es w1) (\<lambda>w2.
     Inr (success, w2)))"

definition mailman_clear :: "'cb mailman \<Rightarrow> 'cb mailman" where
  "mailman_clear mm = mm\<lparr>mm_slots := []\<rparr>"

text \<open>\<open>place_outgoing_mail\<close> of the mailbox at address \<open>a\<close>.\<close>

definition place_outgoing_mail ::
    "('cb, 'b, 'w) runner \<Rightarrow> 'cb mailman \<Rightarrow> u64 \<Rightarrow> 'b packet \<Rightarrow> 'w \<Rightarrow> (void_result \<times> 'w) exec" where
  "place_outgoing_mail run mm a p w =
     exec_bind (box_at mm (Some a)) (\<lambda>mb.
       if mb_outgoing mb then mailman_send run mm (box_key a) p w else Inr (success, w))"

subsection \<open>Invariant\<close>

text \<open>
  Keys are unique at both levels, no topic is kept without a mailbox, and every entry
  points to a live mailbox of that topic, filed under its own key and with its outgoing
  callback set.
\<close>

definition entry_ok :: "'cb mailman \<Rightarrow> topic \<Rightarrow> u32 \<times> u64 option \<Rightarrow> bool" where
  "entry_ok mm t e \<longleftrightarrow>
     (case snd e of None \<Rightarrow> False
      | Some a \<Rightarrow> fst e = box_key a \<and>
          (case mm_boxes mm a of None \<Rightarrow> False
           | Some mb \<Rightarrow> mb_topic mb = t \<and> mb_outgoing mb))"

definition mailman_inv :: "'cb mailman \<Rightarrow> bool" where
  "mailman_inv mm \<longleftrightarrow> distinct (map fst (mm_slots mm)) \<and>
     (\<forall>(t, es) \<in> set (mm_slots mm).
        es \<noteq> [] \<and> distinct (map fst es) \<and> (\<forall>e \<in> set es. entry_ok mm t e))"

definition members :: "'cb mailman \<Rightarrow> topic \<Rightarrow> u64 set" where
  "members mm t = {a. \<exists>k. (k, Some a) \<in> set (topic_slot mm t)}"

definition box_topic :: "'cb mailman \<Rightarrow> u64 \<Rightarrow> topic option" where
  "box_topic mm a = map_option mb_topic (mm_boxes mm a)"

text \<open>The mailboxes a send places a packet in, in order.\<close>

definition slot_recipients :: "u32 \<Rightarrow> (u32 \<times> u64 option) list \<Rightarrow> u64 list" where
  "slot_recipients sender_id es = map (\<lambda>e. the (snd e)) (filter (\<lambda>e. fst e \<noteq> sender_id) es)"

definition place_into :: "('cb, 'b, 'w) runner \<Rightarrow> 'cb mailman \<Rightarrow> 'b packet \<Rightarrow> 'w \<Rightarrow> u64 \<Rightarrow> 'w exec" where
  "place_into run mm p w a =
     exec_bind (place_incoming_mail run (the (mm_boxes mm a)) p w)
       (\<lambda>(r, w'). exec_bind (assert_result r) (\<lambda>_. Inr w'))"


subsection \<open>Facts about the table\<close>

lemma topic_slot_upd [simp]:
  "topic_slot (mm\<lparr>mm_boxes := bs\<rparr>) = topic_slot mm"
  by (simp add: topic_slot_def fun_eq_iff)

lemma topic_slot_update:
  "topic_slot (mm\<lparr>mm_boxes := bs, mm_slots := AList.update t es (mm_slots mm)\<rparr>) =
   (topic_slot mm)(t := es)"
  by (auto simp: topic_slot_def alist_simps fun_eq_iff)

lemma topic_slot_delete:
  "topic_slot (mm\<lparr>mm_boxes := bs, mm_slots := AList.delete t (mm_slots mm)\<rparr>) =
   (topic_slot mm)(t := [])"
  by (auto simp: topic_slot_def alist_simps fun_eq_iff)

definition slots_ok :: "'cb mailman \<Rightarrow> bool" where
  "slots_ok mm \<longleftrightarrow> distinct (map fst (mm_slots mm)) \<and> [] \<notin> snd ` set (mm_slots mm)"

lemma mailman_inv_alt:
  "mailman_inv mm \<longleftrightarrow> slots_ok mm \<and>
     (\<forall>t. distinct (map fst (topic_slot mm t)) \<and> (\<forall>e \<in> set (topic_slot mm t). entry_ok mm t e))"
    (is "?L \<longleftrightarrow> ?R")
proof
  assume L: ?L
  have "distinct (map fst (topic_slot mm t)) \<and> (\<forall>e \<in> set (topic_slot mm t). entry_ok mm t e)" for t
    using L map_of_SomeD [of "mm_slots mm" t]
    by (auto simp: topic_slot_def mailman_inv_def split: option.split)
  with L show ?R by (force simp: slots_ok_def mailman_inv_def)
next
  assume R: ?R
  have "es \<noteq> [] \<and> distinct (map fst es) \<and> (\<forall>e \<in> set es. entry_ok mm t e)"
    if "(t, es) \<in> set (mm_slots mm)" for t es
  proof -
    have "map_of (mm_slots mm) t = Some es"
      using R that by (simp add: slots_ok_def)
    then have "topic_slot mm t = es" by (simp add: topic_slot_def)
    moreover have "es \<noteq> []" using R that by (force simp: slots_ok_def)
    ultimately show ?thesis using R by metis
  qed
  with R show ?L by (auto simp: slots_ok_def mailman_inv_def)
qed

lemma mailman_invD:
  assumes "mailman_inv mm"
  shows "slots_ok mm" and "distinct (map fst (topic_slot mm t))"
    and "e \<in> set (topic_slot mm t) \<Longrightarrow> entry_ok mm t e"
  using assms by (simp_all add: mailman_inv_alt)

lemma entry_okE:
  assumes "entry_ok mm t e"
  obtains a mb where "e = (box_key a, Some a)" and "mm_boxes mm a = Some mb"
    and "mb_topic mb = t" and "mb_outgoing mb"
  using assms by (cases e) (auto simp: entry_ok_def split: option.splits)

lemma members_iff:
  assumes "mailman_inv mm"
  shows "a \<in> members mm t \<longleftrightarrow> (box_key a, Some a) \<in> set (topic_slot mm t)"
  using mailman_invD(3) [OF assms, of _ t] by (auto simp: members_def elim!: entry_okE)

lemma memberD:
  assumes "mailman_inv mm" and "a \<in> members mm t"
  obtains mb where "mm_boxes mm a = Some mb" and "mb_topic mb = t" and "mb_outgoing mb"
proof -
  have "entry_ok mm t (box_key a, Some a)"
    using assms by (auto simp: members_iff intro: mailman_invD(3))
  then show thesis by (rule entry_okE) (auto intro: that)
qed

lemma slots_ok_update:
  "slots_ok mm \<Longrightarrow> es \<noteq> [] \<Longrightarrow> slots_ok (mm\<lparr>mm_boxes := bs, mm_slots := AList.update t es (mm_slots mm)\<rparr>)"
  by (auto simp: slots_ok_def alist_simps)

lemma slots_ok_delete:
  "slots_ok mm \<Longrightarrow> slots_ok (mm\<lparr>mm_boxes := bs, mm_slots := AList.delete t (mm_slots mm)\<rparr>)"
  by (auto simp: slots_ok_def alist_simps)

text \<open>Where no member uses the key, the slot has no entry under it.\<close>

lemma fresh_key:
  assumes "mailman_inv mm" and "\<forall>t'. \<forall>b \<in> members mm t'. box_key b \<noteq> box_key a"
  shows "box_key a \<notin> fst ` set (topic_slot mm t)"
proof
  assume "box_key a \<in> fst ` set (topic_slot mm t)"
  then obtain e where "e \<in> set (topic_slot mm t)" "fst e = box_key a" by auto
  with mailman_invD(3) [OF assms(1)] obtain b where "e = (box_key b, Some b)" "b \<in> members mm t"
    by (metis assms(1) entry_okE members_iff)
  with \<open>fst e = box_key a\<close> assms(2) show False by auto
qed

lemma register_mailbox_spec:
  assumes inv: "mailman_inv mm" and a: "mm_boxes mm a = Some mb"
  obtains mm' where "register_mailbox a mm = Inr mm'"
    and "mm_boxes mm' = (mm_boxes mm)(a \<mapsto> mb\<lparr>mb_outgoing := True\<rparr>)"
    and "topic_slot mm' = (topic_slot mm)
           (mb_topic mb := AList.update (box_key a) (Some a) (topic_slot mm (mb_topic mb)))"
    and "mailman_inv mm'"
proof -
  let ?t = "mb_topic mb"
  let ?es = "AList.update (box_key a) (Some a) (topic_slot mm ?t)"
  let ?m = "mm\<lparr>mm_boxes := (mm_boxes mm)(a \<mapsto> mb\<lparr>mb_outgoing := True\<rparr>),
              mm_slots := AList.update ?t ?es (mm_slots mm)\<rparr>"
  have eq: "register_mailbox a mm = Inr ?m"
    using a by (simp add: register_mailbox_def box_at_def set_outgoing_mail_callback_def Let_def)
  note d = mailman_invD [OF inv]
  have keep: "entry_ok mm t e \<Longrightarrow> entry_ok ?m t e" for t e
    using a by (auto simp: entry_ok_def split: option.splits)
  have new: "entry_ok ?m ?t (box_key a, Some a)" by (simp add: entry_ok_def)
  have "mailman_inv ?m"
    unfolding mailman_inv_alt topic_slot_update
    using slots_ok_update [OF d(1), of ?es] d(2,3) keep new by (auto simp: alist_simps)
  with eq show thesis by (intro that [of ?m]) (simp_all add: topic_slot_update)
qed

lemma unregister_mailbox_spec:
  assumes inv: "mailman_inv mm" and mem: "a \<in> members mm t" and a: "mm_boxes mm a = Some mb"
  obtains mm' where "unregister_mailbox a mm = Inr mm'"
    and "mm_boxes mm' = (mm_boxes mm)(a \<mapsto> mb\<lparr>mb_outgoing := False\<rparr>)"
    and "topic_slot mm' = (topic_slot mm)(t := AList.delete (box_key a) (topic_slot mm t))"
    and "mailman_inv mm'"
    and "mm_slots mm' = (if AList.delete (box_key a) (topic_slot mm t) = []
           then AList.delete t (mm_slots mm)
           else AList.update t (AList.delete (box_key a) (topic_slot mm t)) (mm_slots mm))"
proof -
  have t: "mb_topic mb = t" using memberD [OF inv mem] a by force
  note d = mailman_invD [OF inv]
  let ?es = "AList.delete (box_key a) (topic_slot mm t)"
  let ?m = "mm\<lparr>mm_boxes := (mm_boxes mm)(a \<mapsto> mb\<lparr>mb_outgoing := False\<rparr>),
              mm_slots := (if ?es = [] then AList.delete t (mm_slots mm)
                           else AList.update t ?es (mm_slots mm))\<rparr>"
  have "map_of (topic_slot mm t) (box_key a) = Some (Some a)"
    using mem d(2) by (simp add: members_iff [OF inv])
  then have eq: "unregister_mailbox a mm = Inr ?m"
    using a t by (simp add: unregister_mailbox_def box_at_def slot_entry_def
        set_outgoing_mail_callback_def Let_def)
  have slot: "topic_slot ?m = (topic_slot mm)(t := ?es)"
    by (simp add: topic_slot_delete topic_slot_update)
  have ok: "slots_ok ?m"
    using d(1) by (simp add: slots_ok_delete slots_ok_update)
  have keep: "entry_ok ?m t' e" if "entry_ok mm t' e" "e \<in> set (topic_slot ?m t')" for t' e
  proof -
    note e_ok = that
    obtain b mb' where b: "e = (box_key b, Some b)" "mm_boxes mm b = Some mb'"
        "mb_topic mb' = t'" "mb_outgoing mb'"
      using e_ok(1) by (rule entry_okE)
    have "b \<noteq> a" using e_ok(2) b t a by (auto simp: slot alist_simps split: if_splits)
    with b show ?thesis by (simp add: entry_ok_def)
  qed
  have "mailman_inv ?m"
    unfolding mailman_inv_alt using ok d(2,3) keep
    by (auto simp: slot alist_simps split: if_splits)
  with eq slot show thesis by (intro that [of ?m]) simp_all
qed


lemma members_slot:
  "topic_slot mm' = (topic_slot mm)(t := es) \<Longrightarrow>
   members mm' = (members mm)(t := {a. \<exists>k. (k, Some a) \<in> set es})"
  by (auto simp: members_def fun_eq_iff)

interpretation dave: post_office mailman_inv members box_topic box_key
  register_mailbox unregister_mailbox
proof unfold_locales
  fix mm :: "'cb mailman" and a t
  assume inv: "mailman_inv mm" and "box_topic mm a = Some t"
    and fresh: "\<forall>t'. \<forall>b \<in> members mm t'. box_key b \<noteq> box_key a"
  then obtain mb where mb: "mm_boxes mm a = Some mb" "mb_topic mb = t"
    by (auto simp: box_topic_def)
  from register_mailbox_spec [OF inv mb(1)] obtain mm' where mm': "register_mailbox a mm = Inr mm'"
      "mm_boxes mm' = (mm_boxes mm)(a \<mapsto> mb\<lparr>mb_outgoing := True\<rparr>)"
      "topic_slot mm' = (topic_slot mm)(t := AList.update (box_key a) (Some a) (topic_slot mm t))"
      "mailman_inv mm'"
    unfolding mb(2) by blast
  have "{b. \<exists>k. (k, Some b) \<in> set (AList.update (box_key a) (Some a) (topic_slot mm t))} =
      insert a (members mm t)"
    using fresh_key [OF inv fresh, of t] by (auto simp: members_def alist_update_new)
  then have "members mm' = (members mm)(t := insert a (members mm t))"
    by (simp add: members_slot [OF mm'(3)])
  moreover have "box_topic mm' = box_topic mm"
    using mb mm'(2) by (auto simp: box_topic_def fun_eq_iff)
  ultimately show "\<exists>mm'. register_mailbox a mm = Inr mm' \<and> mailman_inv mm' \<and>
      members mm' = (members mm)(t := insert a (members mm t)) \<and> box_topic mm' = box_topic mm"
    using mm' by blast
next
  fix mm :: "'cb mailman" and a t
  assume inv: "mailman_inv mm" and "box_topic mm a = Some t" and mem: "a \<in> members mm t"
  then obtain mb where mb: "mm_boxes mm a = Some mb" by (auto simp: box_topic_def)
  from unregister_mailbox_spec [OF inv mem mb] obtain mm' where
    mm': "unregister_mailbox a mm = Inr mm'"
      "mm_boxes mm' = (mm_boxes mm)(a \<mapsto> mb\<lparr>mb_outgoing := False\<rparr>)"
      "topic_slot mm' = (topic_slot mm)(t := AList.delete (box_key a) (topic_slot mm t))"
      "mailman_inv mm'"
    by blast
  have key: "k = box_key b" if "(k, Some b) \<in> set (topic_slot mm t)" for k b
    using mailman_invD(3) [OF inv that] by (auto elim: entry_okE)
  have uniq: "c = d" if "(k, c) \<in> set (topic_slot mm t)" "(k, d) \<in> set (topic_slot mm t)" for k c d
    using that mailman_invD(2) [OF inv, of t] by (metis eq_key_imp_eq_value)
  have "{b. \<exists>k. (k, Some b) \<in> set (AList.delete (box_key a) (topic_slot mm t))} =
      members mm t - {a}"
  proof (intro set_eqI iffI)
    fix b assume "b \<in> {b. \<exists>k. (k, Some b) \<in> set (AList.delete (box_key a) (topic_slot mm t))}"
    then obtain k where k: "(k, Some b) \<in> set (topic_slot mm t)" "k \<noteq> box_key a"
      by (auto simp: alist_simps)
    then show "b \<in> members mm t - {a}"
      using key [OF k(1)] by (auto simp: members_def)
  next
    fix b assume b: "b \<in> members mm t - {a}"
    then have "box_key b \<noteq> box_key a"
      using uniq [of "box_key a" "Some b" "Some a"] mem by (auto simp: members_iff [OF inv])
    then show "b \<in> {b. \<exists>k. (k, Some b) \<in> set (AList.delete (box_key a) (topic_slot mm t))}"
      using b by (auto simp: members_iff [OF inv] alist_simps)
  qed
  then have "members mm' = (members mm)(t := members mm t - {a})"
    by (simp add: members_slot [OF mm'(3)])
  moreover have "box_topic mm' = box_topic mm"
    using mb mm'(2) by (auto simp: box_topic_def fun_eq_iff)
  ultimately show "\<exists>mm'. unregister_mailbox a mm = Inr mm' \<and> mailman_inv mm' \<and>
      members mm' = (members mm)(t := members mm t - {a}) \<and> box_topic mm' = box_topic mm"
    using mm' by blast
qed

text \<open>The two calls on a fresh and on a registered mailbox, with the table they leave.\<close>

definition fresh_box :: "'cb mailman \<Rightarrow> u64 \<Rightarrow> bool" where
  "fresh_box mm a \<longleftrightarrow> (\<forall>t. \<forall>b \<in> members mm t. box_key b \<noteq> box_key a)"

lemma register_fresh:
  assumes inv: "mailman_inv mm" and a: "mm_boxes mm a = Some mb" and fresh: "fresh_box mm a"
  obtains mm' where "register_mailbox a mm = Inr mm'" and "mailman_inv mm'"
    and "members mm' = (members mm)(mb_topic mb := insert a (members mm (mb_topic mb)))"
    and "mm_boxes mm' = (mm_boxes mm)(a \<mapsto> mb\<lparr>mb_outgoing := True\<rparr>)"
proof -
  have t: "box_topic mm a = Some (mb_topic mb)" using a by (simp add: box_topic_def)
  have f: "\<forall>t. \<forall>b \<in> members mm t. box_key b \<noteq> box_key a" using fresh by (simp add: fresh_box_def)
  obtain m1 where m1: "register_mailbox a mm = Inr m1" "mailman_inv m1"
      "members m1 = (members mm)(mb_topic mb := insert a (members mm (mb_topic mb)))"
    using dave.register_law [OF inv t f] by blast
  obtain m2 where "register_mailbox a mm = Inr m2" "mm_boxes m2 = (mm_boxes mm)(a \<mapsto> mb\<lparr>mb_outgoing := True\<rparr>)"
    using register_mailbox_spec [OF inv a] by blast
  with m1 show thesis by (intro that [of m1]) simp_all
qed

lemma unregister_member:
  assumes inv: "mailman_inv mm" and mem: "a \<in> members mm t" and a: "mm_boxes mm a = Some mb"
  obtains mm' where "unregister_mailbox a mm = Inr mm'" and "mailman_inv mm'"
    and "members mm' = (members mm)(t := members mm t - {a})"
    and "mm_boxes mm' = (mm_boxes mm)(a \<mapsto> mb\<lparr>mb_outgoing := False\<rparr>)"
proof -
  have "mb_topic mb = t" using memberD [OF inv mem] a by auto
  then have t: "box_topic mm a = Some t" using a by (simp add: box_topic_def)
  obtain m1 where m1: "unregister_mailbox a mm = Inr m1" "mailman_inv m1"
      "members m1 = (members mm)(t := members mm t - {a})"
    using dave.unregister_law [OF inv t mem] by blast
  obtain m2 where "unregister_mailbox a mm = Inr m2" "mm_boxes m2 = (mm_boxes mm)(a \<mapsto> mb\<lparr>mb_outgoing := False\<rparr>)"
    using unregister_mailbox_spec [OF inv mem a] by blast
  with m1 show thesis by (intro that [of m1]) simp_all
qed

text \<open>A mailbox that is not registered may be made, or changed, freely.\<close>

lemma members_boxes [simp]: "members (mm\<lparr>mm_boxes := bs\<rparr>) = members mm"
  by (simp add: members_def fun_eq_iff)

lemma mailman_inv_put:
  assumes inv: "mailman_inv mm" and "\<forall>t. a \<notin> members mm t"
  shows "mailman_inv (mm\<lparr>mm_boxes := (mm_boxes mm)(a \<mapsto> mb)\<rparr>)"
proof -
  have "entry_ok (mm\<lparr>mm_boxes := (mm_boxes mm)(a \<mapsto> mb)\<rparr>) t e" if e: "e \<in> set (topic_slot mm t)" for t e
  proof -
    obtain b mb' where b: "e = (box_key b, Some b)" "mm_boxes mm b = Some mb'" "mb_topic mb' = t" "mb_outgoing mb'"
      using mailman_invD(3) [OF inv e] by (rule entry_okE)
    then have "b \<in> members mm t" using e by (simp add: members_iff [OF inv])
    then have "b \<noteq> a" using assms(2) by blast
    with b show ?thesis by (simp add: entry_ok_def)
  qed
  then show ?thesis
    using mailman_invD(1,2) [OF inv] unfolding mailman_inv_alt by (simp add: slots_ok_def)
qed

text \<open>A registered mailbox may get another closure.\<close>

lemma mailman_inv_closure:
  assumes inv: "mailman_inv mm" and "mm_boxes mm a = Some mb" and "mb_topic mb' = mb_topic mb" "mb_outgoing mb' = mb_outgoing mb"
  shows "mailman_inv (mm\<lparr>mm_boxes := (mm_boxes mm)(a \<mapsto> mb')\<rparr>)"
proof -
  have "entry_ok mm t e \<Longrightarrow> entry_ok (mm\<lparr>mm_boxes := (mm_boxes mm)(a \<mapsto> mb')\<rparr>) t e" for t e
    using assms(2-) by (auto simp: entry_ok_def split: option.splits)
  then show ?thesis
    using mailman_invD [OF inv] unfolding mailman_inv_alt by (simp add: slots_ok_def)
qed

subsection \<open>Delivery\<close>

lemma deliver_eq:
  assumes "\<And>e. e \<in> set es \<Longrightarrow> entry_ok mm t e"
  shows "deliver run mm s p es w = exec_foldl (place_into run mm p) w (slot_recipients s es)"
  using assms
proof (induction es arbitrary: w)
  case (Cons e es)
  obtain a mb where e: "e = (box_key a, Some a)" "mm_boxes mm a = Some mb"
    using Cons.prems [of e] by (auto elim: entry_okE)
  have IH: "deliver run mm s p es w = exec_foldl (place_into run mm p) w (slot_recipients s es)" for w
    using Cons by simp
  have step: "deliver run mm s p (e # es) w =
      exec_bind (place_into run mm p w a) (\<lambda>w'. deliver run mm s p es w')" if "box_key a \<noteq> s"
    using that e by (cases "place_incoming_mail run mb p w")
      (simp_all add: box_at_def place_into_def exec_bind_assoc case_prod_beta)
  show ?case
  proof (cases "box_key a = s")
    case True
    then show ?thesis by (simp add: e IH slot_recipients_def)
  next
    case False
    then show ?thesis unfolding step [OF False] IH by (simp add: e slot_recipients_def)
  qed
qed (simp add: slot_recipients_def)

lemma topic_slot_case:
  "(case map_of (mm_slots mm) t of None \<Rightarrow> Inr w | Some es \<Rightarrow> deliver run mm s p es w) =
   deliver run mm s p (topic_slot mm t) w"
  by (auto simp: topic_slot_def split: option.split)

lemma mailman_send_eq:
  assumes "mailman_inv mm"
  shows "mailman_send run mm s p w =
    exec_bind (exec_foldl (place_into run mm p) w
      (slot_recipients s (topic_slot mm (packet_topic p)) @ slot_recipients s (topic_slot mm topic_any)))
      (\<lambda>w'. Inr (success, w'))"
proof -
  have "deliver run mm s p (topic_slot mm t) w =
      exec_foldl (place_into run mm p) w (slot_recipients s (topic_slot mm t))" for t w
    by (rule deliver_eq) (rule mailman_invD(3) [OF assms])
  then show ?thesis
    unfolding mailman_send_def topic_slot_case by (simp add: exec_foldl_append exec_bind_assoc)
qed

text \<open>What every closure keeps, a delivery keeps, whatever the table.\<close>

lemma deliver_invariant:
  assumes "deliver run mm s p es w = Inr w'" and "P w"
    and run: "\<And>cb w r w'. run cb p w = Inr (r, w') \<Longrightarrow> P w \<Longrightarrow> P w'"
  shows "P w'"
  using assms(1,2)
proof (induction es arbitrary: w)
  case (Cons e es)
  obtain k a where e: "e = (k, a)" by (cases e)
  show ?case
  proof (cases "k = s")
    case True
    then show ?thesis using Cons e by simp
  next
    case False
    then obtain mb r w1 where w1: "place_incoming_mail run mb p w = Inr (r, w1)"
        "deliver run mm s p es w1 = Inr w'"
      using Cons.prems(1) e by (auto simp: exec_simps)
    have "P w1" using w1(1) Cons.prems(2) run by (auto simp: place_incoming_mail_def split: option.splits)
    then show ?thesis using Cons.IH w1(2) by blast
  qed
qed simp

lemma place_outgoing_invariant:
  assumes "place_outgoing_mail run mm a p w = Inr (r, w')" and "P w"
    and run: "\<And>cb w r w'. run cb p w = Inr (r, w') \<Longrightarrow> P w \<Longrightarrow> P w'"
  shows "P w'"
proof -
  have inv: "deliver run mm s p es v = Inr v' \<Longrightarrow> P v \<Longrightarrow> P v'" for s es v v'
    using deliver_invariant [where P = P] run by blast
  show ?thesis
    using assms(1,2) unfolding place_outgoing_mail_def mailman_send_def
    by (auto simp: exec_simps split: if_splits option.splits) (blast intro: inv)+
qed

lemma slot_recipients_spec:
  assumes inv: "mailman_inv mm"
  shows "distinct (slot_recipients s (topic_slot mm t))"
    and "set (slot_recipients s (topic_slot mm t)) = {a \<in> members mm t. box_key a \<noteq> s}"
proof -
  have ok: "e \<in> set (topic_slot mm t) \<Longrightarrow> snd e \<noteq> None \<and> fst e = box_key (the (snd e))" for e
    by (drule mailman_invD(3) [OF inv], erule entry_okE) simp
  have d: "distinct (map fst (topic_slot mm t))" by (rule mailman_invD(2) [OF inv])
  then have "distinct (map (\<lambda>e. box_key (the (snd e))) (topic_slot mm t))"
    using ok by (simp cong: map_cong)
  then have "distinct (map (\<lambda>e. the (snd e)) (topic_slot mm t))"
    by (auto simp: distinct_map inj_on_def)
  then show "distinct (slot_recipients s (topic_slot mm t))"
    by (auto simp: slot_recipients_def distinct_map intro: inj_on_subset)
  show "set (slot_recipients s (topic_slot mm t)) = {a \<in> members mm t. box_key a \<noteq> s}"
  proof (intro set_eqI iffI)
    fix a assume "a \<in> set (slot_recipients s (topic_slot mm t))"
    then obtain e where e: "e \<in> set (topic_slot mm t)" "fst e \<noteq> s" "a = the (snd e)"
      by (auto simp: slot_recipients_def)
    have "snd e = Some a" "fst e = box_key a" using ok [OF e(1)] e(3) by auto
    then have "(box_key a, Some a) \<in> set (topic_slot mm t)" using e(1) by (metis surjective_pairing)
    with \<open>fst e = box_key a\<close> e(2) show "a \<in> {a \<in> members mm t. box_key a \<noteq> s}"
      by (simp add: members_iff [OF inv])
  next
    fix a assume "a \<in> {a \<in> members mm t. box_key a \<noteq> s}"
    then have "(box_key a, Some a) \<in> set (topic_slot mm t)" "box_key a \<noteq> s"
      by (simp_all add: members_iff [OF inv])
    then show "a \<in> set (slot_recipients s (topic_slot mm t))"
      unfolding slot_recipients_def set_map set_filter
      by (intro image_eqI [where x = "(box_key a, Some a)"]) simp_all
  qed
qed

lemma members_disjoint:
  assumes "mailman_inv mm" and "a \<in> members mm t" and "a \<in> members mm t'"
  shows "t = t'"
proof -
  obtain mb where mb: "mm_boxes mm a = Some mb" "mb_topic mb = t"
    by (rule memberD [OF assms(1,2)])
  obtain mb' where mb': "mm_boxes mm a = Some mb'" "mb_topic mb' = t'"
    by (rule memberD [OF assms(1,3)])
  from mb mb' show ?thesis by simp
qed


subsection \<open>Properties\<close>

lemma unregister_cleared:
  "mm_boxes mm a = Some mb \<Longrightarrow> unregister_mailbox a (mailman_clear mm) = Inl Null_deref"
  by (simp add: unregister_mailbox_def mailman_clear_def box_at_def slot_entry_def topic_slot_def)

text \<open>A small table for the witnesses: two mailboxes of one topic and one of the topic \<open>*\<close>.\<close>

definition sample_mailman :: "nat mailman" where
  "sample_mailman =
     \<lparr>mm_boxes = [1 \<mapsto> \<lparr>mb_topic = ''/t'', mb_incoming = Some 10, mb_outgoing = True\<rparr>,
                  2 \<mapsto> \<lparr>mb_topic = ''/t'', mb_incoming = Some 20, mb_outgoing = True\<rparr>,
                  3 \<mapsto> \<lparr>mb_topic = topic_any, mb_incoming = Some 30, mb_outgoing = True\<rparr>,
                  4 \<mapsto> \<lparr>mb_topic = ''/u'', mb_incoming = None, mb_outgoing = False\<rparr>],
      mm_slots = [(''/t'', [(1, Some 1), (2, Some 2)]), (topic_any, [(3, Some 3)])]\<rparr>"

lemma sample_mailman_inv: "mailman_inv sample_mailman"
  by (simp add: mailman_inv_def sample_mailman_def entry_ok_def box_key_def mailbox_id_def topic_any_def)

lemma sample_members:
  "members sample_mailman ''/t'' = {1, 2}" "members sample_mailman topic_any = {3}"
  "t \<noteq> ''/t'' \<Longrightarrow> t \<noteq> topic_any \<Longrightarrow> members sample_mailman t = {}"
  by (auto simp: members_def topic_slot_def sample_mailman_def topic_any_def)

lemma sample_keys_distinct:
  "\<forall>t. \<forall>b \<in> members sample_mailman t. box_key b = box_key 1 \<longrightarrow> b = 1"
proof (intro allI ballI impI)
  fix t b assume b: "b \<in> members sample_mailman t" "box_key b = box_key 1"
  have "members sample_mailman t \<subseteq> {1, 2, 3}"
    using sample_members by (cases "t = ''/t''"; cases "t = topic_any") auto
  with b show "b = 1" by (auto simp: box_key_def mailbox_id_def)
qed

text \<open>A closure that logs its own name.\<close>

definition log_run :: "(nat, sample_doc, nat list) runner" where
  "log_run cb p w = Inr (success, w @ [cb])"

definition sample_packet :: "topic \<Rightarrow> sample_doc packet" where
  "sample_packet t = packet_new sample_lib t \<lparr>seconds = 0, microseconds = 0\<rparr> None True"

lemma sample_packet_topic [simp]: "packet_topic (sample_packet t) = t"
  by (simp add: sample_packet_def)

text \<open>C8: A packet sent on a topic other than \<open>*\<close> by a mailbox whose 32-bit key no other
  registered mailbox shares is placed exactly once in every mailbox registered for that topic
  or for \<open>*\<close>, except the sender, and in no other; the send then reports success. The callbacks
  run one after the other on the shared state, and the first that fails aborts the process.\<close>

theorem send_places_once:
  assumes inv: "mailman_inv mm" and "packet_topic p \<noteq> topic_any"
    and key: "\<forall>t. \<forall>b \<in> members mm t. box_key b = box_key a \<longrightarrow> b = a"
  shows "\<exists>xs. distinct xs \<and>
    set xs = (members mm (packet_topic p) \<union> members mm topic_any) - {a} \<and>
    mailman_send run mm (box_key a) p w =
      exec_bind (exec_foldl (place_into run mm p) w xs) (\<lambda>w'. Inr (success, w'))"
proof (intro exI conjI)
  let ?r = "\<lambda>t. slot_recipients (box_key a) (topic_slot mm t)"
  have set_r: "set (?r t) = members mm t - {a}" for t
    using slot_recipients_spec(2) [OF inv] key by auto
  show "distinct (?r (packet_topic p) @ ?r topic_any)"
    using slot_recipients_spec(1) [OF inv] members_disjoint [OF inv] assms(2)
    by (auto simp: set_r)
  show "set (?r (packet_topic p) @ ?r topic_any) =
      (members mm (packet_topic p) \<union> members mm topic_any) - {a}"
    by (auto simp: set_r)
qed (rule mailman_send_eq [OF inv])

theorem send_places_once_witness:
  "mailman_send log_run sample_mailman (box_key 1) (sample_packet ''/t'') [] = Inr (success, [20, 30]) \<and>
   (\<exists>xs. distinct xs \<and> set xs = {2, 3} \<and>
      mailman_send log_run sample_mailman (box_key 1) (sample_packet ''/t'') [] =
        exec_bind (exec_foldl (place_into log_run sample_mailman (sample_packet ''/t'')) [] xs)
          (\<lambda>w'. Inr (success, w')))"
proof -
  from send_places_once [OF sample_mailman_inv _ sample_keys_distinct, of "sample_packet ''/t''" log_run "[]"]
  have "\<exists>xs. distinct xs \<and> set xs = (members sample_mailman ''/t'' \<union> members sample_mailman topic_any) - {1} \<and>
      mailman_send log_run sample_mailman (box_key 1) (sample_packet ''/t'') [] =
        exec_bind (exec_foldl (place_into log_run sample_mailman (sample_packet ''/t'')) [] xs)
          (\<lambda>w'. Inr (success, w'))"
    by (simp add: topic_any_def)
  moreover have "(members sample_mailman ''/t'' \<union> members sample_mailman topic_any) - {1} = {2, 3}"
    by (auto simp: sample_members)
  moreover have "mailman_send log_run sample_mailman (box_key 1) (sample_packet ''/t'') [] =
      Inr (success, [20, 30])"
    by (simp add: mailman_send_def sample_mailman_def box_key_def mailbox_id_def box_at_def
        place_incoming_mail_def log_run_def topic_any_def)
  ultimately show ?thesis by simp
qed

text \<open>
  A packet whose own topic is \<open>*\<close> is placed twice in every mailbox registered for \<open>*\<close>
  except the sender, first in all of them and then in all of them again, and in no other.
\<close>

theorem send_any_places_twice:
  assumes inv: "mailman_inv mm" and any: "packet_topic p = topic_any"
    and key: "\<forall>t. \<forall>b \<in> members mm t. box_key b = box_key a \<longrightarrow> b = a"
  shows "\<exists>xs. distinct xs \<and> set xs = members mm topic_any - {a} \<and>
    mailman_send run mm (box_key a) p w =
      exec_bind (exec_foldl (place_into run mm p) w (xs @ xs)) (\<lambda>w'. Inr (success, w'))"
proof (intro exI conjI)
  let ?xs = "slot_recipients (box_key a) (topic_slot mm topic_any)"
  show "distinct ?xs" by (rule slot_recipients_spec(1) [OF inv])
  show "set ?xs = members mm topic_any - {a}"
    using slot_recipients_spec(2) [OF inv] key by auto
  show "mailman_send run mm (box_key a) p w =
      exec_bind (exec_foldl (place_into run mm p) w (?xs @ ?xs)) (\<lambda>w'. Inr (success, w'))"
    using mailman_send_eq [OF inv, of run "box_key a" p w] by (simp add: any)
qed

theorem send_any_places_twice_witness:
  "\<exists>xs. distinct xs \<and> set xs = {3} \<and>
    mailman_send log_run sample_mailman (box_key 1) (sample_packet topic_any) [] =
      exec_bind (exec_foldl (place_into log_run sample_mailman (sample_packet topic_any)) [] (xs @ xs))
        (\<lambda>w'. Inr (success, w'))"
proof -
  from send_any_places_twice [OF sample_mailman_inv _ sample_keys_distinct, of "sample_packet topic_any" log_run "[]"]
  show ?thesis by (simp add: sample_members)
qed


text \<open>Registering a mailbox whose key is free and unregistering it again is a round trip: the
  table is the one before, entry for entry (a topic that had no mailbox is gone again), every
  topic has the members it had, and the mailbox is left without an outgoing callback.\<close>

theorem register_unregister_roundtrip:
  assumes inv: "mailman_inv mm" and a: "mm_boxes mm a = Some mb"
    and fresh: "\<forall>t. \<forall>b \<in> members mm t. box_key b \<noteq> box_key a"
  shows "\<exists>mm'. exec_bind (register_mailbox a mm) (unregister_mailbox a) = Inr mm' \<and>
    mm_slots mm' = mm_slots mm \<and> members mm' = members mm \<and>
    mm_boxes mm' = (mm_boxes mm)(a \<mapsto> mb\<lparr>mb_outgoing := False\<rparr>)"
proof -
  let ?t = "mb_topic mb"
  obtain m1 where m1: "register_mailbox a mm = Inr m1" "mailman_inv m1"
      "mm_boxes m1 = (mm_boxes mm)(a \<mapsto> mb\<lparr>mb_outgoing := True\<rparr>)"
      "topic_slot m1 = (topic_slot mm)(?t := AList.update (box_key a) (Some a) (topic_slot mm ?t))"
    using register_mailbox_spec [OF inv a] by metis
  have s1: "mm_slots m1 = AList.update ?t (AList.update (box_key a) (Some a) (topic_slot mm ?t)) (mm_slots mm)"
    using m1(1) a by (auto simp: register_mailbox_def box_at_def set_outgoing_mail_callback_def Let_def)
  have no: "box_key a \<notin> fst ` set (topic_slot mm ?t)" by (rule fresh_key [OF inv fresh])
  have mem: "a \<in> members m1 ?t"
    using no by (simp add: members_iff [OF m1(2)] m1(4) alist_update_new)
  obtain m2 where m2: "unregister_mailbox a m1 = Inr m2" "mailman_inv m2"
      "mm_boxes m2 = (mm_boxes m1)(a \<mapsto> mb\<lparr>mb_outgoing := False\<rparr>)"
      "topic_slot m2 = (topic_slot m1)(?t := AList.delete (box_key a) (topic_slot m1 ?t))"
      "mm_slots m2 = (if AList.delete (box_key a) (topic_slot m1 ?t) = []
           then AList.delete ?t (mm_slots m1)
           else AList.update ?t (AList.delete (box_key a) (topic_slot m1 ?t)) (mm_slots m1))"
  proof (rule unregister_mailbox_spec [OF m1(2) mem])
    show "mm_boxes m1 a = Some (mb\<lparr>mb_outgoing := True\<rparr>)" by (simp add: m1(3))
  qed (rule that, simp_all)
  have undo: "AList.delete (box_key a) (topic_slot m1 ?t) = topic_slot mm ?t"
    using no by (simp add: m1(4) alist_update_delete_new)
  have "mm_slots m2 = mm_slots mm"
  proof (cases "map_of (mm_slots mm) ?t")
    case None
    then have "?t \<notin> fst ` set (mm_slots mm)" by (simp add: map_of_eq_None_iff)
    moreover have "topic_slot mm ?t = []" by (simp add: topic_slot_def None)
    ultimately show ?thesis
      unfolding m2(5) undo by (simp add: s1 alist_update_delete_new)
  next
    case (Some es)
    then have e: "topic_slot mm ?t = es" by (simp add: topic_slot_def)
    have "es \<noteq> []"
      using mailman_invD(1) [OF inv] map_of_SomeD [OF Some] by (force simp: slots_ok_def)
    with Some show ?thesis
      unfolding m2(5) undo e by (simp add: s1 AList.update_triv)
  qed
  moreover from this have "members m2 = members mm"
    by (simp add: fun_eq_iff members_def topic_slot_def)
  ultimately show ?thesis using m1(1,3) m2(1,3) by auto
qed

theorem register_unregister_roundtrip_witness:
  "\<exists>mm'. exec_bind (register_mailbox 4 sample_mailman) (unregister_mailbox 4) = Inr mm' \<and>
    mm_slots mm' = mm_slots sample_mailman"
proof -
  have "members sample_mailman t \<subseteq> {1, 2, 3}" for t
    using sample_members by (cases "t = ''/t''"; cases "t = topic_any") auto
  then have "\<forall>t. \<forall>b \<in> members sample_mailman t. box_key b \<noteq> box_key 4"
    by (fastforce simp: box_key_def mailbox_id_def)
  moreover have "mm_boxes sample_mailman 4 = Some \<lparr>mb_topic = ''/u'', mb_incoming = None, mb_outgoing = False\<rparr>"
    by (simp add: sample_mailman_def)
  ultimately show ?thesis
    using register_unregister_roundtrip [OF sample_mailman_inv] by blast
qed

text \<open>Unregistering a mailbox dereferences a null pointer unless a mailbox with its key is
  registered under its topic; in particular every unregistration after \<open>clear\<close> does.\<close>

theorem unregister_missing_faults:
  assumes inv: "mailman_inv mm" and a: "mm_boxes mm a = Some mb"
  shows "unregister_mailbox a (mailman_clear mm) = Inl Null_deref \<and>
    (unregister_mailbox a mm = Inl Null_deref \<longleftrightarrow>
       \<not> (\<exists>b \<in> members mm (mb_topic mb). box_key b = box_key a)) \<and>
    ((\<exists>f. unregister_mailbox a mm = Inl f) \<longrightarrow> unregister_mailbox a mm = Inl Null_deref)"
proof -
  let ?t = "mb_topic mb"
  have clear: "unregister_mailbox a (mailman_clear mm) = Inl Null_deref"
    using a by (rule unregister_cleared)
  show ?thesis
  proof (cases "\<exists>b \<in> members mm ?t. box_key b = box_key a")
    case True
    then obtain b where b: "b \<in> members mm ?t" "box_key b = box_key a" by blast
    obtain mbx where "mm_boxes mm b = Some mbx" by (rule memberD [OF inv b(1)])
    moreover have "map_of (topic_slot mm ?t) (box_key a) = Some (Some b)"
      using b mailman_invD(2) [OF inv] by (simp add: members_iff [OF inv])
    ultimately have "\<exists>mm'. unregister_mailbox a mm = Inr mm'"
      using a by (simp add: unregister_mailbox_def box_at_def slot_entry_def Let_def)
    with True clear show ?thesis by auto
  next
    case False
    have "map_of (topic_slot mm ?t) (box_key a) = None"
    proof (rule ccontr)
      assume "map_of (topic_slot mm ?t) (box_key a) \<noteq> None"
      then obtain v where v: "(box_key a, v) \<in> set (topic_slot mm ?t)"
        by (auto dest: map_of_SomeD)
      then obtain b where "v = Some b" "box_key a = box_key b"
        using mailman_invD(3) [OF inv v] by (auto elim: entry_okE)
      with v False show False by (auto simp: members_iff [OF inv])
    qed
    then have "unregister_mailbox a mm = Inl Null_deref"
      using a by (simp add: unregister_mailbox_def box_at_def slot_entry_def)
    with False clear show ?thesis by simp
  qed
qed

theorem unregister_missing_faults_witness:
  "unregister_mailbox 4 sample_mailman = Inl Null_deref \<and>
   unregister_mailbox 1 (mailman_clear sample_mailman) = Inl Null_deref"
proof -
  have "mm_boxes sample_mailman 4 = Some \<lparr>mb_topic = ''/u'', mb_incoming = None, mb_outgoing = False\<rparr>"
    and one: "mm_boxes sample_mailman 1 = Some \<lparr>mb_topic = ''/t'', mb_incoming = Some 10, mb_outgoing = True\<rparr>"
    by (simp_all add: sample_mailman_def)
  then have "unregister_mailbox 4 sample_mailman = Inl Null_deref"
    using unregister_missing_faults [OF sample_mailman_inv, THEN conjunct2, THEN conjunct1,
        of 4 "\<lparr>mb_topic = ''/u'', mb_incoming = None, mb_outgoing = False\<rparr>"]
      sample_members(3) [of "''/u''"] by (auto simp: topic_any_def)
  moreover have "unregister_mailbox 1 (mailman_clear sample_mailman) = Inl Null_deref"
    by (rule unregister_missing_faults [OF sample_mailman_inv one, THEN conjunct1])
  ultimately show ?thesis by simp
qed

text \<open>Ids are cut to 32 bits: of two mailboxes of one topic whose addresses agree in the low
  32 bits the second registration silently replaces the first, which receives nothing from
  then on, and unregistering the first takes the second out of the table.\<close>

theorem key_collision_replaces:
  assumes inv: "mailman_inv mm" and a: "mm_boxes mm a = Some ma" and b: "mm_boxes mm b = Some mb"
    and t: "mb_topic ma = t" "mb_topic mb = t" and col: "a \<noteq> b" "box_key a = box_key b"
    and fresh: "\<forall>t. \<forall>c \<in> members mm t. box_key c \<noteq> box_key a"
  shows "\<exists>m1 m2 m3. register_mailbox a mm = Inr m1 \<and> a \<in> members m1 t \<and>
    register_mailbox b m1 = Inr m2 \<and> members m2 t = insert b (members m1 t - {a}) \<and>
    unregister_mailbox a m2 = Inr m3 \<and> members m3 t = members mm t"
proof -
  let ?k = "box_key a" and ?es = "topic_slot mm t"
  have no: "?k \<notin> fst ` set ?es" by (rule fresh_key [OF inv fresh])
  obtain m1 where m1: "register_mailbox a mm = Inr m1" "mailman_inv m1"
      "mm_boxes m1 = (mm_boxes mm)(a \<mapsto> ma\<lparr>mb_outgoing := True\<rparr>)"
      "topic_slot m1 = (topic_slot mm)(t := AList.update ?k (Some a) ?es)"
    using register_mailbox_spec [OF inv a] t by metis
  have s1: "topic_slot m1 t = ?es @ [(?k, Some a)]" using no by (simp add: m1(4) alist_update_new)
  have b1: "mm_boxes m1 b = Some mb" using b col m1(3) by simp
  obtain m2 where m2: "register_mailbox b m1 = Inr m2" "mailman_inv m2"
      "mm_boxes m2 = (mm_boxes m1)(b \<mapsto> mb\<lparr>mb_outgoing := True\<rparr>)"
      "topic_slot m2 = (topic_slot m1)(t := AList.update ?k (Some b) (topic_slot m1 t))"
    using register_mailbox_spec [OF m1(2) b1] t col by metis
  have s2: "topic_slot m2 t = ?es @ [(?k, Some b)]"
    using no by (simp add: m2(4) s1 alist_update_last)
  obtain m3 where m3: "unregister_mailbox a m2 = Inr m3" "topic_slot m3 t = ?es"
  proof -
    have "map_of (topic_slot m2 t) ?k = Some (Some b)"
      using no by (auto simp: s2 map_add_Some_iff map_of_eq_None_iff)
    moreover have "AList.delete ?k (topic_slot m2 t) = ?es"
      using no by (simp add: s2 alist_delete_last)
    moreover have "mm_boxes m2 a = Some (ma\<lparr>mb_outgoing := True\<rparr>)"
      "mm_boxes m2 b = Some (mb\<lparr>mb_outgoing := True\<rparr>)"
      using m2(3) m1(3) col by simp_all
    ultimately show thesis using t
      by (intro that [of "m2\<lparr>mm_boxes := (mm_boxes m2)(b \<mapsto> mb\<lparr>mb_outgoing := True, mb_outgoing := False\<rparr>),
            mm_slots := (if ?es = [] then AList.delete t (mm_slots m2)
                         else AList.update t ?es (mm_slots m2))\<rparr>"])
         (simp_all add: unregister_mailbox_def box_at_def slot_entry_def Let_def topic_slot_update
           topic_slot_delete set_outgoing_mail_callback_def)
  qed
  have notin: "(k, Some a) \<notin> set ?es" "(k, Some b) \<notin> set ?es" for k
    using no mailman_invD(3) [OF inv, of _ t] col by (force elim: entry_okE)+
  then have "a \<in> members m1 t" "members m2 t = insert b (members m1 t - {a})"
    using col(1) by (auto simp: members_def s1 s2)
  moreover have "members m3 t = members mm t" by (simp add: members_def m3(2))
  ultimately show ?thesis using m1(1) m2(1) m3(1) by blast
qed


definition colliding_mailman :: "nat mailman" where
  "colliding_mailman =
     \<lparr>mm_boxes = [1 \<mapsto> \<lparr>mb_topic = ''/t'', mb_incoming = Some 10, mb_outgoing = False\<rparr>,
                  4294967297 \<mapsto> \<lparr>mb_topic = ''/t'', mb_incoming = Some 20, mb_outgoing = False\<rparr>],
      mm_slots = []\<rparr>"

theorem key_collision_replaces_witness:
  "\<exists>m1 m2. register_mailbox 1 colliding_mailman = Inr m1 \<and> register_mailbox 4294967297 m1 = Inr m2 \<and>
    1 \<notin> members m2 ''/t'' \<and> 4294967297 \<in> members m2 ''/t''"
proof -
  have inv: "mailman_inv colliding_mailman"
    and a: "mm_boxes colliding_mailman 1 =
      Some \<lparr>mb_topic = ''/t'', mb_incoming = Some 10, mb_outgoing = False\<rparr>"
    and b: "mm_boxes colliding_mailman 4294967297 =
      Some \<lparr>mb_topic = ''/t'', mb_incoming = Some 20, mb_outgoing = False\<rparr>"
    and fresh: "\<forall>t. \<forall>c \<in> members colliding_mailman t. box_key c \<noteq> box_key 1"
    by (simp_all add: mailman_inv_def colliding_mailman_def members_def topic_slot_def)
  have "box_key 1 = box_key 4294967297"
    by (simp add: box_key_def mailbox_id_def)
  then show ?thesis
    using key_collision_replaces [OF inv a b, of "''/t''"] fresh by auto
qed

end
