(* ===== verification/Socket.thy ===== *)
theory Socket
  imports Results
begin

text \<open>
  \<open>class socket_address\<close> (\<open>socket_address.hpp\<close>) and \<open>class tcp_socket\<close> (\<open>tcp_socket.hpp\<close>,
  \<open>tcp_socket.cpp\<close>, the POSIX branch).

  The kernel is a table of open descriptors with their status flags. What a system call
  returns where the kernel has a choice is an argument of the operation: a return value and
  the \<open>errno\<close> it leaves. The address functions of the C library are the record \<open>resolver\<close>.
  The host is little endian.
\<close>

subsection \<open>Addresses\<close>

record socket_address =
  sa_host :: string
  sa_port :: u16

record sockaddr_in =
  sin_port :: u16
  s_addr :: u32

record resolver =
  inet_addr :: "string \<Rightarrow> u32"
  gethostbyname :: "string \<Rightarrow> u32 option"
  inet_ntoa :: "u32 \<Rightarrow> string"

definition inaddr_any :: u32 where
  "inaddr_any = 0"

definition inaddr_none :: u32 where
  "inaddr_none = 0xFFFFFFFF"

definition htons :: "u16 \<Rightarrow> u16" where
  "htons x = push_bit 8 x OR drop_bit 8 x"

definition socket_address_to_sockaddr :: "resolver \<Rightarrow> socket_address \<Rightarrow> sockaddr_in option" where
  "socket_address_to_sockaddr rs a =
     (let ret = \<lparr>sin_port = htons (sa_port a),
                 s_addr = (if sa_host a = [] then inaddr_any else inet_addr rs (sa_host a))\<rparr>
      in if s_addr ret \<noteq> inaddr_none then Some ret
         else case gethostbyname rs (sa_host a) of
                None \<Rightarrow> None
              | Some h \<Rightarrow> Some (ret\<lparr>s_addr := h\<rparr>))"

definition sockaddr_to_socket_address :: "resolver \<Rightarrow> sockaddr_in \<Rightarrow> socket_address option" where
  "sockaddr_to_socket_address rs a =
     Some \<lparr>sa_host = inet_ntoa rs (s_addr a), sa_port = sin_port a\<rparr>"

subsection \<open>Errors\<close>

definition EAGAIN :: u32 where
  "EAGAIN = 11"

definition get_std_error :: "(u32 \<Rightarrow> string) \<Rightarrow> u32 \<Rightarrow> 'a result" where
  "get_std_error strerror errno = failure (strerror errno) errno"

definition get_std_error_of :: "(u32 \<Rightarrow> string) \<Rightarrow> u32 \<Rightarrow> int \<Rightarrow> void_result" where
  "get_std_error_of strerror errno value =
     (if value < 0 then get_std_error strerror errno else success)"

subsection \<open>The kernel\<close>

type_synonym kernel = "int \<Rightarrow> u32 option"

definition O_NONBLOCK :: u32 where
  "O_NONBLOCK = 0x800"

definition EBADF :: u32 where
  "EBADF = 9"

subsection \<open>Sockets\<close>

record tcp_socket =
  sk_fd :: int
  associated_address :: "socket_address option"

definition tcp_socket_new :: tcp_socket where
  "tcp_socket_new = \<lparr>sk_fd = -1, associated_address = None\<rparr>"

definition is_open :: "tcp_socket \<Rightarrow> bool" where
  "is_open s \<longleftrightarrow> 0 \<le> sk_fd s"

definition fd :: "tcp_socket \<Rightarrow> int option" where
  "fd s = (if sk_fd s < 0 then None else Some (sk_fd s))"

definition not_open :: "'a result" where
  "not_open = failure ''tcp_socket not open'' 0"

definition blocking :: "(u32 \<Rightarrow> string) \<Rightarrow> kernel \<Rightarrow> tcp_socket \<Rightarrow> bool result" where
  "blocking strerror k s =
     (if \<not> is_open s then not_open
      else case k (sk_fd s) of
        None \<Rightarrow> get_std_error strerror EBADF
      | Some flags \<Rightarrow> success_value (flags AND O_NONBLOCK = 0))"

definition set_blocking :: "(u32 \<Rightarrow> string) \<Rightarrow> bool \<Rightarrow> kernel \<Rightarrow> tcp_socket \<Rightarrow> void_result \<times> kernel" where
  "set_blocking strerror block k s =
     (if \<not> is_open s then (not_open, k)
      else case k (sk_fd s) of
        None \<Rightarrow> (get_std_error strerror EBADF, k)
      | Some flags \<Rightarrow>
          let flags' = (if block then flags AND NOT O_NONBLOCK else flags OR O_NONBLOCK)
          in (success, k(sk_fd s \<mapsto> flags')))"

definition setup_socket :: "(u32 \<Rightarrow> string) \<Rightarrow> kernel \<Rightarrow> tcp_socket \<Rightarrow> void_result \<times> kernel" where
  "setup_socket strerror k s = set_blocking strerror False k s"

text \<open>\<open>r\<close> is what \<open>socket()\<close> returns: a new descriptor or a negative number.\<close>

definition tcp_open :: "(u32 \<Rightarrow> string) \<Rightarrow> int \<Rightarrow> u32 \<Rightarrow> kernel \<Rightarrow> tcp_socket \<Rightarrow> void_result \<times> kernel \<times> tcp_socket" where
  "tcp_open strerror r errno k s =
     (let s' = s\<lparr>sk_fd := r\<rparr>;
          k' = (if r < 0 then k else k(r \<mapsto> 0));
          res = get_std_error_of strerror errno r
      in (res, (if to_bool res then snd (setup_socket strerror k' s') else k'), s'))"

definition tcp_close :: "kernel \<Rightarrow> tcp_socket \<Rightarrow> kernel \<times> tcp_socket" where
  "tcp_close k s =
     (if sk_fd s < 0 then (k, s)
      else (k(sk_fd s := None), s\<lparr>sk_fd := -1, associated_address := None\<rparr>))"

definition tcp_bind :: "(u32 \<Rightarrow> string) \<Rightarrow> resolver \<Rightarrow> socket_address \<Rightarrow> int \<Rightarrow> int \<Rightarrow> u32 \<Rightarrow>
    tcp_socket \<Rightarrow> void_result \<times> tcp_socket" where
  "tcp_bind strerror rs address setsockopt_ret bind_ret errno s =
     (if \<not> is_open s then (not_open, s)
      else case socket_address_to_sockaddr rs address of
        None \<Rightarrow> (get_std_error strerror errno, s)
      | Some addr \<Rightarrow>
          let ret = get_std_error_of strerror errno setsockopt_ret in
          if \<not> to_bool ret then (ret, s)
          else let ret' = get_std_error_of strerror errno bind_ret in
            (ret', if to_bool ret' then s\<lparr>associated_address := Some address\<rparr> else s))"

text \<open>
  \<open>const bool blocking_mode = blocking();\<close> converts the result with \<open>operator bool\<close>: the
  local is true whenever the mode could be read.
\<close>

definition tcp_connect :: "(u32 \<Rightarrow> string) \<Rightarrow> resolver \<Rightarrow> socket_address \<Rightarrow> int \<Rightarrow> u32 \<Rightarrow>
    kernel \<Rightarrow> tcp_socket \<Rightarrow> void_result \<times> kernel \<times> tcp_socket" where
  "tcp_connect strerror rs address connect_ret errno k s =
     (if \<not> is_open s then (not_open, k, s)
      else case socket_address_to_sockaddr rs address of
        None \<Rightarrow> (get_std_error strerror errno, k, s)
      | Some addr \<Rightarrow>
          let blocking_mode = to_bool (blocking strerror k s);
              k1 = snd (set_blocking strerror True k s);
              ret = get_std_error_of strerror errno connect_ret;
              k2 = snd (set_blocking strerror blocking_mode k1 s)
          in (ret, k2, if to_bool ret then s\<lparr>associated_address := Some address\<rparr> else s))"

definition tcp_listen :: "(u32 \<Rightarrow> string) \<Rightarrow> int \<Rightarrow> u32 \<Rightarrow> tcp_socket \<Rightarrow> void_result" where
  "tcp_listen strerror listen_ret errno s =
     (if \<not> is_open s then not_open else get_std_error_of strerror errno listen_ret)"

text \<open>\<open>r\<close> is what \<open>accept()\<close> returns and \<open>addr\<close> the peer's address.\<close>

definition tcp_accept :: "(u32 \<Rightarrow> string) \<Rightarrow> resolver \<Rightarrow> int \<Rightarrow> sockaddr_in \<Rightarrow> u32 \<Rightarrow> kernel \<Rightarrow>
    tcp_socket result \<times> kernel" where
  "tcp_accept strerror rs r addr errno k =
     (if r < 0 then (failure (strerror errno) errno, k)
      else let s = \<lparr>sk_fd = r, associated_address = sockaddr_to_socket_address rs addr\<rparr>
           in (success_value s, snd (setup_socket strerror (k(r \<mapsto> 0)) s)))"

text \<open>
  \<open>getsockname\<close> is told that the address buffer has length 0 and stores nothing: the port
  is what the uninitialised local held, \<open>junk\<close>.
\<close>

definition tcp_port :: "u16 \<Rightarrow> tcp_socket \<Rightarrow> u16 option" where
  "tcp_port junk s = (if \<not> is_open s then None else Some junk)"

subsection \<open>Sending and receiving\<close>

text \<open>A system call on a descriptor that is not in the table fails with \<open>EBADF\<close>.\<close>

definition fd_valid :: "kernel \<Rightarrow> tcp_socket \<Rightarrow> bool" where
  "fd_valid k s \<longleftrightarrow> is_open s \<and> k (sk_fd s) \<noteq> None"

text \<open>
  What the kernel has for a reader: data in the pieces in which it arrived, calls that will
  fail, or the end of the stream. A call takes at most the bytes asked for; a peek leaves
  them in place. With nothing left a non-blocking call fails with \<open>EAGAIN\<close>.
\<close>

datatype recv_event = Data "byte list" | Recv_err u32 | Eof

fun sys_recv :: "nat \<Rightarrow> bool \<Rightarrow> recv_event list \<Rightarrow> (u32 + byte list) \<times> recv_event list" where
  "sys_recv n peek [] = (Inl EAGAIN, [])"
| "sys_recv n peek (Recv_err e # es) = (Inl e, es)"
| "sys_recv n peek (Eof # es) = (Inr [], Eof # es)"
| "sys_recv n peek (Data d # es) =
     (Inr (take n d),
      if peek then Data d # es else if n < length d then Data (drop n d) # es else es)"

text \<open>The count, and the bytes stored at \<open>data\<close>.\<close>

definition tcp_recv :: "(u32 \<Rightarrow> string) \<Rightarrow> kernel \<Rightarrow> tcp_socket \<Rightarrow> nat \<Rightarrow> bool \<Rightarrow> recv_event list \<Rightarrow>
    u64 result \<times> byte list \<times> recv_event list" where
  "tcp_recv strerror k s n peek es =
     (case (if fd_valid k s then sys_recv n peek es else (Inl EBADF, es)) of
        (Inl e, es') \<Rightarrow> (failure (strerror e) e, [], es')
      | (Inr d, es') \<Rightarrow> (success_value (word_of_nat (length d)), d, es'))"

text \<open>
  What the kernel does with the next calls of \<open>send\<close>: it takes at most so many bytes, or
  fails. After the listed calls it takes everything.
\<close>

datatype send_event = Sent nat | Send_err u32

fun sys_send :: "byte list \<Rightarrow> send_event list \<Rightarrow> (u32 + nat) \<times> send_event list" where
  "sys_send d [] = (Inr (length d), [])"
| "sys_send d (Sent n # es) = (Inr (min n (length d)), es)"
| "sys_send d (Send_err e # es) = (Inl e, es)"

definition tcp_send :: "(u32 \<Rightarrow> string) \<Rightarrow> kernel \<Rightarrow> tcp_socket \<Rightarrow> byte list \<Rightarrow> send_event list \<Rightarrow>
    u64 result \<times> byte list \<times> send_event list" where
  "tcp_send strerror k s d es =
     (case (if fd_valid k s then sys_send d es else (Inl EBADF, es)) of
        (Inl e, es') \<Rightarrow> (failure (strerror e) e, [], es')
      | (Inr n, es') \<Rightarrow> (success_value (word_of_nat n), take n d, es'))"

subsection \<open>Properties\<close>

lemma get_std_error_of_bool [simp]: "to_bool (get_std_error_of strerror e r) \<longleftrightarrow> 0 \<le> r"
  by (simp add: get_std_error_of_def get_std_error_def)

lemma blocking_flags:
  "is_open s \<Longrightarrow> k (sk_fd s) = Some f \<Longrightarrow> blocking strerror k s = success_value (f AND O_NONBLOCK = 0)"
  by (simp add: blocking_def)

lemma and_nonblock_cleared: "(f AND NOT O_NONBLOCK) AND O_NONBLOCK = 0"
  by (simp add: bit_eq_iff bit_simps O_NONBLOCK_def)

lemma or_nonblock_set: "(f OR O_NONBLOCK) AND O_NONBLOCK = O_NONBLOCK"
  by (auto intro!: bit_eqI simp: bit_simps)

text \<open>
  \<open>set_blocking\<close> and \<open>blocking\<close> are a round trip on an open socket: the mode set is the
  mode read, and no other status flag changes.
\<close>

theorem set_blocking_roundtrip:
  assumes "is_open s" and "k (sk_fd s) = Some f"
    and "set_blocking strerror b k s = (r, k')"
  shows "to_bool r \<and> result_unwrap (blocking strerror k' s) = Inr b \<and>
    (\<exists>f'. k' = k(sk_fd s \<mapsto> f') \<and> f' AND NOT O_NONBLOCK = f AND NOT O_NONBLOCK)"
proof -
  let ?f = "if b then f AND NOT O_NONBLOCK else f OR O_NONBLOCK"
  have k': "r = success" "k' = k(sk_fd s \<mapsto> ?f)"
    using assms by (auto simp: set_blocking_def Let_def split: if_splits)
  have "O_NONBLOCK \<noteq> 0" by (simp add: O_NONBLOCK_def)
  then have "(?f AND O_NONBLOCK = 0) = b"
    by (simp add: and_nonblock_cleared or_nonblock_set)
  then have "result_unwrap (blocking strerror k' s) = Inr b"
    using assms(1) k' by (simp add: blocking_def)
  moreover have "?f AND NOT O_NONBLOCK = f AND NOT O_NONBLOCK"
    by (auto intro!: bit_eqI simp: bit_simps)
  ultimately show ?thesis using k' by auto
qed


theorem set_blocking_roundtrip_witness:
  "\<exists>r k'. set_blocking (\<lambda>_. []) True [3 \<mapsto> 0x802] \<lparr>sk_fd = 3, associated_address = None\<rparr> = (r, k') \<and>
    result_unwrap (blocking (\<lambda>_. []) k' \<lparr>sk_fd = 3, associated_address = None\<rparr>) = Inr True"
proof -
  let ?s = "\<lparr>sk_fd = 3, associated_address = None\<rparr>"
  obtain r k' where e: "set_blocking (\<lambda>_. []) True [3 \<mapsto> 0x802] ?s = (r, k')"
    by (cases "set_blocking (\<lambda>_. []) True [3 \<mapsto> 0x802] ?s")
  show ?thesis
    using set_blocking_roundtrip [OF _ _ e, of "0x802"] e by (auto simp: is_open_def)
qed

lemma set_blocking_flags:
  assumes "is_open s" and "k (sk_fd s) = Some f"
  shows "set_blocking strerror b k s =
    (success, k(sk_fd s \<mapsto> if b then f AND NOT O_NONBLOCK else f OR O_NONBLOCK))"
  using assms by (simp add: set_blocking_def Let_def)

lemma blocking_after_cleared:
  "is_open s \<Longrightarrow> blocking strerror (k(sk_fd s \<mapsto> f AND NOT O_NONBLOCK)) s = success_value True"
  by (simp add: blocking_flags and_nonblock_cleared)

lemma blocking_after_set:
  "is_open s \<Longrightarrow> blocking strerror (k(sk_fd s \<mapsto> f OR O_NONBLOCK)) s = success_value False"
  using blocking_flags [of s "k(sk_fd s \<mapsto> f OR O_NONBLOCK)" "f OR O_NONBLOCK"]
  by (simp add: or_nonblock_set) (simp add: O_NONBLOCK_def)

text \<open>Every socket is made non-blocking when it is opened or accepted, but \<open>connect\<close> loses
  the mode: it stores whether the mode could be read instead of the mode, so after any
  connect that got as far as the system call, successful or not, the socket is blocking.\<close>

theorem connect_leaves_blocking:
  assumes "tcp_open strerror r e1 k s = (ret, k1, s1)" and "to_bool ret"
    and "socket_address_to_sockaddr rs address = Some sa"
    and "tcp_connect strerror rs address c e2 k1 s1 = (ret', k2, s2)"
  shows "result_unwrap (blocking strerror k1 s1) = Inr False \<and>
    result_unwrap (blocking strerror k2 s2) = Inr True \<and>
    (to_bool ret' \<longleftrightarrow> 0 \<le> c) \<and>
    (to_bool ret' \<longrightarrow> associated_address s2 = Some address)"
proof -
  let ?s = "s\<lparr>sk_fd := r\<rparr>"
  have r: "0 \<le> r" and s1: "s1 = ?s"
    using assms(1,2) by (auto simp: tcp_open_def Let_def)
  have o: "is_open ?s" using r by (simp add: is_open_def)
  have k1: "k1 = k(r \<mapsto> 0 OR O_NONBLOCK)"
    using assms(1) r o
    by (auto simp: tcp_open_def Let_def setup_socket_def set_blocking_flags)
  have b1: "blocking strerror k1 s1 = success_value False"
    using blocking_after_set [OF o, of strerror k 0] by (simp add: s1 k1)
  have k2: "k2 = k(r \<mapsto> 0)" and ret': "ret' = get_std_error_of strerror e2 c"
    and s2: "s2 = (if to_bool ret' then s1\<lparr>associated_address := Some address\<rparr> else s1)"
    using assms(3,4) o b1
    by (auto simp: tcp_connect_def Let_def s1 k1 set_blocking_flags)
  have "is_open s2" and fd: "sk_fd s2 = r" using o s1 s2 by (auto simp: is_open_def)
  then have "blocking strerror k2 s2 = success_value True"
    using blocking_after_cleared [of s2 strerror k 0] by (simp add: k2)
  then show ?thesis using b1 ret' s2 by auto
qed

theorem connect_leaves_blocking_witness:
  "\<exists>k1 s1 k2 s2 ret ret' rs.
    tcp_open (\<lambda>_. []) 3 0 (\<lambda>_. None) tcp_socket_new = (ret, k1, s1) \<and>
    tcp_connect (\<lambda>_. []) rs \<lparr>sa_host = ''10.0.0.1'', sa_port = 8374\<rparr> 0 0 k1 s1 = (ret', k2, s2) \<and>
    result_unwrap (blocking (\<lambda>_. []) k2 s2) = Inr True"
proof -
  define rs where "rs = \<lparr>inet_addr = (\<lambda>_. 0x0100000A), gethostbyname = (\<lambda>_. None), inet_ntoa = (\<lambda>_. ''10.0.0.1'')\<rparr>"
  let ?a = "\<lparr>sa_host = ''10.0.0.1'', sa_port = 8374\<rparr>"
  obtain ret k1 s1 where o: "tcp_open (\<lambda>_. []) 3 0 (\<lambda>_. None) tcp_socket_new = (ret, k1, s1)"
    by (rule prod_cases3)
  obtain ret' k2 s2 where c: "tcp_connect (\<lambda>_. []) rs ?a 0 0 k1 s1 = (ret', k2, s2)"
    by (rule prod_cases3)
  have "to_bool ret" using o by (auto simp: tcp_open_def Let_def)
  moreover have "socket_address_to_sockaddr rs ?a =
      Some \<lparr>sin_port = htons 8374, s_addr = 0x0100000A\<rparr>"
    by (simp add: socket_address_to_sockaddr_def rs_def inaddr_none_def)
  ultimately show ?thesis
    using connect_leaves_blocking [OF o _ _ c] o c by blast
qed

lemma htons_htons [simp]: "htons (htons x) = x"
  by (rule bit_word_eqI) (auto simp: htons_def bit_simps)

text \<open>C34: Addresses through the socket interface: for an address the resolver knows, the
  structure handed to the system carries the port in network order, and turning a
  structure back into an address keeps the network order, so the port that comes back is
  byte-swapped: right exactly for ports whose two bytes are equal. The host comes back as the
  resolver's text for it.\<close>

theorem address_port_swapped:
  assumes "socket_address_to_sockaddr rs a = Some sa"
  shows "sin_port sa = htons (sa_port a) \<and>
    (\<exists>a'. sockaddr_to_socket_address rs sa = Some a' \<and> sa_host a' = inet_ntoa rs (s_addr sa) \<and>
       htons (sa_port a') = sa_port a \<and>
       (sa_port a' = sa_port a \<longleftrightarrow> (\<forall>n < 8. bit (sa_port a) n = bit (sa_port a) (n + 8))))"
proof -
  have p: "sin_port sa = htons (sa_port a)"
    using assms by (auto simp: socket_address_to_sockaddr_def Let_def split: if_splits option.splits)
  have "htons x = x \<longleftrightarrow> (\<forall>n < 8. bit x n = bit x (n + 8))" for x :: u16
  proof
    assume h: "htons x = x"
    show "\<forall>n < 8. bit x n = bit x (n + 8)"
    proof (intro allI impI)
      fix n :: nat assume n: "n < 8"
      have "bit (htons x) n = bit x (n + 8)"
        using n by (auto simp: htons_def bit_simps add.commute)
      then show "bit x n = bit x (n + 8)" by (simp add: h)
    qed
  next
    assume eq: "\<forall>n < 8. bit x n = bit x (n + 8)"
    show "htons x = x"
    proof (rule bit_word_eqI)
      fix n assume n: "n < LENGTH(16)"
      show "bit (htons x) n = bit x n"
      proof (cases "n < 8")
        case True then show ?thesis using eq by (auto simp: htons_def bit_simps add.commute)
      next
        case False
        with n have "bit (htons x) n = bit x (n - 8)"
          by (auto simp: htons_def bit_simps dest: bit_imp_le_length)
        moreover have "bit x (n - 8) = bit x (n - 8 + 8)" using eq n False by simp
        ultimately show ?thesis using False by simp
      qed
    qed
  qed
  then show ?thesis by (simp add: p sockaddr_to_socket_address_def)
qed

theorem address_port_swapped_witness:
  "\<exists>a'. sockaddr_to_socket_address
      \<lparr>inet_addr = (\<lambda>_. 0x0100000A), gethostbyname = (\<lambda>_. None), inet_ntoa = (\<lambda>_. ''10.0.0.1'')\<rparr>
      \<lparr>sin_port = 0x00FF, s_addr = 0x0100000A\<rparr> = Some a' \<and> sa_port a' \<noteq> 0xFF00 \<and> htons (sa_port a') = 0xFF00"
proof -
  let ?rs = "\<lparr>inet_addr = (\<lambda>_. 0x0100000A), gethostbyname = (\<lambda>_. None), inet_ntoa = (\<lambda>_. ''10.0.0.1'')\<rparr>"
  have "htons 0xFF00 = (0x00FF :: u16)" by (simp add: htons_def)
  then have "socket_address_to_sockaddr ?rs \<lparr>sa_host = ''10.0.0.1'', sa_port = 0xFF00\<rparr> =
      Some \<lparr>sin_port = 0x00FF, s_addr = 0x0100000A\<rparr>"
    by (simp add: socket_address_to_sockaddr_def inaddr_none_def)
  from address_port_swapped [OF this] obtain a' where
    a': "sockaddr_to_socket_address ?rs \<lparr>sin_port = 0x00FF, s_addr = 0x0100000A\<rparr> = Some a'"
      "htons (sa_port a') = 0xFF00"
    by auto
  moreover from a' have "sa_port a' = 0x00FF"
    by (auto simp: sockaddr_to_socket_address_def)
  ultimately show ?thesis by auto
qed

end
