(* ===== verification/Channels.thy ===== *)
theory Channels
  imports Packet Socket
begin

text \<open>
  \<open>tcp_input_channel\<close> and \<open>tcp_output_channel\<close>: packets as documents one after the other on a
  byte stream. A BSON document starts with its own length, 32 bits, little endian; the input
  channel collects bytes in \<open>_buffer\<close> until a document is complete. What the kernel does is
  the event list of \<open>Socket\<close>; the socket the channel points to is an argument.
\<close>

subsection \<open>The output channel\<close>

text \<open>\<open>*reinterpret_cast<uint32_t *>(_buffer.data())\<close> on a little-endian host.\<close>

definition le32 :: "byte list \<Rightarrow> u32" where
  "le32 bs = ucast (bs ! 0) OR push_bit 8 (ucast (bs ! 1)) OR push_bit 16 (ucast (bs ! 2))
     OR push_bit 24 (ucast (bs ! 3))"

text \<open>
  The loop of \<open>write\<close>. The document's \<open>len\<close> is the number of its bytes. \<open>wire\<close> collects
  what the kernel has taken.
\<close>

function write_loop :: "(u32 \<Rightarrow> string) \<Rightarrow> kernel \<Rightarrow> tcp_socket \<Rightarrow> byte list \<Rightarrow> u32 \<Rightarrow> send_event list \<Rightarrow>
    byte list \<Rightarrow> (void_result \<times> send_event list \<times> byte list) exec" where
  "write_loop strerror k s data written es wire =
     (let size = word_of_nat (length data) :: u32 in
      if \<not> written < size then Inr (success, es, wire)
      else case tcp_send strerror k s (take (unat (size - written)) (drop (unat written) data)) es of
        (ret, sent, es') \<Rightarrow>
          if res_code ret = EAGAIN then write_loop strerror k s data written es' wire
          else if \<not> to_bool ret then Inr (to_void_result ret, es', wire)
          else case result_unwrap ret of
            Inl f \<Rightarrow> Inl f
          | Inr n \<Rightarrow> write_loop strerror k s data (written + ucast n) es' (wire @ sent))"
  by pat_completeness auto

lemma take_min_length: "take (min n (length d)) d = take n d"
  by (simp add: min_def)

text \<open>What one call of \<open>send\<close> does to the script and to the count of bytes.\<close>

lemma tcp_send_valid:
  "fd_valid k s \<Longrightarrow> tcp_send strerror k s d [] = (success_value (word_of_nat (length d)), d, [])"
  "fd_valid k s \<Longrightarrow> tcp_send strerror k s d (Sent n # es) =
    (success_value (word_of_nat (min n (length d))), take n d, es)"
  "fd_valid k s \<Longrightarrow> tcp_send strerror k s d (Send_err e # es) = (failure (strerror e) e, [], es)"
  "\<not> fd_valid k s \<Longrightarrow> tcp_send strerror k s d es = (failure (strerror EBADF) EBADF, [], es)"
  by (simp_all add: tcp_send_def take_min_length)

lemma chunk_length:
  fixes written :: u32
  assumes "written < word_of_nat (length data)"
  shows "length (take (unat (word_of_nat (length data) - written)) (drop (unat written) data)) =
      unat (word_of_nat (length data) - written)"
    and "unat (word_of_nat (length data) - written) = unat (word_of_nat (length data) :: u32) - unat written"
    and "0 < unat (word_of_nat (length data) - written)"
proof -
  let ?s = "word_of_nat (length data) :: u32"
  have le: "unat ?s \<le> length data" by (simp add: unat_of_nat)
  have lt: "unat written < unat ?s" using assms by (simp add: word_less_nat_alt)
  show d: "unat (?s - written) = unat ?s - unat written"
    using assms by (simp add: unat_sub)
  show "0 < unat (?s - written)" using d lt by simp
  show "length (take (unat (?s - written)) (drop (unat written) data)) = unat (?s - written)"
    using d le by simp
qed

lemma written_step:
  fixes written :: u32
  assumes w: "written < word_of_nat (length data)"
    and n: "n \<le> unat (word_of_nat (length data) - written)"
  shows "unat (written + ucast (word_of_nat n :: u64)) = unat written + n"
proof -
  let ?s = "word_of_nat (length data) :: u32"
  have "unat ?s < 2 ^ LENGTH(32)" by (rule unsigned_less)
  then have s: "unat ?s < 2 ^ 32" by simp
  have "n \<le> unat ?s - unat written" using n chunk_length(2) [OF w] by simp
  moreover have "unat written < unat ?s" using w by (simp add: word_less_nat_alt)
  ultimately have b: "unat written + n < 2 ^ 32" "n < 2 ^ 32" using s by linarith+
  have "unat (ucast (word_of_nat n :: u64) :: u32) = n"
    using b by (simp add: unat_u32_of_u64 unat_u64_of_nat)
  then show ?thesis using b by (simp add: unat_word_ariths)
qed

lemmas no_error_codes = EAGAIN_def EBADF_def

text \<open>
  The loop ends: every call of \<open>send\<close> uses up a step of the kernel's script, and after the
  script everything is taken at once.
\<close>

lemma write_loop_progress:
  fixes written :: u32
  assumes w: "written < word_of_nat (length data)"
    and s: "tcp_send strerror k s (take (unat (word_of_nat (length data) - written)) (drop (unat written) data)) es =
      (ret, sent, es')"
    and "to_bool ret"
  shows "\<exists>n. result_unwrap ret = Inr (word_of_nat n) \<and> n \<le> unat (word_of_nat (length data) - written) \<and>
    length sent = n \<and> length es' + (unat (word_of_nat (length data) :: u32) - unat written - n)
      < length es + (unat (word_of_nat (length data) :: u32) - unat written)"
proof -
  let ?m = "unat (word_of_nat (length data) - written)"
  let ?d = "take ?m (drop (unat written) data)"
  note c = chunk_length [OF w]
  have v: "fd_valid k s" using s assms(3) by (auto simp: tcp_send_def split: if_splits)
  show ?thesis
  proof (cases es)
    case Nil
    then have "ret = success_value (word_of_nat ?m)" "sent = ?d" "es' = []"
      using s v c(1) by (auto simp: tcp_send_valid)
    then show ?thesis using Nil c by (intro exI [of _ ?m]) simp
  next
    case (Cons e es1)
    show ?thesis
    proof (cases e)
      case (Sent n)
      then have "ret = success_value (word_of_nat (min n ?m))" "sent = take n ?d" "es' = es1"
        using s v c(1) Cons by (auto simp: tcp_send_valid)
      then show ?thesis using Cons c by (intro exI [of _ "min n ?m"]) (auto simp: min.commute)
    next
      case (Send_err err)
      then show ?thesis using s v Cons assms(3) by (auto simp: tcp_send_valid)
    qed
  qed
qed

lemma again_uses_event:
  assumes "tcp_send strerror k s d es = (ret, sent, es')" and "res_code ret = EAGAIN"
  shows "length es' < length es"
  using assms
  by (cases es; cases "fd_valid k s"; cases "hd es")
     (auto simp: tcp_send_valid no_error_codes)

termination write_loop
proof (relation "measure (\<lambda>(strerror, k, s, data, written, es, wire).
    length es + (unat (word_of_nat (length data) :: u32) - unat written))")
  fix strerror :: "u32 \<Rightarrow> string" and k s data and written size :: u32 and es wire x y ret sent es'
  assume size: "size = word_of_nat (length data)" and w: "\<not> \<not> written < size"
    and x: "(ret, y) = tcp_send strerror k s (take (unat (size - written)) (drop (unat written) data)) es"
    and y: "(sent, es') = y"
  note s = x [folded y, symmetric, unfolded size]
  have w: "written < word_of_nat (length data)" using w by (simp add: size)
  {
    assume "res_code ret = EAGAIN"
    from again_uses_event [OF s this]
    show "((strerror, k, s, data, written, es', wire), strerror, k, s, data, written, es, wire)
      \<in> measure (\<lambda>(strerror, k, s, data, written, es, wire).
          length es + (unat (word_of_nat (length data) :: u32) - unat written))"
      by simp
  next
    fix n assume b: "\<not> \<not> to_bool ret" and n: "result_unwrap ret = Inr n"
    from b have "to_bool ret" by simp
    from write_loop_progress [OF w s this] n obtain m where
      m: "n = word_of_nat m" "m \<le> unat (word_of_nat (length data) - written)"
        "length es' + (unat (word_of_nat (length data) :: u32) - unat written - m)
          < length es + (unat (word_of_nat (length data) :: u32) - unat written)"
      by auto
    from written_step [OF w m(2)] m
    show "((strerror, k, s, data, written + ucast n, es', wire @ sent), strerror, k, s, data, written, es, wire)
      \<in> measure (\<lambda>(strerror, k, s, data, written, es, wire).
          length es + (unat (word_of_nat (length data) :: u32) - unat written))"
      by simp
  }
qed simp

declare write_loop.simps [simp del]

text \<open>One turn of the loop for each thing the kernel may do.\<close>

lemma write_loop_done:
  "\<not> written < (word_of_nat (length data) :: u32) \<Longrightarrow>
   write_loop strerror k s data written es wire = Inr (success, es, wire)"
  by (simp add: write_loop.simps [of strerror k s data written])

lemma write_loop_again:
  "fd_valid k s \<Longrightarrow> written < word_of_nat (length data) \<Longrightarrow>
   write_loop strerror k s data written (Send_err EAGAIN # es) wire =
   write_loop strerror k s data written es wire"
  by (subst write_loop.simps) (simp add: tcp_send_valid)

lemma write_loop_hard:
  "fd_valid k s \<Longrightarrow> written < word_of_nat (length data) \<Longrightarrow> e \<noteq> EAGAIN \<Longrightarrow>
   write_loop strerror k s data written (Send_err e # es) wire =
   Inr (to_void_result (failure (strerror e) e :: u64 result), es, wire)"
  by (subst write_loop.simps) (simp add: tcp_send_valid)

lemma write_loop_sent:
  fixes written :: u32
  assumes "fd_valid k s" and w: "written < word_of_nat (length data)"
  defines "rest \<equiv> take (unat (word_of_nat (length data) - written)) (drop (unat written) data)"
  shows "write_loop strerror k s data written (Sent n # es) wire =
    write_loop strerror k s data (written + ucast (word_of_nat (min n (length rest)) :: u64)) es
      (wire @ take n rest)"
  using assms by (subst write_loop.simps) (simp add: tcp_send_valid no_error_codes Let_def)

lemma write_loop_all:
  fixes written :: u32
  assumes v: "fd_valid k s" and w: "written < word_of_nat (length data)" and "length data < 2 ^ 32"
  shows "write_loop strerror k s data written [] wire = Inr (success, [], wire @ drop (unat written) data)"
proof -
  have l: "unat (word_of_nat (length data) :: u32) = length data"
    using assms(3) by (simp add: unat_of_nat)
  have d: "take (unat (word_of_nat (length data) - written)) (drop (unat written) data) = drop (unat written) data"
    using chunk_length [OF w] l by simp
  have "unat (written + ucast (word_of_nat (length data - unat written) :: u64)) = length data"
    using written_step [OF w order_refl] chunk_length [OF w] l w by (simp add: word_less_nat_alt)
  then have e: "\<not> written + ucast (word_of_nat (length data - unat written) :: u64) < (word_of_nat (length data) :: u32)"
    by (simp add: word_less_nat_alt l)
  show ?thesis
    using v w d by (subst write_loop.simps)
      (simp add: tcp_send_valid no_error_codes write_loop_done [OF e])
qed

definition soft :: "send_event \<Rightarrow> bool" where
  "soft e \<longleftrightarrow> (case e of Sent n \<Rightarrow> True | Send_err c \<Rightarrow> c = EAGAIN)"

fun sent_total :: "send_event list \<Rightarrow> nat" where
  "sent_total [] = 0"
| "sent_total (Sent n # es) = n + sent_total es"
| "sent_total (Send_err e # es) = sent_total es"

text \<open>
  How a write can end: everything taken, or a failing call when the calls before it had
  taken less than everything.
\<close>

definition write_ends :: "nat \<Rightarrow> send_event list \<Rightarrow> void_result \<Rightarrow> send_event list \<Rightarrow> nat \<Rightarrow> bool" where
  "write_ends n es r es' m \<longleftrightarrow> to_bool r \<and>
     (m = n \<and> result_unwrap r = Inr True \<and> (\<exists>pre. es = pre @ es' \<and> (\<forall>e \<in> set pre. soft e)) \<or>
      m < n \<and> result_unwrap r = Inr False \<and>
        (\<exists>pre e. es = pre @ Send_err e # es' \<and> e \<noteq> EAGAIN \<and> (\<forall>e \<in> set pre. soft e) \<and> sent_total pre = m))"

lemma write_ends_done: "write_ends 0 es success es 0"
  by (simp add: write_ends_def success_def)

lemma write_ends_all: "write_ends n [] success [] n"
  by (simp add: write_ends_def success_def)

lemma write_ends_hard:
  assumes "0 < n" and "e \<noteq> EAGAIN"
  shows "write_ends n (Send_err e # es) (to_void_result (failure msg c :: 'a result)) es 0"
proof -
  have "\<exists>pre e'. Send_err e # es = pre @ Send_err e' # es \<and> e' \<noteq> EAGAIN \<and> (\<forall>x \<in> set pre. soft x) \<and> sent_total pre = 0"
    using assms(2) by (intro exI [of _ "[]"] exI [of _ e]) simp
  then show ?thesis
    using assms(1) by (simp add: write_ends_def to_void_result_def failure_def to_bool_def result_of_message_def)
qed

lemma write_ends_step:
  assumes w: "write_ends (n - min j n) es r es' m" and e: "soft e"
    and "sent_total [e] = j" and "0 < n"
  shows "write_ends n (e # es) r es' (min j n + m)"
proof -
  have t: "sent_total (e # pre) = j + sent_total pre" for pre
    using assms(3) by (cases e) auto
  have r: "to_bool r" using w by (simp add: write_ends_def)
  from w consider
      (all) pre where "m = n - min j n" "result_unwrap r = Inr True" "es = pre @ es'" "\<forall>e \<in> set pre. soft e"
    | (err) pre c where "m < n - min j n" "result_unwrap r = Inr False" "es = pre @ Send_err c # es'"
        "c \<noteq> EAGAIN" "\<forall>e \<in> set pre. soft e" "sent_total pre = m"
    unfolding write_ends_def by blast
  then show ?thesis
  proof cases
    case all
    then have "e # es = (e # pre) @ es'" "\<forall>x \<in> set (e # pre). soft x" using e by auto
    moreover have "min j n + m = n" using all by simp
    ultimately show ?thesis unfolding write_ends_def using r all by blast
  next
    case err
    then have "e # es = (e # pre) @ Send_err c # es'" "\<forall>x \<in> set (e # pre). soft x" using e by auto
    moreover have "min j n + m < n" "sent_total (e # pre) = min j n + m" using err t by auto
    ultimately show ?thesis unfolding write_ends_def using r err by blast
  qed
qed

lemma write_loop_ends:
  fixes written :: u32
  assumes v: "fd_valid k s" and l: "length data < 2 ^ 32" and "unat written \<le> length data"
  shows "\<exists>r es' m. write_loop strerror k s data written es wire =
      Inr (r, es', wire @ take m (drop (unat written) data)) \<and>
    write_ends (length data - unat written) es r es' m"
proof -
  have size: "unat (word_of_nat (length data) :: u32) = length data"
    using l by (simp add: unat_of_nat)
  have lt: "written < word_of_nat (length data) \<longleftrightarrow> unat written < length data" for written :: u32
    by (simp add: word_less_nat_alt size)
  define P where "P written es wire \<longleftrightarrow> (\<exists>r es' m. write_loop strerror k s data written es wire =
      Inr (r, es', wire @ take m (drop (unat written) data)) \<and>
    write_ends (length data - unat written) es r es' m)" for written es wire
  have finished: "P written es wire" if "unat written = length data" for written es wire
    using that write_ends_done [of es] by (force simp: P_def lt write_loop_done)
  have "P written es wire" if "unat written \<le> length data"
    using that
  proof (induction es arbitrary: written wire)
    case (Nil written wire)
    show ?case
    proof (cases "unat written < length data")
      case True
      then show ?thesis
        using write_loop_all [OF v _ l, of written strerror wire] write_ends_all [of "length data - unat written"]
        unfolding P_def lt by (intro exI [of _ success] exI [of _ "[]"] exI [of _ "length data - unat written"]) simp
    next
      case False
      with Nil show ?thesis by (intro finished) simp
    qed
  next
    case (Cons e es written wire)
    show ?case
    proof (cases "unat written < length data")
      case False
      with Cons.prems show ?thesis by (intro finished) simp
    next
      case True
      then have w: "written < word_of_nat (length data)" by (simp add: lt)
      let ?n = "length data - unat written"
      have n: "0 < ?n" using True by simp
      show ?thesis
      proof (cases e)
        case (Sent j)
        let ?w = "written + ucast (word_of_nat (min j ?n) :: u64)"
        have u: "unat ?w = unat written + min j ?n"
          using written_step [OF w, of "min j ?n"] chunk_length [OF w] size by simp
        have "P ?w es (wire @ take j (drop (unat written) data))"
          using u True by (intro Cons.IH) simp
        then obtain r es' m where
          r: "write_loop strerror k s data ?w es (wire @ take j (drop (unat written) data)) =
              Inr (r, es', (wire @ take j (drop (unat written) data)) @ take m (drop (unat ?w) data))"
            "write_ends (?n - min j ?n) es r es' m"
          unfolding P_def u by auto
        have "write_ends ?n (e # es) r es' (min j ?n + m)"
          using write_ends_step [OF r(2)] n Sent by (simp add: soft_def)
        moreover have "write_loop strerror k s data written (e # es) wire =
            Inr (r, es', wire @ take (min j ?n + m) (drop (unat written) data))"
        proof -
          let ?D = "drop (unat written) data"
          have c: "unat (word_of_nat (length data) - written) = ?n" "length ?D = ?n"
            using chunk_length(2) [OF w] size by simp_all
          have "drop (unat ?w) data = drop (min j ?n) ?D" by (simp only: u drop_drop add.commute)
          moreover have "take j ?D @ take m (drop (min j ?n) ?D) = take (min j ?n + m) ?D"
            using take_min_length [of j ?D] by (simp only: take_add c(2))
          moreover have "write_loop strerror k s data written (e # es) wire =
              write_loop strerror k s data ?w es (wire @ take j ?D)"
            using write_loop_sent [OF v w, of strerror j es wire] by (simp add: c Sent)
          ultimately show ?thesis using r(1) by simp
        qed
        ultimately show ?thesis unfolding P_def by blast
      next
        case (Send_err c)
        show ?thesis
        proof (cases "c = EAGAIN")
          case True
          have "P written es wire" using Cons by simp
          then obtain r es' m where
            r: "write_loop strerror k s data written es wire = Inr (r, es', wire @ take m (drop (unat written) data))"
              "write_ends ?n es r es' m"
            unfolding P_def by blast
          have "write_ends ?n (e # es) r es' (min 0 ?n + m)"
            by (rule write_ends_step) (use r n Send_err True in \<open>auto simp: soft_def\<close>)
          then show ?thesis
            using r(1) write_loop_again [OF v w] unfolding P_def Send_err True by fastforce
        next
          case False
          then show ?thesis
            using write_loop_hard [OF v w False] write_ends_hard [OF n False, of es "strerror c" c, where 'a = u64]
            unfolding P_def Send_err by fastforce
        qed
      qed
    qed
  qed
  then show ?thesis using assms(3) by (simp add: P_def)
qed

text \<open>
  \<open>write\<close>. A packet that was not built has no document: \<open>p.packed()->len\<close> goes through a
  null pointer.
\<close>

definition tcp_output_write :: "'b bson_lib \<Rightarrow> (u32 \<Rightarrow> string) \<Rightarrow> kernel \<Rightarrow> tcp_socket \<Rightarrow> 'b packet \<Rightarrow>
    send_event list \<Rightarrow> byte list \<Rightarrow> (void_result \<times> send_event list \<times> byte list) exec" where
  "tcp_output_write lib strerror k s p es wire =
     (case p_packed p of
        None \<Rightarrow> Inl Null_deref
      | Some doc \<Rightarrow> write_loop strerror k s (bson_data lib doc) 0 es wire)"

text \<open>\<open>is_available\<close> of either channel: \<open>socket\<close> is \<open>None\<close> for a null pointer.\<close>

definition channel_available :: "tcp_socket option \<Rightarrow> bool" where
  "channel_available socket = (case socket of None \<Rightarrow> False | Some s \<Rightarrow> is_open s)"

subsection \<open>The input channel\<close>

text \<open>
  One conditional \<open>recv\<close> of \<open>read\<close>: when the buffer holds fewer than \<open>n\<close> bytes, ask for
  as many as the local array holds and append them. \<open>Inl\<close> is the early return.
\<close>

definition input_fill :: "(u32 \<Rightarrow> string) \<Rightarrow> kernel \<Rightarrow> tcp_socket \<Rightarrow> nat \<Rightarrow> byte list \<Rightarrow> recv_event list \<Rightarrow>
    u64 result option \<times> byte list \<times> recv_event list" where
  "input_fill strerror k s n buffer es =
     (if length buffer < n
      then case tcp_recv strerror k s 0xFFFF False es of
        (ret, d, es') \<Rightarrow>
          if \<not> to_bool ret then (Some ret, buffer, es') else (None, buffer @ d, es')
      else (None, buffer, es))"

definition out_of_time :: "'a result" where
  "out_of_time = failure ''Ran out of time'' EAGAIN"

text \<open>
  \<open>read\<close>: the result, the buffer and what the kernel still has. \<open>junk\<close> is the flag the
  packet's constructor leaves uninitialised.
\<close>

definition tcp_input_read :: "bool \<Rightarrow> 'b bson_lib \<Rightarrow> bool \<Rightarrow> (u32 \<Rightarrow> string) \<Rightarrow> kernel \<Rightarrow> tcp_socket \<Rightarrow>
    byte list \<Rightarrow> recv_event list \<Rightarrow> ('b packet result \<times> byte list \<times> recv_event list) exec" where
  "tcp_input_read dbg lib junk strerror k s buffer es =
     exec_bind (assert_result_eq dbg (blocking strerror k s) False) (\<lambda>_.
       case input_fill strerror k s 4 buffer es of
         (Some ret, buffer1, es1) \<Rightarrow> Inr (failure (res_message ret) (res_code ret), buffer1, es1)
       | (None, buffer1, es1) \<Rightarrow>
         if length buffer1 < 4 then Inr (out_of_time, buffer1, es1)
         else let target_size = unat (le32 buffer1) in
           case input_fill strerror k s target_size buffer1 es1 of
             (Some ret, buffer2, es2) \<Rightarrow> Inr (failure (res_message ret) (res_code ret), buffer2, es2)
           | (None, buffer2, es2) \<Rightarrow>
             if length buffer2 < target_size then Inr (out_of_time, buffer2, es2)
             else if \<not> reader_ok lib (take target_size buffer2)
             then Inr (failure ''Could not create the BSON reader'' 0, drop target_size buffer2, es2)
             else
               exec_bind (bson_of_const (bson_read lib (take target_size buffer2))) (\<lambda>doc.
               exec_bind (packet_of_packed lib junk doc) (\<lambda>p.
                 Inr (success_value (packet_copy p), drop target_size buffer2, es2))))"

text \<open>A client that reads again and again, and the packets it gets.\<close>

fun read_many :: "nat \<Rightarrow> bool \<Rightarrow> 'b bson_lib \<Rightarrow> bool \<Rightarrow> (u32 \<Rightarrow> string) \<Rightarrow> kernel \<Rightarrow> tcp_socket \<Rightarrow>
    byte list \<Rightarrow> recv_event list \<Rightarrow> ('b packet list \<times> byte list \<times> recv_event list) exec" where
  "read_many 0 dbg lib junk strerror k s buffer es = Inr ([], buffer, es)"
| "read_many (Suc n) dbg lib junk strerror k s buffer es =
     exec_bind (tcp_input_read dbg lib junk strerror k s buffer es) (\<lambda>(ret, buffer', es').
     exec_bind (read_many n dbg lib junk strerror k s buffer' es') (\<lambda>(ps, rest).
       case res_ret ret of None \<Rightarrow> Inr (ps, rest) | Some p \<Rightarrow> Inr (p # ps, rest)))"

subsection \<open>Framing\<close>

text \<open>
  The bytes the kernel will hand out, and a script whose calls deliver data or would block.
\<close>

fun stream :: "recv_event list \<Rightarrow> byte list" where
  "stream [] = []"
| "stream (Data d # es) = d @ stream es"
| "stream (e # es) = stream es"

definition delivers :: "recv_event \<Rightarrow> bool" where
  "delivers e \<longleftrightarrow> (case e of Data d \<Rightarrow> d \<noteq> [] | Recv_err c \<Rightarrow> c = EAGAIN | Eof \<Rightarrow> False)"

text \<open>\<open>d\<close> is the wire form of a document that becomes the packet \<open>p\<close> at the receiver.\<close>

definition frame_ok :: "'b bson_lib \<Rightarrow> bool \<Rightarrow> byte list \<Rightarrow> 'b packet \<Rightarrow> bool" where
  "frame_ok lib junk d p \<longleftrightarrow>
     4 \<le> length d \<and> unat (le32 d) = length d \<and> reader_ok lib d \<and>
     (\<exists>b. bson_read lib d = Some b \<and> packet_of_packed lib junk (Some b) = Inr p)"

lemma le32_append: "4 \<le> length a \<Longrightarrow> le32 (a @ b) = le32 a"
  unfolding le32_def by (subst (1 2 3 4) nth_append) auto

lemma le32_take: "4 \<le> n \<Longrightarrow> 4 \<le> length a \<Longrightarrow> le32 (take n a) = le32 a"
  by (simp add: le32_def)

text \<open>What is left to do: bytes to move, calls to make.\<close>

definition work :: "byte list \<Rightarrow> recv_event list \<Rightarrow> nat" where
  "work buffer es = length buffer + 2 * length (stream es) + length es"

lemma sys_recv_delivers:
  assumes "\<forall>e \<in> set es. delivers e"
  obtains (nothing) "es = []" "sys_recv 0xFFFF False es = (Inl EAGAIN, [])"
    | (again) es' where "es = Recv_err EAGAIN # es'" "sys_recv 0xFFFF False es = (Inl EAGAIN, es')"
    | (data) d es' where "sys_recv 0xFFFF False es = (Inr d, es')" "d \<noteq> []" "stream es = d @ stream es'"
        "length es' \<le> length es" "\<forall>e \<in> set es'. delivers e"
proof (cases es)
  case Nil
  show thesis by (rule nothing) (simp_all add: Nil)
next
  case (Cons e es1)
  show thesis
  proof (cases e)
    case (Data c)
    show thesis
    proof (cases "0xFFFF < length c")
      case True
      then have "drop 0xFFFF c \<noteq> []" by simp
      then show thesis
        using data [of "take 0xFFFF c" "Data (drop 0xFFFF c) # es1"] assms True
        by (auto simp: Cons Data delivers_def)
    next
      case False
      then show thesis using data [of c es1] assms by (auto simp: Cons Data delivers_def)
    qed
  next
    case (Recv_err c)
    then show thesis using assms again [of es1] by (auto simp: Cons delivers_def)
  next
    case Eof
    then show thesis using assms by (auto simp: Cons delivers_def)
  qed
qed

lemma input_fill_delivers:
  assumes v: "fd_valid k s" and d: "\<forall>e \<in> set es. delivers e"
  obtains (enough) "n \<le> length buffer" "input_fill strerror k s n buffer es = (None, buffer, es)"
    | (more) buffer' es' where "length buffer < n" "input_fill strerror k s n buffer es = (None, buffer', es')"
        "buffer' @ stream es' = buffer @ stream es" "work buffer' es' < work buffer es"
        "\<forall>e \<in> set es'. delivers e"
    | (again) ret es' where "length buffer < n" "input_fill strerror k s n buffer es = (Some ret, buffer, es')"
        "res_code ret = EAGAIN" "stream es' = stream es" "work buffer es' < work buffer es \<or> es = [] \<and> es' = []"
        "\<forall>e \<in> set es'. delivers e"
proof (cases "length buffer < n")
  case False then show thesis using enough by (simp add: input_fill_def)
next
  case True
  from d show thesis
  proof (cases rule: sys_recv_delivers)
    case nothing
    then show thesis using v True again [of "failure (strerror EAGAIN) EAGAIN" "[]"]
      by (simp add: input_fill_def tcp_recv_def)
  next
    case (again es')
    then show thesis using v d True that(3) [of "failure (strerror EAGAIN) EAGAIN" es']
      by (simp add: input_fill_def tcp_recv_def work_def)
  next
    case (data b es')
    then have "work (buffer @ b) es' < work buffer es" by (cases b) (auto simp: work_def)
    then show thesis using v True more [of "buffer @ b" es'] data
      by (simp add: input_fill_def tcp_recv_def)
  qed
qed

lemma assert_nonblocking:
  "blocking strerror k s = success_value False \<Longrightarrow> assert_result_eq dbg (blocking strerror k s) False = Inr ()"
  by (simp add: assert_result_eq_def)

text \<open>One call of \<open>read\<close> on a stream that consists of frames.\<close>

lemma read_step:
  assumes v: "fd_valid k s" and b: "blocking strerror k s = success_value False"
    and d: "\<forall>e \<in> set es. delivers e"
    and f: "list_all2 (frame_ok lib junk) fs ps" and c: "buffer @ stream es = concat fs"
  obtains (packet) f0 fs' p ps' buffer' es' where
      "tcp_input_read dbg lib junk strerror k s buffer es = Inr (success_value p, buffer', es')"
      "fs = f0 # fs'" "ps = p # ps'" "buffer' @ stream es' = concat fs'" "work buffer' es' < work buffer es"
      "\<forall>e \<in> set es'. delivers e"
    | (wait) ret buffer' es' where
      "tcp_input_read dbg lib junk strerror k s buffer es = Inr (ret, buffer', es')"
      "res_ret ret = None" "res_code ret = EAGAIN" "buffer' @ stream es' = concat fs"
      "work buffer' es' < work buffer es \<or> fs = [] \<and> buffer' = [] \<and> es' = []" "\<forall>e \<in> set es'. delivers e"
      "\<not> to_bool ret"
proof -
  define R where "R = tcp_input_read dbg lib junk strerror k s buffer es"
  have wait': thesis if "R = Inr (failure m EAGAIN, buffer', es')" "buffer' @ stream es' = concat fs"
      "work buffer' es' < work buffer es \<or> fs = [] \<and> buffer' = [] \<and> es' = []"
      "\<forall>e \<in> set es'. delivers e" for m buffer' es'
    using that wait [of "failure m EAGAIN" buffer' es'] by (simp add: R_def failure_def)
  have whole: thesis
    if r: "R = (if length B2 < unat (le32 B1) then Inr (out_of_time, B2, E2)
             else if \<not> reader_ok lib (take (unat (le32 B1)) B2)
             then Inr (failure ''Could not create the BSON reader'' 0, drop (unat (le32 B1)) B2, E2)
             else exec_bind (bson_of_const (bson_read lib (take (unat (le32 B1)) B2))) (\<lambda>doc.
               exec_bind (packet_of_packed lib junk doc) (\<lambda>p.
                 Inr (success_value (packet_copy p), drop (unat (le32 B1)) B2, E2))))"
      and i1: "B1 @ stream E1 = concat fs" and l1: "4 \<le> length B1"
      and i2: "B2 @ stream E2 = concat fs" and w2: "work B2 E2 \<le> work buffer es"
      and lt: "length B2 < unat (le32 B1) \<longrightarrow> work B2 E2 < work buffer es"
      and d2: "\<forall>e \<in> set E2. delivers e" for B1 E1 B2 E2
  proof -
    obtain f0 fs' where fs: "fs = f0 # fs'" using i1 l1 by (cases fs) auto
    obtain p ps' where ps: "ps = p # ps'" and ok: "frame_ok lib junk f0 p"
      using f fs by (cases ps) auto
    have "le32 B1 = le32 (B1 @ stream E1)" using le32_append [OF l1] by simp
    also have "\<dots> = le32 f0" using le32_append [of f0 "concat fs'"] ok i1 fs by (simp add: frame_ok_def)
    finally have t: "unat (le32 B1) = length f0" using ok by (simp add: frame_ok_def)
    show thesis
    proof (cases "length B2 < length f0")
      case True
      then show thesis using wait' [of _ B2 E2] r lt i2 d2 by (simp add: t out_of_time_def)
    next
      case False
      then have "take (length f0) B2 = f0" and rest: "drop (length f0) B2 @ stream E2 = concat fs'"
        using i2 fs by (auto simp: append_eq_append_conv_if split: if_splits)
      then have "R = Inr (success_value p, drop (length f0) B2, E2)"
        using r ok False by (auto simp: t frame_ok_def bson_of_const_def)
      moreover have "work (drop (length f0) B2) E2 < work buffer es"
        using w2 False ok by (auto simp: work_def frame_ok_def)
      ultimately show thesis using packet [of p _ E2] fs ps rest d2 by (simp add: R_def)
    qed
  qed
  have second: thesis
    if r: "R = (case input_fill strerror k s (unat (le32 B1)) B1 E1 of
             (Some ret, buffer2, es2) \<Rightarrow> Inr (failure (res_message ret) (res_code ret), buffer2, es2)
           | (None, buffer2, es2) \<Rightarrow>
             if length buffer2 < unat (le32 B1) then Inr (out_of_time, buffer2, es2)
             else if \<not> reader_ok lib (take (unat (le32 B1)) buffer2)
             then Inr (failure ''Could not create the BSON reader'' 0, drop (unat (le32 B1)) buffer2, es2)
             else exec_bind (bson_of_const (bson_read lib (take (unat (le32 B1)) buffer2))) (\<lambda>doc.
               exec_bind (packet_of_packed lib junk doc) (\<lambda>p.
                 Inr (success_value (packet_copy p), drop (unat (le32 B1)) buffer2, es2))))"
      and l1: "4 \<le> length B1" and i1: "B1 @ stream E1 = concat fs" and w1: "work B1 E1 \<le> work buffer es"
      and d1: "\<forall>e \<in> set E1. delivers e" for B1 E1
    using v d1
  proof (cases rule: input_fill_delivers [where n = "unat (le32 B1)" and buffer = B1 and strerror = strerror])
    case enough
    then show thesis by (intro whole [of B1 B1 E1 E1]) (use r l1 i1 w1 d1 in auto)
  next
    case (more B2 E2)
    then show thesis by (intro whole [of B2 B1 E2 E1]) (use r l1 i1 w1 in auto)
  next
    case (again ret E2)
    show thesis
    proof (cases "E1 = []")
      case False
      then show thesis using wait' [of _ B1 E2] again r i1 w1 by auto
    next
      case True
      obtain f0 fs' where fs: "fs = f0 # fs'" using i1 l1 by (cases fs) auto
      then obtain p where "frame_ok lib junk f0 p" using f by (cases ps) auto
      moreover have "B1 = f0 @ concat fs'" using i1 True fs by simp
      ultimately have "unat (le32 B1) \<le> length B1" using le32_append [of f0 "concat fs'"]
        by (simp add: frame_ok_def)
      then show thesis using again by simp
    qed
  qed
  show thesis
    using v d
  proof (cases rule: input_fill_delivers [where n = 4 and buffer = buffer and strerror = strerror])
    case enough
    show thesis
      by (rule second [of buffer es])
         (use enough c d in \<open>auto simp: R_def tcp_input_read_def assert_nonblocking [OF b] Let_def\<close>)
  next
    case (more B1 E1)
    show thesis
    proof (cases "length B1 < 4")
      case True
      then show thesis
        using wait' [of _ B1 E1] more c
        by (auto simp: R_def tcp_input_read_def assert_nonblocking [OF b] out_of_time_def)
    next
      case False
      show thesis
        by (rule second [of B1 E1])
           (use more c False in \<open>auto simp: R_def tcp_input_read_def assert_nonblocking [OF b] Let_def\<close>)
    qed
  next
    case (again ret E1)
    have "fs = [] \<and> buffer = [] \<and> E1 = [] \<or> work buffer E1 < work buffer es"
    proof (cases "es = []")
      case True
      then have "fs = []" using c again f
        by (cases fs; cases ps) (auto simp: frame_ok_def)
      then show ?thesis using True again c by auto
    next
      case False then show ?thesis using again by auto
    qed
    then show thesis
      using wait' [of _ buffer E1] again c
      by (auto simp: R_def tcp_input_read_def assert_nonblocking [OF b])
  qed
qed

lemma read_many_frames:
  assumes v: "fd_valid k s" and b: "blocking strerror k s = success_value False"
    and "\<forall>e \<in> set es. delivers e" and "list_all2 (frame_ok lib junk) fs ps"
    and "buffer @ stream es = concat fs"
  shows "\<exists>m buffer' es'. read_many n dbg lib junk strerror k s buffer es = Inr (take m ps, buffer', es') \<and>
    buffer' @ stream es' = concat (drop m fs) \<and>
    (work buffer es \<le> n \<longrightarrow> length ps \<le> m \<and> buffer' = [] \<and> es' = [])"
  using assms(3-5)
proof (induction n arbitrary: fs ps buffer es)
  case 0
  have "fs = [] \<and> ps = [] \<and> buffer = [] \<and> es = []" if "work buffer es \<le> 0"
  proof -
    from that have "buffer = []" "es = []" by (auto simp: work_def)
    then show ?thesis using 0 by (cases fs; cases ps) (auto simp: frame_ok_def)
  qed
  then show ?case using 0 by (intro exI [of _ 0]) auto
next
  case (Suc n)
  from v b Suc.prems show ?case
  proof (cases rule: read_step [where dbg = dbg])
    case (packet f0 fs' p ps' buffer' es')
    have "list_all2 (frame_ok lib junk) fs' ps'" using Suc.prems packet by simp
    from Suc.IH [OF packet(6) this packet(4)] obtain m B E where
      "read_many n dbg lib junk strerror k s buffer' es' = Inr (take m ps', B, E)"
      "B @ stream E = concat (drop m fs')"
      "work buffer' es' \<le> n \<longrightarrow> length ps' \<le> m \<and> B = [] \<and> E = []"
      by blast
    then show ?thesis
      using packet by (intro exI [of _ "Suc m"] exI [of _ B] exI [of _ E]) auto
  next
    case (wait ret buffer' es')
    from Suc.IH [OF wait(6) Suc.prems(2) wait(4)] obtain m B E where
      r: "read_many n dbg lib junk strerror k s buffer' es' = Inr (take m ps, B, E)"
      "B @ stream E = concat (drop m fs)"
      "work buffer' es' \<le> n \<longrightarrow> length ps \<le> m \<and> B = [] \<and> E = []"
      by blast
    have "work buffer' es' \<le> n" if "work buffer es \<le> Suc n"
      using wait(5) that by (auto simp: work_def)
    then show ?thesis
      using wait r by (intro exI [of _ m] exI [of _ B] exI [of _ E]) auto
  qed
qed

subsection \<open>Properties\<close>

text \<open>What the receiver makes of a document that a peer's \<open>packet\<close> was packed into.\<close>

definition wire_laws :: "'b bson_lib \<Rightarrow> 'b \<Rightarrow> bool" where
  "wire_laws lib doc \<longleftrightarrow>
     (let d = bson_data lib doc in
        4 \<le> length d \<and> unat (le32 d) = length d \<and> reader_ok lib d \<and> bson_read lib d = Some doc)"

text \<open>
  The wire after a list of packets was written, one after the other, by a kernel that
  follows a script.
\<close>

fun write_many :: "'b bson_lib \<Rightarrow> (u32 \<Rightarrow> string) \<Rightarrow> kernel \<Rightarrow> tcp_socket \<Rightarrow> 'b packet list \<Rightarrow>
    send_event list \<Rightarrow> byte list \<Rightarrow> (send_event list \<times> byte list) exec" where
  "write_many lib strerror k s [] es wire = Inr (es, wire)"
| "write_many lib strerror k s (p # ps) es wire =
     exec_bind (tcp_output_write lib strerror k s p es wire) (\<lambda>(ret, es', wire').
       write_many lib strerror k s ps es' wire')"

lemma write_soft:
  assumes "fd_valid k s" and "\<forall>e \<in> set es. soft e" and "p_packed p = Some doc"
    and "length (bson_data lib doc) < 2 ^ 32"
  shows "\<exists>r es'. tcp_output_write lib strerror k s p es wire = Inr (r, es', wire @ bson_data lib doc) \<and>
    to_bool r \<and> (\<forall>e \<in> set es'. soft e)"
proof -
  have "unat (0 :: u32) \<le> length (bson_data lib doc)" by simp
  from write_loop_ends [OF assms(1,4) this, of strerror es wire] obtain r E m where
    r: "write_loop strerror k s (bson_data lib doc) 0 es wire = Inr (r, E, wire @ take m (bson_data lib doc))"
      "write_ends (length (bson_data lib doc)) es r E m"
    by auto
  have "\<not> (\<exists>pre c. es = pre @ Send_err c # E \<and> c \<noteq> EAGAIN)"
    using assms(2) by (auto simp: soft_def)
  then have "m = length (bson_data lib doc)" "\<forall>e \<in> set E. soft e" "to_bool r"
    using r(2) assms(2) unfolding write_ends_def by auto
  then show ?thesis using r(1) assms(3) by (simp add: tcp_output_write_def)
qed

lemma write_many_wire:
  assumes "fd_valid k s" and "\<forall>e \<in> set es. soft e"
    and "\<forall>p \<in> set ps. \<exists>doc. p_packed p = Some doc \<and> length (bson_data lib doc) < 2 ^ 32"
  shows "\<exists>es'. write_many lib strerror k s ps es wire =
    Inr (es', wire @ concat (map (\<lambda>p. bson_data lib (the (p_packed p))) ps)) \<and> (\<forall>e \<in> set es'. soft e)"
  using assms(2,3)
proof (induction ps arbitrary: es wire)
  case (Cons p ps)
  then obtain doc where doc: "p_packed p = Some doc" "length (bson_data lib doc) < 2 ^ 32" by auto
  from write_soft [OF assms(1) Cons.prems(1) doc, of strerror wire] obtain r E where
    "tcp_output_write lib strerror k s p es wire = Inr (r, E, wire @ bson_data lib doc)"
    "\<forall>e \<in> set E. soft e"
    by blast
  then show ?case
    using Cons.IH [of E "wire @ bson_data lib doc"] Cons.prems doc(1) by auto
qed simp

text \<open>C7: Framing is exact from end to end: built packets written to the wire in order, through a
  kernel that cuts the writes anywhere and refuses them temporarily any number of times, and
  delivered to the reader in pieces of any size with would-block calls in between, come out of
  the input channel as the same packets in the same order, all of them after enough reads
  (two per byte and one per call of the script are enough), and after any number of reads the
  packets obtained are a prefix of them; the unsent flag \<open>_local_only\<close> is whatever the
  constructor found in memory.\<close>

theorem channel_roundtrip:
  assumes "bson_laws lib" and "\<forall>p \<in> set ps. packet_sendable lib p \<and> wire_laws lib (the (p_packed p))"
    and "fd_valid ks s" and "\<forall>e \<in> set es. soft e"
    and "fd_valid kr t" and "blocking strerror kr t = success_value False"
    and "\<forall>e \<in> set rs. delivers e"
    and "write_many lib strerror ks s ps es [] = Inr (es', stream rs)"
  shows "(2 * length (stream rs) + length rs \<le> n \<longrightarrow>
      read_many n dbg lib junk strerror kr t [] rs = Inr (map (set_local_only junk) ps, [], [])) \<and>
    (\<exists>m rest. read_many n dbg lib junk strerror kr t [] rs = Inr (take m (map (set_local_only junk) ps), rest))"
proof -
  let ?fs = "map (\<lambda>p. bson_data lib (the (p_packed p))) ps"
  have docs: "\<forall>p \<in> set ps. \<exists>doc. p_packed p = Some doc \<and> length (bson_data lib doc) < 2 ^ 32"
  proof
    fix p assume "p \<in> set ps"
    then have "packet_sendable lib p" and w: "wire_laws lib (the (p_packed p))" using assms(2) by auto
    then obtain doc where doc: "p_packed p = Some doc" using sendable_packed by blast
    have "unat (le32 (bson_data lib doc)) < 2 ^ LENGTH(32)" by (rule unsigned_less)
    then show "\<exists>doc. p_packed p = Some doc \<and> length (bson_data lib doc) < 2 ^ 32"
      using w doc by (simp add: wire_laws_def Let_def)
  qed
  have wire: "stream rs = concat ?fs"
    using write_many_wire [OF assms(3,4) docs, of strerror "[]"] assms(8) by auto
  have "list_all2 (frame_ok lib junk) ?fs (map (set_local_only junk) ps)"
    unfolding list_all2_map1 list_all2_map2
  proof (rule list.rel_refl_strong)
    fix p assume p: "p \<in> set ps"
    then obtain doc where "p_packed p = Some doc" using docs by auto
    then show "frame_ok lib junk (bson_data lib (the (p_packed p))) (set_local_only junk p)"
      using assms(2) p sendable_read_back [OF assms(1), of p junk]
      by (auto simp: frame_ok_def wire_laws_def Let_def set_local_only_def)
  qed
  from read_many_frames [OF assms(5,6,7) this, of "[]" n dbg] obtain m B E where
    r: "read_many n dbg lib junk strerror kr t [] rs = Inr (take m (map (set_local_only junk) ps), B, E)"
      "work [] rs \<le> n \<longrightarrow> length ps \<le> m \<and> B = [] \<and> E = []"
    using wire by auto
  show ?thesis
  proof
    show "2 * length (stream rs) + length rs \<le> n \<longrightarrow>
      read_many n dbg lib junk strerror kr t [] rs = Inr (map (set_local_only junk) ps, [], [])"
      using r by (auto simp: work_def)
    show "\<exists>m rest. read_many n dbg lib junk strerror kr t [] rs = Inr (take m (map (set_local_only junk) ps), rest)"
      using r(1) by blast
  qed
qed

text \<open>A packet of the sample library with a wire form of five bytes, and a socket.\<close>

definition tiny_packet :: "sample_doc packet" where
  "tiny_packet = packet_new sample_lib ''/a'' \<lparr>seconds = 1, microseconds = 2\<rparr> (Some (Text_doc ''x'')) True"

definition tiny_lib :: "sample_doc bson_lib" where
  "tiny_lib = sample_lib\<lparr>bson_data := (\<lambda>_. [5, 0, 0, 0, 0]),
     bson_read := (\<lambda>d. if d = [5, 0, 0, 0, 0] then p_packed tiny_packet else None)\<rparr>"

definition tiny_socket :: tcp_socket where
  "tiny_socket = \<lparr>sk_fd = 3, associated_address = None\<rparr>"

lemma tiny_laws: "bson_laws tiny_lib"
  using sample_lib_laws by (simp add: tiny_lib_def bson_laws_def)

lemma tiny_sendable: "packet_sendable tiny_lib tiny_packet"
  by (simp add: packet_sendable_def tiny_packet_def packet_new_def Let_def packet_build_def tiny_lib_def
      sample_lib_def)

lemma tiny_packed: "\<exists>doc. p_packed tiny_packet = Some doc"
  using sendable_packed [OF tiny_sendable] .

lemma le32_5 [simp]: "le32 (5 # 0 # 0 # 0 # ds) = 5"
  by (simp add: le32_def)

lemma tiny_wire: "wire_laws tiny_lib (the (p_packed tiny_packet))"
  using tiny_packed by (auto simp: wire_laws_def tiny_lib_def sample_lib_def)

lemma tiny_fd [simp]: "fd_valid [3 \<mapsto> O_NONBLOCK] tiny_socket"
  "blocking f [3 \<mapsto> O_NONBLOCK] tiny_socket = success_value False"
  by (simp_all add: fd_valid_def is_open_def tiny_socket_def blocking_def O_NONBLOCK_def)

theorem channel_roundtrip_witness:
  "read_many 24 True tiny_lib True (\<lambda>_. []) [3 \<mapsto> O_NONBLOCK] tiny_socket []
     [Data [5, 0, 0], Recv_err EAGAIN, Data [0, 0, 5], Data [0, 0, 0, 0]] =
   Inr ([set_local_only True tiny_packet, set_local_only True tiny_packet], [], [])"
proof -
  let ?rs = "[Data [5, 0, 0], Recv_err EAGAIN, Data [0, 0, 5], Data [0, 0, 0, 0]]"
  let ?es = "[Sent 2, Send_err EAGAIN, Sent 0]"
  let ?k = "[3 \<mapsto> O_NONBLOCK]"
  have soft: "\<forall>e \<in> set ?es. soft e" by (simp add: soft_def)
  have data: "bson_data tiny_lib d = [5, 0, 0, 0, 0]" for d by (simp add: tiny_lib_def)
  obtain es' where w: "write_many tiny_lib (\<lambda>_. []) ?k tiny_socket [tiny_packet, tiny_packet] ?es [] = Inr (es', stream ?rs)"
    using write_many_wire [OF tiny_fd(1) soft, of "[tiny_packet, tiny_packet]" tiny_lib "\<lambda>_. []" "[]"] tiny_packed
    by (auto simp: data)
  have "2 * length (stream ?rs) + length ?rs \<le> 24 \<longrightarrow>
    read_many 24 True tiny_lib True (\<lambda>_. []) ?k tiny_socket [] ?rs =
      Inr (map (set_local_only True) [tiny_packet, tiny_packet], [], [])"
    by (rule conjunct1, rule channel_roundtrip [OF tiny_laws _ tiny_fd(1) soft tiny_fd _ w])
       (use tiny_sendable tiny_wire in \<open>simp_all add: delivers_def\<close>)
  then show ?thesis by simp
qed

text \<open>C35: \<open>write\<close> always tests true. It sends a prefix of the document and stops before the end
  exactly when a call fails with an error other than \<open>EAGAIN\<close> before everything was taken;
  only the value inside the result, which no caller looks at, tells the two cases apart.\<close>

theorem write_outcome:
  assumes "fd_valid k s" and "p_packed p = Some doc" and "length (bson_data lib doc) < 2 ^ 32"
  shows "\<exists>r es' m. tcp_output_write lib strerror k s p es wire =
      Inr (r, es', wire @ take m (bson_data lib doc)) \<and> to_bool r \<and>
    (result_unwrap r = Inr True \<longleftrightarrow> m = length (bson_data lib doc)) \<and>
    (m < length (bson_data lib doc) \<longleftrightarrow>
      (\<exists>pre e. es = pre @ Send_err e # es' \<and> e \<noteq> EAGAIN \<and> (\<forall>x \<in> set pre. soft x) \<and>
         sent_total pre = m \<and> m < length (bson_data lib doc)))"
proof -
  have "unat (0 :: u32) \<le> length (bson_data lib doc)" by simp
  from write_loop_ends [OF assms(1,3) this, of strerror es wire] obtain r es' m where
    r: "write_loop strerror k s (bson_data lib doc) 0 es wire = Inr (r, es', wire @ take m (bson_data lib doc))"
      "write_ends (length (bson_data lib doc)) es r es' m"
    by auto
  from r(2) show ?thesis
    unfolding write_ends_def
    by (intro exI [of _ r] exI [of _ es'] exI [of _ m])
       (auto simp: tcp_output_write_def assms(2) r(1))
qed

theorem write_outcome_witness:
  "\<exists>r. tcp_output_write tiny_lib (\<lambda>_. []) [3 \<mapsto> O_NONBLOCK] tiny_socket tiny_packet [Sent 2, Send_err 32] [] =
     Inr (r, [], [5, 0]) \<and> to_bool r"
proof -
  obtain doc where "p_packed tiny_packet = Some doc" using tiny_packed by blast
  moreover have data: "bson_data tiny_lib doc = [5, 0, 0, 0, 0]" by (simp add: tiny_lib_def)
  ultimately obtain r es' m where
    r: "tcp_output_write tiny_lib (\<lambda>_. []) [3 \<mapsto> O_NONBLOCK] tiny_socket tiny_packet [Sent 2, Send_err 32] [] =
      Inr (r, es', [] @ take m [5, 0, 0, 0, 0])" "to_bool r"
    using write_outcome [OF tiny_fd(1), of tiny_packet doc tiny_lib "\<lambda>_. []" "[Sent 2, Send_err 32]" "[]"]
    by auto
  have "tcp_output_write tiny_lib (\<lambda>_. []) [3 \<mapsto> O_NONBLOCK] tiny_socket tiny_packet [Sent 2, Send_err 32] [] =
      Inr (to_void_result (failure [] 32 :: u64 result), [], [5, 0])"
    using tiny_packed
    by (auto simp: tcp_output_write_def data tiny_lib_def write_loop.simps [of _ _ _ "[5, 0, 0, 0, 0]"]
        tcp_send_valid no_error_codes Let_def)
  with r show ?thesis by auto
qed

text \<open>A complete message that the BSON reader does not accept (a length prefix of 0, or any
  malformed document of the announced length) makes \<open>read\<close> use a null document: any peer can
  crash the process with four bytes.\<close>

theorem read_malformed_faults:
  assumes "fd_valid k s" and "blocking strerror k s = success_value False"
    and "4 \<le> length d" and "length d \<le> 0xFFFF" and "unat (le32 d) \<le> length d"
    and "reader_ok lib (take (unat (le32 d)) d)" and "bson_read lib (take (unat (le32 d)) d) = None"
  shows "tcp_input_read dbg lib junk strerror k s [] (Data d # es) = Inl Null_deref"
proof -
  have "input_fill strerror k s 4 [] (Data d # es) = (None, d, es)"
    using assms by (simp add: input_fill_def tcp_recv_def)
  moreover have "input_fill strerror k s (unat (le32 d)) d es = (None, d, es)"
    using assms(5) by (simp add: input_fill_def)
  ultimately show ?thesis
    using assms by (simp add: tcp_input_read_def assert_result_eq_def Let_def bson_of_const_def)
qed

theorem read_malformed_faults_witness:
  "tcp_input_read False tiny_lib True (\<lambda>_. []) [3 \<mapsto> O_NONBLOCK] tiny_socket [] [Data [0, 0, 0, 0]] = Inl Null_deref"
  using read_malformed_faults [OF tiny_fd, of "[0, 0, 0, 0]" tiny_lib False True "\<lambda>_. []" "[]"]
  by (simp add: le32_def tiny_lib_def sample_lib_def)

end
