(* ===== verification/Transport.thy ===== *)
theory Transport
  imports Channels
begin

text \<open>
  \<open>class transport\<close> and \<open>class tcp_transport\<close>. The virtual functions of a transport, as the
  thread that drives it calls them, are the record \<open>transport_ops\<close>; what a client may rely on
  is the locale \<open>transport_link\<close>. A TCP transport is the object, the sockets on the heap, its
  side of the kernel and of the network; \<open>None\<close> in the heap is a freed cell.
\<close>

subsection \<open>The interface\<close>

text \<open>
  \<open>t_output\<close> and \<open>t_input\<close> tell whether the option holds a channel, \<open>t_write\<close> and
  \<open>t_read\<close> call the channel.
\<close>

record ('s, 'b) transport_ops =
  t_output :: "'s \<Rightarrow> bool exec"
  t_write :: "'b packet \<Rightarrow> 's \<Rightarrow> (void_result \<times> 's) exec"
  t_update :: "'s \<Rightarrow> 's exec"
  t_input :: "'s \<Rightarrow> bool exec"
  t_read :: "'s \<Rightarrow> ('b packet result \<times> 's) exec"

text \<open>
  \<open>link s ps\<close>: the connection is up and \<open>ps\<close> are the packets still to come; \<open>sent s\<close> is what
  went out, \<open>wire_of\<close> the wire form of a packet the transport accepts, and \<open>todo\<close> bounds
  the number of reads until all packets have come.
\<close>

locale transport_link =
  fixes ops :: "('s, 'b) transport_ops"
    and link :: "'s \<Rightarrow> 'b packet list \<Rightarrow> bool"
    and sent :: "'s \<Rightarrow> byte list"
    and wire_of :: "'b packet \<Rightarrow> byte list option"
    and todo :: "'s \<Rightarrow> nat"
  assumes output_ready: "link s ps \<Longrightarrow> t_output ops s = Inr True"
    and input_ready: "link s ps \<Longrightarrow> t_input ops s = Inr True"
    and write_law: "link s ps \<Longrightarrow> wire_of p = Some d \<Longrightarrow>
      \<exists>r s'. t_write ops p s = Inr (r, s') \<and> to_bool r \<and> link s' ps \<and> sent s' = sent s @ d \<and> todo s' = todo s"
    and update_law: "link s ps \<Longrightarrow> \<exists>s'. t_update ops s = Inr s' \<and> link s' ps \<and> sent s' = sent s \<and> todo s' \<le> todo s"
    and read_law: "link s ps \<Longrightarrow>
      \<exists>r s'. t_read ops s = Inr (r, s') \<and> sent s' = sent s \<and> todo s' \<le> todo s \<and>
        (ps \<noteq> [] \<longrightarrow> todo s' < todo s) \<and>
        (if to_bool r then \<exists>p ps'. res_ret r = Some p \<and> ps = p # ps' \<and> link s' ps' else link s' ps)"
begin

lemma write_all:
  assumes "link s ps" and "\<forall>p \<in> set out. wire_of p \<noteq> None"
  shows "\<exists>s'. exec_foldl (\<lambda>s p. exec_bind (t_write ops p s) (\<lambda>(r, s'). Inr s')) s out = Inr s' \<and>
    link s' ps \<and> sent s' = sent s @ concat (map (\<lambda>p. the (wire_of p)) out) \<and> todo s' = todo s"
  using assms
proof (induction out arbitrary: s)
  case (Cons p out)
  then obtain d where d: "wire_of p = Some d" by auto
  from write_law [OF Cons.prems(1) d] obtain r s1 where
    s1: "t_write ops p s = Inr (r, s1)" "link s1 ps" "sent s1 = sent s @ d" "todo s1 = todo s"
    by blast
  with Cons.IH [OF s1(2)] Cons.prems d show ?case by auto
qed simp

end

subsection \<open>TCP transports\<close>

record tcp_input_channel =
  ic_socket :: "nat option"
  ic_buffer :: "byte list"

record tcp_output_channel =
  oc_socket :: "nat option"

record tcp_transport =
  tt_address :: socket_address
  tt_input :: "tcp_input_channel option"
  tt_output :: "tcp_output_channel option"
  tt_socket :: "nat option"
  tt_owns :: bool

record tcp_link =
  tl_transport :: tcp_transport
  tl_heap :: "nat \<Rightarrow> tcp_socket option"
  tl_kernel :: kernel
  tl_in :: "recv_event list"
  tl_script :: "send_event list"
  tl_wire :: "byte list"

definition deref :: "(nat \<Rightarrow> tcp_socket option) \<Rightarrow> nat option \<Rightarrow> tcp_socket exec" where
  "deref h ptr =
     (case ptr of
        None \<Rightarrow> Inl Null_deref
      | Some a \<Rightarrow> (case h a of None \<Rightarrow> Inl Use_after_free | Some s \<Rightarrow> Inr s))"

text \<open>The constructors; \<open>a\<close> is the address \<open>new\<close> returns.\<close>

definition tcp_transport_new :: "nat \<Rightarrow> socket_address \<Rightarrow> tcp_link \<Rightarrow> tcp_link" where
  "tcp_transport_new a address l =
     l\<lparr>tl_transport := \<lparr>tt_address = address, tt_input = None, tt_output = None, tt_socket = Some a,
                        tt_owns = True\<rparr>,
       tl_heap := (tl_heap l)(a \<mapsto> tcp_socket_new)\<rparr>"

definition tcp_transport_of_socket :: "nat \<Rightarrow> bool \<Rightarrow> tcp_link \<Rightarrow> tcp_link exec" where
  "tcp_transport_of_socket a owns l =
     exec_bind (deref (tl_heap l) (Some a)) (\<lambda>s.
     exec_bind (option_unwrap (associated_address s)) (\<lambda>address.
       Inr (l\<lparr>tl_transport := \<lparr>tt_address = address, tt_input = None, tt_output = None,
                               tt_socket = Some a, tt_owns = owns\<rparr>\<rparr>)))"

text \<open>
  \<open>open\<close>; the last four arguments are what \<open>socket()\<close> and \<open>connect()\<close> return and the
  \<open>errno\<close> each leaves.
\<close>

definition tcp_transport_channels :: "(u32 \<Rightarrow> string) \<Rightarrow> nat \<Rightarrow> tcp_socket \<Rightarrow> tcp_link \<Rightarrow> tcp_link" where
  "tcp_transport_channels strerror a s l =
     (let t = tl_transport l in
      l\<lparr>tl_kernel := snd (set_blocking strerror False (tl_kernel l) s),
        tl_transport := t\<lparr>tt_input := Some \<lparr>ic_socket = Some a, ic_buffer = []\<rparr>,
                          tt_output := Some \<lparr>oc_socket = Some a\<rparr>\<rparr>\<rparr>)"

definition tcp_transport_open :: "(u32 \<Rightarrow> string) \<Rightarrow> resolver \<Rightarrow> int \<Rightarrow> u32 \<Rightarrow> int \<Rightarrow> u32 \<Rightarrow>
    tcp_link \<Rightarrow> (void_result \<times> tcp_link) exec" where
  "tcp_transport_open strerror rs socket_ret errno1 connect_ret errno2 l =
     (case tt_socket (tl_transport l) of
        None \<Rightarrow> Inl Null_deref
      | Some a \<Rightarrow>
        exec_bind (deref (tl_heap l) (Some a)) (\<lambda>s.
          if option_none (fd s) then
            (case tcp_open strerror socket_ret errno1 (tl_kernel l) s of
               (ret, k1, s1) \<Rightarrow>
                 if \<not> to_bool ret then
                   Inr (ret, l\<lparr>tl_heap := (tl_heap l)(a \<mapsto> s1), tl_kernel := k1\<rparr>)
                 else (case tcp_connect strerror rs (tt_address (tl_transport l)) connect_ret errno2 k1 s1 of
                   (ret', k2, s2) \<Rightarrow>
                     if \<not> to_bool ret' then
                       (case tcp_close k2 s2 of (k3, s3) \<Rightarrow>
                          Inr (ret', l\<lparr>tl_heap := (tl_heap l)(a \<mapsto> s3), tl_kernel := k3\<rparr>))
                     else Inr (success, tcp_transport_channels strerror a s2
                                 (l\<lparr>tl_heap := (tl_heap l)(a \<mapsto> s2), tl_kernel := k2\<rparr>))))
          else Inr (success, tcp_transport_channels strerror a s l)))"

text \<open>
  \<open>close\<close>: the channels are deleted and their pointers reset; the socket is closed and, when
  owned, deleted, but its pointer stays. Deleting a null pointer does nothing.
\<close>

definition tcp_transport_close :: "tcp_link \<Rightarrow> (void_result \<times> tcp_link) exec" where
  "tcp_transport_close l =
     (let t = tl_transport l;
          l1 = l\<lparr>tl_transport := t\<lparr>tt_input := None, tt_output := None\<rparr>\<rparr>
      in case tt_socket t of
           None \<Rightarrow> Inr (success, l1)
         | Some a \<Rightarrow>
           exec_bind (deref (tl_heap l) (Some a)) (\<lambda>s.
             case tcp_close (tl_kernel l) s of
               (k', s') \<Rightarrow> Inr (success, l1\<lparr>tl_kernel := k',
                 tl_heap := (if tt_owns t then (tl_heap l)(a := None) else (tl_heap l)(a \<mapsto> s'))\<rparr>)))"

definition tcp_transport_destroy :: "tcp_link \<Rightarrow> tcp_link exec" where
  "tcp_transport_destroy l =
     exec_bind (tcp_transport_close l) (\<lambda>(r, l').
       Inr (l'\<lparr>tl_transport := (tl_transport l')\<lparr>tt_socket := None\<rparr>\<rparr>))"

text \<open>\<open>is_available\<close> of a channel looks at the socket only when the pointer is not null.\<close>

definition available :: "(nat \<Rightarrow> tcp_socket option) \<Rightarrow> nat option \<Rightarrow> bool exec" where
  "available h ptr =
     (case ptr of
        None \<Rightarrow> Inr (channel_available None)
      | Some a \<Rightarrow> exec_bind (deref h ptr) (\<lambda>s. Inr (channel_available (Some s))))"

definition tcp_transport_input :: "tcp_link \<Rightarrow> tcp_input_channel option exec" where
  "tcp_transport_input l =
     (case tt_input (tl_transport l) of
        None \<Rightarrow> Inr None
      | Some c \<Rightarrow> exec_bind (available (tl_heap l) (ic_socket c)) (\<lambda>b.
          Inr (if b then Some c else None)))"

definition tcp_transport_output :: "tcp_link \<Rightarrow> tcp_output_channel option exec" where
  "tcp_transport_output l =
     (case tt_output (tl_transport l) of
        None \<Rightarrow> Inr None
      | Some c \<Rightarrow> exec_bind (available (tl_heap l) (oc_socket c)) (\<lambda>b.
          Inr (if b then Some c else None)))"

definition tcp_transport_update :: "(u32 \<Rightarrow> string) \<Rightarrow> tcp_link \<Rightarrow> (void_result \<times> tcp_link) exec" where
  "tcp_transport_update strerror l =
     (case tt_socket (tl_transport l) of
        None \<Rightarrow> Inr (success, l)
      | Some a \<Rightarrow>
        exec_bind (deref (tl_heap l) (Some a)) (\<lambda>s.
          case tcp_recv strerror (tl_kernel l) s 1 True (tl_in l) of
            (ret, d, es) \<Rightarrow>
              let l' = l\<lparr>tl_in := es\<rparr> in
              if \<not> to_bool ret then Inr (success, l')
              else exec_bind (result_unwrap ret) (\<lambda>n.
                if 0 < n then Inr (success, l')
                else exec_bind (tcp_transport_close l') (\<lambda>(r, l''). Inr (success, l'')))))"

text \<open>The calls of the channels through the transport.\<close>

definition tcp_transport_write :: "'b bson_lib \<Rightarrow> (u32 \<Rightarrow> string) \<Rightarrow> 'b packet \<Rightarrow> tcp_link \<Rightarrow>
    (void_result \<times> tcp_link) exec" where
  "tcp_transport_write lib strerror p l =
     (case tt_output (tl_transport l) of
        None \<Rightarrow> Inl Null_deref
      | Some c \<Rightarrow>
        exec_bind (deref (tl_heap l) (oc_socket c)) (\<lambda>s.
        exec_bind (tcp_output_write lib strerror (tl_kernel l) s p (tl_script l) (tl_wire l))
          (\<lambda>(r, es, w). Inr (r, l\<lparr>tl_script := es, tl_wire := w\<rparr>))))"

definition tcp_transport_read :: "bool \<Rightarrow> 'b bson_lib \<Rightarrow> bool \<Rightarrow> (u32 \<Rightarrow> string) \<Rightarrow> tcp_link \<Rightarrow>
    ('b packet result \<times> tcp_link) exec" where
  "tcp_transport_read dbg lib junk strerror l =
     (case tt_input (tl_transport l) of
        None \<Rightarrow> Inl Null_deref
      | Some c \<Rightarrow>
        exec_bind (deref (tl_heap l) (ic_socket c)) (\<lambda>s.
        exec_bind (tcp_input_read dbg lib junk strerror (tl_kernel l) s (ic_buffer c) (tl_in l))
          (\<lambda>(r, buffer, es). Inr (r, l\<lparr>tl_in := es,
             tl_transport := (tl_transport l)\<lparr>tt_input := Some (c\<lparr>ic_buffer := buffer\<rparr>)\<rparr>\<rparr>))))"

definition tcp_ops :: "bool \<Rightarrow> 'b bson_lib \<Rightarrow> bool \<Rightarrow> (u32 \<Rightarrow> string) \<Rightarrow> (tcp_link, 'b) transport_ops" where
  "tcp_ops dbg lib junk strerror =
     \<lparr>t_output = (\<lambda>l. exec_bind (tcp_transport_output l) (\<lambda>c. Inr (option_some c))),
      t_write = tcp_transport_write lib strerror,
      t_update = (\<lambda>l. exec_bind (tcp_transport_update strerror l) (\<lambda>(r, l'). Inr l')),
      t_input = (\<lambda>l. exec_bind (tcp_transport_input l) (\<lambda>c. Inr (option_some c))),
      t_read = tcp_transport_read dbg lib junk strerror\<rparr>"

subsection \<open>A TCP transport is a link\<close>

text \<open>
  The connection is up: the channels share the transport's live, non-blocking socket, the
  bytes still to come are the frames of \<open>ps\<close>, and the network delivers.
\<close>

definition tcp_connected :: "(u32 \<Rightarrow> string) \<Rightarrow> tcp_link \<Rightarrow> bool" where
  "tcp_connected strerror l \<longleftrightarrow>
     (\<exists>a s c. tt_socket (tl_transport l) = Some a \<and> tl_heap l a = Some s \<and>
        fd_valid (tl_kernel l) s \<and> blocking strerror (tl_kernel l) s = success_value False \<and>
        tt_input (tl_transport l) = Some c \<and> ic_socket c = Some a \<and>
        tt_output (tl_transport l) = Some \<lparr>oc_socket = Some a\<rparr>)"

definition tcp_up :: "'b bson_lib \<Rightarrow> bool \<Rightarrow> (u32 \<Rightarrow> string) \<Rightarrow> tcp_link \<Rightarrow> 'b packet list \<Rightarrow> bool" where
  "tcp_up lib junk strerror l ps \<longleftrightarrow> tcp_connected strerror l \<and>
     (\<forall>e \<in> set (tl_in l). delivers e) \<and> (\<forall>e \<in> set (tl_script l). soft e) \<and>
     (\<exists>fs. list_all2 (frame_ok lib junk) fs ps \<and>
        ic_buffer (the (tt_input (tl_transport l))) @ stream (tl_in l) = concat fs)"

definition tcp_todo :: "tcp_link \<Rightarrow> nat" where
  "tcp_todo l = work (ic_buffer (the (tt_input (tl_transport l)))) (tl_in l)"

definition tcp_wire_of :: "'b bson_lib \<Rightarrow> 'b packet \<Rightarrow> byte list option" where
  "tcp_wire_of lib p =
     (case p_packed p of
        None \<Rightarrow> None
      | Some doc \<Rightarrow> if length (bson_data lib doc) < 2 ^ 32 then Some (bson_data lib doc) else None)"

lemma tcp_connectedE:
  assumes "tcp_connected strerror l"
  obtains a s c where "tt_socket (tl_transport l) = Some a" "tl_heap l a = Some s"
    "fd_valid (tl_kernel l) s" "blocking strerror (tl_kernel l) s = success_value False"
    "tt_input (tl_transport l) = Some c" "ic_socket c = Some a"
    "tt_output (tl_transport l) = Some \<lparr>oc_socket = Some a\<rparr>"
  using assms unfolding tcp_connected_def by blast

lemma fd_valid_available [simp]: "fd_valid k s \<Longrightarrow> channel_available (Some s)"
  by (simp add: channel_available_def fd_valid_def)

lemma tcp_connected_available:
  assumes "tcp_connected strerror l"
  shows "tcp_transport_output l = Inr (tt_output (tl_transport l))"
    and "tcp_transport_input l = Inr (tt_input (tl_transport l))"
    and "tt_output (tl_transport l) \<noteq> None" and "tt_input (tl_transport l) \<noteq> None"
  using assms
  by (auto elim!: tcp_connectedE simp: tcp_transport_output_def tcp_transport_input_def available_def deref_def)

lemma tcp_update_up:
  assumes up: "tcp_up lib junk strerror l ps"
  shows "\<exists>r l'. tcp_transport_update strerror l = Inr (r, l') \<and> tcp_up lib junk strerror l' ps \<and>
    tl_wire l' = tl_wire l \<and> tcp_todo l' \<le> tcp_todo l"
proof -
  from up have c: "tcp_connected strerror l" and d: "\<forall>e \<in> set (tl_in l). delivers e"
    by (auto simp: tcp_up_def)
  from c obtain a s where a: "tt_socket (tl_transport l) = Some a" "tl_heap l a = Some s"
    "fd_valid (tl_kernel l) s"
    by (rule tcp_connectedE)
  obtain ret b es where r: "tcp_recv strerror (tl_kernel l) s 1 True (tl_in l) = (ret, b, es)"
    by (rule prod_cases3)
  have e: "stream es = stream (tl_in l)" "length es \<le> length (tl_in l)" "\<forall>e \<in> set es. delivers e"
    "to_bool ret \<Longrightarrow> \<exists>n. ret = success_value n \<and> 0 < n"
    using r a(3) d
    by (cases "tl_in l"; cases "hd (tl_in l)"; force simp: tcp_recv_def delivers_def Suc_le_eq)+
  have "tcp_transport_update strerror l = Inr (success, l\<lparr>tl_in := es\<rparr>)"
    using a r e(4) by (auto simp: tcp_transport_update_def deref_def Let_def)
  moreover have "tcp_up lib junk strerror (l\<lparr>tl_in := es\<rparr>) ps"
    using up e by (simp add: tcp_up_def tcp_connected_def)
  moreover have "tcp_todo (l\<lparr>tl_in := es\<rparr>) \<le> tcp_todo l"
    using e by (simp add: tcp_todo_def work_def)
  ultimately show ?thesis by auto
qed

lemma tcp_write_up:
  assumes up: "tcp_up lib junk strerror l ps" and w: "tcp_wire_of lib p = Some d"
  shows "\<exists>r l'. tcp_transport_write lib strerror p l = Inr (r, l') \<and> to_bool r \<and>
    tcp_up lib junk strerror l' ps \<and> tl_wire l' = tl_wire l @ d \<and> tcp_todo l' = tcp_todo l"
proof -
  from up have "tcp_connected strerror l" by (simp add: tcp_up_def)
  then obtain a s where a: "tl_heap l a = Some s" "fd_valid (tl_kernel l) s"
    "tt_output (tl_transport l) = Some \<lparr>oc_socket = Some a\<rparr>"
    by (rule tcp_connectedE)
  from w obtain doc where doc: "p_packed p = Some doc" "length (bson_data lib doc) < 2 ^ 32"
    "d = bson_data lib doc"
    by (auto simp: tcp_wire_of_def split: option.splits if_splits)
  have soft: "\<forall>e \<in> set (tl_script l). soft e" using up by (simp add: tcp_up_def)
  from write_soft [OF a(2) soft doc(1,2), of strerror "tl_wire l"] obtain r es where
    r: "tcp_output_write lib strerror (tl_kernel l) s p (tl_script l) (tl_wire l) =
        Inr (r, es, tl_wire l @ d)" "to_bool r" "\<forall>e \<in> set es. soft e"
    using doc(3) by blast
  then have "tcp_transport_write lib strerror p l = Inr (r, l\<lparr>tl_script := es, tl_wire := tl_wire l @ d\<rparr>)"
    using a by (simp add: tcp_transport_write_def deref_def)
  moreover have "tcp_up lib junk strerror (l\<lparr>tl_script := es, tl_wire := tl_wire l @ d\<rparr>) ps"
    using up r(3) by (simp add: tcp_up_def tcp_connected_def)
  moreover have "tcp_todo (l\<lparr>tl_script := es, tl_wire := tl_wire l @ d\<rparr>) = tcp_todo l"
    by (simp add: tcp_todo_def)
  ultimately show ?thesis using r(2) by auto
qed

lemma tcp_read_up:
  assumes up: "tcp_up lib junk strerror l ps"
  shows "\<exists>r l'. tcp_transport_read dbg lib junk strerror l = Inr (r, l') \<and> tl_wire l' = tl_wire l \<and>
    tcp_todo l' \<le> tcp_todo l \<and> (ps \<noteq> [] \<longrightarrow> tcp_todo l' < tcp_todo l) \<and>
    (if to_bool r then \<exists>p ps'. res_ret r = Some p \<and> ps = p # ps' \<and> tcp_up lib junk strerror l' ps'
     else tcp_up lib junk strerror l' ps)"
proof -
  from up obtain fs where c: "tcp_connected strerror l" and d: "\<forall>e \<in> set (tl_in l). delivers e"
    and f: "list_all2 (frame_ok lib junk) fs ps" "ic_buffer (the (tt_input (tl_transport l))) @ stream (tl_in l) = concat fs"
    by (auto simp: tcp_up_def)
  from c obtain a s c where a: "tl_heap l a = Some s" "fd_valid (tl_kernel l) s"
    "blocking strerror (tl_kernel l) s = success_value False"
    "tt_input (tl_transport l) = Some c" "ic_socket c = Some a"
    by (rule tcp_connectedE)
  define L where "L B E = l\<lparr>tl_in := E, tl_transport := (tl_transport l)\<lparr>tt_input := Some (c\<lparr>ic_buffer := B\<rparr>)\<rparr>\<rparr>"
    for B E
  have L: "tcp_transport_read dbg lib junk strerror l = Inr (r, L B E)"
    if "tcp_input_read dbg lib junk strerror (tl_kernel l) s (ic_buffer c) (tl_in l) = Inr (r, B, E)" for r B E
    using that a by (simp add: tcp_transport_read_def deref_def L_def)
  have up': "tcp_up lib junk strerror (L B E) qs"
    if "\<forall>e \<in> set E. delivers e" "list_all2 (frame_ok lib junk) gs qs" "B @ stream E = concat gs" for B E gs qs
    using that up a by (auto simp: tcp_up_def tcp_connected_def L_def)
  have f2: "ic_buffer c @ stream (tl_in l) = concat fs" using f(2) a(4) by simp
  have todo: "tcp_todo (L B E) = work B E" "tcp_todo l = work (ic_buffer c) (tl_in l)" for B E
    using a(4) by (simp_all add: tcp_todo_def L_def)
  have ps: "ps = []" if "fs = []" using f(1) that by simp
  show ?thesis
    using a(2,3) d f(1) f2
  proof (cases rule: read_step [where dbg = dbg])
    case (packet f0 fs' p ps' B E)
    then have "tcp_up lib junk strerror (L B E) ps'" using f(1) by (intro up' [of E fs']) auto
    then show ?thesis using L [OF packet(1)] packet(3,5) todo
      by (intro exI [of _ "success_value p"] exI [of _ "L B E"]) (simp add: L_def)
  next
    case (wait r B E)
    have "\<not> to_bool r" by (rule wait(7))
    moreover have "work B E \<le> work (ic_buffer c) (tl_in l) \<and> (ps \<noteq> [] \<longrightarrow> work B E < work (ic_buffer c) (tl_in l))"
      using wait(5) ps by (auto simp: work_def)
    moreover have "tl_wire (L B E) = tl_wire l" by (simp add: L_def)
    ultimately show ?thesis using L [OF wait(1)] up' [OF wait(6) f(1) wait(4)] todo
      by (intro exI [of _ r] exI [of _ "L B E"]) simp
  qed
qed

interpretation tcp: transport_link "tcp_ops dbg lib junk strerror" "tcp_up lib junk strerror" tl_wire "tcp_wire_of lib" tcp_todo
proof (unfold_locales, goal_cases)
  case (1 l ps)
  then show ?case
    using tcp_connected_available [of strerror l] by (auto simp: tcp_ops_def tcp_up_def option_some_def)
next
  case (2 l ps)
  then show ?case
    using tcp_connected_available [of strerror l] by (auto simp: tcp_ops_def tcp_up_def option_some_def)
next
  case (3 l ps p d)
  then show ?case using tcp_write_up by (fastforce simp: tcp_ops_def)
next
  case (4 l ps)
  then show ?case using tcp_update_up by (fastforce simp: tcp_ops_def)
next
  case (5 l ps)
  from tcp_read_up [OF this] show ?case by (simp only: tcp_ops_def transport_ops.simps)
qed

subsection \<open>Properties\<close>

lemma tcp_connect_ok:
  assumes "tcp_connect strerror rs address c e k s = (ret, k', s')" and "to_bool ret"
  shows "is_open s" and "k' (sk_fd s) = k (sk_fd s) \<or> (\<exists>f. k' (sk_fd s) = Some f)" and "sk_fd s' = sk_fd s"
proof -
  show o: "is_open s"
    using assms by (auto simp: tcp_connect_def not_open_def split: if_splits)
  show "sk_fd s' = sk_fd s"
    using assms o by (auto simp: tcp_connect_def Let_def split: option.splits if_splits)
  show "k' (sk_fd s) = k (sk_fd s) \<or> (\<exists>f. k' (sk_fd s) = Some f)"
    using assms o by (auto simp: tcp_connect_def set_blocking_def Let_def split: option.splits if_splits)
qed

text \<open>C31: Opening a fresh transport either fails and leaves it without channels and its socket
  closed, or succeeds with both channels available on one live socket that is non-blocking
  (although connecting had made it blocking), which is what the input channel requires.\<close>

theorem transport_open_ready:
  assumes "tcp_transport_open strerror rs r e1 c e2 (tcp_transport_new a address l) = Inr (ret, l')"
  shows "(if to_bool ret then 0 \<le> r \<and> 0 \<le> c \<and> tcp_connected strerror l' \<and>
            tcp_transport_input l' = Inr (Some \<lparr>ic_socket = Some a, ic_buffer = []\<rparr>) \<and>
            tcp_transport_output l' = Inr (Some \<lparr>oc_socket = Some a\<rparr>)
          else tcp_transport_input l' = Inr None \<and> tcp_transport_output l' = Inr None \<and>
            (\<exists>s. tl_heap l' a = Some s \<and> \<not> is_open s))"
proof -
  have new: "fd tcp_socket_new = None" by (simp add: fd_def tcp_socket_new_def)
  let ?l = "tcp_transport_new a address l"
  have l: "tt_socket (tl_transport ?l) = Some a" "tl_heap ?l a = Some tcp_socket_new"
    "tt_input (tl_transport ?l) = None" "tt_output (tl_transport ?l) = None"
    "tl_kernel ?l = tl_kernel l" "tt_address (tl_transport ?l) = address"
    by (simp_all add: tcp_transport_new_def)
  obtain ret1 k1 s1 where o: "tcp_open strerror r e1 (tl_kernel l) tcp_socket_new = (ret1, k1, s1)"
    by (rule prod_cases3)
  obtain ret2 k2 s2 where cn: "tcp_connect strerror rs address c e2 k1 s1 = (ret2, k2, s2)"
    by (rule prod_cases3)
  obtain k3 s3 where cl: "tcp_close k2 s2 = (k3, s3)" by (cases "tcp_close k2 s2")
  note def = assms [unfolded tcp_transport_open_def l, simplified, unfolded deref_def l, simplified]
  show ?thesis
  proof (cases "to_bool ret1")
    case False
    then have "r < 0" "sk_fd s1 = r" using o by (auto simp: tcp_open_def Let_def)
    then show ?thesis
      using def False o l by (auto simp: new option_none_def option_some_def tcp_transport_input_def tcp_transport_output_def is_open_def)
  next
    case True
    then have r: "0 \<le> r" "sk_fd s1 = r" "k1 r \<noteq> None"
      using o by (auto simp: tcp_open_def Let_def setup_socket_def set_blocking_def is_open_def)
    show ?thesis
    proof (cases "to_bool ret2")
      case False
      have "\<not> is_open s3" using cl by (auto simp: tcp_close_def is_open_def split: if_splits)
      then show ?thesis
        using def True False o l cn cl
        by (auto simp: new option_none_def option_some_def tcp_transport_input_def tcp_transport_output_def)
    next
      case ok: True
      have c: "0 \<le> c" using cn ok r
        by (auto simp: tcp_connect_def Let_def is_open_def get_std_error_def split: option.splits)
      from tcp_connect_ok [OF cn ok] r obtain f where s2: "sk_fd s2 = r" "k2 r = Some f" "is_open s2"
        by (auto simp: is_open_def)
      let ?l2 = "?l\<lparr>tl_heap := (tl_heap ?l)(a \<mapsto> s2), tl_kernel := k2\<rparr>"
      have l': "l' = tcp_transport_channels strerror a s2 ?l2" and ret: "to_bool ret"
        using def True ok o l cn by (auto simp: new option_none_def option_some_def)
      have "blocking strerror (snd (set_blocking strerror False k2 s2)) s2 = success_value False"
        using blocking_after_set [OF s2(3), of strerror k2 f] s2 by (simp add: set_blocking_flags)
      moreover have "fd_valid (snd (set_blocking strerror False k2 s2)) s2"
        using s2 by (simp add: set_blocking_flags fd_valid_def)
      ultimately have "tcp_connected strerror l'"
        by (simp add: l' tcp_connected_def tcp_transport_channels_def Let_def l)
      moreover have "tt_input (tl_transport l') = Some \<lparr>ic_socket = Some a, ic_buffer = []\<rparr>"
        "tt_output (tl_transport l') = Some \<lparr>oc_socket = Some a\<rparr>"
        by (simp_all add: l' tcp_transport_channels_def Let_def)
      ultimately show ?thesis
        using tcp_connected_available [of strerror l'] ret r c by simp
    qed
  qed
qed

text \<open>A resolver that knows numbers only, and a link on which nothing has happened yet.\<close>

definition plain_resolver :: resolver where
  "plain_resolver = \<lparr>inet_addr = (\<lambda>_. 0x0100000A), gethostbyname = (\<lambda>_. None), inet_ntoa = (\<lambda>_. ''10.0.0.1'')\<rparr>"

definition quiet_link :: tcp_link where
  "quiet_link = \<lparr>tl_transport = \<lparr>tt_address = \<lparr>sa_host = ''10.0.0.1'', sa_port = 8374\<rparr>, tt_input = None,
       tt_output = None, tt_socket = None, tt_owns = True\<rparr>,
     tl_heap = (\<lambda>_. None), tl_kernel = (\<lambda>_. None), tl_in = [], tl_script = [], tl_wire = []\<rparr>"

definition opened_link :: "bool \<Rightarrow> tcp_link" where
  "opened_link owns = quiet_link
     \<lparr>tl_transport := \<lparr>tt_address = \<lparr>sa_host = ''10.0.0.1'', sa_port = 8374\<rparr>,
        tt_input = Some \<lparr>ic_socket = Some 7, ic_buffer = []\<rparr>, tt_output = Some \<lparr>oc_socket = Some 7\<rparr>,
        tt_socket = Some 7, tt_owns = owns\<rparr>,
      tl_heap := [7 \<mapsto> tiny_socket], tl_kernel := [3 \<mapsto> O_NONBLOCK]\<rparr>"

lemma opened_connected: "tcp_connected strerror (opened_link owns)"
  by (simp add: tcp_connected_def opened_link_def)

text \<open>The same link with one packet of the tiny library on its way.\<close>

definition busy_link :: tcp_link where
  "busy_link = (opened_link True)\<lparr>tl_in := [Data [5, 0, 0], Recv_err EAGAIN, Data [0, 0]]\<rparr>"

lemma busy_up: "tcp_up tiny_lib True strerror busy_link [set_local_only True tiny_packet]"
proof -
  obtain doc where doc: "p_packed tiny_packet = Some doc" using tiny_packed by blast
  have "frame_ok tiny_lib True [5, 0, 0, 0, 0] (set_local_only True tiny_packet)"
    using tiny_wire sendable_read_back [OF tiny_laws tiny_sendable, of True] doc
    by (simp add: frame_ok_def wire_laws_def tiny_lib_def Let_def set_local_only_def sample_lib_def)
  then have "list_all2 (frame_ok tiny_lib True) [[5, 0, 0, 0, 0]] [set_local_only True tiny_packet]" by simp
  moreover have "tcp_connected strerror busy_link"
    using opened_connected [of strerror True] by (simp add: busy_link_def tcp_connected_def)
  moreover have "ic_buffer (the (tt_input (tl_transport busy_link))) @ stream (tl_in busy_link) = concat [[5, 0, 0, 0, 0]]"
    by (simp add: busy_link_def opened_link_def)
  moreover have "(\<forall>e \<in> set (tl_in busy_link). delivers e) \<and> (\<forall>e \<in> set (tl_script busy_link). soft e)"
    by (simp add: busy_link_def opened_link_def quiet_link_def delivers_def)
  ultimately show ?thesis unfolding tcp_up_def by blast
qed

theorem transport_open_ready_witness:
  "\<exists>ret l'. tcp_transport_open (\<lambda>_. []) plain_resolver 3 0 0 0
      (tcp_transport_new 7 \<lparr>sa_host = ''10.0.0.1'', sa_port = 8374\<rparr> quiet_link) = Inr (ret, l') \<and>
    to_bool ret \<and> tcp_transport_output l' = Inr (Some \<lparr>oc_socket = Some 7\<rparr>)"
proof -
  let ?l = "tcp_transport_new 7 \<lparr>sa_host = ''10.0.0.1'', sa_port = 8374\<rparr> quiet_link"
  have "\<exists>ret l'. tcp_transport_open (\<lambda>_. []) plain_resolver 3 0 0 0 ?l = Inr (ret, l') \<and> to_bool ret"
    by (simp add: tcp_transport_open_def tcp_transport_new_def deref_def fd_def tcp_socket_new_def
        option_none_def option_some_def tcp_open_def tcp_connect_def Let_def is_open_def
        socket_address_to_sockaddr_def plain_resolver_def inaddr_none_def)
  then obtain ret l' where "tcp_transport_open (\<lambda>_. []) plain_resolver 3 0 0 0 ?l = Inr (ret, l')" "to_bool ret"
    by blast
  with transport_open_ready [OF this(1)] show ?thesis by auto
qed

text \<open>
  The life of a transport after it has been closed: explicitly, or by \<open>update\<close> when the
  peer has gone.
\<close>

definition tcp_after_close :: "tcp_link \<Rightarrow> tcp_link \<Rightarrow> bool" where
  "tcp_after_close l l' \<longleftrightarrow>
     (\<exists>a. tt_socket (tl_transport l') = Some a \<and> tt_owns (tl_transport l') = tt_owns (tl_transport l) \<and>
        tt_input (tl_transport l') = None \<and> tt_output (tl_transport l') = None \<and>
        (if tt_owns (tl_transport l) then tl_heap l' a = None
         else \<exists>s. tl_heap l' a = Some s \<and> \<not> is_open s))"

lemma tcp_close_after:
  assumes "tt_socket (tl_transport l) = Some a" and "tl_heap l a = Some s"
  shows "\<exists>l'. tcp_transport_close l = Inr (success, l') \<and> tcp_after_close l l'"
proof -
  obtain k' s' where cl: "tcp_close (tl_kernel l) s = (k', s')" by (cases "tcp_close (tl_kernel l) s")
  moreover have "\<not> is_open s'" using cl by (auto simp: tcp_close_def is_open_def split: if_splits)
  ultimately show ?thesis
    using assms by (auto simp: tcp_transport_close_def deref_def Let_def tcp_after_close_def)
qed

text \<open>C36: When the peer has closed the connection, \<open>update\<close> drops the channels, so
  \<open>input\<close> and \<open>output\<close> are empty from then on. A transport that owns its socket is left with
  a pointer to the freed socket: its next \<open>update\<close>, \<open>close\<close> or destruction uses it after
  free. A transport that does not own it stays usable: closing and destroying it are safe.\<close>

theorem disconnect_dangling_socket:
  assumes "tcp_connected strerror l" and "tl_in l = Eof # es"
  shows "\<exists>l'. tcp_transport_update strerror l = Inr (success, l') \<and>
    tcp_transport_input l' = Inr None \<and> tcp_transport_output l' = Inr None \<and>
    (if tt_owns (tl_transport l)
     then tcp_transport_update strerror l' = Inl Use_after_free \<and> tcp_transport_close l' = Inl Use_after_free \<and>
       tcp_transport_destroy l' = Inl Use_after_free
     else (\<exists>l''. tcp_transport_update strerror l' = Inr (success, l'')) \<and>
       (\<exists>l''. tcp_transport_close l' = Inr (success, l'')) \<and> (\<exists>l''. tcp_transport_destroy l' = Inr l''))"
proof -
  from assms(1) obtain a s where a: "tt_socket (tl_transport l) = Some a" "tl_heap l a = Some s"
    "fd_valid (tl_kernel l) s"
    by (rule tcp_connectedE)
  let ?l = "l\<lparr>tl_in := Eof # es\<rparr>"
  have same: "?l = l" using assms(2) by simp
  from tcp_close_after [OF a(1,2)] obtain l' where
    l': "tcp_transport_close l = Inr (success, l')" "tcp_after_close l l'" by blast
  have u: "tcp_transport_update strerror l = Inr (success, l')"
    using a assms(2) l'(1)
    by (simp add: tcp_transport_update_def deref_def tcp_recv_def Let_def same)
  from l'(2) obtain a' where a': "tt_socket (tl_transport l') = Some a'"
    "tt_owns (tl_transport l') = tt_owns (tl_transport l)"
    "tt_input (tl_transport l') = None" "tt_output (tl_transport l') = None"
    "if tt_owns (tl_transport l) then tl_heap l' a' = None else \<exists>s. tl_heap l' a' = Some s \<and> \<not> is_open s"
    by (auto simp: tcp_after_close_def)
  show ?thesis
  proof (cases "tt_owns (tl_transport l)")
    case True
    then show ?thesis
      using u a' by (intro exI [of _ l'])
        (simp add: tcp_transport_input_def tcp_transport_output_def tcp_transport_update_def
          tcp_transport_close_def tcp_transport_destroy_def deref_def Let_def)
  next
    case False
    then obtain s' where s': "tl_heap l' a' = Some s'" "\<not> is_open s'" using a'(5) by auto
    from tcp_close_after [OF a'(1) s'(1)] obtain l2 where
      l2: "tcp_transport_close l' = Inr (success, l2)" by blast
    have "\<exists>l''. tcp_transport_update strerror l' = Inr (success, l'')"
      using a' s' by (simp add: tcp_transport_update_def deref_def tcp_recv_def fd_valid_def Let_def)
    then show ?thesis
      using u a' l2 False by (intro exI [of _ l'])
        (auto simp: tcp_transport_input_def tcp_transport_output_def tcp_transport_destroy_def)
  qed
qed

theorem disconnect_dangling_socket_witness:
  "\<exists>l'. tcp_transport_update (\<lambda>_. []) ((opened_link True)\<lparr>tl_in := [Eof]\<rparr>) = Inr (success, l') \<and>
    tcp_transport_destroy l' = Inl Use_after_free"
proof -
  have "tcp_connected (\<lambda>_. []) ((opened_link True)\<lparr>tl_in := [Eof]\<rparr>)"
    using opened_connected [of "\<lambda>_. []" True] by (simp add: tcp_connected_def)
  from disconnect_dangling_socket [OF this, of "[]"] show ?thesis
    by (auto simp: opened_link_def)
qed

end
