(* ===== verification/Tcp_Thread.thy ===== *)
theory Tcp_Thread
  imports Transport
begin

text \<open>
  \<open>class tcp_thread\<close> (\<open>tcp_thread.hpp\<close>, \<open>tcp_thread.cpp\<close>): the thread that moves packets between
  the transports and their buffers. The transports are behind their interface: \<open>th_link\<close> is
  the state of the transport a pointer points to. The hash table of buffers is a list of its
  entries in the order an iteration meets them; hash sets are sets. The sections the code
  runs under \<open>buffer::mut\<close> are single definitions, and \<open>thread_step\<close> interleaves them with the
  calls of the other threads.
\<close>

subsection \<open>State\<close>

type_synonym tp = nat

definition null_tp :: tp where
  "null_tp = 0"

text \<open>\<open>topic_queues\<close> is never used.\<close>

record 'b buffer =
  bf_in :: "'b packet list"
  bf_in_firehose :: "string set"
  bf_out :: "'b packet list"
  bf_out_firehose :: "string set"
  bf_reject_out_count :: u32

definition buffer_new :: "'b buffer" where
  "buffer_new = \<lparr>bf_in = [], bf_in_firehose = {}, bf_out = [], bf_out_firehose = {},
     bf_reject_out_count = 0\<rparr>"

record ('s, 'b) tcp_thread =
  th_buffers :: "(tp \<times> 'b buffer) list"
  th_link :: "tp \<Rightarrow> 's"
  th_sleep :: u16
  th_exit :: bool

definition tcp_thread_new :: "(tp \<Rightarrow> 's) \<Rightarrow> ('s, 'b) tcp_thread" where
  "tcp_thread_new link = \<lparr>th_buffers = [], th_link = link, th_sleep = 10000, th_exit = False\<rparr>"

subsection \<open>The calls of the node\<close>

definition droppable :: "'b packet \<Rightarrow> bool" where
  "droppable p = m_droppable (p_meta p)"

definition add_socket :: "bool \<Rightarrow> tp \<Rightarrow> ('s, 'b) tcp_thread \<Rightarrow> (void_result \<times> ('s, 'b) tcp_thread) exec" where
  "add_socket dbg socket t =
     exec_bind (cassert dbg (socket \<noteq> null_tp)) (\<lambda>_.
       if map_of (th_buffers t) socket \<noteq> None then Inr (failure ''Socket already watched by thread'' 0, t)
       else Inr (success, t\<lparr>th_buffers := AList.update socket buffer_new (th_buffers t)\<rparr>))"

definition remove_socket :: "bool \<Rightarrow> tp \<Rightarrow> ('s, 'b) tcp_thread \<Rightarrow> (void_result \<times> ('s, 'b) tcp_thread) exec" where
  "remove_socket dbg socket t =
     exec_bind (cassert dbg (socket \<noteq> null_tp)) (\<lambda>_.
       if map_of (th_buffers t) socket = None then Inr (failure ''Socket not found'' 0, t)
       else Inr (success, t\<lparr>th_buffers := AList.delete socket (th_buffers t)\<rparr>))"

text \<open>The section of \<open>next\<close> under the buffer's lock.\<close>

definition buffer_next :: "'b packet \<Rightarrow> 'b buffer \<Rightarrow> 'b packet \<times> 'b buffer" where
  "buffer_next none b =
     (case bf_in b of
        [] \<Rightarrow> (none, b)
      | ret # rest \<Rightarrow>
          (packet_copy ret,
           b\<lparr>bf_in := rest,
             bf_in_firehose := (if droppable ret then bf_in_firehose b - {packet_topic ret}
                                else bf_in_firehose b)\<rparr>))"

definition next_packet :: "bool \<Rightarrow> 'b packet \<Rightarrow> tp \<Rightarrow> ('s, 'b) tcp_thread \<Rightarrow> ('b packet \<times> ('s, 'b) tcp_thread) exec" where
  "next_packet dbg none socket t =
     exec_bind (cassert dbg (socket \<noteq> null_tp)) (\<lambda>_.
       case map_of (th_buffers t) socket of
         None \<Rightarrow> Inr (none, t)
       | Some b \<Rightarrow> (case buffer_next none b of
           (p, b') \<Rightarrow> Inr (p, t\<lparr>th_buffers := AList.update socket b' (th_buffers t)\<rparr>)))"

text \<open>The section of \<open>send\<close> under the buffer's lock.\<close>

definition buffer_send :: "'b packet \<Rightarrow> 'b buffer \<Rightarrow> 'b buffer" where
  "buffer_send p b =
     (if droppable p \<and> packet_topic p \<in> bf_out_firehose b
      then b\<lparr>bf_reject_out_count := bf_reject_out_count b + 1\<rparr>
      else b\<lparr>bf_out_firehose := (if droppable p then insert (packet_topic p) (bf_out_firehose b)
                                 else bf_out_firehose b),
             bf_out := bf_out b @ [packet_copy p]\<rparr>)"

definition thread_send :: "bool \<Rightarrow> tp \<Rightarrow> 'b packet \<Rightarrow> ('s, 'b) tcp_thread \<Rightarrow> (void_result \<times> ('s, 'b) tcp_thread) exec" where
  "thread_send dbg socket p t =
     exec_bind (cassert dbg (socket \<noteq> null_tp)) (\<lambda>_.
     exec_bind (cassert dbg (\<not> p_null p)) (\<lambda>_.
       case map_of (th_buffers t) socket of
         None \<Rightarrow> Inr (failure ''No such socket found'' 0, t)
       | Some b \<Rightarrow> Inr (success, t\<lparr>th_buffers := AList.update socket (buffer_send p b) (th_buffers t)\<rparr>)))"

definition in_queue_count :: "('s, 'b) tcp_thread \<Rightarrow> u64" where
  "in_queue_count t = foldl (\<lambda>ret (_, b). ret + word_of_nat (length (bf_in b))) 0 (th_buffers t)"

definition out_queue_count :: "('s, 'b) tcp_thread \<Rightarrow> u64" where
  "out_queue_count t = foldl (\<lambda>ret (_, b). ret + word_of_nat (length (bf_out b))) 0 (th_buffers t)"

definition thread_exit :: "('s, 'b) tcp_thread \<Rightarrow> ('s, 'b) tcp_thread" where
  "thread_exit t = t\<lparr>th_exit := True\<rparr>"

subsection \<open>The loop\<close>

text \<open>
  The writing section: every queued packet goes to the channel, whatever the write returns,
  and the queue is reset. The last component is \<open>out_packet_count\<close>, where it was assigned.
\<close>

definition buffer_flush :: "('s, 'b) transport_ops \<Rightarrow> 's \<Rightarrow> 'b buffer \<Rightarrow> ('s \<times> 'b buffer \<times> u16 option) exec" where
  "buffer_flush ops s b =
     exec_bind (t_output ops s) (\<lambda>out.
       if \<not> out then Inr (s, b, None)
       else exec_bind (exec_foldl (\<lambda>s p. exec_bind (t_write ops p s) (\<lambda>(r, s'). Inr s')) s (bf_out b)) (\<lambda>s'.
         Inr (s', b\<lparr>bf_out := [], bf_reject_out_count := 0, bf_out_firehose := {}\<rparr>,
              Some (ucast (word_of_nat (length (bf_out b)) + ucast (bf_reject_out_count b) :: u64)))))"

text \<open>The receiving section, for one packet.\<close>

definition buffer_accept :: "'b packet \<Rightarrow> 'b buffer \<Rightarrow> 'b buffer" where
  "buffer_accept p b =
     (if droppable p \<and> packet_topic p \<in> bf_in_firehose b then b
      else b\<lparr>bf_in_firehose := (if droppable p then insert (packet_topic p) (bf_in_firehose b)
                                else bf_in_firehose b),
             bf_in := bf_in b @ [packet_copy p]\<rparr>)"

text \<open>The loop of reads; a transport without an input channel runs through all its turns.\<close>

fun read_loop :: "('s, 'b) transport_ops \<Rightarrow> nat \<Rightarrow> 's \<Rightarrow> 'b buffer \<Rightarrow> ('s \<times> 'b buffer) exec" where
  "read_loop ops 0 s b = Inr (s, b)"
| "read_loop ops (Suc i) s b =
     exec_bind (t_input ops s) (\<lambda>some_in.
       if \<not> some_in then read_loop ops i s b
       else exec_bind (t_read ops s) (\<lambda>(p, s').
         if \<not> to_bool p then Inr (s', b)
         else exec_bind (result_unwrap p) (\<lambda>p_val. read_loop ops i s' (buffer_accept p_val b))))"

text \<open>The body of the loop over the buffers, with the two counters.\<close>

definition run_buffer :: "('s, 'b) transport_ops \<Rightarrow> 's \<Rightarrow> 'b buffer \<Rightarrow> u16 \<times> u16 \<Rightarrow>
    ('s \<times> 'b buffer \<times> u16 \<times> u16) exec" where
  "run_buffer ops s b counts =
     exec_bind (buffer_flush ops s b) (\<lambda>(s1, b1, n).
     exec_bind (t_update ops s1) (\<lambda>s2.
     exec_bind (read_loop ops 100 s2 b1) (\<lambda>(s3, b3).
       Inr (s3, b3, (case n of Some c \<Rightarrow> c | None \<Rightarrow> fst counts), word_of_nat (length (bf_in b3))))))"

text \<open>
  \<open>update_sleep\<close> in IEEE double arithmetic. Numbers are multiples of \<open>2 ^ -55\<close>: the double
  nearest to \<open>0.1\<close> is \<open>3602879701896397\<close> of them, the one nearest to \<open>0.9\<close> is
  \<open>32425917317067572\<close>. \<open>round53\<close> keeps 53 significant bits, to nearest, ties to even.
\<close>

fun excess_bits :: "nat \<Rightarrow> nat" where
  "excess_bits n = (if n < 2 ^ 53 then 0 else Suc (excess_bits (n div 2)))"

declare excess_bits.simps [simp del]

definition round_at :: "nat \<Rightarrow> nat \<Rightarrow> nat" where
  "round_at e n =
     (let q = n div 2 ^ e; r = n mod 2 ^ e
      in if 2 ^ e < 2 * r \<or> 2 * r = 2 ^ e \<and> odd q then q + 1 else q)"

definition round53 :: "nat \<Rightarrow> nat" where
  "round53 n = round_at (excess_bits n) n * 2 ^ excess_bits n"

definition double_0_1 :: nat where "double_0_1 = 3602879701896397"
definition double_0_9 :: nat where "double_0_9 = 32425917317067572"

definition min_sleep :: u16 where "min_sleep = 1000"
definition max_sleep :: u16 where "max_sleep = 5000"

definition update_sleep :: "u16 \<Rightarrow> u16 \<Rightarrow> u16" where
  "update_sleep sleep new_packet_count =
     (let temporal_packet_distance = (if new_packet_count \<noteq> 0 then sleep div new_packet_count else max_sleep);
          a = round53 (unat (max temporal_packet_distance min_sleep) * double_0_1);
          b = round53 (unat sleep * double_0_9)
      in word_of_nat (round53 (a + b) div 2 ^ 55))"

text \<open>One turn of \<open>run\<close>.\<close>

definition run_link :: "('s, 'b) transport_ops \<Rightarrow> ('s, 'b) tcp_thread \<times> u16 \<times> u16 \<Rightarrow> tp \<Rightarrow>
    (('s, 'b) tcp_thread \<times> u16 \<times> u16) exec" where
  "run_link ops acc l =
     (case acc of (t, counts) \<Rightarrow>
        (case map_of (th_buffers t) l of
           None \<Rightarrow> Inr (t, counts)
         | Some b \<Rightarrow>
             exec_bind (run_buffer ops (th_link t l) b counts) (\<lambda>(s, b', counts').
               Inr (t\<lparr>th_link := (th_link t)(l := s), th_buffers := AList.update l b' (th_buffers t)\<rparr>,
                    counts'))))"

definition run_once :: "('s, 'b) transport_ops \<Rightarrow> ('s, 'b) tcp_thread \<Rightarrow> ('s, 'b) tcp_thread exec" where
  "run_once ops t =
     exec_bind (exec_foldl (run_link ops) (t, 0, 0) (map fst (th_buffers t)))
       (\<lambda>(t', out_packet_count, in_packet_count).
          Inr (t'\<lparr>th_sleep := update_sleep (th_sleep t') (max in_packet_count out_packet_count)\<rparr>))"

text \<open>So many turns of \<open>run\<close>.\<close>

fun run_times :: "('s, 'b) transport_ops \<Rightarrow> nat \<Rightarrow> ('s, 'b) tcp_thread \<Rightarrow> ('s, 'b) tcp_thread exec" where
  "run_times ops 0 t = Inr t"
| "run_times ops (Suc n) t = exec_bind (run_once ops t) (run_times ops n)"

subsection \<open>Rounding\<close>

lemma excess_bits_bounds:
  "n < 2 ^ (53 + excess_bits n) \<and> (0 < excess_bits n \<longrightarrow> 2 ^ (52 + excess_bits n) \<le> n)"
proof (induction n rule: excess_bits.induct)
  case (1 n)
  show ?case
  proof (cases "n < 2 ^ 53")
    case True then show ?thesis by (simp add: excess_bits.simps [of n])
  next
    case False
    let ?e = "excess_bits (n div 2)"
    from False have e: "excess_bits n = Suc ?e" by (simp add: excess_bits.simps [of n])
    from 1 False have IH: "n div 2 < 2 ^ (53 + ?e)" "0 < ?e \<longrightarrow> 2 ^ (52 + ?e) \<le> n div 2" by auto
    have "n < 2 * 2 ^ (53 + ?e)" using IH(1) by linarith
    then have "n < 2 ^ (53 + excess_bits n)" by (simp only: e add_Suc_right power_Suc)
    moreover have "2 ^ (52 + excess_bits n) \<le> n"
    proof (cases "?e = 0")
      case True then show ?thesis using False by (simp add: e)
    next
      case False
      then have "2 * 2 ^ (52 + ?e) \<le> n" using IH(2) by linarith
      then show ?thesis by (simp only: e add_Suc_right power_Suc)
    qed
    ultimately show ?thesis by simp
  qed
qed

lemma round_at_mono: "m \<le> n \<Longrightarrow> round_at e m \<le> round_at e n"
proof -
  assume le: "m \<le> n"
  let ?d = "2 ^ e :: nat"
  have q: "m div ?d \<le> n div ?d" using le by (rule div_le_mono)
  show ?thesis
  proof (cases "m div ?d = n div ?d")
    case True
    have "m mod ?d \<le> n mod ?d"
    proof -
      have "m div ?d * ?d + m mod ?d \<le> n div ?d * ?d + n mod ?d"
        using le by (simp only: div_mult_mod_eq)
      then show ?thesis using True by simp
    qed
    then show ?thesis using True by (auto simp: round_at_def Let_def)
  next
    case False
    then show ?thesis using q by (auto simp: round_at_def Let_def)
  qed
qed

lemma round_at_multiple: "round_at e (q * 2 ^ e) = q"
  by (simp add: round_at_def)

lemma round53_mono:
  assumes "m \<le> n"
  shows "round53 m \<le> round53 n"
proof -
  let ?e = excess_bits
  consider "?e m = ?e n" | "?e m < ?e n" | "?e n < ?e m" by linarith
  then show ?thesis
  proof cases
    case 1
    then show ?thesis using round_at_mono [OF assms, of "?e n"] by (simp add: round53_def)
  next
    case 2
    have "round_at (?e m) m \<le> round_at (?e m) (2 ^ 53 * 2 ^ ?e m)"
      using excess_bits_bounds [of m] by (intro round_at_mono) (simp add: power_add)
    then have "round53 m \<le> 2 ^ 53 * 2 ^ ?e m"
      by (simp add: round53_def round_at_multiple)
    also have "\<dots> = 2 ^ (53 + ?e m)" by (simp add: power_add)
    also have "\<dots> \<le> 2 ^ (52 + ?e n)" using 2 by (intro power_increasing) auto
    also have "\<dots> = 2 ^ 52 * 2 ^ ?e n" by (simp add: power_add)
    also have "\<dots> \<le> round53 n"
    proof -
      have "2 ^ 52 * 2 ^ ?e n \<le> n" using excess_bits_bounds [of n] 2 by (simp add: power_add)
      from round_at_mono [OF this, of "?e n"] show ?thesis
        by (simp add: round53_def round_at_multiple)
    qed
    finally show ?thesis .
  next
    case 3
    have "2 ^ (53 + ?e n) \<le> (2 :: nat) ^ (52 + ?e m)" using 3 by (intro power_increasing) auto
    also have "\<dots> \<le> m" using excess_bits_bounds [of m] 3 by simp
    also have "\<dots> \<le> n" by (rule assms)
    finally show ?thesis using excess_bits_bounds [of n] by simp
  qed
qed

lemma round53_values:
  "round53 (1000 * double_0_1) = 100 * 2 ^ 55" "round53 (1000 * double_0_9) = 900 * 2 ^ 55"
  "round53 (10000 * double_0_1) = 1000 * 2 ^ 55" "round53 (10000 * double_0_9) = 9000 * 2 ^ 55"
  "round53 (1000 * 2 ^ 55) = 1000 * 2 ^ 55" "round53 (10000 * 2 ^ 55) = 10000 * 2 ^ 55"
  by (simp_all add: round53_def double_0_1_def double_0_9_def excess_bits.simps round_at_def)

lemma update_sleep_bounds:
  assumes "1000 \<le> unat sleep" and "unat sleep \<le> 10000"
  shows "1000 \<le> unat (update_sleep sleep n) \<and> unat (update_sleep sleep n) \<le> 10000"
proof -
  define t where "t = max (if n \<noteq> 0 then sleep div n else max_sleep) min_sleep"
  define a where "a = round53 (unat t * double_0_1)"
  define b where "b = round53 (unat sleep * double_0_9)"
  define c where "c = round53 (a + b) div 2 ^ 55"
  have t: "1000 \<le> unat t" "unat t \<le> 10000"
  proof -
    have "unat (sleep div n) \<le> unat sleep" by (simp add: unat_div)
    moreover have "unat max_sleep = 5000" "unat min_sleep = 1000"
      by (simp_all add: max_sleep_def min_sleep_def)
    moreover have "unat (max x y) = max (unat x) (unat y)" for x y :: u16
      by (simp add: max_def word_le_nat_alt)
    ultimately show "1000 \<le> unat t" "unat t \<le> 10000" using assms by (auto simp: t_def)
  qed
  have "round53 (1000 * double_0_1) \<le> a" "round53 (1000 * double_0_9) \<le> b"
    "a \<le> round53 (10000 * double_0_1)" "b \<le> round53 (10000 * double_0_9)"
    using t assms unfolding a_def b_def by (intro round53_mono mult_le_mono1; simp)+
  then have "1000 * 2 ^ 55 \<le> a + b" "a + b \<le> 10000 * 2 ^ 55"
    by (simp_all add: round53_values)
  then have "1000 * 2 ^ 55 \<le> round53 (a + b)" "round53 (a + b) \<le> 10000 * 2 ^ 55"
    using round53_mono [of "1000 * 2 ^ 55" "a + b"] round53_mono [of "a + b" "10000 * 2 ^ 55"]
    by (simp_all only: round53_values)
  then have c: "1000 \<le> c" "c \<le> 10000"
    unfolding c_def by (simp_all add: less_eq_div_iff_mult_less_eq div_le_mono [of _ "10000 * 2 ^ 55" "2 ^ 55", simplified])
  have "update_sleep sleep n = word_of_nat c"
    by (simp only: update_sleep_def Let_def c_def a_def b_def t_def)
  moreover have "unat (word_of_nat c :: u16) = c" using c by (simp add: unat_of_nat)
  ultimately show ?thesis using c by simp
qed

subsection \<open>Buffers\<close>

text \<open>
  A firehose set holds the topics of the queued packets that may be dropped, each of them
  queued once.
\<close>

definition firehose_ok :: "'b packet list \<Rightarrow> string set \<Rightarrow> bool" where
  "firehose_ok ps topics \<longleftrightarrow>
     distinct (map packet_topic (filter droppable ps)) \<and> topics = packet_topic ` set (filter droppable ps)"

definition buffer_inv :: "'b buffer \<Rightarrow> bool" where
  "buffer_inv b \<longleftrightarrow> firehose_ok (bf_in b) (bf_in_firehose b) \<and> firehose_ok (bf_out b) (bf_out_firehose b)"

lemma firehose_ok_Nil [simp]: "firehose_ok [] {}"
  by (simp add: firehose_ok_def)

lemma firehose_ok_snoc:
  "firehose_ok ps F \<Longrightarrow> \<not> (droppable p \<and> packet_topic p \<in> F) \<Longrightarrow>
   firehose_ok (ps @ [p]) (if droppable p then insert (packet_topic p) F else F)"
  by (auto simp: firehose_ok_def)

lemma firehose_ok_tl:
  "firehose_ok (p # ps) F \<Longrightarrow> firehose_ok ps (if droppable p then F - {packet_topic p} else F)"
  unfolding firehose_ok_def by (cases "droppable p") force+

lemma buffer_inv_new [simp]: "buffer_inv buffer_new"
  by (simp add: buffer_inv_def buffer_new_def)

lemma buffer_inv_send: "buffer_inv b \<Longrightarrow> buffer_inv (buffer_send p b)"
  using firehose_ok_snoc [of "bf_out b" "bf_out_firehose b" p]
  by (auto simp: buffer_inv_def buffer_send_def)

lemma buffer_inv_accept: "buffer_inv b \<Longrightarrow> buffer_inv (buffer_accept p b)"
  using firehose_ok_snoc [of "bf_in b" "bf_in_firehose b" p]
  by (auto simp: buffer_inv_def buffer_accept_def)

lemma buffer_inv_next: "buffer_inv b \<Longrightarrow> buffer_next none b = (p, b') \<Longrightarrow> buffer_inv b'"
  using firehose_ok_tl [of "hd (bf_in b)" "tl (bf_in b)" "bf_in_firehose b"]
  by (auto simp: buffer_inv_def buffer_next_def split: list.splits)

lemma buffer_inv_flush:
  "buffer_inv b \<Longrightarrow> buffer_flush ops s b = Inr (s', b', c) \<Longrightarrow> buffer_inv b'"
  by (auto simp: buffer_flush_def exec_simps buffer_inv_def split: if_splits)

lemma buffer_flush_in: "buffer_flush ops s b = Inr (s', b', c) \<Longrightarrow> bf_in b' = bf_in b"
  by (auto simp: buffer_flush_def exec_simps split: if_splits)

text \<open>What survives of the packets received when the queue holds the topics \<open>F\<close>.\<close>

fun keep :: "string set \<Rightarrow> 'b packet list \<Rightarrow> 'b packet list" where
  "keep F [] = []"
| "keep F (p # ps) =
     (if droppable p \<and> packet_topic p \<in> F then keep F ps
      else p # keep (if droppable p then insert (packet_topic p) F else F) ps)"

lemma keep_undroppable [simp]: "filter (\<lambda>p. \<not> droppable p) (keep F ps) = filter (\<lambda>p. \<not> droppable p) ps"
  by (induction F ps rule: keep.induct) auto

lemma foldl_accept:
  "bf_in (foldl (\<lambda>b p. buffer_accept p b) b ps) = bf_in b @ keep (bf_in_firehose b) ps"
  "bf_out (foldl (\<lambda>b p. buffer_accept p b) b ps) = bf_out b"
proof (induction ps arbitrary: b)
  case (Cons p ps)
  { case 1 show ?case using Cons(1) [of "buffer_accept p b"] by (auto simp: buffer_accept_def) }
  { case 2 show ?case using Cons(2) [of "buffer_accept p b"] by (auto simp: buffer_accept_def) }
qed simp_all

lemma fold_send_undroppable:
  "\<forall>p \<in> set ps. \<not> droppable p \<Longrightarrow>
   bf_out (foldl (\<lambda>b p. buffer_send p b) b ps) = bf_out b @ ps"
  by (induction ps arbitrary: b) (auto simp: buffer_send_def)

text \<open>What one buffer has exchanged with its link when the packets \<open>qs\<close> came in.\<close>

definition received :: "'b packet list \<Rightarrow> 'b buffer \<Rightarrow> 'b buffer \<Rightarrow> bool" where
  "received qs b b' \<longleftrightarrow> bf_in b' = bf_in (foldl (\<lambda>b p. buffer_accept p b) b qs) \<and>
     bf_in_firehose b' = bf_in_firehose (foldl (\<lambda>b p. buffer_accept p b) b qs)"

lemma accept_cong:
  assumes "bf_in b = bf_in c" and "bf_in_firehose b = bf_in_firehose c"
  shows "bf_in (foldl (\<lambda>b p. buffer_accept p b) b qs) = bf_in (foldl (\<lambda>b p. buffer_accept p b) c qs) \<and>
    bf_in_firehose (foldl (\<lambda>b p. buffer_accept p b) b qs) = bf_in_firehose (foldl (\<lambda>b p. buffer_accept p b) c qs)"
  using assms
proof (induction qs arbitrary: b c)
  case (Cons p qs)
  show ?case
    using Cons.IH [of "buffer_accept p b" "buffer_accept p c"] Cons.prems by (simp add: buffer_accept_def)
qed simp

lemma received_out: "received qs b b' \<longleftrightarrow> received qs (b\<lparr>bf_out := x, bf_reject_out_count := y, bf_out_firehose := z\<rparr>) b'"
  using accept_cong [of b "b\<lparr>bf_out := x, bf_reject_out_count := y, bf_out_firehose := z\<rparr>" qs]
  by (simp add: received_def)

lemma received_trans:
  assumes "received qs b b'" and "received qs' b' b''"
  shows "received (qs @ qs') b b''"
  using assms accept_cong [of b' "foldl (\<lambda>b p. buffer_accept p b) b qs" qs']
  by (simp add: received_def)

lemma received_Nil [simp]: "received [] b b"
  by (simp add: received_def)

lemma received_keep: "received qs b b' \<Longrightarrow> bf_in b' = bf_in b @ keep (bf_in_firehose b) qs"
  by (simp add: received_def foldl_accept)

context transport_link
begin

lemma read_loop_link:
  assumes "link s ps"
  shows "\<exists>s' b' qs rest. read_loop ops n s b = Inr (s', b') \<and> received qs b b' \<and> bf_out b' = bf_out b \<and>
    ps = qs @ rest \<and> link s' rest \<and> sent s' = sent s \<and> todo s' \<le> todo s \<and>
    (0 < n \<and> ps \<noteq> [] \<longrightarrow> todo s' < todo s)"
  using assms
proof (induction n arbitrary: s ps b)
  case 0
  then show ?case by (intro exI [of _ s] exI [of _ b] exI [of _ "[]"] exI [of _ ps]) simp
next
  case (Suc n)
  from read_law [OF Suc.prems] obtain r s1 where
    r: "t_read ops s = Inr (r, s1)" "sent s1 = sent s" "todo s1 \<le> todo s" "ps \<noteq> [] \<longrightarrow> todo s1 < todo s"
      "if to_bool r then \<exists>p ps'. res_ret r = Some p \<and> ps = p # ps' \<and> link s1 ps' else link s1 ps"
    by blast
  show ?case
  proof (cases "to_bool r")
    case False
    then show ?thesis
      using r input_ready [OF Suc.prems]
      by (intro exI [of _ s1] exI [of _ b] exI [of _ "[]"] exI [of _ ps]) simp
  next
    case True
    then obtain p ps' where p: "res_ret r = Some p" "ps = p # ps'" "link s1 ps'" using r(5) by auto
    from Suc.IH [OF p(3), of "buffer_accept p b"] obtain s' b' qs rest where
      q: "read_loop ops n s1 (buffer_accept p b) = Inr (s', b')" "received qs (buffer_accept p b) b'"
        "bf_out b' = bf_out (buffer_accept p b)"
        "ps' = qs @ rest" "link s' rest" "sent s' = sent s1" "todo s' \<le> todo s1"
      by blast
    have "received (p # qs) b b'" using q(2) by (simp add: received_def)
    moreover have "bf_out b' = bf_out b" using q(3) by (simp add: buffer_accept_def)
    ultimately show ?thesis
      using True r p q input_ready [OF Suc.prems]
      by (intro exI [of _ s'] exI [of _ b'] exI [of _ "p # qs"] exI [of _ rest]) (simp add: result_unwrap_def)
  qed
qed

lemma run_buffer_link:
  assumes l: "link s ps" and w: "\<forall>p \<in> set (bf_out b). wire_of p \<noteq> None"
  shows "\<exists>s' b' n m qs rest. run_buffer ops s b counts = Inr (s', b', n, m) \<and>
    sent s' = sent s @ concat (map (\<lambda>p. the (wire_of p)) (bf_out b)) \<and> bf_out b' = [] \<and>
    received qs b b' \<and> ps = qs @ rest \<and> link s' rest \<and> todo s' \<le> todo s \<and> (ps \<noteq> [] \<longrightarrow> todo s' < todo s)"
proof -
  from write_all [OF l w] obtain s1 where
    s1: "exec_foldl (\<lambda>s p. exec_bind (t_write ops p s) (\<lambda>(r, s'). Inr s')) s (bf_out b) = Inr s1"
      "link s1 ps" "sent s1 = sent s @ concat (map (\<lambda>p. the (wire_of p)) (bf_out b))" "todo s1 = todo s"
    by blast
  from update_law [OF s1(2)] obtain s2 where
    s2: "t_update ops s1 = Inr s2" "link s2 ps" "sent s2 = sent s1" "todo s2 \<le> todo s1" by blast
  let ?b = "b\<lparr>bf_out := [], bf_reject_out_count := 0, bf_out_firehose := {}\<rparr>"
  from read_loop_link [OF s2(2), of 100 ?b] obtain s3 b3 qs rest where
    s3: "read_loop ops 100 s2 ?b = Inr (s3, b3)" "received qs ?b b3" "bf_out b3 = bf_out ?b"
      "ps = qs @ rest" "link s3 rest" "sent s3 = sent s2" "todo s3 \<le> todo s2"
      "0 < (100 :: nat) \<and> ps \<noteq> [] \<longrightarrow> todo s3 < todo s2"
    by blast
  have "received qs b b3" using s3(2) received_out [of qs b b3] by blast
  moreover have "run_buffer ops s b counts = Inr (s3, b3,
      ucast (word_of_nat (length (bf_out b)) + ucast (bf_reject_out_count b) :: u64),
      word_of_nat (length (bf_in b3)))"
    using output_ready [OF l] s1(1) s2(1) s3(1) by (simp add: run_buffer_def buffer_flush_def)
  moreover have "todo s3 \<le> todo s" "ps \<noteq> [] \<longrightarrow> todo s3 < todo s" using s1(4) s2(4) s3(7,8) by auto
  moreover have "sent s3 = sent s @ concat (map (\<lambda>p. the (wire_of p)) (bf_out b))" "bf_out b3 = []"
    using s1(3) s2(3) s3(3,6) by simp_all
  ultimately show ?thesis using s3(4,5) by blast
qed

text \<open>All buffers in turn; \<open>P l\<close> are the packets still to come on the link \<open>l\<close>.\<close>

lemma run_links:
  assumes "distinct ls"
    and "\<forall>l \<in> set ls. link (th_link t l) (P l) \<and> (\<exists>b. map_of (th_buffers t) l = Some b \<and>
          (\<forall>p \<in> set (bf_out b). wire_of p \<noteq> None))"
  shows "\<exists>t' c. exec_foldl (run_link ops) (t, counts) ls = Inr (t', c) \<and>
    map fst (th_buffers t') = map fst (th_buffers t) \<and>
    (\<forall>l. l \<notin> set ls \<longrightarrow> th_link t' l = th_link t l \<and> map_of (th_buffers t') l = map_of (th_buffers t) l) \<and>
    (\<forall>l \<in> set ls. \<forall>b. map_of (th_buffers t) l = Some b \<longrightarrow> (\<exists>b' qs rest.
       map_of (th_buffers t') l = Some b' \<and>
       sent (th_link t' l) = sent (th_link t l) @ concat (map (\<lambda>p. the (wire_of p)) (bf_out b)) \<and> bf_out b' = [] \<and>
       received qs b b' \<and> P l = qs @ rest \<and> link (th_link t' l) rest \<and>
       todo (th_link t' l) \<le> todo (th_link t l) \<and> (P l \<noteq> [] \<longrightarrow> todo (th_link t' l) < todo (th_link t l))))"
  using assms
proof (induction ls arbitrary: t counts)
  case (Cons l ls)
  from Cons.prems obtain b where b: "link (th_link t l) (P l)" "map_of (th_buffers t) l = Some b"
    "\<forall>p \<in> set (bf_out b). wire_of p \<noteq> None" and ls: "l \<notin> set ls" "distinct ls"
    by auto
  from run_buffer_link [OF b(1,3), of counts] obtain s' b' n m qs rest where
    r: "run_buffer ops (th_link t l) b counts = Inr (s', b', n, m)"
      "sent s' = sent (th_link t l) @ concat (map (\<lambda>p. the (wire_of p)) (bf_out b))" "bf_out b' = []"
      "received qs b b'" "P l = qs @ rest" "link s' rest" "todo s' \<le> todo (th_link t l)"
      "P l \<noteq> [] \<longrightarrow> todo s' < todo (th_link t l)"
    by blast
  define u where "u = t\<lparr>th_link := (th_link t)(l := s'), th_buffers := AList.update l b' (th_buffers t)\<rparr>"
  have step: "run_link ops (t, counts) l = Inr (u, n, m)"
    using b(2) r(1) by (simp add: run_link_def u_def)
  have "l \<in> set (map fst (th_buffers t))" using b(2) by (metis map_of_eq_None_iff list.set_map option.distinct(1))
  then have fst: "map fst (th_buffers u) = map fst (th_buffers t)" by (simp add: u_def AList.update_keys)
  have other: "th_link u k = th_link t k" "map_of (th_buffers u) k = map_of (th_buffers t) k" if "k \<noteq> l" for k
    using that by (simp_all add: u_def AList.update_conv')
  have "\<forall>k \<in> set ls. link (th_link u k) (P k) \<and> (\<exists>b. map_of (th_buffers u) k = Some b \<and>
      (\<forall>p \<in> set (bf_out b). wire_of p \<noteq> None))"
  proof
    fix k assume k: "k \<in> set ls"
    then have "k \<noteq> l" using ls by auto
    then show "link (th_link u k) (P k) \<and> (\<exists>b. map_of (th_buffers u) k = Some b \<and>
        (\<forall>p \<in> set (bf_out b). wire_of p \<noteq> None))"
      using Cons.prems(2) k other [of k] by simp
  qed
  from Cons.IH [OF ls(2) this, of "(n, m)"] obtain t' c where
    t': "exec_foldl (run_link ops) (u, n, m) ls = Inr (t', c)" "map fst (th_buffers t') = map fst (th_buffers u)"
      "\<forall>k. k \<notin> set ls \<longrightarrow> th_link t' k = th_link u k \<and> map_of (th_buffers t') k = map_of (th_buffers u) k"
      "\<forall>k \<in> set ls. \<forall>b. map_of (th_buffers u) k = Some b \<longrightarrow> (\<exists>b' qs rest.
         map_of (th_buffers t') k = Some b' \<and>
         sent (th_link t' k) = sent (th_link u k) @ concat (map (\<lambda>p. the (wire_of p)) (bf_out b)) \<and> bf_out b' = [] \<and>
         received qs b b' \<and> P k = qs @ rest \<and> link (th_link t' k) rest \<and>
         todo (th_link t' k) \<le> todo (th_link u k) \<and> (P k \<noteq> [] \<longrightarrow> todo (th_link t' k) < todo (th_link u k)))"
    by blast
  have l': "th_link t' l = s'" "map_of (th_buffers t') l = Some b'"
    using t'(3) ls(1) by (simp_all add: u_def AList.update_conv')
  show ?case
  proof (intro exI conjI)
    show "exec_foldl (run_link ops) (t, counts) (l # ls) = Inr (t', c)" using step t'(1) by simp
    show "map fst (th_buffers t') = map fst (th_buffers t)" using t'(2) fst by simp
    show "\<forall>k. k \<notin> set (l # ls) \<longrightarrow> th_link t' k = th_link t k \<and> map_of (th_buffers t') k = map_of (th_buffers t) k"
      using t'(3) other by simp
    show "\<forall>k \<in> set (l # ls). \<forall>b. map_of (th_buffers t) k = Some b \<longrightarrow> (\<exists>b' qs rest.
       map_of (th_buffers t') k = Some b' \<and>
       sent (th_link t' k) = sent (th_link t k) @ concat (map (\<lambda>p. the (wire_of p)) (bf_out b)) \<and> bf_out b' = [] \<and>
       received qs b b' \<and> P k = qs @ rest \<and> link (th_link t' k) rest \<and>
       todo (th_link t' k) \<le> todo (th_link t k) \<and> (P k \<noteq> [] \<longrightarrow> todo (th_link t' k) < todo (th_link t k)))"
    proof (intro ballI allI impI)
      fix k c assume k: "k \<in> set (l # ls)" "map_of (th_buffers t) k = Some c"
      show "\<exists>b' qs rest. map_of (th_buffers t') k = Some b' \<and>
         sent (th_link t' k) = sent (th_link t k) @ concat (map (\<lambda>p. the (wire_of p)) (bf_out c)) \<and> bf_out b' = [] \<and>
         received qs c b' \<and> P k = qs @ rest \<and> link (th_link t' k) rest \<and>
         todo (th_link t' k) \<le> todo (th_link t k) \<and> (P k \<noteq> [] \<longrightarrow> todo (th_link t' k) < todo (th_link t k))"
      proof (cases "k = l")
        case True
        with k(2) b(2) have "c = b" by simp
        then show ?thesis using True l' r by (intro exI [of _ b'] exI [of _ qs] exI [of _ rest]) simp
      next
        case False
        then have "k \<in> set ls" "map_of (th_buffers u) k = Some c" "th_link u k = th_link t k"
          using k other [OF False] by auto
        then show ?thesis using t'(4) by fastforce
      qed
    qed
  qed
qed simp

lemma run_once_link:
  assumes d: "distinct (map fst (th_buffers t))"
    and L: "\<forall>l b. map_of (th_buffers t) l = Some b \<longrightarrow> link (th_link t l) (P l) \<and>
      (\<forall>p \<in> set (bf_out b). wire_of p \<noteq> None)"
  shows "\<exists>t'. run_once ops t = Inr t' \<and> map fst (th_buffers t') = map fst (th_buffers t) \<and>
    (\<forall>l b. map_of (th_buffers t) l = Some b \<longrightarrow> (\<exists>b' qs rest.
       map_of (th_buffers t') l = Some b' \<and>
       sent (th_link t' l) = sent (th_link t l) @ concat (map (\<lambda>p. the (wire_of p)) (bf_out b)) \<and> bf_out b' = [] \<and>
       received qs b b' \<and> P l = qs @ rest \<and> link (th_link t' l) rest \<and>
       todo (th_link t' l) \<le> todo (th_link t l) \<and> (P l \<noteq> [] \<longrightarrow> todo (th_link t' l) < todo (th_link t l))))"
proof -
  let ?ls = "map fst (th_buffers t)"
  have "\<forall>l \<in> set ?ls. link (th_link t l) (P l) \<and> (\<exists>b. map_of (th_buffers t) l = Some b \<and>
      (\<forall>p \<in> set (bf_out b). wire_of p \<noteq> None))"
  proof
    fix l assume "l \<in> set ?ls"
    then obtain b where "map_of (th_buffers t) l = Some b"
      by (metis map_of_eq_None_iff list.set_map not_None_eq)
    then show "link (th_link t l) (P l) \<and> (\<exists>b. map_of (th_buffers t) l = Some b \<and>
        (\<forall>p \<in> set (bf_out b). wire_of p \<noteq> None))" using L by blast
  qed
  from run_links [OF d this, of "(0, 0)"] obtain t' n m where
    t': "exec_foldl (run_link ops) (t, 0, 0) ?ls = Inr (t', n, m)" "map fst (th_buffers t') = ?ls"
    "\<forall>l \<in> set ?ls. \<forall>b. map_of (th_buffers t) l = Some b \<longrightarrow> (\<exists>b' qs rest.
       map_of (th_buffers t') l = Some b' \<and>
       sent (th_link t' l) = sent (th_link t l) @ concat (map (\<lambda>p. the (wire_of p)) (bf_out b)) \<and> bf_out b' = [] \<and>
       received qs b b' \<and> P l = qs @ rest \<and> link (th_link t' l) rest \<and>
       todo (th_link t' l) \<le> todo (th_link t l) \<and> (P l \<noteq> [] \<longrightarrow> todo (th_link t' l) < todo (th_link t l)))"
    by (metis prod.exhaust)
  define u where "u = t'\<lparr>th_sleep := update_sleep (th_sleep t') (max m n)\<rparr>"
  have "run_once ops t = Inr u" using t'(1) by (simp add: run_once_def u_def)
  moreover have "map fst (th_buffers u) = ?ls" using t'(2) by (simp add: u_def)
  moreover have "l \<in> set ?ls" if "map_of (th_buffers t) l = Some b" for l b
    using that by (metis map_of_eq_None_iff list.set_map option.distinct(1))
  moreover have same: "th_link u = th_link t'" "th_buffers u = th_buffers t'" by (simp_all add: u_def)
  ultimately show ?thesis using t'(3) by (intro exI [of _ u] conjI) (assumption | unfold same, blast)+
qed

lemma nothing_todo: "link s ps \<Longrightarrow> todo s = 0 \<Longrightarrow> ps = []"
  using read_law [of s ps] by auto

lemma run_times_link:
  assumes "distinct (map fst (th_buffers t))"
    and "\<forall>l b. map_of (th_buffers t) l = Some b \<longrightarrow> link (th_link t l) (P l) \<and>
      (\<forall>p \<in> set (bf_out b). wire_of p \<noteq> None)"
  shows "\<exists>t'. run_times ops n t = Inr t' \<and>
    (\<forall>l b. map_of (th_buffers t) l = Some b \<longrightarrow> (\<exists>b' qs rest.
       map_of (th_buffers t') l = Some b' \<and> received qs b b' \<and> P l = qs @ rest \<and> link (th_link t' l) rest \<and>
       (todo (th_link t l) \<le> n \<longrightarrow> rest = []) \<and> bf_out b' = (if n = 0 then bf_out b else []) \<and>
       sent (th_link t' l) = sent (th_link t l) @
         (if n = 0 then [] else concat (map (\<lambda>p. the (wire_of p)) (bf_out b)))))"
  using assms
proof (induction n arbitrary: t P)
  case 0
  show ?case
  proof (intro exI [of _ t] conjI allI impI)
    fix l b assume b: "map_of (th_buffers t) l = Some b"
    with 0 have "link (th_link t l) (P l)" by blast
    with b show "\<exists>b' qs rest. map_of (th_buffers t) l = Some b' \<and> received qs b b' \<and> P l = qs @ rest \<and>
        link (th_link t l) rest \<and> (todo (th_link t l) \<le> 0 \<longrightarrow> rest = []) \<and>
        bf_out b' = (if (0 :: nat) = 0 then bf_out b else []) \<and>
        sent (th_link t l) = sent (th_link t l) @
          (if (0 :: nat) = 0 then [] else concat (map (\<lambda>p. the (wire_of p)) (bf_out b)))"
      using nothing_todo [of "th_link t l" "P l"]
      by - (rule exI [of _ b], rule exI [of _ "[]"], rule exI [of _ "P l"], simp)
  qed simp
next
  case (Suc n)
  from run_once_link [OF Suc.prems] obtain u where
    u: "run_once ops t = Inr u" "map fst (th_buffers u) = map fst (th_buffers t)"
    and step: "\<forall>l b. map_of (th_buffers t) l = Some b \<longrightarrow> (\<exists>b' qs rest.
       map_of (th_buffers u) l = Some b' \<and>
       sent (th_link u l) = sent (th_link t l) @ concat (map (\<lambda>p. the (wire_of p)) (bf_out b)) \<and> bf_out b' = [] \<and>
       received qs b b' \<and> P l = qs @ rest \<and> link (th_link u l) rest \<and>
       todo (th_link u l) \<le> todo (th_link t l) \<and> (P l \<noteq> [] \<longrightarrow> todo (th_link u l) < todo (th_link t l)))"
    by blast
  define R where "R l b' rest \<longleftrightarrow> (\<exists>b qs. map_of (th_buffers t) l = Some b \<and> map_of (th_buffers u) l = Some b' \<and>
       sent (th_link u l) = sent (th_link t l) @ concat (map (\<lambda>p. the (wire_of p)) (bf_out b)) \<and> bf_out b' = [] \<and>
       received qs b b' \<and> P l = qs @ rest \<and> link (th_link u l) rest \<and>
       todo (th_link u l) \<le> todo (th_link t l) \<and> (P l \<noteq> [] \<longrightarrow> todo (th_link u l) < todo (th_link t l)))"
    for l b' rest
  have "\<exists>rest. \<forall>b'. map_of (th_buffers u) l = Some b' \<longrightarrow> R l b' rest" for l
  proof (cases "map_of (th_buffers t) l")
    case None
    then have "map_of (th_buffers u) l = None" using u(2) by (metis map_of_eq_None_iff list.set_map)
    then show ?thesis by simp
  next
    case (Some b)
    then show ?thesis using step unfolding R_def by fastforce
  qed
  then obtain Q where Q: "\<And>l b'. map_of (th_buffers u) l = Some b' \<Longrightarrow> R l b' (Q l)" by metis
  have "\<forall>l b. map_of (th_buffers u) l = Some b \<longrightarrow> link (th_link u l) (Q l) \<and>
      (\<forall>p \<in> set (bf_out b). wire_of p \<noteq> None)"
    using Q unfolding R_def by fastforce
  with Suc.IH [of u Q] Suc.prems(1) u(2) obtain t' where
    t': "run_times ops n u = Inr t'"
    and rest: "\<forall>l b. map_of (th_buffers u) l = Some b \<longrightarrow> (\<exists>b' qs rest.
       map_of (th_buffers t') l = Some b' \<and> received qs b b' \<and> Q l = qs @ rest \<and> link (th_link t' l) rest \<and>
       (todo (th_link u l) \<le> n \<longrightarrow> rest = []) \<and> bf_out b' = (if n = 0 then bf_out b else []) \<and>
       sent (th_link t' l) = sent (th_link u l) @
         (if n = 0 then [] else concat (map (\<lambda>p. the (wire_of p)) (bf_out b))))"
    by auto
  show ?case
  proof (intro exI [of _ t'] conjI allI impI)
    show "run_times ops (Suc n) t = Inr t'" using u(1) t' by simp
    fix l b assume b: "map_of (th_buffers t) l = Some b"
    then obtain b1 where b1: "map_of (th_buffers u) l = Some b1" using step by blast
    from Q [OF b1] b obtain qs where
      q: "sent (th_link u l) = sent (th_link t l) @ concat (map (\<lambda>p. the (wire_of p)) (bf_out b))" "bf_out b1 = []"
        "received qs b b1" "P l = qs @ Q l" "todo (th_link u l) \<le> todo (th_link t l)"
        "P l \<noteq> [] \<longrightarrow> todo (th_link u l) < todo (th_link t l)"
      unfolding R_def by auto
    from rest b1 obtain b' qs' r where
      r: "map_of (th_buffers t') l = Some b'" "received qs' b1 b'" "Q l = qs' @ r" "link (th_link t' l) r"
        "todo (th_link u l) \<le> n \<longrightarrow> r = []" "bf_out b' = (if n = 0 then bf_out b1 else [])"
        "sent (th_link t' l) = sent (th_link u l) @
          (if n = 0 then [] else concat (map (\<lambda>p. the (wire_of p)) (bf_out b1)))"
      by blast
    show "\<exists>b' qs rest. map_of (th_buffers t') l = Some b' \<and> received qs b b' \<and> P l = qs @ rest \<and>
        link (th_link t' l) rest \<and> (todo (th_link t l) \<le> Suc n \<longrightarrow> rest = []) \<and>
        bf_out b' = (if Suc n = 0 then bf_out b else []) \<and>
        sent (th_link t' l) = sent (th_link t l) @
          (if Suc n = 0 then [] else concat (map (\<lambda>p. the (wire_of p)) (bf_out b)))"
    proof (intro exI conjI impI)
      show "map_of (th_buffers t') l = Some b'" by (rule r(1))
      show "received (qs @ qs') b b'" by (rule received_trans [OF q(3) r(2)])
      show "P l = (qs @ qs') @ r" using q(4) r(3) by simp
      show "link (th_link t' l) r" by (rule r(4))
      show "bf_out b' = (if Suc n = 0 then bf_out b else [])" using q(2) r(6) by simp
      show "sent (th_link t' l) = sent (th_link t l) @
          (if Suc n = 0 then [] else concat (map (\<lambda>p. the (wire_of p)) (bf_out b)))"
        using q(1,2) r(7) by simp
      show "r = []" if "todo (th_link t l) \<le> Suc n"
      proof (cases "P l = []")
        case True then show ?thesis using q(4) r(3) by simp
      next
        case False then show ?thesis using q(6) r(5) that by auto
      qed
    qed
  qed
qed

end

subsection \<open>Interleaving\<close>

text \<open>
  The thread's critical sections and the calls of other threads, in any order; \<open>none\<close> is the
  packet \<open>next\<close> returns for an empty queue.
\<close>

definition set_buffer :: "tp \<Rightarrow> 's \<Rightarrow> 'b buffer \<Rightarrow> ('s, 'b) tcp_thread \<Rightarrow> ('s, 'b) tcp_thread" where
  "set_buffer l s b t = t\<lparr>th_link := (th_link t)(l := s), th_buffers := AList.update l b (th_buffers t)\<rparr>"

inductive thread_step :: "('s, 'b) transport_ops \<Rightarrow> bool \<Rightarrow> 'b packet \<Rightarrow> ('s, 'b) tcp_thread \<Rightarrow> ('s, 'b) tcp_thread \<Rightarrow> bool"
  for ops :: "('s, 'b) transport_ops" and dbg :: bool and none :: "'b packet" where
  Add: "add_socket dbg l t = Inr (r, t') \<Longrightarrow> thread_step ops dbg none t t'"
| Remove: "remove_socket dbg l t = Inr (r, t') \<Longrightarrow> thread_step ops dbg none t t'"
| Next: "next_packet dbg none l t = Inr (p, t') \<Longrightarrow> thread_step ops dbg none t t'"
| Send: "thread_send dbg l p t = Inr (r, t') \<Longrightarrow> thread_step ops dbg none t t'"
| Flush: "map_of (th_buffers t) l = Some b \<Longrightarrow> buffer_flush ops (th_link t l) b = Inr (s, b', n) \<Longrightarrow>
    thread_step ops dbg none t (set_buffer l s b' t)"
| Update: "map_of (th_buffers t) l = Some b \<Longrightarrow> t_update ops (th_link t l) = Inr s \<Longrightarrow>
    thread_step ops dbg none t (set_buffer l s b t)"
| Fail: "map_of (th_buffers t) l = Some b \<Longrightarrow> t_read ops (th_link t l) = Inr (r, s) \<Longrightarrow> \<not> to_bool r \<Longrightarrow>
    thread_step ops dbg none t (set_buffer l s b t)"
| Read: "map_of (th_buffers t) l = Some b \<Longrightarrow> t_read ops (th_link t l) = Inr (r, s) \<Longrightarrow> to_bool r \<Longrightarrow>
    result_unwrap r = Inr p \<Longrightarrow> thread_step ops dbg none t (set_buffer l s (buffer_accept p b) t)"
| Sleep: "thread_step ops dbg none t (t\<lparr>th_sleep := update_sleep (th_sleep t) n\<rparr>)"
| Exit: "thread_step ops dbg none t (thread_exit t)"

inductive_cases thread_stepE: "thread_step ops dbg none t t'"

definition thread_inv :: "('s, 'b) tcp_thread \<Rightarrow> bool" where
  "thread_inv t \<longleftrightarrow> distinct (map fst (th_buffers t)) \<and>
     (\<forall>l b. map_of (th_buffers t) l = Some b \<longrightarrow> buffer_inv b) \<and>
     1000 \<le> unat (th_sleep t) \<and> unat (th_sleep t) \<le> 10000"

lemma thread_inv_update:
  "thread_inv t \<Longrightarrow> buffer_inv b \<Longrightarrow> thread_inv (t\<lparr>th_buffers := AList.update l b (th_buffers t)\<rparr>)"
  by (auto simp: thread_inv_def alist_simps)

lemma thread_inv_set_buffer:
  "thread_inv t \<Longrightarrow> buffer_inv b \<Longrightarrow> thread_inv (set_buffer l s b t)"
  by (auto simp: thread_inv_def set_buffer_def alist_simps)

lemma thread_inv_buffer: "thread_inv t \<Longrightarrow> map_of (th_buffers t) l = Some b \<Longrightarrow> buffer_inv b"
  unfolding thread_inv_def by blast

lemma thread_inv_step:
  assumes "thread_step ops dbg none t t'" and "thread_inv t"
  shows "thread_inv t'"
  using assms
proof (induction rule: thread_step.induct)
  case (Add l t r t')
  then show ?case by (auto simp: add_socket_def exec_simps split: if_splits intro: thread_inv_update)
next
  case (Remove l t r t')
  then show ?case
    by (auto simp: remove_socket_def exec_simps thread_inv_def alist_simps split: if_splits)
next
  case (Next l t p t')
  then show ?case
    by (auto simp: next_packet_def exec_simps split: option.splits prod.splits
        intro!: thread_inv_update intro: buffer_inv_next thread_inv_buffer)
next
  case (Send l p t r t')
  then show ?case
    by (auto simp: thread_send_def exec_simps split: option.splits
        intro!: thread_inv_update buffer_inv_send intro: thread_inv_buffer)
next
  case (Sleep t n)
  then show ?case using update_sleep_bounds by (auto simp: thread_inv_def)
next
  case (Exit t)
  then show ?case by (auto simp: thread_inv_def thread_exit_def)
qed (auto intro!: thread_inv_set_buffer intro: buffer_inv_flush buffer_inv_accept thread_inv_buffer)

lemma set_buffer_buffer [simp]: "map_of (th_buffers (set_buffer l s b t)) l = Some b"
  "th_link (set_buffer l s b t) l = s"
  by (simp_all add: set_buffer_def AList.update_conv')

lemma alist_update_update: "AList.update k v (AList.update k w al) = AList.update k v al"
  by (induction al) auto

lemma set_buffer_twice [simp]: "set_buffer l s b (set_buffer l s' b' t) = set_buffer l s b t"
  by (simp add: set_buffer_def alist_update_update)

lemma read_loop_steps:
  assumes "read_loop ops n s b = Inr (s', b')" and "map_of (th_buffers t) l = Some b" and "th_link t l = s"
    and "set_buffer l s b t = t"
  shows "(thread_step ops dbg none)\<^sup>*\<^sup>* t (set_buffer l s' b' t)"
  using assms
proof (induction n arbitrary: s b t)
  case (Suc n)
  from Suc.prems(1) obtain i where i: "t_input ops s = Inr i" by (auto simp: exec_simps)
  show ?case
  proof (cases i)
    case False
    then show ?thesis using Suc i by simp
  next
    case True
    then obtain r s1 where r: "t_read ops s = Inr (r, s1)" using Suc.prems(1) i by (auto simp: exec_simps)
    show ?thesis
    proof (cases "to_bool r")
      case False
      then show ?thesis using Suc.prems r i True Fail [OF Suc.prems(2), of ops r s1 dbg none] by auto
    next
      case ok: True
      then obtain p where p: "result_unwrap r = Inr p" "read_loop ops n s1 (buffer_accept p b) = Inr (s', b')"
        using Suc.prems(1) r i True by (auto simp: exec_simps)
      have "thread_step ops dbg none t (set_buffer l s1 (buffer_accept p b) t)"
        using Suc.prems(2,3) r ok p(1) by (intro Read) auto
      moreover have "(thread_step ops dbg none)\<^sup>*\<^sup>* (set_buffer l s1 (buffer_accept p b) t)
          (set_buffer l s' b' (set_buffer l s1 (buffer_accept p b) t))"
        by (rule Suc.IH [OF p(2)]) simp_all
      ultimately show ?thesis by (simp add: converse_rtranclp_into_rtranclp)
    qed
  qed
qed auto

lemma run_link_steps:
  assumes "run_link ops (t, counts) l = Inr (t', counts')"
  shows "(thread_step ops dbg none)\<^sup>*\<^sup>* t t'"
proof (cases "map_of (th_buffers t) l")
  case None
  then show ?thesis using assms by (simp add: run_link_def)
next
  case (Some b)
  from assms obtain s1 b1 n s2 s3 b3 where
    f: "buffer_flush ops (th_link t l) b = Inr (s1, b1, n)" and u: "t_update ops s1 = Inr s2"
    and r: "read_loop ops 100 s2 b1 = Inr (s3, b3)" and t': "t' = set_buffer l s3 b3 t"
    unfolding run_link_def run_buffer_def set_buffer_def
    by (auto simp: Some exec_simps)
  have "thread_step ops dbg none t (set_buffer l s1 b1 t)" using Some f by (rule Flush)
  moreover have "thread_step ops dbg none (set_buffer l s1 b1 t) (set_buffer l s2 b1 (set_buffer l s1 b1 t))"
    using u by (intro Update) simp_all
  moreover have "(thread_step ops dbg none)\<^sup>*\<^sup>* (set_buffer l s2 b1 (set_buffer l s1 b1 t))
      (set_buffer l s3 b3 (set_buffer l s2 b1 (set_buffer l s1 b1 t)))"
    using r by (rule read_loop_steps) simp_all
  ultimately show ?thesis by (simp add: t' converse_rtranclp_into_rtranclp)
qed

subsection \<open>Properties\<close>


text \<open>A thread with one busy connection and a packet queued on it.\<close>

definition sample_thread :: "(tcp_link, sample_doc) tcp_thread" where
  "sample_thread = (tcp_thread_new (\<lambda>_. busy_link))
     \<lparr>th_buffers := [(1, buffer_new\<lparr>bf_out := [tiny_packet]\<rparr>)]\<rparr>"

lemma sample_thread_up:
  "distinct (map fst (th_buffers sample_thread))"
  "\<forall>(l, b) \<in> set (th_buffers sample_thread). tcp_up tiny_lib True strerror (th_link sample_thread l) [set_local_only True tiny_packet] \<and>
     tcp_todo (th_link sample_thread l) \<le> 13 \<and> (\<forall>p \<in> set (bf_out b). tcp_wire_of tiny_lib p \<noteq> None)"
  using busy_up [of strerror] tiny_packed
  by (auto simp: sample_thread_def tcp_thread_new_def buffer_new_def tcp_wire_of_def tiny_lib_def
      tcp_todo_def work_def busy_link_def opened_link_def)






end
