(* ===== verification/Tcp_Server.thy ===== *)
theory Tcp_Server
  imports Transport
begin

text \<open>
  \<open>class tcp_server\<close> (\<open>tcp_server.hpp\<close>, \<open>tcp_server.cpp\<close>). The client sockets are cells of a
  heap; \<open>sv_in\<close> is what the kernel has for each of them. The listeners are behind their
  interface: \<open>notify\<close> runs a listener's callback, with \<open>True\<close> for a connection and \<open>False\<close>
  for a disconnection, on the whole state.
\<close>

record 'w tcp_server =
  sv_address :: socket_address
  sv_socket :: tcp_socket
  sv_clients :: "nat list"
  sv_listeners :: "nat list"
  sv_heap :: "nat \<Rightarrow> tcp_socket option"
  sv_kernel :: kernel
  sv_in :: "nat \<Rightarrow> recv_event list"
  sv_world :: 'w

type_synonym 'w notifier = "bool \<Rightarrow> nat \<Rightarrow> nat \<Rightarrow> 'w tcp_server \<Rightarrow> 'w tcp_server exec"

text \<open>
  \<open>open\<close>: what \<open>socket\<close>, \<open>setsockopt\<close>, \<open>bind\<close> and \<open>listen\<close> return, with one \<open>errno\<close>.
\<close>

definition server_open :: "(u32 \<Rightarrow> string) \<Rightarrow> resolver \<Rightarrow> int \<Rightarrow> int \<Rightarrow> int \<Rightarrow> int \<Rightarrow> u32 \<Rightarrow>
    'w tcp_server \<Rightarrow> void_result \<times> 'w tcp_server" where
  "server_open strerror rs socket_ret setsockopt_ret bind_ret listen_ret errno sv =
     (case tcp_open strerror socket_ret errno (sv_kernel sv) (sv_socket sv) of
        (ret, k1, s1) \<Rightarrow>
          if \<not> to_bool ret then (ret, sv\<lparr>sv_kernel := k1, sv_socket := s1\<rparr>)
          else case tcp_bind strerror rs (sv_address sv) setsockopt_ret bind_ret errno s1 of
            (ret2, s2) \<Rightarrow>
              if \<not> to_bool ret2 then
                (case tcp_close k1 s2 of (k3, s3) \<Rightarrow> (ret2, sv\<lparr>sv_kernel := k3, sv_socket := s3\<rparr>))
              else let ret3 = tcp_listen strerror listen_ret errno s2 in
                if \<not> to_bool ret3 then
                  (case tcp_close k1 s2 of (k3, s3) \<Rightarrow> (ret3, sv\<lparr>sv_kernel := k3, sv_socket := s3\<rparr>))
                else (success, sv\<lparr>sv_kernel := k1, sv_socket := s2\<rparr>))"

text \<open>\<open>client->close(); delete client;\<close>\<close>

definition drop_client :: "nat \<Rightarrow> 'w tcp_server \<Rightarrow> 'w tcp_server exec" where
  "drop_client c sv =
     exec_bind (deref (sv_heap sv) (Some c)) (\<lambda>s.
       case tcp_close (sv_kernel sv) s of
         (k', s') \<Rightarrow> Inr (sv\<lparr>sv_kernel := k', sv_heap := (sv_heap sv)(c := None)\<rparr>))"

text \<open>\<open>close\<close> leaves the pointers to the deleted clients in the vector.\<close>

definition server_close :: "'w tcp_server \<Rightarrow> 'w tcp_server exec" where
  "server_close sv =
     exec_bind (exec_foldl (\<lambda>sv c. drop_client c sv) sv (sv_clients sv)) (\<lambda>sv'.
       case tcp_close (sv_kernel sv') (sv_socket sv') of
         (k', s') \<Rightarrow> Inr (sv'\<lparr>sv_kernel := k', sv_socket := s'\<rparr>))"

definition add_tcp_server_listener :: "nat \<Rightarrow> 'w tcp_server \<Rightarrow> void_result \<times> 'w tcp_server" where
  "add_tcp_server_listener l sv = (success, sv\<lparr>sv_listeners := sv_listeners sv @ [l]\<rparr>)"

definition remove_tcp_server_listener :: "nat \<Rightarrow> 'w tcp_server \<Rightarrow> void_result \<times> 'w tcp_server" where
  "remove_tcp_server_listener l sv = (success, sv\<lparr>sv_listeners := filter (\<lambda>x. x \<noteq> l) (sv_listeners sv)\<rparr>)"

definition notify_all :: "'w notifier \<Rightarrow> bool \<Rightarrow> nat \<Rightarrow> 'w tcp_server \<Rightarrow> 'w tcp_server exec" where
  "notify_all notify b c sv = exec_foldl (\<lambda>sv l. notify b l c sv) sv (sv_listeners sv)"

text \<open>
  The first loop of \<open>spin_update\<close>: the clients that stay, in the first component.
\<close>

definition peek_client :: "(u32 \<Rightarrow> string) \<Rightarrow> nat \<Rightarrow> 'w tcp_server \<Rightarrow> (bool \<times> 'w tcp_server) exec" where
  "peek_client strerror c sv =
     exec_bind (deref (sv_heap sv) (Some c)) (\<lambda>s.
       case tcp_recv strerror (sv_kernel sv) s 1 True (sv_in sv c) of
         (ret, d, es) \<Rightarrow>
           let sv' = sv\<lparr>sv_in := (sv_in sv)(c := es)\<rparr> in
           if \<not> is_open s then Inr (False, sv')
           else if \<not> to_bool ret then Inr (True, sv')
           else exec_bind (result_unwrap ret) (\<lambda>n. Inr (0 < n, sv')))"

fun detect_disconnects :: "(u32 \<Rightarrow> string) \<Rightarrow> 'w notifier \<Rightarrow> nat list \<Rightarrow> 'w tcp_server \<Rightarrow>
    (nat list \<times> 'w tcp_server) exec" where
  "detect_disconnects strerror notify [] sv = Inr ([], sv)"
| "detect_disconnects strerror notify (c # cs) sv =
     exec_bind (peek_client strerror c sv) (\<lambda>(stays, sv1).
       if stays then
         exec_bind (detect_disconnects strerror notify cs sv1) (\<lambda>(kept, sv2). Inr (c # kept, sv2))
       else
         exec_bind (notify_all notify False c sv1) (\<lambda>sv2.
         exec_bind (drop_client c sv2) (\<lambda>sv3. detect_disconnects strerror notify cs sv3)))"

text \<open>
  The second loop: the connections that wait, each with the address of the new socket
  object, the descriptor and the peer; after them \<open>accept\<close> fails.
\<close>

fun accept_all :: "(u32 \<Rightarrow> string) \<Rightarrow> resolver \<Rightarrow> 'w notifier \<Rightarrow> (nat \<times> int \<times> sockaddr_in) list \<Rightarrow>
    'w tcp_server \<Rightarrow> 'w tcp_server exec" where
  "accept_all strerror rs notify [] sv = Inr sv"
| "accept_all strerror rs notify ((c, r, addr) # as) sv =
     (case tcp_accept strerror rs r addr EAGAIN (sv_kernel sv) of
        (ret, k') \<Rightarrow>
          if \<not> to_bool ret then Inr sv
          else exec_bind (result_unwrap ret) (\<lambda>s.
            let sv1 = sv\<lparr>sv_kernel := k', sv_heap := (sv_heap sv)(c \<mapsto> s), sv_clients := sv_clients sv @ [c]\<rparr>
            in exec_bind (notify_all notify True c sv1) (accept_all strerror rs notify as)))"

definition server_spin_update :: "(u32 \<Rightarrow> string) \<Rightarrow> resolver \<Rightarrow> 'w notifier \<Rightarrow> (nat \<times> int \<times> sockaddr_in) list \<Rightarrow>
    'w tcp_server \<Rightarrow> (void_result \<times> 'w tcp_server) exec" where
  "server_spin_update strerror rs notify as sv =
     exec_bind (detect_disconnects strerror notify (sv_clients sv) sv) (\<lambda>(kept, sv1).
     exec_bind (accept_all strerror rs notify (if is_open (sv_socket sv1) then as else [])
                  (sv1\<lparr>sv_clients := kept\<rparr>)) (\<lambda>sv2.
       Inr (success, sv2)))"

subsection \<open>Facts\<close>

text \<open>
  Sequences of events: \<open>safe_run\<close> says that each may happen, whatever those before it did, and
  \<open>run_to\<close> that they lead from one state to another.
\<close>

fun safe_run :: "('e \<Rightarrow> 'w \<Rightarrow> bool) \<Rightarrow> ('e \<Rightarrow> 'w \<Rightarrow> 'w \<Rightarrow> bool) \<Rightarrow> 'e list \<Rightarrow> 'w \<Rightarrow> bool" where
  "safe_run good effect [] w = True"
| "safe_run good effect (e # es) w = (good e w \<and> (\<forall>v. effect e w v \<longrightarrow> safe_run good effect es v))"

fun run_to :: "('e \<Rightarrow> 'w \<Rightarrow> 'w \<Rightarrow> bool) \<Rightarrow> 'e list \<Rightarrow> 'w \<Rightarrow> 'w \<Rightarrow> bool" where
  "run_to effect [] w w' = (w' = w)"
| "run_to effect (e # es) w w' = (\<exists>v. effect e w v \<and> run_to effect es v w')"

lemma run_to_append: "run_to effect (es @ fs) w w' \<longleftrightarrow> (\<exists>v. run_to effect es w v \<and> run_to effect fs v w')"
  by (induction es arbitrary: w) auto

lemma safe_run_append: "safe_run good effect (es @ fs) w \<longleftrightarrow>
    safe_run good effect es w \<and> (\<forall>v. run_to effect es w v \<longrightarrow> safe_run good effect fs v)"
  by (induction es arbitrary: w) auto

text \<open>
  A client stays when its socket is open and the kernel does not report the end of its
  stream.
\<close>

definition client_stays :: "'w tcp_server \<Rightarrow> nat \<Rightarrow> bool" where
  "client_stays sv c \<longleftrightarrow> (case sv_heap sv c of None \<Rightarrow> False
     | Some s \<Rightarrow> is_open s \<and> \<not> (sv_kernel sv (sk_fd s) \<noteq> None \<and>
         (case sv_in sv c of Eof # _ \<Rightarrow> True | Data [] # _ \<Rightarrow> True | _ \<Rightarrow> False)))"

text \<open>Distinct, live clients with descriptors of their own.\<close>

definition server_inv :: "'w tcp_server \<Rightarrow> bool" where
  "server_inv sv \<longleftrightarrow> distinct (sv_clients sv) \<and>
     (\<forall>c \<in> set (sv_clients sv). sv_heap sv c \<noteq> None) \<and>
     (\<forall>c \<in> set (sv_clients sv). \<forall>d \<in> set (sv_clients sv). c \<noteq> d \<longrightarrow>
        (\<forall>s t. sv_heap sv c = Some s \<longrightarrow> sv_heap sv d = Some t \<longrightarrow> is_open s \<longrightarrow> is_open t \<longrightarrow> sk_fd s \<noteq> sk_fd t))"

lemma peek_client_stays:
  assumes "sv_heap sv c = Some s"
  shows "\<exists>es. peek_client strerror c sv = Inr (client_stays sv c, sv\<lparr>sv_in := (sv_in sv)(c := es)\<rparr>)"
  using assms
  by (cases "sv_in sv c"; cases "hd (sv_in sv c)"; cases "fd_valid (sv_kernel sv) s")
     (auto simp: peek_client_def deref_def tcp_recv_def client_stays_def Let_def fd_valid_def
        word_less_nat_alt unat_u64_of_nat split: list.splits)

lemma drop_client_live:
  assumes "sv_heap sv c = Some s"
  shows "drop_client c sv = Inr (sv\<lparr>sv_kernel := (if is_open s then (sv_kernel sv)(sk_fd s := None) else sv_kernel sv),
    sv_heap := (sv_heap sv)(c := None)\<rparr>)"
  using assms by (auto simp: drop_client_def deref_def tcp_close_def is_open_def)

text \<open>Dropping a client does not change what is seen of the others.\<close>

lemma client_stays_other:
  assumes "c \<noteq> d" and "sv_heap sv c = Some s"
    and "\<forall>t. sv_heap sv d = Some t \<longrightarrow> is_open s \<longrightarrow> is_open t \<longrightarrow> sk_fd s \<noteq> sk_fd t"
  shows "client_stays (sv\<lparr>sv_in := (sv_in sv)(c := es), sv_world := w,
      sv_kernel := (if is_open s then (sv_kernel sv)(sk_fd s := None) else sv_kernel sv),
      sv_heap := (sv_heap sv)(c := None)\<rparr>) d = client_stays sv d"
  using assms by (auto simp: client_stays_def split: option.splits)

subsection \<open>Listeners behind their interface\<close>

text \<open>The events of one update, in order.\<close>

definition round_events :: "'w tcp_server \<Rightarrow> (nat \<times> int \<times> sockaddr_in) list \<Rightarrow> (bool \<times> nat \<times> nat) list" where
  "round_events sv as =
     concat (map (\<lambda>c. if client_stays sv c then [] else map (\<lambda>l. (False, l, c)) (sv_listeners sv)) (sv_clients sv)) @
     concat (map (\<lambda>(c, _). map (\<lambda>l. (True, l, c)) (sv_listeners sv)) as)"

text \<open>
  What the server asks of a listener's callbacks: in a world where the event is \<open>good\<close> and while
  the socket exists (a new one \<open>fit\<close> for the listener), the callback returns and changes the
  world as \<open>effect\<close> says, and nothing of the server.
\<close>

locale server_listener =
  fixes notify :: "'w notifier" and fit :: "nat \<Rightarrow> tcp_socket \<Rightarrow> bool"
    and good :: "bool \<times> nat \<times> nat \<Rightarrow> 'w \<Rightarrow> bool" and effect :: "bool \<times> nat \<times> nat \<Rightarrow> 'w \<Rightarrow> 'w \<Rightarrow> bool"
  assumes notify_law: "good (b, l, c) (sv_world sv) \<Longrightarrow> sv_heap sv c = Some s \<Longrightarrow> b \<longrightarrow> fit c s \<Longrightarrow>
    \<exists>w. notify b l c sv = Inr (sv\<lparr>sv_world := w\<rparr>) \<and> effect (b, l, c) (sv_world sv) w"
begin

lemma notify_list:
  assumes "sv_heap sv c = Some s" and "b \<longrightarrow> fit c s" and "safe_run good effect (map (\<lambda>l. (b, l, c)) ls) (sv_world sv)"
  shows "\<exists>w. exec_foldl (\<lambda>sv l. notify b l c sv) sv ls = Inr (sv\<lparr>sv_world := w\<rparr>) \<and>
    run_to effect (map (\<lambda>l. (b, l, c)) ls) (sv_world sv) w"
  using assms
proof (induction ls arbitrary: sv)
  case Nil
  have "sv = sv\<lparr>sv_world := sv_world sv\<rparr>" by simp
  then show ?case by auto
next
  case (Cons l ls)
  then obtain w where w: "notify b l c sv = Inr (sv\<lparr>sv_world := w\<rparr>)" "effect (b, l, c) (sv_world sv) w"
    using notify_law [of b l c sv s] by auto
  with Cons.IH [of "sv\<lparr>sv_world := w\<rparr>"] Cons.prems show ?case by auto
qed

lemma notify_all_run:
  assumes "sv_heap sv c = Some s" and "b \<longrightarrow> fit c s" and "safe_run good effect (map (\<lambda>l. (b, l, c)) (sv_listeners sv)) (sv_world sv)"
  shows "\<exists>w. notify_all notify b c sv = Inr (sv\<lparr>sv_world := w\<rparr>) \<and>
    run_to effect (map (\<lambda>l. (b, l, c)) (sv_listeners sv)) (sv_world sv) w"
  using notify_list [OF assms] by (simp add: notify_all_def)

lemma detect_run:
  assumes "server_inv (sv\<lparr>sv_clients := cs\<rparr>)"
    and "safe_run good effect (concat (map (\<lambda>c. if client_stays sv c then [] else map (\<lambda>l. (False, l, c)) (sv_listeners sv)) cs)) (sv_world sv)"
  shows "\<exists>sv'. detect_disconnects strerror notify cs sv = Inr (filter (client_stays sv) cs, sv') \<and>
    run_to effect (concat (map (\<lambda>c. if client_stays sv c then [] else map (\<lambda>l. (False, l, c)) (sv_listeners sv)) cs))
      (sv_world sv) (sv_world sv') \<and>
    sv_heap sv' = (\<lambda>c. if c \<in> set cs \<and> \<not> client_stays sv c then None else sv_heap sv c) \<and>
    sv_listeners sv' = sv_listeners sv \<and> sv_socket sv' = sv_socket sv \<and> sv_clients sv' = sv_clients sv"
  using assms
proof (induction cs arbitrary: sv)
  case (Cons c cs)
  let ?ls = "sv_listeners sv"
  from Cons.prems(1) obtain s where s: "sv_heap sv c = Some s" by (auto simp: server_inv_def)
  from Cons.prems(1) have c: "c \<notin> set cs" by (auto simp: server_inv_def)
  from peek_client_stays [OF s, of strerror] obtain es where
    peek: "peek_client strerror c sv = Inr (client_stays sv c, sv\<lparr>sv_in := (sv_in sv)(c := es)\<rparr>)" by blast
  let ?ev = "\<lambda>sv'. concat (map (\<lambda>c. if client_stays sv' c then [] else map (\<lambda>l. (False, l, c)) (sv_listeners sv')) cs)"
  have rest: "\<exists>sv'. detect_disconnects strerror notify cs sv1 = Inr (filter (client_stays sv) cs, sv') \<and>
      run_to effect (?ev sv) (sv_world sv1) (sv_world sv') \<and>
      sv_heap sv' = (\<lambda>c. if c \<in> set cs \<and> \<not> client_stays sv c then None else sv_heap sv1 c) \<and>
      sv_listeners sv' = ?ls \<and> sv_socket sv' = sv_socket sv \<and> sv_clients sv' = sv_clients sv"
    if same: "\<And>d. d \<in> set cs \<Longrightarrow> client_stays sv1 d = client_stays sv d \<and> sv_heap sv1 d = sv_heap sv d"
      and st: "sv_listeners sv1 = ?ls" "sv_socket sv1 = sv_socket sv" "sv_clients sv1 = sv_clients sv"
      and safe: "safe_run good effect (?ev sv) (sv_world sv1)" for sv1
  proof -
    have "server_inv (sv1\<lparr>sv_clients := cs\<rparr>)" using Cons.prems(1) same by (simp add: server_inv_def)
    moreover have ev: "?ev sv1 = ?ev sv" using same st by (intro arg_cong [of _ _ concat] map_cong) simp_all
    moreover have "filter (client_stays sv1) cs = filter (client_stays sv) cs" using same by (intro filter_cong) simp_all
    moreover have "(\<lambda>c. if c \<in> set cs \<and> \<not> client_stays sv1 c then None else sv_heap sv1 c) =
        (\<lambda>c. if c \<in> set cs \<and> \<not> client_stays sv c then None else sv_heap sv1 c)"
      using same by (intro ext) auto
    ultimately show ?thesis using Cons.IH [of sv1] safe st by simp
  qed
  show ?case
  proof (cases "client_stays sv c")
    case True
    have "client_stays (sv\<lparr>sv_in := (sv_in sv)(c := es)\<rparr>) d = client_stays sv d" if "d \<in> set cs" for d
      using that c by (cases "sv_heap sv d") (auto simp: client_stays_def)
    with rest [of "sv\<lparr>sv_in := (sv_in sv)(c := es)\<rparr>"] Cons.prems(2) True peek obtain sv' where
      "detect_disconnects strerror notify (c # cs) sv = Inr (c # filter (client_stays sv) cs, sv')"
      "run_to effect (?ev sv) (sv_world sv) (sv_world sv')"
      "sv_heap sv' = (\<lambda>c. if c \<in> set cs \<and> \<not> client_stays sv c then None else sv_heap sv c)"
      "sv_listeners sv' = ?ls" "sv_socket sv' = sv_socket sv" "sv_clients sv' = sv_clients sv"
      by (auto cong: if_cong)
    then show ?thesis using True by (intro exI [of _ sv']) auto
  next
    case False
    let ?sv = "sv\<lparr>sv_in := (sv_in sv)(c := es)\<rparr>"
    have safe: "safe_run good effect (map (\<lambda>l. (False, l, c)) ?ls) (sv_world sv)"
      "\<And>v. run_to effect (map (\<lambda>l. (False, l, c)) ?ls) (sv_world sv) v \<Longrightarrow> safe_run good effect (?ev sv) v"
      using Cons.prems(2) False by (simp_all add: safe_run_append)
    obtain w where w: "notify_all notify False c ?sv = Inr (?sv\<lparr>sv_world := w\<rparr>)"
        "run_to effect (map (\<lambda>l. (False, l, c)) ?ls) (sv_world sv) w"
      using notify_all_run [of ?sv c s False] s safe(1) by auto
    define sv3 where "sv3 = sv\<lparr>sv_in := (sv_in sv)(c := es), sv_world := w,
      sv_kernel := (if is_open s then (sv_kernel sv)(sk_fd s := None) else sv_kernel sv),
      sv_heap := (sv_heap sv)(c := None)\<rparr>"
    have drop: "drop_client c (?sv\<lparr>sv_world := w\<rparr>) = Inr sv3"
      using s by (simp add: drop_client_live sv3_def)
    have fds: "\<forall>x \<in> set (c # cs). \<forall>y \<in> set (c # cs). x \<noteq> y \<longrightarrow>
        (\<forall>s t. sv_heap sv x = Some s \<longrightarrow> sv_heap sv y = Some t \<longrightarrow> is_open s \<longrightarrow> is_open t \<longrightarrow> sk_fd s \<noteq> sk_fd t)"
      using Cons.prems(1) by (simp add: server_inv_def)
    have same: "client_stays sv3 d = client_stays sv d \<and> sv_heap sv3 d = sv_heap sv d" if d: "d \<in> set cs" for d
    proof -
      have "c \<noteq> d" using c d by auto
      moreover from this have "\<forall>t. sv_heap sv d = Some t \<longrightarrow> is_open s \<longrightarrow> is_open t \<longrightarrow> sk_fd s \<noteq> sk_fd t"
        using fds [THEN bspec [of _ _ c], simplified, rule_format, of d] d s by blast
      ultimately have "client_stays sv3 d = client_stays sv d" unfolding sv3_def by (intro client_stays_other [OF _ s])
      then show ?thesis using \<open>c \<noteq> d\<close> by (simp add: sv3_def)
    qed
    obtain sv' where sv': "detect_disconnects strerror notify cs sv3 = Inr (filter (client_stays sv) cs, sv')"
        "run_to effect (?ev sv) w (sv_world sv')"
        "sv_heap sv' = (\<lambda>c. if c \<in> set cs \<and> \<not> client_stays sv c then None else sv_heap sv3 c)"
        "sv_listeners sv' = ?ls" "sv_socket sv' = sv_socket sv" "sv_clients sv' = sv_clients sv"
      using rest [OF same] safe(2) [OF w(2)] by (auto simp: sv3_def)
    have "detect_disconnects strerror notify (c # cs) sv = detect_disconnects strerror notify cs sv3"
      using False peek w(1) drop by simp
    moreover have "sv_heap sv' = (\<lambda>x. if x \<in> set (c # cs) \<and> \<not> client_stays sv x then None else sv_heap sv x)"
      using sv'(3) False by (auto simp: fun_eq_iff sv3_def)
    moreover have "run_to effect (map (\<lambda>l. (False, l, c)) ?ls @ ?ev sv) (sv_world sv) (sv_world sv')"
      using w(2) sv'(2) by (auto simp: run_to_append)
    ultimately show ?thesis using sv' False by (intro exI [of _ sv']) simp
  qed
qed simp

text \<open>The socket a connection gets.\<close>

lemma accept_run:
  assumes "\<forall>(c, r, a) \<in> set as. 0 \<le> r \<and> fit c \<lparr>sk_fd = r, associated_address = sockaddr_to_socket_address rs a\<rparr>"
    and "safe_run good effect (concat (map (\<lambda>(c, _). map (\<lambda>l. (True, l, c)) (sv_listeners sv)) as)) (sv_world sv)"
  shows "\<exists>sv'. accept_all strerror rs notify as sv = Inr sv' \<and>
    sv_clients sv' = sv_clients sv @ map fst as \<and>
    run_to effect (concat (map (\<lambda>(c, _). map (\<lambda>l. (True, l, c)) (sv_listeners sv)) as)) (sv_world sv) (sv_world sv') \<and>
    (\<forall>c. c \<notin> fst ` set as \<longrightarrow> sv_heap sv' c = sv_heap sv c) \<and>
    (\<forall>c \<in> fst ` set as. \<exists>r a. (c, r, a) \<in> set as \<and>
       sv_heap sv' c = Some \<lparr>sk_fd = r, associated_address = sockaddr_to_socket_address rs a\<rparr>) \<and>
    sv_listeners sv' = sv_listeners sv \<and> sv_socket sv' = sv_socket sv"
  using assms
proof (induction "as" arbitrary: sv)
  case (Cons x xs)
  obtain c r a where x: "x = (c, r, a)" by (cases x)
  let ?s = "\<lparr>sk_fd = r, associated_address = sockaddr_to_socket_address rs a\<rparr>" and ?ls = "sv_listeners sv"
  let ?ev = "concat (map (\<lambda>(c, _). map (\<lambda>l. (True, l, c)) ?ls) xs)"
  from Cons.prems(1) x have r: "0 \<le> r" "fit c ?s" by auto
  define sv1 where "sv1 = sv\<lparr>sv_kernel := snd (tcp_accept strerror rs r a EAGAIN (sv_kernel sv)),
      sv_heap := (sv_heap sv)(c \<mapsto> ?s), sv_clients := sv_clients sv @ [c]\<rparr>"
  have sv1: "sv_heap sv1 = (sv_heap sv)(c \<mapsto> ?s)" "sv_listeners sv1 = ?ls" "sv_world sv1 = sv_world sv"
      "sv_clients sv1 = sv_clients sv @ [c]" "sv_socket sv1 = sv_socket sv"
    by (simp_all add: sv1_def)
  have acc: "tcp_accept strerror rs r a EAGAIN (sv_kernel sv) =
      (success_value ?s, snd (tcp_accept strerror rs r a EAGAIN (sv_kernel sv)))"
    using r(1) by (simp add: tcp_accept_def Let_def)
  have step: "accept_all strerror rs notify (x # xs) sv = exec_bind (notify_all notify True c sv1) (accept_all strerror rs notify xs)"
    unfolding x accept_all.simps by (subst acc) (simp add: Let_def sv1_def)
  have safe: "safe_run good effect (map (\<lambda>l. (True, l, c)) ?ls) (sv_world sv)"
    "\<And>v. run_to effect (map (\<lambda>l. (True, l, c)) ?ls) (sv_world sv) v \<Longrightarrow> safe_run good effect ?ev v"
    using Cons.prems(2) by (simp_all add: x safe_run_append)
  obtain w where w: "notify_all notify True c sv1 = Inr (sv1\<lparr>sv_world := w\<rparr>)"
      "run_to effect (map (\<lambda>l. (True, l, c)) ?ls) (sv_world sv) w"
    using notify_all_run [of sv1 c ?s True] r(2) safe(1) by (auto simp: sv1)
  from Cons.IH [of "sv1\<lparr>sv_world := w\<rparr>"] Cons.prems(1) safe(2) [OF w(2)] obtain sv' where
    a: "accept_all strerror rs notify xs (sv1\<lparr>sv_world := w\<rparr>) = Inr sv'" "sv_clients sv' = sv_clients sv @ c # map fst xs"
      "run_to effect ?ev w (sv_world sv')" "\<forall>c. c \<notin> fst ` set xs \<longrightarrow> sv_heap sv' c = sv_heap sv1 c"
      "\<forall>c \<in> fst ` set xs. \<exists>r a. (c, r, a) \<in> set xs \<and>
        sv_heap sv' c = Some \<lparr>sk_fd = r, associated_address = sockaddr_to_socket_address rs a\<rparr>"
      "sv_listeners sv' = ?ls" "sv_socket sv' = sv_socket sv"
    by (auto simp: sv1)
  have "\<exists>r a. (d, r, a) \<in> set (x # xs) \<and> sv_heap sv' d = Some \<lparr>sk_fd = r, associated_address = sockaddr_to_socket_address rs a\<rparr>"
    if "d \<in> fst ` set (x # xs)" for d
  proof (cases "d \<in> fst ` set xs")
    case True
    then show ?thesis using a(5) by fastforce
  next
    case False
    then have "d = c" using that x by auto
    then show ?thesis using a(4) False by (auto simp: x sv1)
  qed
  moreover have "sv_heap sv' d = sv_heap sv d" if "d \<notin> fst ` set (x # xs)" for d
    using a(4) that by (simp add: x sv1)
  moreover have "run_to effect (map (\<lambda>l. (True, l, c)) ?ls @ ?ev) (sv_world sv) (sv_world sv')"
    using w(2) a(3) by (auto simp: run_to_append)
  ultimately show ?case
    using step w(1) a(1,2,6,7) by (intro exI [of _ sv']) (simp add: x del: accept_all.simps)
qed simp

lemma server_round:
  assumes inv: "server_inv sv" and opn: "is_open (sv_socket sv)"
    and as: "\<forall>(c, r, a) \<in> set as. 0 \<le> r \<and> fit c \<lparr>sk_fd = r, associated_address = sockaddr_to_socket_address rs a\<rparr>"
    and safe: "safe_run good effect (round_events sv as) (sv_world sv)"
  shows "\<exists>sv'. server_spin_update strerror rs notify as sv = Inr (success, sv') \<and>
    sv_clients sv' = filter (client_stays sv) (sv_clients sv) @ map fst as \<and>
    run_to effect (round_events sv as) (sv_world sv) (sv_world sv') \<and>
    (\<forall>c. c \<notin> fst ` set as \<longrightarrow> sv_heap sv' c = (if c \<in> set (sv_clients sv) \<and> \<not> client_stays sv c then None else sv_heap sv c)) \<and>
    (\<forall>c \<in> fst ` set as. \<exists>r a. (c, r, a) \<in> set as \<and>
       sv_heap sv' c = Some \<lparr>sk_fd = r, associated_address = sockaddr_to_socket_address rs a\<rparr>) \<and>
    sv_listeners sv' = sv_listeners sv \<and> sv_socket sv' = sv_socket sv"
proof -
  let ?gone = "concat (map (\<lambda>c. if client_stays sv c then [] else map (\<lambda>l. (False, l, c)) (sv_listeners sv)) (sv_clients sv))"
  let ?come = "concat (map (\<lambda>(c, _). map (\<lambda>l. (True, l, c)) (sv_listeners sv)) as)"
  have safe1: "safe_run good effect ?gone (sv_world sv)"
    and safe2: "\<And>v. run_to effect ?gone (sv_world sv) v \<Longrightarrow> safe_run good effect ?come v"
    using safe by (simp_all add: round_events_def safe_run_append)
  have "server_inv (sv\<lparr>sv_clients := sv_clients sv\<rparr>)" using inv by simp
  from detect_run [OF this safe1, of strerror] obtain sv1 where
    d: "detect_disconnects strerror notify (sv_clients sv) sv = Inr (filter (client_stays sv) (sv_clients sv), sv1)"
      "run_to effect ?gone (sv_world sv) (sv_world sv1)"
      "sv_heap sv1 = (\<lambda>c. if c \<in> set (sv_clients sv) \<and> \<not> client_stays sv c then None else sv_heap sv c)"
      "sv_listeners sv1 = sv_listeners sv" "sv_socket sv1 = sv_socket sv"
    by blast
  let ?sv1 = "sv1\<lparr>sv_clients := filter (client_stays sv) (sv_clients sv)\<rparr>"
  have s2: "safe_run good effect (concat (map (\<lambda>(c, _). map (\<lambda>l. (True, l, c)) (sv_listeners ?sv1)) as)) (sv_world ?sv1)"
    using safe2 [OF d(2)] d(4) by simp
  from accept_run [OF as s2, of strerror] obtain sv2 where
    a: "accept_all strerror rs notify as ?sv1 = Inr sv2"
      "sv_clients sv2 = filter (client_stays sv) (sv_clients sv) @ map fst as"
      "run_to effect ?come (sv_world sv1) (sv_world sv2)"
      "\<forall>c. c \<notin> fst ` set as \<longrightarrow> sv_heap sv2 c = sv_heap sv1 c"
      "\<forall>c \<in> fst ` set as. \<exists>r a. (c, r, a) \<in> set as \<and>
        sv_heap sv2 c = Some \<lparr>sk_fd = r, associated_address = sockaddr_to_socket_address rs a\<rparr>"
      "sv_listeners sv2 = sv_listeners sv" "sv_socket sv2 = sv_socket sv"
    by (elim exE conjE) (rule that, (assumption | simp add: d(4,5))+)
  have "run_to effect (round_events sv as) (sv_world sv) (sv_world sv2)"
    using d(2) a(3) by (auto simp: round_events_def run_to_append)
  then show ?thesis
    using d a opn by (intro exI [of _ sv2]) (simp add: server_spin_update_def)
qed

end

text \<open>A listener that only keeps a log.\<close>

type_synonym server_log = "(bool \<times> nat \<times> nat) list"

definition log_notify :: "server_log notifier" where
  "log_notify b l c sv = Inr (sv\<lparr>sv_world := sv_world sv @ [(b, l, c)]\<rparr>)"

definition logs :: "bool \<times> nat \<times> nat \<Rightarrow> server_log \<Rightarrow> server_log \<Rightarrow> bool" where
  "logs e w w' \<longleftrightarrow> w' = w @ [e]"

interpretation log: server_listener log_notify "\<lambda>_ _. True" "\<lambda>_ _. True" logs
  by unfold_locales (simp add: log_notify_def logs_def)

lemma run_to_logs: "run_to logs es w w' \<longleftrightarrow> w' = w @ es"
  by (induction es arbitrary: w) (auto simp: logs_def)

lemma safe_run_True: "safe_run (\<lambda>_ _. True) effect es w"
  by (induction es arbitrary: w) auto

subsection \<open>Properties\<close>


lemma drop_all:
  assumes "distinct cs" and "\<forall>c \<in> set cs. sv_heap sv c \<noteq> None"
  shows "\<exists>sv'. exec_foldl (\<lambda>sv c. drop_client c sv) sv cs = Inr sv' \<and> sv_clients sv' = sv_clients sv \<and>
    (\<forall>c \<in> set cs. sv_heap sv' c = None) \<and> (\<forall>c. c \<notin> set cs \<longrightarrow> sv_heap sv' c = sv_heap sv c)"
  using assms
proof (induction cs arbitrary: sv)
  case (Cons c cs)
  then obtain s where s: "sv_heap sv c = Some s" by auto
  define u where "u = sv\<lparr>sv_kernel := (if is_open s then (sv_kernel sv)(sk_fd s := None) else sv_kernel sv),
    sv_heap := (sv_heap sv)(c := None)\<rparr>"
  have "\<forall>d \<in> set cs. sv_heap u d \<noteq> None" using Cons.prems by (auto simp: u_def)
  from Cons.IH [OF _ this] Cons.prems obtain sv' where
    "exec_foldl (\<lambda>sv c. drop_client c sv) u cs = Inr sv'" "sv_clients sv' = sv_clients u"
    "\<forall>c \<in> set cs. sv_heap sv' c = None" "\<forall>c. c \<notin> set cs \<longrightarrow> sv_heap sv' c = sv_heap u c"
    by auto
  then show ?case
    using drop_client_live [OF s] Cons.prems(1) by (intro exI [of _ sv']) (auto simp: u_def)
qed simp

text \<open>A server with one client whose stream has ended and one that is idle.\<close>

definition sample_server :: "server_log tcp_server" where
  "sample_server = \<lparr>sv_address = \<lparr>sa_host = [], sa_port = 8374\<rparr>,
     sv_socket = \<lparr>sk_fd = 3, associated_address = None\<rparr>, sv_clients = [1, 2], sv_listeners = [9],
     sv_heap = [1 \<mapsto> \<lparr>sk_fd = 4, associated_address = None\<rparr>, 2 \<mapsto> \<lparr>sk_fd = 5, associated_address = None\<rparr>],
     sv_kernel = [3 \<mapsto> 0, 4 \<mapsto> 0, 5 \<mapsto> 0], sv_in = (\<lambda>_. [])(1 := [Eof]), sv_world = []\<rparr>"

lemma sample_server_inv: "server_inv sample_server"
  by (auto simp: server_inv_def sample_server_def)


text \<open>C39: \<open>close\<close> deletes the clients but keeps their pointers: after closing a server that has a
  client, closing it again (which its destructor does) and its next update (which the spinner
  still calls after \<open>stop_gateway_service\<close> has released the server without deleting it) use
  the first of them after free.\<close>

theorem server_close_dangles:
  assumes "server_inv sv" and "sv_clients sv \<noteq> []"
  shows "\<exists>sv'. server_close sv = Inr sv' \<and> sv_clients sv' = sv_clients sv \<and>
    (\<forall>c \<in> set (sv_clients sv'). sv_heap sv' c = None) \<and>
    server_close sv' = Inl Use_after_free \<and>
    server_spin_update strerror rs notify as sv' = Inl Use_after_free"
proof -
  from assms(1) have "distinct (sv_clients sv)" "\<forall>c \<in> set (sv_clients sv). sv_heap sv c \<noteq> None"
    by (auto simp: server_inv_def)
  from drop_all [OF this] obtain u where
    u: "exec_foldl (\<lambda>sv c. drop_client c sv) sv (sv_clients sv) = Inr u" "sv_clients u = sv_clients sv"
      "\<forall>c \<in> set (sv_clients sv). sv_heap u c = None"
    by blast
  obtain k s where ks: "tcp_close (sv_kernel u) (sv_socket u) = (k, s)" by (cases "tcp_close (sv_kernel u) (sv_socket u)")
  define v where "v = u\<lparr>sv_kernel := k, sv_socket := s\<rparr>"
  have v: "server_close sv = Inr v" using u(1) ks by (simp add: server_close_def v_def)
  from assms(2) obtain c cs where c: "sv_clients sv = c # cs" by (cases "sv_clients sv") auto
  have cv: "sv_clients v = c # cs" "sv_heap v c = None" using u c by (simp_all add: v_def)
  then have "server_close v = Inl Use_after_free"
    by (simp add: server_close_def drop_client_def deref_def)
  moreover have "server_spin_update strerror rs notify as v = Inl Use_after_free"
    using cv by (simp add: server_spin_update_def peek_client_def deref_def)
  ultimately show ?thesis using v u by (intro exI [of _ v]) (simp add: v_def)
qed

theorem server_close_dangles_witness:
  "\<exists>sv'. server_close sample_server = Inr sv' \<and> server_close sv' = Inl Use_after_free"
  using server_close_dangles [OF sample_server_inv, of "\<lambda>_. []" plain_resolver log_notify "[]"]
  by (auto simp: sample_server_def)

end
