(* ===== verification/Clock.thy ===== *)
theory Clock
  imports Packet
begin

text \<open>
  The node's network clock: \<open>timersub\<close>, \<open>timeradd\<close> (\<open>src_win/win_sys_time.c\<close>; the macros of the
  same name in \<open>sys/time.h\<close> do the same), the comparison of network times and
  \<open>node_impl::update_time\<close>. A \<open>timeval\<close> has \<open>long\<close> fields, here unbounded; a network time has
  two 32-bit words, so the seconds wrap.
\<close>

record timeval =
  tv_sec :: int
  tv_usec :: int

definition timeradd :: "timeval \<Rightarrow> timeval \<Rightarrow> timeval" where
  "timeradd a b =
     (let sec = tv_sec a + tv_sec b; usec = tv_usec a + tv_usec b
      in if usec > 999999 then \<lparr>tv_sec = sec + 1, tv_usec = usec - 1000000\<rparr>
         else \<lparr>tv_sec = sec, tv_usec = usec\<rparr>)"

definition timersub :: "timeval \<Rightarrow> timeval \<Rightarrow> timeval" where
  "timersub a b =
     (let sec = tv_sec a - tv_sec b; usec = tv_usec a - tv_usec b
      in if usec < 0 then \<lparr>tv_sec = sec - 1, tv_usec = usec + 1000000\<rparr>
         else \<lparr>tv_sec = sec, tv_usec = usec\<rparr>)"

text \<open>\<open>operator >\<close>.\<close>

definition later :: "network_time \<Rightarrow> network_time \<Rightarrow> bool" where
  "later l r \<longleftrightarrow> seconds l > seconds r \<or> seconds l = seconds r \<and> microseconds l > microseconds r"

text \<open>The linear order it belongs to.\<close>

instantiation network_time_ext :: (linorder) linorder
begin

definition less_eq_network_time_ext :: "'a network_time_scheme \<Rightarrow> 'a network_time_scheme \<Rightarrow> bool" where
  "less_eq_network_time_ext l r \<longleftrightarrow> seconds l < seconds r \<or> seconds l = seconds r \<and>
     (microseconds l < microseconds r \<or> microseconds l = microseconds r \<and> network_time.more l \<le> network_time.more r)"

definition less_network_time_ext :: "'a network_time_scheme \<Rightarrow> 'a network_time_scheme \<Rightarrow> bool" where
  "less_network_time_ext l r \<longleftrightarrow> l \<le> r \<and> \<not> r \<le> l"

instance
  by standard (auto simp: less_eq_network_time_ext_def less_network_time_ext_def intro: network_time.equality)

end

lemma later_less: "later l r \<longleftrightarrow> r < l"
  by (auto simp: later_def less_network_time_ext_def less_eq_network_time_ext_def)

text \<open>What \<open>node_impl\<close> does with the stamp of a packet.\<close>

lemma follow_max: "(if later u t then u else t) = max t u"
  by (auto simp: later_less)

text \<open>The new \<open>_network_time\<close>, when \<open>_last_time\<close> is \<open>prev\<close> and the clock reads \<open>now\<close>.\<close>

definition advance :: "timeval \<Rightarrow> timeval \<Rightarrow> network_time \<Rightarrow> network_time" where
  "advance now prev t =
     (let diff = timersub now prev;
          net = \<lparr>tv_sec = uint (seconds t), tv_usec = uint (microseconds t)\<rparr>;
          ans = timeradd net diff
      in \<lparr>seconds = word_of_int (tv_sec ans), microseconds = word_of_int (tv_usec ans)\<rparr>)"

subsection \<open>Facts\<close>

definition tv_us :: "timeval \<Rightarrow> int" where
  "tv_us a = tv_sec a * 1000000 + tv_usec a"

definition net_us :: "network_time \<Rightarrow> int" where
  "net_us t = uint (seconds t) * 1000000 + uint (microseconds t)"

definition tv_ok :: "timeval \<Rightarrow> bool" where
  "tv_ok a \<longleftrightarrow> 0 \<le> tv_usec a \<and> tv_usec a < 1000000"

definition net_ok :: "network_time \<Rightarrow> bool" where
  "net_ok t \<longleftrightarrow> uint (microseconds t) < 1000000"

text \<open>The number of microseconds until the seconds wrap.\<close>

definition net_span :: int where
  "net_span = 2 ^ 32 * 1000000"

lemma timersub_us: "tv_us (timersub a b) = tv_us a - tv_us b"
  by (simp add: timersub_def tv_us_def Let_def algebra_simps)

lemma timeradd_us: "tv_us (timeradd a b) = tv_us a + tv_us b"
  by (simp add: timeradd_def tv_us_def Let_def algebra_simps)

lemma timersub_ok: "tv_ok a \<Longrightarrow> tv_ok b \<Longrightarrow> tv_ok (timersub a b)"
  by (auto simp: timersub_def tv_ok_def Let_def)

lemma timeradd_ok: "tv_ok a \<Longrightarrow> tv_ok b \<Longrightarrow> tv_ok (timeradd a b)"
  by (auto simp: timeradd_def tv_ok_def Let_def)

lemma advance_us:
  assumes "tv_ok now" and "tv_ok prev" and "net_ok t"
  shows "net_us (advance now prev t) = (net_us t + (tv_us now - tv_us prev)) mod net_span"
    and "net_ok (advance now prev t)"
proof -
  define ans where "ans = timeradd \<lparr>tv_sec = uint (seconds t), tv_usec = uint (microseconds t)\<rparr> (timersub now prev)"
  have "tv_ok \<lparr>tv_sec = uint (seconds t), tv_usec = uint (microseconds t)\<rparr>"
    using assms(3) by (simp add: tv_ok_def net_ok_def)
  then have ok: "tv_ok ans" unfolding ans_def using assms(1,2) by (intro timeradd_ok timersub_ok)
  have us: "tv_us ans = net_us t + (tv_us now - tv_us prev)"
    by (simp add: ans_def timeradd_us timersub_us) (simp add: tv_us_def net_us_def)
  have adv: "advance now prev t = \<lparr>seconds = word_of_int (tv_sec ans), microseconds = word_of_int (tv_usec ans)\<rparr>"
    by (simp add: advance_def ans_def Let_def)
  have usec: "uint (word_of_int (tv_usec ans) :: u32) = tv_usec ans"
    using ok by (simp add: tv_ok_def uint_word_of_int)
  have sec: "uint (word_of_int (tv_sec ans) :: u32) = tv_sec ans mod 2 ^ 32"
    by (simp add: uint_word_of_int)
  have "net_us (advance now prev t) = (tv_sec ans mod 2 ^ 32) * 1000000 + tv_usec ans"
    by (simp only: net_us_def adv network_time.select_convs usec sec)
  also have "\<dots> = tv_us ans mod net_span"
  proof -
    have "tv_us ans = tv_usec ans + 1000000 * tv_sec ans" by (simp add: tv_us_def)
    moreover have "tv_usec ans div 1000000 = 0" "tv_usec ans mod 1000000 = tv_usec ans"
      using ok by (simp_all add: tv_ok_def)
    ultimately have "tv_us ans div 1000000 = tv_sec ans" "tv_us ans mod 1000000 = tv_usec ans"
      by simp_all
    moreover have "tv_us ans mod (1000000 * 2 ^ 32) =
        1000000 * (tv_us ans div 1000000 mod 2 ^ 32) + tv_us ans mod 1000000"
      by (rule zmod_zmult2_eq) simp
    ultimately show ?thesis by (simp only: net_span_def mult.commute)
  qed
  finally show "net_us (advance now prev t) = (net_us t + (tv_us now - tv_us prev)) mod net_span"
    by (simp only: us)
  show "net_ok (advance now prev t)" using ok usec by (simp add: net_ok_def adv tv_ok_def)
qed

lemma later_iff: "net_ok l \<Longrightarrow> net_ok r \<Longrightarrow> later l r \<longleftrightarrow> net_us r < net_us l"
  unfolding later_def net_us_def net_ok_def word_less_def word_uint_eq_iff
  using uint_nonnegative [of "microseconds l"] uint_nonnegative [of "microseconds r"] by linarith

text \<open>
  The clock over a sequence of readings: each update measures from the reading before.
\<close>

fun advance_all :: "timeval list \<Rightarrow> timeval \<Rightarrow> network_time \<Rightarrow> network_time" where
  "advance_all [] prev t = t"
| "advance_all (now # ns) prev t = advance_all ns now (advance now prev t)"

subsection \<open>Properties\<close>

text \<open>C27: The network clock does not drift: however often and at whatever times it is updated, it
  moves by exactly the time between the first and the last reading of the system clock (modulo
  the wrap of its 32-bit seconds), its microseconds stay below a million, and on such times the
  comparison is the comparison of the instants, so that a node which takes over a later stamp has
  the later of the two instants.\<close>

theorem clock_no_drift:
  assumes "\<forall>now \<in> set (first # readings). tv_ok now" and "net_ok t"
  shows "net_us (advance_all readings first t) mod net_span =
      (net_us t + (tv_us (last (first # readings)) - tv_us first)) mod net_span \<and>
    net_ok (advance_all readings first t) \<and>
    (net_ok u \<longrightarrow> (later u t \<longleftrightarrow> net_us t < net_us u) \<and>
       net_us (if later u t then u else t) = max (net_us t) (net_us u))"
proof -
  have "net_us (advance_all readings first t) mod net_span =
      (net_us t + (tv_us (last (first # readings)) - tv_us first)) mod net_span \<and>
    net_ok (advance_all readings first t)"
    using assms
  proof (induction readings arbitrary: first t)
    case (Cons now ns)
    then have ok: "tv_ok now" "tv_ok first" "net_ok t" by auto
    note a = advance_us [OF ok]
    have "net_us (advance_all ns now (advance now first t)) mod net_span =
        (net_us (advance now first t) + (tv_us (last (now # ns)) - tv_us now)) mod net_span"
      using Cons a(2) by simp
    also have "\<dots> = (net_us t + (tv_us now - tv_us first) + (tv_us (last (now # ns)) - tv_us now)) mod net_span"
      by (simp only: a(1) mod_add_left_eq)
    also have "\<dots> = (net_us t + (tv_us (last (first # now # ns)) - tv_us first)) mod net_span"
      by (simp add: algebra_simps)
    finally show ?case using Cons a(2) by simp
  qed simp
  then show ?thesis using later_iff [OF _ assms(2), of u] by auto
qed

theorem clock_no_drift_witness:
  "net_us (advance_all [\<lparr>tv_sec = 12, tv_usec = 100000\<rparr>, \<lparr>tv_sec = 20, tv_usec = 5\<rparr>] \<lparr>tv_sec = 10, tv_usec = 999999\<rparr>
      \<lparr>seconds = 7, microseconds = 3\<rparr>) mod net_span = 16000009"
  using clock_no_drift [of "\<lparr>tv_sec = 10, tv_usec = 999999\<rparr>"
      "[\<lparr>tv_sec = 12, tv_usec = 100000\<rparr>, \<lparr>tv_sec = 20, tv_usec = 5\<rparr>]" "\<lparr>seconds = 7, microseconds = 3\<rparr>"
      "\<lparr>seconds = 7, microseconds = 3\<rparr>"]
  by (simp add: tv_ok_def net_ok_def net_us_def tv_us_def net_span_def)

end
