(* ===== verification/Node_State.thy ===== *)
theory Node_State
  imports Mailman Tcp_Thread Tcp_Server Clock
begin

text \<open>
  The state of \<open>class node_impl\<close> (\<open>node_impl.hpp\<close>, \<open>node_impl.cpp\<close>) with the objects it works
  on (\<open>remote_node\<close>, \<open>publisher_impl\<close>, \<open>subscriber_impl\<close>), and what runs when its mailman
  delivers a packet: the internal mailbox's handler, \<open>remote_node::send\<close> and the closure of a
  subscriber. \<open>SPLAT_ENABLED\<close> is not defined in the build; its code is in \<open>Splat_Node\<close>.

  Objects are cells of heaps. A mailbox lives as long as a shared pointer to it, so nothing
  can see its cell once it is gone. A user's callback acts on a state of its own.
\<close>

subsection \<open>Objects\<close>

datatype mode = Allow_internal | Block_internal

text \<open>A null \<open>_link\<close> is \<open>null_tp\<close>. The mailbox a \<open>remote_node\<close> is has its address.\<close>

record remote_node =
  rn_mode :: mode
  rn_link :: tp
  rn_ids :: "u32 set"

text \<open>\<open>pb_box\<close> and \<open>sb_box\<close> are \<open>None\<close> once \<open>set_husk\<close> has reset the pointers.\<close>

record publisher =
  pb_topic :: topic
  pb_box :: "u64 option"
  pb_firehose :: bool
  pb_husk :: bool

record subscriber =
  sb_topic :: topic
  sb_box :: "u64 option"
  sb_husk :: bool
  sb_packed :: bool

text \<open>
  The function a subscription holds: none, a user's, or the closure of a service. The
  incoming-mail closures of the node's mailboxes; a subscriber's holds its user argument.
\<close>

datatype callback = No_callback | User_callback nat | Service_callback

datatype node_cb = Internal_cb | Remote_cb u64 | Subscriber_cb nat callback nat

record ('b, 'u) node =
  nd_name :: string
  nd_dave :: "node_cb mailman"
  nd_box :: u64
  nd_server :: "unit tcp_server option"
  nd_remotes :: "u64 list"
  nd_subscribers :: "nat list"
  nd_publishers :: "nat list"
  nd_id :: u32
  nd_latest :: "(u32 \<times> node_info) list"
  nd_subs :: "topic \<Rightarrow> u32 option"
  nd_local :: "topic \<Rightarrow> u32 option"
  nd_splat :: "topic \<Rightarrow> u32 option"
  nd_time :: network_time
  nd_prev :: timeval
  nd_thread :: "(tcp_link, 'b) tcp_thread"
  nd_auto_exit :: bool
  nd_remote_at :: "u64 \<Rightarrow> remote_node option"
  nd_sub_at :: "nat \<Rightarrow> subscriber option"
  nd_pub_at :: "nat \<Rightarrow> publisher option"
  nd_reads :: nat
  nd_user :: 'u

text \<open>
  What the node runs in: the build, the BSON library, what an uninitialised flag and port hold,
  the messages of the errors, the address lookups, the readings of the system clock (\<open>nd_reads\<close>
  counts them) and the users' callbacks, by their number, argument and document.
\<close>

record ('b, 'u) node_env =
  ne_dbg :: bool
  ne_lib :: "'b bson_lib"
  ne_junk :: bool
  ne_port :: u16
  ne_strerror :: "u32 \<Rightarrow> string"
  ne_resolver :: resolver
  ne_clock :: "nat \<Rightarrow> timeval"
  ne_user :: "nat \<Rightarrow> nat \<Rightarrow> 'b bson \<Rightarrow> 'u \<Rightarrow> 'u exec"

definition load :: "('p \<Rightarrow> 'o option) \<Rightarrow> 'p \<Rightarrow> 'o exec" where
  "load h a = (case h a of None \<Rightarrow> Inl Use_after_free | Some x \<Rightarrow> Inr x)"

lemma load_Inr [exec_simps]: "load h a = Inr x \<longleftrightarrow> h a = Some x"
  by (simp add: load_def split: option.split)

lemma load_Some [simp]: "h a = Some x \<Longrightarrow> load h a = Inr x"
  by (simp add: load_def)

subsection \<open>Construction\<close>

text \<open>
  \<open>h\<close> is the hash of the name, \<open>rnd\<close> what \<open>rand()\<close> returns, \<open>a\<close> the mailbox's address and
  \<open>link\<close> what the addresses of later transports hold. Nothing reads \<open>_last_prune\<close> and
  \<open>_keepalive\<close>.
\<close>

definition node_new :: "('b, 'u) node_env \<Rightarrow> string \<Rightarrow> u64 \<Rightarrow> int \<Rightarrow> u64 \<Rightarrow> (tp \<Rightarrow> tcp_link) \<Rightarrow> 'u \<Rightarrow>
    ('b, 'u) node exec" where
  "node_new env name h rnd a link u =
     (let dave = \<lparr>mm_boxes = [a \<mapsto> mailbox_new topic_internal (Some Internal_cb) False], mm_slots = []\<rparr> in
      exec_bind (register_mailbox a dave) (\<lambda>dave'.
        Inr \<lparr>nd_name = name, nd_dave = dave', nd_box = a, nd_server = None, nd_remotes = [],
             nd_subscribers = [], nd_publishers = [], nd_id = ucast h XOR word_of_int rnd,
             nd_latest = [], nd_subs = Map.empty, nd_local = Map.empty, nd_splat = Map.empty,
             nd_time = \<lparr>seconds = 0, microseconds = 0\<rparr>, nd_prev = ne_clock env 0,
             nd_thread = tcp_thread_new link, nd_auto_exit = False, nd_remote_at = Map.empty,
             nd_sub_at = Map.empty, nd_pub_at = Map.empty, nd_reads = 1, nd_user = u\<rparr>))"

subsection \<open>Counts\<close>

text \<open>\<open>++m[t]\<close> and \<open>--m[t]\<close>: a missing entry is made with 0, and 32 bits wrap.\<close>

definition entry_of :: "(topic \<Rightarrow> u32 option) \<Rightarrow> topic \<Rightarrow> u32" where
  "entry_of m t = (case m t of None \<Rightarrow> 0 | Some v \<Rightarrow> v)"

definition incr :: "topic \<Rightarrow> (topic \<Rightarrow> u32 option) \<Rightarrow> topic \<Rightarrow> u32 option" where
  "incr t m = m(t \<mapsto> entry_of m t + 1)"

definition decr :: "topic \<Rightarrow> (topic \<Rightarrow> u32 option) \<Rightarrow> topic \<Rightarrow> u32 option" where
  "decr t m = m(t \<mapsto> entry_of m t - 1)"

definition tally :: "node_info \<Rightarrow> ('b, 'u) node \<Rightarrow> ('b, 'u) node" where
  "tally info n = n\<lparr>nd_subs := fold incr (n_in_topics info) (nd_subs n),
                    nd_splat := fold incr (map splat_topic (n_splats info)) (nd_splat n)\<rparr>"

definition untally :: "node_info \<Rightarrow> ('b, 'u) node \<Rightarrow> ('b, 'u) node" where
  "untally info n = n\<lparr>nd_subs := fold decr (n_in_topics info) (nd_subs n),
                      nd_splat := fold decr (map splat_topic (n_splats info)) (nd_splat n)\<rparr>"

subsection \<open>What a delivery runs\<close>

definition update_time :: "('b, 'u) node_env \<Rightarrow> ('b, 'u) node \<Rightarrow> ('b, 'u) node" where
  "update_time env n =
     (let now = ne_clock env (nd_reads n)
      in n\<lparr>nd_time := advance now (nd_prev n) (nd_time n), nd_prev := now, nd_reads := Suc (nd_reads n)\<rparr>)"

text \<open>
  The handler of the internal mailbox. A failed \<open>unbind\<close> leaves \<open>info\<close> as it was made, and
  the handler goes on with it.
\<close>

definition store_info :: "node_info \<Rightarrow> ('b, 'u) node \<Rightarrow> ('b, 'u) node" where
  "store_info info n =
     (let n1 = (case map_of (nd_latest n) (n_id info) of Some old \<Rightarrow> untally old n | None \<Rightarrow> n)
      in tally info (n1\<lparr>nd_latest := AList.update (n_id info) info (nd_latest n1)\<rparr>))"

definition internal_handler :: "('b, 'u) node_env \<Rightarrow> 'b packet \<Rightarrow> ('b, 'u) node \<Rightarrow>
    (void_result \<times> ('b, 'u) node) exec" where
  "internal_handler env p n =
     (let n1 = update_time env n;
          n2 = (if later (packet_stamp p) (nd_time n1) then n1\<lparr>nd_time := packet_stamp p\<rparr> else n1)
      in case p_msg p of
           None \<Rightarrow> Inl Null_deref
         | Some doc \<Rightarrow>
             let info = (case info_unbind (ne_lib env) doc of Some i \<Rightarrow> i | None \<Rightarrow> info_default (ne_lib env))
             in if n_id info = nd_id n2 then Inr (success, n2)
                else Inr (success, store_info info n2))"

text \<open>\<open>remote_node::send\<close>; \<open>stamped\<close> is the packet it hands on.\<close>

definition stamped :: "'b bson_lib \<Rightarrow> u32 \<Rightarrow> 'b packet \<Rightarrow> 'b packet" where
  "stamped lib i p =
     packet_build lib (p\<lparr>p_meta := (p_meta p)\<lparr>m_path := m_path (p_meta p) @ [i], m_id := i\<rparr>\<rparr>)"

definition wanted :: "('b, 'u) node \<Rightarrow> remote_node \<Rightarrow> topic \<Rightarrow> bool" where
  "wanted n rn t \<longleftrightarrow> rn_mode rn = Allow_internal \<and> t = topic_internal \<or> nd_subs n t \<noteq> None"

definition remote_send :: "('b, 'u) node_env \<Rightarrow> u64 \<Rightarrow> 'b packet \<Rightarrow> ('b, 'u) node \<Rightarrow>
    (void_result \<times> ('b, 'u) node) exec" where
  "remote_send env r p n =
     (if p_local_only p then Inr (success, n)
      else exec_bind (load (nd_remote_at n) r) (\<lambda>rn.
        if \<not> wanted n rn (m_topic (p_meta p)) then Inr (success, n)
        else exec_bind (thread_send (ne_dbg env) (rn_link rn) (stamped (ne_lib env) (nd_id n) (packet_copy p)) (nd_thread n))
          (\<lambda>(ret, t). Inr (ret, n\<lparr>nd_thread := t\<rparr>))))"

text \<open>
  The closure of a subscriber. A service's function is empty (\<open>service_impl\<close> does not store
  it), and calling it throws.
\<close>

definition subscriber_handler :: "('b, 'u) node_env \<Rightarrow> nat \<Rightarrow> callback \<Rightarrow> nat \<Rightarrow> 'b packet \<Rightarrow> ('b, 'u) node \<Rightarrow>
    (void_result \<times> ('b, 'u) node) exec" where
  "subscriber_handler env s cb arg p n =
     (case cb of
        No_callback \<Rightarrow> Inr (success, n)
      | User_callback f \<Rightarrow>
          exec_bind (load (nd_sub_at n) s) (\<lambda>sb.
          exec_bind (ne_user env f arg (if sb_packed sb then p_packed p else p_msg p) (nd_user n)) (\<lambda>u.
            Inr (success, n\<lparr>nd_user := u\<rparr>)))
      | Service_callback \<Rightarrow> Inl Uncaught_exception)"

fun node_run :: "('b, 'u) node_env \<Rightarrow> node_cb \<Rightarrow> 'b packet \<Rightarrow> ('b, 'u) node \<Rightarrow> (void_result \<times> ('b, 'u) node) exec" where
  "node_run env Internal_cb p n = internal_handler env p n"
| "node_run env (Remote_cb r) p n = remote_send env r p n"
| "node_run env (Subscriber_cb s cb arg) p n = subscriber_handler env s cb arg p n"

text \<open>\<open>place_outgoing_mail\<close> of a mailbox of the node.\<close>

definition node_mail :: "('b, 'u) node_env \<Rightarrow> u64 \<Rightarrow> 'b packet \<Rightarrow> ('b, 'u) node \<Rightarrow>
    (void_result \<times> ('b, 'u) node) exec" where
  "node_mail env a p n = place_outgoing_mail (node_run env) (nd_dave n) a p n"

subsection \<open>Counts\<close>

text \<open>
  The subscriptions the latest information lists, and the count that goes with them: the number
  modulo \<open>2 ^ 32\<close>, and an entry for every topic that is listed.
\<close>

fun listed :: "(u32 \<times> node_info) list \<Rightarrow> topic \<Rightarrow> nat" where
  "listed [] t = 0"
| "listed ((i, info) # al) t = count_list (n_in_topics info) t + listed al t"

definition counts_match :: "(topic \<Rightarrow> u32 option) \<Rightarrow> (topic \<Rightarrow> nat) \<Rightarrow> bool" where
  "counts_match m f \<longleftrightarrow> (\<forall>t. entry_of m t = word_of_nat (f t) \<and> (0 < f t \<longrightarrow> m t \<noteq> None))"

definition latest_ok :: "('b, 'u) node \<Rightarrow> bool" where
  "latest_ok n \<longleftrightarrow> distinct (map fst (nd_latest n)) \<and>
     (\<forall>(i, info) \<in> set (nd_latest n). n_id info = i \<and> i \<noteq> nd_id n) \<and>
     counts_match (nd_subs n) (listed (nd_latest n))"

lemma entry_of_incr: "entry_of (incr t m) t' = entry_of m t' + (if t' = t then 1 else 0)"
  by (simp add: entry_of_def incr_def)

lemma entry_of_decr: "entry_of (decr t m) t' = entry_of m t' - (if t' = t then 1 else 0)"
  by (simp add: entry_of_def decr_def)

lemma incr_None: "incr t m t' = None \<longleftrightarrow> m t' = None \<and> t' \<noteq> t"
  by (simp add: incr_def)

lemma decr_None: "decr t m t' = None \<longleftrightarrow> m t' = None \<and> t' \<noteq> t"
  by (simp add: decr_def)

lemma fold_incr:
  "entry_of (fold incr ts m) t = entry_of m t + word_of_nat (count_list ts t)"
  "fold incr ts m t = None \<longleftrightarrow> m t = None \<and> t \<notin> set ts"
  by (induction ts arbitrary: m) (auto simp: entry_of_incr incr_None)

lemma fold_decr:
  "entry_of (fold decr ts m) t = entry_of m t - word_of_nat (count_list ts t)"
  "fold decr ts m t = None \<longleftrightarrow> m t = None \<and> t \<notin> set ts"
  by (induction ts arbitrary: m) (auto simp: entry_of_decr decr_None)

lemma counts_match_incr:
  "counts_match m f \<Longrightarrow> counts_match (fold incr ts m) (\<lambda>t. f t + count_list ts t)"
  by (auto simp: counts_match_def fold_incr count_list_0_iff)

lemma counts_match_decr:
  assumes "counts_match m (\<lambda>t. f t + count_list ts t)"
  shows "counts_match (fold decr ts m) f"
  using assms by (auto simp: counts_match_def fold_decr)

lemma listed_update:
  assumes "distinct (map fst al)"
  shows "listed (AList.update i info al) t =
    listed (AList.delete i al) t + count_list (n_in_topics info) t"
    and "map_of al i = Some old \<Longrightarrow> listed al t = listed (AList.delete i al) t + count_list (n_in_topics old) t"
    and "map_of al i = None \<Longrightarrow> AList.delete i al = al"
proof -
  have del: "i \<notin> fst ` set al \<Longrightarrow> AList.delete i al = al" for al :: "(u32 \<times> node_info) list"
    by (induction al) auto
  show "listed (AList.update i info al) t = listed (AList.delete i al) t + count_list (n_in_topics info) t"
    using assms by (induction al) (auto simp: del)
  show "map_of al i = Some old \<Longrightarrow> listed al t = listed (AList.delete i al) t + count_list (n_in_topics old) t"
    using assms by (induction al) (auto simp: del split: if_splits)
  show "map_of al i = None \<Longrightarrow> AList.delete i al = al"
    by (simp add: del map_of_eq_None_iff)
qed

text \<open>Replacing one node's information, with the old taken off the counts and the new put on.\<close>

lemma counts_match_replace:
  assumes "distinct (map fst al)" and "counts_match m (listed al)"
    and m1: "m1 = (case map_of al i of Some old \<Rightarrow> fold decr (n_in_topics old) m | None \<Rightarrow> m)"
  shows "counts_match (fold incr (n_in_topics info) m1) (listed (AList.update i info al))"
proof -
  note l = listed_update [OF assms(1)]
  have "counts_match m1 (listed (AList.delete i al))"
  proof (cases "map_of al i")
    case None
    then show ?thesis using assms(2) by (simp add: m1 l(3))
  next
    case (Some old)
    have "listed al = (\<lambda>t. listed (AList.delete i al) t + count_list (n_in_topics old) t)"
      by (rule ext) (rule l(2) [OF Some])
    then have "counts_match m (\<lambda>t. listed (AList.delete i al) t + count_list (n_in_topics old) t)"
      using assms(2) by simp
    then show ?thesis by (simp add: m1 Some counts_match_decr)
  qed
  from counts_match_incr [OF this] show ?thesis by (simp add: l(1) fun_eq_iff [symmetric] counts_match_def)
qed

lemma store_info_latest_ok:
  assumes "latest_ok n" and "n_id info \<noteq> nd_id n"
  shows "latest_ok (store_info info n)"
proof -
  have "nd_latest (store_info info n) = AList.update (n_id info) info (nd_latest n)"
    and "nd_id (store_info info n) = nd_id n"
    and "nd_subs (store_info info n) = fold incr (n_in_topics info)
      (case map_of (nd_latest n) (n_id info) of Some old \<Rightarrow> fold decr (n_in_topics old) (nd_subs n) | None \<Rightarrow> nd_subs n)"
    by (simp_all add: store_info_def tally_def untally_def Let_def split: option.split)
  moreover have "counts_match (fold incr (n_in_topics info)
      (case map_of (nd_latest n) (n_id info) of Some old \<Rightarrow> fold decr (n_in_topics old) (nd_subs n) | None \<Rightarrow> nd_subs n))
      (listed (AList.update (n_id info) info (nd_latest n)))"
    by (rule counts_match_replace) (use assms(1) in \<open>simp_all add: latest_ok_def\<close>)
  ultimately show ?thesis
    using assms by (auto simp: latest_ok_def alist_simps)
qed

subsection \<open>What a delivery leaves alone\<close>

text \<open>
  A delivery changes the clock, what the node knows of others, the users' state and the
  outgoing queues; nothing else.
\<close>

definition same_in :: "(tp \<times> 'b buffer) list \<Rightarrow> (tp \<times> 'b buffer) list \<Rightarrow> bool" where
  "same_in bs bs' \<longleftrightarrow> map fst bs' = map fst bs \<and>
     (\<forall>l. map_option bf_in (map_of bs' l) = map_option bf_in (map_of bs l))"

definition frame :: "('b, 'u) node \<Rightarrow> ('b, 'u) node \<Rightarrow> bool" where
  "frame n n' \<longleftrightarrow>
     nd_name n' = nd_name n \<and> nd_dave n' = nd_dave n \<and> nd_box n' = nd_box n \<and> nd_server n' = nd_server n \<and>
     nd_remotes n' = nd_remotes n \<and> nd_subscribers n' = nd_subscribers n \<and> nd_publishers n' = nd_publishers n \<and>
     nd_id n' = nd_id n \<and> nd_local n' = nd_local n \<and> nd_auto_exit n' = nd_auto_exit n \<and>
     nd_remote_at n' = nd_remote_at n \<and> nd_sub_at n' = nd_sub_at n \<and> nd_pub_at n' = nd_pub_at n \<and>
     th_link (nd_thread n') = th_link (nd_thread n) \<and> th_sleep (nd_thread n') = th_sleep (nd_thread n) \<and>
     th_exit (nd_thread n') = th_exit (nd_thread n) \<and>
     same_in (th_buffers (nd_thread n)) (th_buffers (nd_thread n')) \<and>
     (latest_ok n \<longrightarrow> latest_ok n')"

lemma same_in_refl [simp]: "same_in bs bs"
  by (simp add: same_in_def)

lemma same_in_trans: "same_in as bs \<Longrightarrow> same_in bs cs \<Longrightarrow> same_in as cs"
  by (simp add: same_in_def)

lemma frame_refl [simp]: "frame n n"
  by (simp add: frame_def)

lemma frame_trans: "frame n n' \<Longrightarrow> frame n' n'' \<Longrightarrow> frame n n''"
  by (auto simp: frame_def intro: same_in_trans)

lemma frameD:
  assumes "frame n n'"
  shows "nd_name n' = nd_name n" "nd_dave n' = nd_dave n" "nd_box n' = nd_box n" "nd_server n' = nd_server n"
    "nd_remotes n' = nd_remotes n" "nd_subscribers n' = nd_subscribers n" "nd_publishers n' = nd_publishers n"
    "nd_id n' = nd_id n" "nd_local n' = nd_local n" "nd_auto_exit n' = nd_auto_exit n"
    "nd_remote_at n' = nd_remote_at n" "nd_sub_at n' = nd_sub_at n" "nd_pub_at n' = nd_pub_at n"
    "th_link (nd_thread n') = th_link (nd_thread n)"
    "map fst (th_buffers (nd_thread n')) = map fst (th_buffers (nd_thread n))"
    "map_option bf_in (map_of (th_buffers (nd_thread n')) l) = map_option bf_in (map_of (th_buffers (nd_thread n)) l)"
    "latest_ok n \<Longrightarrow> latest_ok n'"
  using assms by (simp_all add: frame_def same_in_def)

lemma internal_handler_time:
  assumes "internal_handler env p n = Inr (ret, n')"
  shows "nd_time n' = max (nd_time (update_time env n)) (packet_stamp p)"
proof -
  have "nd_time (store_info info m) = nd_time m" for info and m :: "('a, 'b) node"
    by (simp add: store_info_def tally_def untally_def Let_def split: option.split)
  then show ?thesis
    using assms follow_max [of "packet_stamp p" "nd_time (update_time env n)"]
    by (auto simp: internal_handler_def Let_def split: option.splits if_splits)
qed

lemma latest_ok_cong:
  "nd_latest n' = nd_latest n \<Longrightarrow> nd_subs n' = nd_subs n \<Longrightarrow> nd_id n' = nd_id n \<Longrightarrow> latest_ok n' = latest_ok n"
  by (simp add: latest_ok_def)

lemma frame_update_time: "frame n (update_time env n)"
  by (simp add: frame_def update_time_def Let_def latest_ok_def)

lemma frame_store_info: "n_id info \<noteq> nd_id n \<Longrightarrow> frame n (store_info info n)"
  using store_info_latest_ok [of n info]
  by (simp add: frame_def store_info_def tally_def untally_def Let_def split: option.split)

lemma same_in_update:
  assumes "map_of bs l = Some b" and "bf_in b' = bf_in b"
  shows "same_in bs (AList.update l b' bs)"
proof -
  have "map fst (AList.update l b' bs) = map fst bs"
    using assms(1) by (induction bs) (auto split: if_splits)
  with assms show ?thesis by (simp add: same_in_def AList.update_conv')
qed

lemma buffer_send_in [simp]: "bf_in (buffer_send p b) = bf_in b"
  by (simp add: buffer_send_def)

lemma thread_send_cases:
  assumes "thread_send dbg l p t = Inr (r, t')"
  obtains "t' = t" and "map_of (th_buffers t) l = None" and "r = failure ''No such socket found'' 0"
  | b where "t' = t\<lparr>th_buffers := AList.update l (buffer_send p b) (th_buffers t)\<rparr>"
      and "map_of (th_buffers t) l = Some b" and "r = success"
  using assms by (auto simp: thread_send_def exec_simps split: option.splits)

lemma frame_thread:
  assumes "t' = (nd_thread n)\<lparr>th_buffers := bs\<rparr>" and "same_in (th_buffers (nd_thread n)) bs"
  shows "frame n (n\<lparr>nd_thread := t'\<rparr>)"
  using assms by (simp add: frame_def latest_ok_def)

lemma frame_remote_send:
  assumes "remote_send env a p n = Inr (r, n')"
  shows "frame n n'"
proof (cases "n' = n")
  case False
  then obtain l q t where n': "n' = n\<lparr>nd_thread := t\<rparr>" and "thread_send (ne_dbg env) l q (nd_thread n) = Inr (r, t)"
    using assms by (auto simp: remote_send_def exec_simps split: if_splits)
  from this(2) show ?thesis
  proof (cases rule: thread_send_cases)
    case 1
    then show ?thesis using False n' by simp
  next
    case (2 b)
    show ?thesis
      unfolding n' by (rule frame_thread [OF 2(1)]) (rule same_in_update [OF 2(2)], simp)
  qed
qed simp

lemma node_run_frame:
  assumes "node_run env cb p n = Inr (r, n')"
  shows "frame n n'"
proof (cases cb)
  case Internal_cb
  define n2 where "n2 = (if later (packet_stamp p) (nd_time (update_time env n))
    then (update_time env n)\<lparr>nd_time := packet_stamp p\<rparr> else update_time env n)"
  have "frame (update_time env n) n2" by (simp add: n2_def frame_def latest_ok_def)
  then have 2: "frame n n2" using frame_update_time frame_trans by blast
  have "n' = n2 \<or> (\<exists>info. n_id info \<noteq> nd_id n2 \<and> n' = store_info info n2)"
    using assms
    by (auto simp: Internal_cb internal_handler_def Let_def n2_def [symmetric] split: option.splits if_splits)
  then show ?thesis using 2 frame_store_info frame_trans by blast
next
  case (Remote_cb a)
  then show ?thesis using assms frame_remote_send by auto
next
  case (Subscriber_cb s c arg)
  then show ?thesis
    using assms by (auto simp: subscriber_handler_def exec_simps frame_def latest_ok_def split: callback.splits)
qed

lemma node_mail_frame:
  assumes "node_mail env a p n = Inr (r, n')"
  shows "frame n n'"
  by (rule place_outgoing_invariant [where P = "frame n", OF assms [unfolded node_mail_def]])
     (auto intro: frame_trans node_run_frame)

end
