(* ===== verification/Delivery.thy ===== *)
theory Delivery
  imports Node_State
begin

text \<open>
  What it takes for a delivery inside a node to succeed, and what it does: \<open>node_live\<close> is the
  part of the node's invariant every delivery relies on, \<open>calls\<close> and \<open>sends_to\<close> describe the
  effect of handing a packet to one mailbox.
\<close>

definition closure_ok :: "('b, 'u) node \<Rightarrow> u64 \<Rightarrow> node_cb mailbox \<Rightarrow> bool" where
  "closure_ok n a mb \<longleftrightarrow>
     (case mb_incoming mb of
        None \<Rightarrow> True
      | Some Internal_cb \<Rightarrow> mb_topic mb = topic_internal
      | Some (Remote_cb r) \<Rightarrow> r = a \<and> r \<in> set (nd_remotes n)
      | Some (Subscriber_cb s cb arg) \<Rightarrow> s \<in> set (nd_subscribers n) \<and> cb \<noteq> Service_callback)"

text \<open>
  The table is sound, every registered mailbox has a closure that may run, the remotes are
  alive and each has a link of its own that the thread watches, and the pointers to
  subscribers and publishers are alive.
\<close>

definition node_live :: "('b, 'u) node \<Rightarrow> bool" where
  "node_live n \<longleftrightarrow> mailman_inv (nd_dave n) \<and>
     (\<forall>t. \<forall>a \<in> members (nd_dave n) t. \<forall>mb. mm_boxes (nd_dave n) a = Some mb \<longrightarrow> closure_ok n a mb) \<and>
     mm_boxes (nd_dave n) (nd_box n) \<noteq> None \<and>
     (\<forall>r \<in> set (nd_remotes n). \<exists>rn. nd_remote_at n r = Some rn \<and> rn_link rn \<noteq> null_tp \<and>
        map_of (th_buffers (nd_thread n)) (rn_link rn) \<noteq> None) \<and>
     (\<forall>r \<in> set (nd_remotes n). \<forall>r' \<in> set (nd_remotes n). \<forall>rn rn'. nd_remote_at n r = Some rn \<longrightarrow>
        nd_remote_at n r' = Some rn' \<longrightarrow> rn_link rn = rn_link rn' \<longrightarrow> r = r') \<and>
     (\<forall>s \<in> set (nd_subscribers n). \<exists>sb. nd_sub_at n s = Some sb \<and> \<not> sb_husk sb) \<and>
     (\<forall>s \<in> set (nd_publishers n). \<exists>pb. nd_pub_at n s = Some pb \<and> \<not> pb_husk pb)"

definition users_return :: "('b, 'u) node_env \<Rightarrow> bool" where
  "users_return env \<longleftrightarrow> (\<forall>f arg d u. \<exists>u'. ne_user env f arg d u = Inr u')"

text \<open>A packet that may be delivered: not null, and with a message when it is internal.\<close>

definition deliverable :: "'b packet \<Rightarrow> bool" where
  "deliverable p \<longleftrightarrow> \<not> p_null p \<and> (packet_topic p = topic_internal \<longrightarrow> p_msg p \<noteq> None)"

lemma node_liveD:
  assumes "node_live n"
  shows "mailman_inv (nd_dave n)"
    and "a \<in> members (nd_dave n) t \<Longrightarrow> mm_boxes (nd_dave n) a = Some mb \<Longrightarrow> closure_ok n a mb"
    and "\<exists>mb. mm_boxes (nd_dave n) (nd_box n) = Some mb"
    and "r \<in> set (nd_remotes n) \<Longrightarrow> \<exists>rn b. nd_remote_at n r = Some rn \<and> rn_link rn \<noteq> null_tp \<and>
        map_of (th_buffers (nd_thread n)) (rn_link rn) = Some b"
    and "r \<in> set (nd_remotes n) \<Longrightarrow> r' \<in> set (nd_remotes n) \<Longrightarrow> nd_remote_at n r = Some rn \<Longrightarrow>
        nd_remote_at n r' = Some rn' \<Longrightarrow> rn_link rn = rn_link rn' \<Longrightarrow> r = r'"
    and "s \<in> set (nd_subscribers n) \<Longrightarrow> \<exists>sb. nd_sub_at n s = Some sb \<and> \<not> sb_husk sb"
    and "s' \<in> set (nd_publishers n) \<Longrightarrow> \<exists>pb. nd_pub_at n s' = Some pb \<and> \<not> pb_husk pb"
  using assms unfolding node_live_def by blast+

lemma node_liveI:
  assumes "mailman_inv (nd_dave n)"
    and "\<And>t a mb. a \<in> members (nd_dave n) t \<Longrightarrow> mm_boxes (nd_dave n) a = Some mb \<Longrightarrow> closure_ok n a mb"
    and "\<exists>mb. mm_boxes (nd_dave n) (nd_box n) = Some mb"
    and "\<And>r. r \<in> set (nd_remotes n) \<Longrightarrow> \<exists>rn b. nd_remote_at n r = Some rn \<and> rn_link rn \<noteq> null_tp \<and>
        map_of (th_buffers (nd_thread n)) (rn_link rn) = Some b"
    and "\<And>r r' rn rn'. r \<in> set (nd_remotes n) \<Longrightarrow> r' \<in> set (nd_remotes n) \<Longrightarrow> nd_remote_at n r = Some rn \<Longrightarrow>
        nd_remote_at n r' = Some rn' \<Longrightarrow> rn_link rn = rn_link rn' \<Longrightarrow> r = r'"
    and "\<And>s. s \<in> set (nd_subscribers n) \<Longrightarrow> \<exists>sb. nd_sub_at n s = Some sb \<and> \<not> sb_husk sb"
    and "\<And>s. s \<in> set (nd_publishers n) \<Longrightarrow> \<exists>pb. nd_pub_at n s = Some pb \<and> \<not> pb_husk pb"
  shows "node_live n"
  unfolding node_live_def
proof (intro conjI ballI allI impI)
  show "mm_boxes (nd_dave n) (nd_box n) \<noteq> None" using assms(3) by auto
  show "\<exists>rn. nd_remote_at n r = Some rn \<and> rn_link rn \<noteq> null_tp \<and>
      map_of (th_buffers (nd_thread n)) (rn_link rn) \<noteq> None" if "r \<in> set (nd_remotes n)" for r
    using assms(4) [OF that] by auto
qed (use assms in blast)+

lemma closure_ok_outgoing [simp]: "closure_ok n a (mb\<lparr>mb_outgoing := b\<rparr>) \<longleftrightarrow> closure_ok n a mb"
  by (simp add: closure_ok_def split: option.split node_cb.split)

text \<open>A closure stays good while its object stays listed.\<close>

lemma closure_ok_mono:
  assumes "closure_ok n a mb"
    and "\<And>r. mb_incoming mb = Some (Remote_cb r) \<Longrightarrow> r \<in> set (nd_remotes n) \<Longrightarrow> r \<in> set (nd_remotes n')"
    and "\<And>s cb arg. mb_incoming mb = Some (Subscriber_cb s cb arg) \<Longrightarrow> s \<in> set (nd_subscribers n) \<Longrightarrow>
      s \<in> set (nd_subscribers n')"
  shows "closure_ok n' a mb"
  using assms by (auto simp: closure_ok_def split: option.splits node_cb.splits)

lemma frame_watched:
  assumes "frame n n'"
  shows "map_of (th_buffers (nd_thread n')) l \<noteq> None \<longleftrightarrow> map_of (th_buffers (nd_thread n)) l \<noteq> None"
  using frameD(16) [OF assms, of l] by (metis option.map_disc_iff)

lemma frame_live:
  assumes "frame n n'"
  shows "node_live n' \<longleftrightarrow> node_live n"
  unfolding node_live_def closure_ok_def by (simp only: frameD [OF assms] frame_watched [OF assms])

subsection \<open>Deliveries succeed\<close>

lemma thread_send_watched:
  "l \<noteq> null_tp \<Longrightarrow> \<not> p_null p \<Longrightarrow> map_of (th_buffers t) l = Some b \<Longrightarrow>
   thread_send dbg l p t = Inr (success, t\<lparr>th_buffers := AList.update l (buffer_send p b) (th_buffers t)\<rparr>)"
  by (simp add: thread_send_def)

lemma stamped_simps [simp]:
  "p_null (stamped lib i p) = p_null p" "p_msg (stamped lib i p) = p_msg p"
  "p_meta (stamped lib i p) = (p_meta p)\<lparr>m_path := m_path (p_meta p) @ [i], m_id := i\<rparr>"
  "p_local_only (stamped lib i p) = p_local_only p" "packet_topic (stamped lib i p) = packet_topic p"
  by (simp_all add: stamped_def packet_topic_def)

lemma remote_send_eq:
  assumes "nd_remote_at n r = Some rn" and "rn_link rn \<noteq> null_tp" and "\<not> p_null p"
    and "map_of (th_buffers (nd_thread n)) (rn_link rn) = Some b"
  shows "remote_send env r p n = Inr (success,
    if p_local_only p \<or> \<not> wanted n rn (packet_topic p) then n
    else n\<lparr>nd_thread := (nd_thread n)\<lparr>th_buffers :=
      AList.update (rn_link rn) (buffer_send (stamped (ne_lib env) (nd_id n) p) b) (th_buffers (nd_thread n))\<rparr>\<rparr>)"
  using assms by (simp add: remote_send_def packet_topic_def thread_send_watched)

lemma live_run:
  assumes live: "node_live n" and a: "a \<in> members (nd_dave n) t" "mm_boxes (nd_dave n) a = Some mb"
    and p: "deliverable p" "t = packet_topic p \<or> t = topic_any" and users: "users_return env"
  shows "\<exists>n'. place_incoming_mail (node_run env) mb p n = Inr (success, n')"
proof (cases "mb_incoming mb")
  case None
  then show ?thesis by (simp add: place_incoming_mail_def)
next
  case (Some cb)
  have t: "mb_topic mb = t" using memberD [OF node_liveD(1) [OF live] a(1)] a(2) by auto
  have ok: "closure_ok n a mb" by (rule node_liveD(2) [OF live a])
  show ?thesis
  proof (cases cb)
    case Internal_cb
    then have "t = topic_internal" using ok Some t by (simp add: closure_ok_def)
    then obtain doc where "p_msg p = Some doc" using p by (auto simp: deliverable_def)
    then show ?thesis
      using Some Internal_cb by (simp add: place_incoming_mail_def internal_handler_def Let_def)
  next
    case (Remote_cb r)
    then have "r \<in> set (nd_remotes n)" using ok Some by (auto simp: closure_ok_def)
    then obtain rn b where "nd_remote_at n r = Some rn" "rn_link rn \<noteq> null_tp"
        "map_of (th_buffers (nd_thread n)) (rn_link rn) = Some b"
      using node_liveD(4) [OF live] by blast
    from remote_send_eq [OF this(1,2) _ this(3), of p env] show ?thesis
      using Some Remote_cb p by (simp add: place_incoming_mail_def deliverable_def)
  next
    case (Subscriber_cb s c arg)
    then have s: "s \<in> set (nd_subscribers n)" "c \<noteq> Service_callback" using ok Some by (auto simp: closure_ok_def)
    then obtain sb where "nd_sub_at n s = Some sb" using node_liveD(6) [OF live] by blast
    moreover have "\<exists>u'. ne_user env f arg d (nd_user n) = Inr u'" for f d
      using users by (simp add: users_return_def)
    ultimately show ?thesis
      using Some Subscriber_cb s
      by (cases c) (auto simp: place_incoming_mail_def subscriber_handler_def exec_simps)
  qed
qed

lemma node_mail_live:
  assumes live: "node_live n" and box: "mm_boxes (nd_dave n) a = Some mb"
    and p: "deliverable p" and users: "users_return env"
  shows "\<exists>n'. node_mail env a p n = Inr (success, n') \<and> frame n n' \<and> node_live n'"
proof (cases "mb_outgoing mb")
  case False
  then show ?thesis using box live by (simp add: node_mail_def place_outgoing_mail_def box_at_def)
next
  case True
  let ?mm = "nd_dave n" and ?f = "place_into (node_run env) (nd_dave n) p"
  let ?xs = "slot_recipients (box_key a) (topic_slot ?mm (packet_topic p)) @
    slot_recipients (box_key a) (topic_slot ?mm topic_any)"
  have inv: "mailman_inv ?mm" by (rule node_liveD(1) [OF live])
  have "\<exists>t. ?f s x = Inr t \<and> nd_dave t = ?mm \<and> node_live t"
    if x: "x \<in> set ?xs" and s: "nd_dave s = ?mm \<and> node_live s" for s x
  proof -
    obtain t where t: "x \<in> members ?mm t" "t = packet_topic p \<or> t = topic_any"
      using x slot_recipients_spec(2) [OF inv] by fastforce
    obtain mbx where mbx: "mm_boxes ?mm x = Some mbx" by (rule memberD [OF inv t(1)])
    have "x \<in> members (nd_dave s) t" "mm_boxes (nd_dave s) x = Some mbx" using s t(1) mbx by simp_all
    then obtain s' where s': "place_incoming_mail (node_run env) mbx p s = Inr (success, s')"
      using live_run [OF conjunct2 [OF s] _ _ p t(2) users] by blast
    then have "frame s s'"
      by (auto simp: place_incoming_mail_def split: option.splits intro: node_run_frame)
    with s' s mbx frame_live [of s s'] frameD(2) [of s s'] show ?thesis
      by (simp add: place_into_def assert_result_def success_def to_bool_def result_of_value_def)
  qed
  then have "\<exists>t. exec_foldl ?f n ?xs = Inr t \<and> nd_dave t = ?mm \<and> node_live t"
    by (intro exec_foldl_total [where P = "\<lambda>s. nd_dave s = ?mm \<and> node_live s"]) (use live in blast)+
  then obtain n' where n': "node_mail env a p n = Inr (success, n')" "node_live n'"
    using box True by (auto simp: node_mail_def place_outgoing_mail_def box_at_def mailman_send_eq [OF inv])
  with node_mail_frame [OF n'(1)] show ?thesis by blast
qed

subsection \<open>What a delivery does\<close>

text \<open>
  For a packet that is not internal: the calls of users' functions a mailbox stands for, each
  with the document it is given, and the links it sends the packet to.
\<close>

definition calls :: "('b, 'u) node \<Rightarrow> 'b packet \<Rightarrow> u64 \<Rightarrow> (nat \<times> nat \<times> 'b bson) list" where
  "calls n p a =
     (case mm_boxes (nd_dave n) a of
        None \<Rightarrow> []
      | Some mb \<Rightarrow>
          (case mb_incoming mb of
             Some (Subscriber_cb s (User_callback f) arg) \<Rightarrow>
               [(f, arg, case nd_sub_at n s of Some sb \<Rightarrow> (if sb_packed sb then p_packed p else p_msg p) | None \<Rightarrow> None)]
           | _ \<Rightarrow> []))"

definition sends_to :: "('b, 'u) node \<Rightarrow> 'b packet \<Rightarrow> u64 \<Rightarrow> tp \<Rightarrow> bool" where
  "sends_to n p r l \<longleftrightarrow> \<not> p_local_only p \<and>
     (case mm_boxes (nd_dave n) r of
        None \<Rightarrow> False
      | Some mb \<Rightarrow> mb_incoming mb = Some (Remote_cb r) \<and>
          (case nd_remote_at n r of None \<Rightarrow> False | Some rn \<Rightarrow> rn_link rn = l \<and> wanted n rn (packet_topic p)))"

definition call_users :: "('b, 'u) node_env \<Rightarrow> (nat \<times> nat \<times> 'b bson) list \<Rightarrow> 'u \<Rightarrow> 'u exec" where
  "call_users env cs u = exec_foldl (\<lambda>u (f, arg, d). ne_user env f arg d u) u cs"

lemma call_users_simps [simp]:
  "call_users env [] u = Inr u"
  "call_users env (cs @ ds) u = exec_bind (call_users env cs u) (\<lambda>v. call_users env ds v)"
  "call_users env [c] u = (case c of (f, arg, d) \<Rightarrow> ne_user env f arg d u)"
  by (simp_all add: call_users_def exec_foldl_append)

text \<open>The node after the handlers of some of its mailboxes ran.\<close>

definition handled :: "('b, 'u) node_env \<Rightarrow> 'b packet \<Rightarrow> ('b, 'u) node \<Rightarrow> u64 set \<Rightarrow> 'u \<Rightarrow> ('b, 'u) node \<Rightarrow> bool" where
  "handled env p n A u n' \<longleftrightarrow> frame n n' \<and> nd_user n' = u \<and> nd_subs n' = nd_subs n \<and> nd_latest n' = nd_latest n \<and>
     nd_time n' = nd_time n \<and>
     (\<forall>l. map_of (th_buffers (nd_thread n')) l = map_option (\<lambda>b. if \<exists>r \<in> A. sends_to n p r l
        then buffer_send (stamped (ne_lib env) (nd_id n) p) b else b) (map_of (th_buffers (nd_thread n)) l))"

lemma live_run_effect:
  assumes live: "node_live n" and a: "a \<in> members (nd_dave n) t" "mm_boxes (nd_dave n) a = Some mb"
    and p: "\<not> p_null p" "t \<noteq> topic_internal"
    and u: "call_users env (calls n p a) (nd_user n) = Inr u"
  shows "\<exists>n'. place_incoming_mail (node_run env) mb p n = Inr (success, n') \<and> handled env p n {a} u n'"
proof (cases "mb_incoming mb")
  case None
  then show ?thesis
    using u a by (simp add: place_incoming_mail_def handled_def calls_def sends_to_def map_option.id [unfolded id_def])
next
  case (Some cb)
  have t: "mb_topic mb = t" using memberD [OF node_liveD(1) [OF live] a(1)] a(2) by auto
  have ok: "closure_ok n a mb" by (rule node_liveD(2) [OF live a])
  show ?thesis
  proof (cases cb)
    case Internal_cb
    then show ?thesis using ok Some t p by (simp add: closure_ok_def)
  next
    case (Remote_cb r)
    then have r: "r = a" "r \<in> set (nd_remotes n)" using ok Some by (auto simp: closure_ok_def)
    then obtain rn b where rn: "nd_remote_at n r = Some rn" "rn_link rn \<noteq> null_tp"
        "map_of (th_buffers (nd_thread n)) (rn_link rn) = Some b"
      using node_liveD(4) [OF live] by blast
    have none: "calls n p a = []" using a Some Remote_cb by (simp add: calls_def)
    have to: "sends_to n p a l \<longleftrightarrow> rn_link rn = l \<and> \<not> p_local_only p \<and> wanted n rn (packet_topic p)" for l
      using a Some Remote_cb r rn by (auto simp: sends_to_def)
    let ?n' = "if p_local_only p \<or> \<not> wanted n rn (packet_topic p) then n
      else n\<lparr>nd_thread := (nd_thread n)\<lparr>th_buffers :=
        AList.update (rn_link rn) (buffer_send (stamped (ne_lib env) (nd_id n) p) b) (th_buffers (nd_thread n))\<rparr>\<rparr>"
    have eq: "node_run env cb p n = Inr (success, ?n')"
      using remote_send_eq [OF rn(1,2) p(1) rn(3), of env] by (simp add: Remote_cb)
    have "handled env p n {a} u ?n'"
      using node_run_frame [OF eq] u none rn(3)
      by (auto simp: handled_def to AList.update_conv' map_option.id [unfolded id_def] fun_upd_def)
    with eq Some show ?thesis by (simp add: place_incoming_mail_def)
  next
    case (Subscriber_cb s c arg)
    then have s: "s \<in> set (nd_subscribers n)" "c \<noteq> Service_callback" using ok Some by (auto simp: closure_ok_def)
    then obtain sb where sb: "nd_sub_at n s = Some sb" using node_liveD(6) [OF live] by blast
    have to: "\<not> sends_to n p a l" for l using a Some Subscriber_cb by (simp add: sends_to_def)
    have eq: "node_run env cb p n = Inr (success, n\<lparr>nd_user := u\<rparr>)"
      using u a Some s sb by (cases c) (simp_all add: Subscriber_cb subscriber_handler_def calls_def)
    have "handled env p n {a} u (n\<lparr>nd_user := u\<rparr>)"
      using node_run_frame [OF eq] by (simp add: handled_def to map_option.id [unfolded id_def])
    with eq Some show ?thesis by (simp add: place_incoming_mail_def)
  qed
qed

lemma handled_cong:
  assumes "handled env p n A u n'"
  shows "calls n' p = calls n p" and "sends_to n' p = sends_to n p" and "nd_id n' = nd_id n"
proof -
  have f: "frame n n'" and "nd_subs n' = nd_subs n" using assms by (simp_all add: handled_def)
  then have w: "wanted n' = wanted n" by (simp add: wanted_def fun_eq_iff)
  show "calls n' p = calls n p" "sends_to n' p = sends_to n p" "nd_id n' = nd_id n"
    unfolding fun_eq_iff calls_def sends_to_def w frameD [OF f] by (rule refl | rule allI)+
qed

text \<open>Distinct mailboxes send to distinct links, so no link gets a packet twice.\<close>

lemma sends_to_once:
  assumes live: "node_live n" and "a \<in> members (nd_dave n) t" and "a' \<in> members (nd_dave n) t'"
    and "sends_to n p a l" and "sends_to n p a' l"
  shows "a = a'"
proof -
  have r: "a \<in> set (nd_remotes n) \<and> (\<exists>rn. nd_remote_at n a = Some rn \<and> rn_link rn = l)"
    if mem: "a \<in> members (nd_dave n) t" and to: "sends_to n p a l" for a t
  proof -
    obtain mb rn where "mm_boxes (nd_dave n) a = Some mb" "mb_incoming mb = Some (Remote_cb a)"
        "nd_remote_at n a = Some rn" "rn_link rn = l"
      using to by (auto simp: sends_to_def split: option.splits)
    with node_liveD(2) [OF live mem] show ?thesis by (simp add: closure_ok_def)
  qed
  show ?thesis
    using r [OF assms(2,4)] r [OF assms(3,5)] node_liveD(5) [OF live] by auto
qed

lemma handled_all:
  assumes live: "node_live n" and p: "\<not> p_null p"
    and "distinct xs" and "\<forall>x \<in> set xs. \<exists>t. t \<noteq> topic_internal \<and> x \<in> members (nd_dave n) t"
    and "call_users env (concat (map (calls n p) xs)) (nd_user n) = Inr u"
  shows "\<exists>n'. exec_foldl (place_into (node_run env) (nd_dave n) p) n xs = Inr n' \<and> handled env p n (set xs) u n'"
  using assms(3-5)
proof (induction xs arbitrary: u rule: rev_induct)
  case Nil
  then show ?case by (simp add: handled_def map_option.id [unfolded id_def])
next
  case (snoc x xs)
  then obtain v where v: "call_users env (concat (map (calls n p) xs)) (nd_user n) = Inr v"
      "call_users env (calls n p x) v = Inr u"
    by (auto simp: exec_simps)
  from snoc.IH [OF _ _ v(1)] snoc.prems obtain n1 where
    n1: "exec_foldl (place_into (node_run env) (nd_dave n) p) n xs = Inr n1" "handled env p n (set xs) v n1"
    by auto
  have f1: "frame n n1" using n1(2) by (simp add: handled_def)
  note same = frameD [OF f1] handled_cong [OF n1(2)]
  obtain t where t: "t \<noteq> topic_internal" "x \<in> members (nd_dave n1) t" using snoc.prems(2) same by auto
  have live1: "node_live n1" using frame_live [OF f1] live by simp
  obtain mb where mb: "mm_boxes (nd_dave n1) x = Some mb"
    by (rule memberD [OF node_liveD(1) [OF live1] t(2)])
  have "call_users env (calls n1 p x) (nd_user n1) = Inr u"
    using v(2) n1(2) same by (simp add: handled_def)
  from live_run_effect [OF live1 t(2) mb p t(1) this] obtain n2 where
    n2: "place_incoming_mail (node_run env) mb p n1 = Inr (success, n2)" "handled env p n1 {x} u n2"
    by blast
  have once: "\<not> (\<exists>r \<in> set xs. sends_to n p r l)" if "sends_to n p x l" for l
    using that snoc.prems sends_to_once [OF live] by fastforce
  have "handled env p n (set (xs @ [x])) u n2"
    using n1(2) n2(2) once frame_trans [of n n1 n2] same
    unfolding handled_def by (auto simp: option.map_comp o_def intro!: option.map_cong)
  moreover have "place_into (node_run env) (nd_dave n) p n1 x = Inr n2"
    using n2(1) mb same by (simp add: place_into_def assert_result_def success_def to_bool_def result_of_value_def)
  ultimately show ?case using n1(1) by (simp add: exec_foldl_append)
qed

text \<open>A mailbox sends a packet: who gets it, and what they do.\<close>

lemma node_mail_handled:
  assumes live: "node_live n" and mb: "mm_boxes (nd_dave n) a = Some mb" "mb_outgoing mb"
    and key: "\<forall>t. \<forall>b \<in> members (nd_dave n) t. box_key b = box_key a \<longrightarrow> b = a"
    and p: "\<not> p_null p" "packet_topic p \<noteq> topic_internal" "packet_topic p \<noteq> topic_any"
  obtains xs where "distinct xs"
    and "set xs = (members (nd_dave n) (packet_topic p) \<union> members (nd_dave n) topic_any) - {a}"
    and "\<And>u. call_users env (concat (map (calls n p) xs)) (nd_user n) = Inr u \<Longrightarrow>
      \<exists>n'. node_mail env a p n = Inr (success, n') \<and> handled env p n (set xs) u n'"
proof -
  have inv: "mailman_inv (nd_dave n)" by (rule node_liveD(1) [OF live])
  let ?r = "\<lambda>t. slot_recipients (box_key a) (topic_slot (nd_dave n) t)"
  let ?xs = "?r (packet_topic p) @ ?r topic_any"
  have set_r: "set (?r t) = members (nd_dave n) t - {a}" for t
    using slot_recipients_spec(2) [OF inv] key by auto
  have d: "distinct ?xs"
    using slot_recipients_spec(1) [OF inv] members_disjoint [OF inv] p(3) by (auto simp: set_r)
  have s: "set ?xs = (members (nd_dave n) (packet_topic p) \<union> members (nd_dave n) topic_any) - {a}"
    by (auto simp: set_r)
  have "topic_any \<noteq> topic_internal" by simp
  then have mem: "\<forall>x \<in> set ?xs. \<exists>t. t \<noteq> topic_internal \<and> x \<in> members (nd_dave n) t"
    using p(2) unfolding s by blast
  have "\<exists>n'. node_mail env a p n = Inr (success, n') \<and> handled env p n (set ?xs) u n'"
    if "call_users env (concat (map (calls n p) ?xs)) (nd_user n) = Inr u" for u
    using handled_all [OF live p(1) d mem that] mb
    by (auto simp: node_mail_def place_outgoing_mail_def box_at_def mailman_send_eq [OF inv])
  with d s show thesis by (rule that)
qed

subsection \<open>Properties\<close>

definition sample_remote_node :: "(sample_doc, unit) node" where
  "sample_remote_node =
     \<lparr>nd_name = ''robot'', nd_dave = \<lparr>mm_boxes = Map.empty, mm_slots = []\<rparr>, nd_box = 10, nd_server = None,
      nd_remotes = [20], nd_subscribers = [], nd_publishers = [], nd_id = 77,
      nd_latest = [(5, sample_info\<lparr>n_id := 5, n_in_topics := [''/t'']\<rparr>)], nd_subs = [''/t'' \<mapsto> 1],
      nd_local = Map.empty, nd_splat = Map.empty, nd_time = \<lparr>seconds = 0, microseconds = 0\<rparr>,
      nd_prev = \<lparr>tv_sec = 0, tv_usec = 0\<rparr>, nd_thread = sample_thread, nd_auto_exit = False,
      nd_remote_at = [20 \<mapsto> \<lparr>rn_mode = Allow_internal, rn_link = 1, rn_ids = {}\<rparr>],
      nd_sub_at = Map.empty, nd_pub_at = Map.empty, nd_reads = 0, nd_user = ()\<rparr>"

definition unit_env :: "(sample_doc, unit) node_env" where
  "unit_env = \<lparr>ne_dbg = True, ne_lib = sample_lib, ne_junk = True, ne_port = 0, ne_strerror = (\<lambda>_. []),
     ne_resolver = plain_resolver, ne_clock = (\<lambda>k. \<lparr>tv_sec = int k, tv_usec = 0\<rparr>),
     ne_user = (\<lambda>f arg d u. Inr u)\<rparr>"



text \<open>A topic is forwarded for ever once somebody subscribed to it: when the last node that
  listed the topic reports that it no longer does, the count is 0 again, publishers are told
  that nobody listens, and still every remote takes the topic's packets, because the code asks
  for the entry and not for the count.\<close>

theorem stale_topic_still_forwarded:
  assumes "latest_ok n" and "n_id info \<noteq> nd_id n" and "nd_subs n t \<noteq> None"
    and "listed (nd_latest (store_info info n)) t = 0"
  shows "nd_subs (store_info info n) t = Some 0 \<and> wanted (store_info info n) rn t"
proof -
  have "nd_subs (store_info info n) t \<noteq> None"
    using assms(3) unfolding store_info_def tally_def untally_def Let_def
    by (simp add: fold_incr(2) fold_decr(2) del: not_None_eq split: option.split)
  moreover have "entry_of (nd_subs (store_info info n)) t = 0"
    using store_info_latest_ok [OF assms(1,2)] assms(4) by (simp add: latest_ok_def counts_match_def)
  ultimately show ?thesis by (auto simp: entry_of_def wanted_def)
qed

theorem stale_topic_still_forwarded_witness:
  "nd_subs (store_info (sample_info\<lparr>n_id := 5\<rparr>) sample_remote_node) ''/t'' = Some 0 \<and>
   wanted (store_info (sample_info\<lparr>n_id := 5\<rparr>) sample_remote_node) \<lparr>rn_mode = Allow_internal, rn_link = 1, rn_ids = {}\<rparr> ''/t''"
proof (rule stale_topic_still_forwarded)
  show "latest_ok sample_remote_node"
    by (auto simp: latest_ok_def sample_remote_node_def counts_match_def entry_of_def)
qed (simp_all add: sample_remote_node_def store_info_def tally_def untally_def sample_info_def)

end
