(* ===== verification/Endpoints.thy ===== *)
theory Endpoints
  imports Delivery
begin

text \<open>
  What the users of a node hold: publishers (\<open>publisher_impl.cpp\<close>), subscribers
  (\<open>subscriber_impl.cpp\<close>) and services (\<open>service_impl.cpp\<close>), with the part of \<open>node_impl.cpp\<close>
  they call: registering and unregistering them and telling the network about it.
\<close>

subsection \<open>Telling the network\<close>

text \<open>
  \<open>network_interfaces::interfaces\<close>: the part that would ask the system is commented out, so a
  node announces no address, and nothing is there to get the port of its server.
\<close>

definition interfaces :: "network_interface list" where
  "interfaces = []"

definition node_info_of :: "('b, 'u) node_env \<Rightarrow> ('b, 'u) node \<Rightarrow> node_info exec" where
  "node_info_of env n =
     (let port = (case nd_server n of None \<Rightarrow> None | Some sv \<Rightarrow> tcp_port (ne_port env) (sv_socket sv));
          hosts = (if option_some port then map (\<lambda>host. host\<lparr>if_port := port\<rparr>) interfaces else interfaces)
      in exec_bind (exec_map (\<lambda>s. exec_bind (load (nd_sub_at n) s) (\<lambda>sb. Inr (sb_topic sb))) (nd_subscribers n)) (\<lambda>ins.
         exec_bind (exec_map (\<lambda>s. exec_bind (load (nd_pub_at n) s) (\<lambda>pb. Inr (pb_topic pb))) (nd_publishers n)) (\<lambda>outs.
           Inr \<lparr>n_name = nd_name n, n_alive = True, n_id = nd_id n, n_hosts = hosts, n_in_topics = ins,
                n_splats = [], n_out_topics = outs\<rparr>)))"

definition send_one_info :: "('b, 'u) node_env \<Rightarrow> node_info \<Rightarrow> ('b, 'u) node \<Rightarrow> ('b, 'u) node exec" where
  "send_one_info env info n =
     exec_bind (node_mail env (nd_box n)
         (packet_new (ne_lib env) topic_internal (nd_time n) (Some (info_bind (ne_lib env) info)) True) n)
       (\<lambda>(r, n'). Inr n')"

definition send_info :: "('b, 'u) node_env \<Rightarrow> bool \<Rightarrow> ('b, 'u) node \<Rightarrow> ('b, 'u) node exec" where
  "send_info env include_dead n =
     (let n1 = update_time env n in
      exec_bind (node_info_of env n1) (\<lambda>info.
      exec_bind (send_one_info env info n1) (\<lambda>n2.
        exec_foldl (\<lambda>n peer.
            if \<not> include_dead \<and> \<not> n_alive (snd peer) then Inr n else send_one_info env (snd peer) n)
          n2 (nd_latest n2))))"

subsection \<open>Registration\<close>

definition unregister_subscriber :: "nat \<Rightarrow> ('b, 'u) node \<Rightarrow> ('b, 'u) node exec" where
  "unregister_subscriber s n =
     (if s \<notin> set (nd_subscribers n) then Inr n
      else exec_bind (load (nd_sub_at n) s) (\<lambda>sb.
        Inr (n\<lparr>nd_subscribers := filter (\<lambda>x. x \<noteq> s) (nd_subscribers n),
               nd_local := (decr (sb_topic sb) ^^ count_list (nd_subscribers n) s) (nd_local n)\<rparr>)))"

definition unregister_publisher :: "nat \<Rightarrow> ('b, 'u) node \<Rightarrow> ('b, 'u) node" where
  "unregister_publisher s n = n\<lparr>nd_publishers := filter (\<lambda>x. x \<noteq> s) (nd_publishers n)\<rparr>"

definition register_subscriber :: "('b, 'u) node_env \<Rightarrow> nat \<Rightarrow> ('b, 'u) node \<Rightarrow> ('b, 'u) node exec" where
  "register_subscriber env s n =
     exec_bind (unregister_subscriber s n) (\<lambda>n1.
     exec_bind (load (nd_sub_at n1) s) (\<lambda>sb.
       send_info env False (n1\<lparr>nd_local := incr (sb_topic sb) (nd_local n1),
                               nd_subscribers := nd_subscribers n1 @ [s]\<rparr>)))"

definition register_publisher :: "('b, 'u) node_env \<Rightarrow> nat \<Rightarrow> ('b, 'u) node \<Rightarrow> ('b, 'u) node exec" where
  "register_publisher env s n =
     (let n1 = unregister_publisher s n
      in send_info env False (n1\<lparr>nd_publishers := nd_publishers n1 @ [s]\<rparr>))"

text \<open>The calls of the mailman on the mailbox at an address.\<close>

definition node_register :: "u64 \<Rightarrow> ('b, 'u) node \<Rightarrow> ('b, 'u) node exec" where
  "node_register a n = exec_bind (register_mailbox a (nd_dave n)) (\<lambda>mm. Inr (n\<lparr>nd_dave := mm\<rparr>))"

definition node_unregister :: "u64 \<Rightarrow> ('b, 'u) node \<Rightarrow> ('b, 'u) node exec" where
  "node_unregister a n = exec_bind (unregister_mailbox a (nd_dave n)) (\<lambda>mm. Inr (n\<lparr>nd_dave := mm\<rparr>))"

definition put_box :: "u64 \<Rightarrow> node_cb mailbox \<Rightarrow> ('b, 'u) node \<Rightarrow> ('b, 'u) node" where
  "put_box a mb n = n\<lparr>nd_dave := (nd_dave n)\<lparr>mm_boxes := (mm_boxes (nd_dave n))(a \<mapsto> mb)\<rparr>\<rparr>"

subsection \<open>Publishers\<close>

text \<open>The constructor; \<open>a\<close> and \<open>b\<close> are the addresses of the object and of its mailbox.\<close>

definition publisher_new :: "('b, 'u) node_env \<Rightarrow> nat \<Rightarrow> u64 \<Rightarrow> topic \<Rightarrow> ('b, 'u) node \<Rightarrow> ('b, 'u) node exec" where
  "publisher_new env a b t n =
     (let n1 = put_box b (mailbox_new t None False) n;
          n2 = n1\<lparr>nd_pub_at := (nd_pub_at n1)(a \<mapsto> \<lparr>pb_topic = t, pb_box = Some b, pb_firehose = False, pb_husk = False\<rparr>)\<rparr>
      in exec_bind (register_publisher env a n2) (node_register b))"

definition publisher_destroy :: "nat \<Rightarrow> ('b, 'u) node \<Rightarrow> ('b, 'u) node exec" where
  "publisher_destroy a n =
     exec_bind (load (nd_pub_at n) a) (\<lambda>pb.
     exec_bind (if pb_husk pb then Inr n
                else (case pb_box pb of None \<Rightarrow> Inl Null_deref
                      | Some b \<Rightarrow> node_unregister b (unregister_publisher a n))) (\<lambda>n'.
       Inr (n'\<lparr>nd_pub_at := (nd_pub_at n')(a := None)\<rparr>)))"

definition subscriber_count :: "nat \<Rightarrow> ('b, 'u) node \<Rightarrow> u32 exec" where
  "subscriber_count a n =
     exec_bind (load (nd_pub_at n) a) (\<lambda>pb.
       Inr (if pb_husk pb then 0 else case nd_subs n (pb_topic pb) of None \<Rightarrow> 0 | Some v \<Rightarrow> v))"

definition set_firehose :: "nat \<Rightarrow> bool \<Rightarrow> ('b, 'u) node \<Rightarrow> ('b, 'u) node exec" where
  "set_firehose a firehose n =
     exec_bind (load (nd_pub_at n) a) (\<lambda>pb.
       Inr (n\<lparr>nd_pub_at := (nd_pub_at n)(a \<mapsto> pb\<lparr>pb_firehose := firehose\<rparr>)\<rparr>))"

text \<open>
  \<open>publish\<close> of a packet, which does not look at \<open>_husk\<close>, and of a message.
\<close>

definition published :: "('b, 'u) node_env \<Rightarrow> publisher \<Rightarrow> 'b packet \<Rightarrow> ('b, 'u) node \<Rightarrow> 'b packet" where
  "published env pb p n =
     packet_build (ne_lib env) (p\<lparr>p_meta := (p_meta p)\<lparr>m_droppable := pb_firehose pb, m_origin_id := nd_id n\<rparr>\<rparr>)"

definition publish_packet :: "('b, 'u) node_env \<Rightarrow> nat \<Rightarrow> 'b packet \<Rightarrow> ('b, 'u) node \<Rightarrow>
    (void_result \<times> ('b, 'u) node) exec" where
  "publish_packet env a p n =
     exec_bind (load (nd_pub_at n) a) (\<lambda>pb.
       if pb_husk pb then Inl Null_deref
       else case pb_box pb of
              None \<Rightarrow> Inl Null_deref
            | Some b \<Rightarrow> node_mail env b (published env pb p n) n)"

definition publish :: "('b, 'u) node_env \<Rightarrow> nat \<Rightarrow> 'b bson \<Rightarrow> ('b, 'u) node \<Rightarrow>
    (void_result \<times> ('b, 'u) node) exec" where
  "publish env a msg n =
     exec_bind (load (nd_pub_at n) a) (\<lambda>pb.
       if pb_husk pb then Inr (failure ''Husk'' 0, n)
       else let n1 = update_time env n in
         exec_bind (box_at (nd_dave n1) (pb_box pb)) (\<lambda>mb.
           publish_packet env a (packet_new (ne_lib env) (mb_topic mb) (nd_time n1) msg False) n1))"

text \<open>\<open>set_husk\<close> does not look at \<open>_husk\<close>.\<close>

definition publisher_set_husk :: "nat \<Rightarrow> ('b, 'u) node \<Rightarrow> ('b, 'u) node exec" where
  "publisher_set_husk a n =
     exec_bind (load (nd_pub_at n) a) (\<lambda>pb.
       case pb_box pb of
         None \<Rightarrow> Inl Null_deref
       | Some b \<Rightarrow> exec_bind (node_unregister b n) (\<lambda>n'.
           Inr (n'\<lparr>nd_pub_at := (nd_pub_at n')(a \<mapsto> pb\<lparr>pb_box := None, pb_husk := True\<rparr>)\<rparr>)))"

subsection \<open>Subscribers\<close>

definition subscriber_new :: "('b, 'u) node_env \<Rightarrow> nat \<Rightarrow> u64 \<Rightarrow> topic \<Rightarrow> callback \<Rightarrow> nat \<Rightarrow>
    ('b, 'u) node \<Rightarrow> ('b, 'u) node exec" where
  "subscriber_new env a b t cb usr_arg n =
     (let n1 = put_box b (mailbox_new t None False) n;
          n2 = n1\<lparr>nd_sub_at := (nd_sub_at n1)(a \<mapsto> \<lparr>sb_topic = t, sb_box = Some b, sb_husk = False, sb_packed = False\<rparr>)\<rparr>
      in exec_bind (register_subscriber env a n2) (\<lambda>n3.
         exec_bind (node_register b n3) (\<lambda>n4.
         exec_bind (box_at (nd_dave n4) (Some b)) (\<lambda>mb.
           Inr (put_box b (snd (set_incoming_mail_callback (Some (Subscriber_cb a cb usr_arg)) mb)) n4)))))"

definition subscriber_set_husk :: "nat \<Rightarrow> ('b, 'u) node \<Rightarrow> ('b, 'u) node exec" where
  "subscriber_set_husk a n =
     exec_bind (load (nd_sub_at n) a) (\<lambda>sb.
       if sb_husk sb then Inr n
       else case sb_box sb of
              None \<Rightarrow> Inl Null_deref
            | Some b \<Rightarrow>
                exec_bind (unregister_subscriber a n) (\<lambda>n1.
                exec_bind (node_unregister b n1) (\<lambda>n2.
                  Inr (n2\<lparr>nd_sub_at := (nd_sub_at n2)(a \<mapsto> sb\<lparr>sb_box := None, sb_husk := True\<rparr>)\<rparr>))))"

definition subscriber_destroy :: "nat \<Rightarrow> ('b, 'u) node \<Rightarrow> ('b, 'u) node exec" where
  "subscriber_destroy a n =
     exec_bind (subscriber_set_husk a n) (\<lambda>n'. Inr (n'\<lparr>nd_sub_at := (nd_sub_at n')(a := None)\<rparr>))"

definition set_send_packed :: "nat \<Rightarrow> bool \<Rightarrow> ('b, 'u) node \<Rightarrow> ('b, 'u) node exec" where
  "set_send_packed a packed n =
     exec_bind (load (nd_sub_at n) a) (\<lambda>sb.
       Inr (n\<lparr>nd_sub_at := (nd_sub_at n)(a \<mapsto> sb\<lparr>sb_packed := packed\<rparr>)\<rparr>))"

subsection \<open>Services\<close>

text \<open>
  \<open>advertise\<close>, \<open>subscribe\<close> and \<open>call\<close> of the node only make these objects or fail; a
  service is a publisher and a subscriber.
\<close>

definition service_new :: "('b, 'u) node_env \<Rightarrow> nat \<Rightarrow> u64 \<Rightarrow> nat \<Rightarrow> u64 \<Rightarrow> topic \<Rightarrow> callback \<Rightarrow>
    ('b, 'u) node \<Rightarrow> ('b, 'u) node exec" where
  "service_new env a b a' b' t callback n =
     exec_bind (publisher_new env a b (t @ '':out'') n)
       (subscriber_new env a' b' (t @ '':in'') Service_callback 0)"

definition node_call :: "topic \<Rightarrow> 'b bson \<Rightarrow> 'b bson result" where
  "node_call t value = failure ''NYI'' 0"

subsection \<open>The node's invariant\<close>

definition topic_at :: "('b, 'u) node \<Rightarrow> nat \<Rightarrow> topic" where
  "topic_at n s = (case nd_sub_at n s of None \<Rightarrow> [] | Some sb \<Rightarrow> sb_topic sb)"

definition keys_distinct :: "'cb mailman \<Rightarrow> bool" where
  "keys_distinct mm \<longleftrightarrow> (\<forall>t t'. \<forall>a \<in> members mm t. \<forall>b \<in> members mm t'. box_key a = box_key b \<longrightarrow> a = b)"

definition box_incoming :: "('b, 'u) node \<Rightarrow> u64 \<Rightarrow> node_cb option" where
  "box_incoming n b = (case mm_boxes (nd_dave n) b of None \<Rightarrow> None | Some mb \<Rightarrow> mb_incoming mb)"

text \<open>
  Every object the node keeps a pointer to has its own mailbox, registered under its topic and
  with its own closure, and \<open>_local_subscription_count\<close> counts the active subscribers.
\<close>

definition subs_wired :: "('b, 'u) node \<Rightarrow> bool" where
  "subs_wired n \<longleftrightarrow> distinct (nd_subscribers n) \<and>
     (\<forall>s \<in> set (nd_subscribers n). \<exists>sb b cb arg. nd_sub_at n s = Some sb \<and> sb_box sb = Some b \<and>
        b \<in> members (nd_dave n) (sb_topic sb) \<and> box_incoming n b = Some (Subscriber_cb s cb arg)) \<and>
     counts_match (nd_local n) (\<lambda>t. length (filter (\<lambda>s. topic_at n s = t) (nd_subscribers n)))"

definition pubs_wired :: "('b, 'u) node \<Rightarrow> bool" where
  "pubs_wired n \<longleftrightarrow> distinct (nd_publishers n) \<and>
     (\<forall>s \<in> set (nd_publishers n). \<exists>pb b. nd_pub_at n s = Some pb \<and> pb_box pb = Some b \<and>
        b \<in> members (nd_dave n) (pb_topic pb) \<and> box_incoming n b = None) \<and>
     (\<forall>s \<in> set (nd_publishers n). \<forall>s' \<in> set (nd_publishers n).
        pb_box (the (nd_pub_at n s)) = pb_box (the (nd_pub_at n s')) \<longrightarrow> s = s')"

definition remotes_wired :: "('b, 'u) node \<Rightarrow> bool" where
  "remotes_wired n \<longleftrightarrow> distinct (nd_remotes n) \<and>
     (\<forall>r \<in> set (nd_remotes n). r \<in> members (nd_dave n) topic_any \<and> box_incoming n r = Some (Remote_cb r))"

definition owners_wired :: "('b, 'u) node \<Rightarrow> bool" where
  "owners_wired n \<longleftrightarrow> (\<forall>t c s cb arg. c \<in> members (nd_dave n) t \<longrightarrow> box_incoming n c = Some (Subscriber_cb s cb arg) \<longrightarrow>
     (\<exists>sb. nd_sub_at n s = Some sb \<and> sb_box sb = Some c))"

definition node_wired :: "('b, 'u) node \<Rightarrow> bool" where
  "node_wired n \<longleftrightarrow> node_live n \<and> keys_distinct (nd_dave n) \<and>
     nd_box n \<in> members (nd_dave n) topic_internal \<and> box_incoming n (nd_box n) = Some Internal_cb \<and>
     subs_wired n \<and> pubs_wired n \<and> remotes_wired n \<and> owners_wired n"

definition node_ok :: "('b, 'u) node \<Rightarrow> bool" where
  "node_ok n \<longleftrightarrow> node_wired n \<and> latest_ok n"

lemma frame_wired: "frame n n' \<Longrightarrow> node_wired n' \<longleftrightarrow> node_wired n"
  unfolding node_wired_def subs_wired_def pubs_wired_def remotes_wired_def owners_wired_def box_incoming_def topic_at_def by (simp only: frameD frame_live)

lemma frame_ok: "frame n n' \<Longrightarrow> node_ok n \<Longrightarrow> node_ok n'"
  by (simp add: node_ok_def frame_wired frameD(17))

lemma frame_dave: "frame n n' \<Longrightarrow> frame (n\<lparr>nd_dave := mm\<rparr>) (n'\<lparr>nd_dave := mm\<rparr>)"
  by (auto simp: frame_def latest_ok_def)

subsection \<open>Telling the network succeeds\<close>

lemma packet_new_deliverable: "deliverable (packet_new lib t s (Some d) a)"
  by (simp add: deliverable_def)

lemma send_one_info_live:
  assumes "node_live n" and "users_return env"
  shows "\<exists>n'. send_one_info env info n = Inr n' \<and> frame n n' \<and> node_live n'"
proof -
  obtain mb where mb: "mm_boxes (nd_dave n) (nd_box n) = Some mb" using node_liveD(3) [OF assms(1)] by blast
  from node_mail_live [OF assms(1) mb packet_new_deliverable assms(2)] obtain n' where
    "node_mail env (nd_box n) (packet_new (ne_lib env) topic_internal (nd_time n)
       (Some (info_bind (ne_lib env) info)) True) n = Inr (success, n')" "frame n n'" "node_live n'"
    by blast
  then show ?thesis by (simp add: send_one_info_def)
qed

lemma send_info_live:
  assumes live: "node_live n" and users: "users_return env"
  shows "\<exists>n'. send_info env include_dead n = Inr n' \<and> frame n n'"
proof -
  define n1 where "n1 = update_time env n"
  have f1: "frame n n1" unfolding n1_def by (rule frame_update_time)
  then have live1: "node_live n1" using live by (simp add: frame_live)
  have subs: "exec_map (\<lambda>s. exec_bind (load (nd_sub_at n1) s) (\<lambda>sb. Inr (sb_topic sb))) (nd_subscribers n1) =
      Inr (map (\<lambda>s. sb_topic (the (nd_sub_at n1 s))) (nd_subscribers n1))"
    by (rule exec_map_pure) (use node_liveD(6) [OF live1] in fastforce)
  have pubs: "exec_map (\<lambda>s. exec_bind (load (nd_pub_at n1) s) (\<lambda>pb. Inr (pb_topic pb))) (nd_publishers n1) =
      Inr (map (\<lambda>s. pb_topic (the (nd_pub_at n1 s))) (nd_publishers n1))"
    by (rule exec_map_pure) (use node_liveD(7) [OF live1] in fastforce)
  obtain info where info: "node_info_of env n1 = Inr info"
    unfolding node_info_of_def subs pubs Let_def by simp
  obtain n2 where n2: "send_one_info env info n1 = Inr n2" "frame n1 n2" "node_live n2"
    using send_one_info_live [OF live1 users] by blast
  have "\<exists>n3. exec_foldl (\<lambda>n peer. if \<not> include_dead \<and> \<not> n_alive (snd peer) then Inr n
      else send_one_info env (snd peer) n) n2 (nd_latest n2) = Inr n3 \<and> (frame n2 n3 \<and> node_live n3)"
    by (rule exec_foldl_total [where P = "\<lambda>m. frame n2 m \<and> node_live m"])
       (use n2(3) send_one_info_live [OF _ users] frame_trans in \<open>simp, fastforce\<close>)
  then obtain n3 where n3: "exec_foldl (\<lambda>n peer. if \<not> include_dead \<and> \<not> n_alive (snd peer) then Inr n
      else send_one_info env (snd peer) n) n2 (nd_latest n2) = Inr n3" "frame n2 n3"
    by blast
  have "send_info env include_dead n = Inr n3"
    by (simp only: send_info_def Let_def n1_def [symmetric] info n2(1) n3(1) exec_bind.simps)
  moreover have "frame n n3" using f1 n2(2) n3(2) frame_trans by blast
  ultimately show ?thesis by blast
qed

subsection \<open>Making and destroying endpoints\<close>

lemma node_wiredD:
  assumes "node_wired n"
  shows "node_live n" "keys_distinct (nd_dave n)" "mailman_inv (nd_dave n)"
    "nd_box n \<in> members (nd_dave n) topic_internal" "box_incoming n (nd_box n) = Some Internal_cb"
    "subs_wired n" "pubs_wired n" "remotes_wired n" "owners_wired n"
  using assms unfolding node_wired_def by (simp_all add: node_live_def)

text \<open>
  The mailboxes other than \<open>b\<close> stay as they are, so whatever does not rest on \<open>b\<close> stays wired.
\<close>

definition boxes_keep :: "u64 \<Rightarrow> ('b, 'u) node \<Rightarrow> ('b, 'u) node \<Rightarrow> bool" where
  "boxes_keep b n n' \<longleftrightarrow> (\<forall>c t. c \<noteq> b \<longrightarrow>
     (c \<in> members (nd_dave n') t \<longleftrightarrow> c \<in> members (nd_dave n) t) \<and>
     (c \<in> members (nd_dave n) t \<longrightarrow> box_incoming n' c = box_incoming n c))"

lemma subs_wiredE:
  assumes "subs_wired n" and "s \<in> set (nd_subscribers n)"
  obtains sb b cb arg where "nd_sub_at n s = Some sb" and "sb_box sb = Some b"
    and "b \<in> members (nd_dave n) (sb_topic sb)" and "box_incoming n b = Some (Subscriber_cb s cb arg)"
  using assms unfolding subs_wired_def by blast

lemma pubs_wiredE:
  assumes "pubs_wired n" and "s \<in> set (nd_publishers n)"
  obtains pb b where "nd_pub_at n s = Some pb" and "pb_box pb = Some b"
    and "b \<in> members (nd_dave n) (pb_topic pb)" and "box_incoming n b = None"
  using assms unfolding pubs_wired_def by blast

lemma pub_boxD:
  assumes "pubs_wired n" and "s \<in> set (nd_publishers n)"
  shows "nd_pub_at n s \<noteq> None" and "(\<And>t. b \<notin> members (nd_dave n) t) \<Longrightarrow> pb_box (the (nd_pub_at n s)) \<noteq> Some b"
    and "box_incoming n b \<noteq> None \<Longrightarrow> pb_box (the (nd_pub_at n s)) \<noteq> Some b"
  by (rule pubs_wiredE [OF assms]; auto)+

lemma sub_boxD:
  assumes "subs_wired n" and "s \<in> set (nd_subscribers n)"
  shows "nd_sub_at n s \<noteq> None" and "(\<And>t. b \<notin> members (nd_dave n) t) \<Longrightarrow> sb_box (the (nd_sub_at n s)) \<noteq> Some b"
    and "(\<And>cb arg. box_incoming n b \<noteq> Some (Subscriber_cb s cb arg)) \<Longrightarrow> sb_box (the (nd_sub_at n s)) \<noteq> Some b"
  by (rule subs_wiredE [OF assms]; auto)+

lemma pubs_wired_inj:
  assumes "pubs_wired n" and "s \<in> set (nd_publishers n)" "s' \<in> set (nd_publishers n)"
    and "pb_box (the (nd_pub_at n s)) = pb_box (the (nd_pub_at n s'))"
  shows "s = s'"
  using assms unfolding pubs_wired_def by blast

lemma subs_wired_keep:
  assumes w: "subs_wired n" and k: "boxes_keep b n n'"
    and subs: "distinct (nd_subscribers n')" "\<And>s. s \<in> set (nd_subscribers n') \<Longrightarrow> s \<in> set (nd_subscribers n) \<and>
      nd_sub_at n' s = nd_sub_at n s \<and> sb_box (the (nd_sub_at n s)) \<noteq> Some b"
    and "counts_match (nd_local n') (\<lambda>t. length (filter (\<lambda>s. topic_at n' s = t) (nd_subscribers n')))"
  shows "subs_wired n'"
  unfolding subs_wired_def
proof (intro conjI ballI assms)
  fix s assume s: "s \<in> set (nd_subscribers n')"
  from subs_wiredE [OF w, of s] subs(2) [OF s] obtain sb c cb arg where
    c: "nd_sub_at n s = Some sb" "sb_box sb = Some c" "c \<in> members (nd_dave n) (sb_topic sb)"
      "box_incoming n c = Some (Subscriber_cb s cb arg)" by blast
  then have "c \<noteq> b" using subs(2) [OF s] by auto
  with c k subs(2) [OF s] show "\<exists>sb b cb arg. nd_sub_at n' s = Some sb \<and> sb_box sb = Some b \<and>
      b \<in> members (nd_dave n') (sb_topic sb) \<and> box_incoming n' b = Some (Subscriber_cb s cb arg)"
    by (auto simp: boxes_keep_def)
qed

lemma pubs_wired_keep:
  assumes w: "pubs_wired n" and k: "boxes_keep b n n'" and d: "distinct (nd_publishers n')"
    and pubs: "\<And>s. s \<in> set (nd_publishers n') \<Longrightarrow> s \<in> set (nd_publishers n) \<and>
      nd_pub_at n' s = nd_pub_at n s \<and> pb_box (the (nd_pub_at n s)) \<noteq> Some b"
  shows "pubs_wired n'"
  unfolding pubs_wired_def
proof (intro conjI ballI impI d)
  fix s assume s: "s \<in> set (nd_publishers n')"
  from pubs_wiredE [OF w, of s] pubs [OF s] obtain pb c where
    c: "nd_pub_at n s = Some pb" "pb_box pb = Some c" "c \<in> members (nd_dave n) (pb_topic pb)"
      "box_incoming n c = None" by blast
  then have "c \<noteq> b" using pubs [OF s] by auto
  with c k pubs [OF s] show "\<exists>pb b. nd_pub_at n' s = Some pb \<and> pb_box pb = Some b \<and>
      b \<in> members (nd_dave n') (pb_topic pb) \<and> box_incoming n' b = None"
    by (auto simp: boxes_keep_def)
next
  fix s s' assume "s \<in> set (nd_publishers n')" "s' \<in> set (nd_publishers n')"
    and "pb_box (the (nd_pub_at n' s)) = pb_box (the (nd_pub_at n' s'))"
  with pubs pubs_wired_inj [OF w] show "s = s'" by metis
qed

lemma remotes_wired_keep:
  assumes "remotes_wired n" and "boxes_keep b n n'" and "distinct (nd_remotes n')"
    and "\<And>r. r \<in> set (nd_remotes n') \<Longrightarrow> r \<in> set (nd_remotes n) \<and> r \<noteq> b"
  shows "remotes_wired n'"
  unfolding remotes_wired_def
proof (intro conjI ballI assms(3))
  fix r assume r: "r \<in> set (nd_remotes n')"
  have "r \<in> members (nd_dave n) topic_any" "box_incoming n r = Some (Remote_cb r)"
    using assms(1) assms(4) [OF r] by (simp_all add: remotes_wired_def)
  with assms(2) assms(4) [OF r] show "r \<in> members (nd_dave n') topic_any" "box_incoming n' r = Some (Remote_cb r)"
    by (simp_all add: boxes_keep_def)
qed

lemma owners_wired_keep:
  assumes w: "owners_wired n" and k: "boxes_keep b n n'"
    and subs: "\<And>s sb c. nd_sub_at n s = Some sb \<Longrightarrow> sb_box sb = Some c \<Longrightarrow> c \<noteq> b \<Longrightarrow> nd_sub_at n' s = Some sb"
    and b: "\<And>t s cb arg. b \<in> members (nd_dave n') t \<Longrightarrow> box_incoming n' b = Some (Subscriber_cb s cb arg) \<Longrightarrow>
      \<exists>sb. nd_sub_at n' s = Some sb \<and> sb_box sb = Some b"
  shows "owners_wired n'"
  unfolding owners_wired_def
proof (intro allI impI)
  fix t c s cb arg
  assume c: "c \<in> members (nd_dave n') t" "box_incoming n' c = Some (Subscriber_cb s cb arg)"
  show "\<exists>sb. nd_sub_at n' s = Some sb \<and> sb_box sb = Some c"
  proof (cases "c = b")
    case True
    then show ?thesis using b c by blast
  next
    case False
    then have "c \<in> members (nd_dave n) t" "box_incoming n c = Some (Subscriber_cb s cb arg)"
      using c k False by (simp_all add: boxes_keep_def)
    then obtain sb where "nd_sub_at n s = Some sb" "sb_box sb = Some c" using w unfolding owners_wired_def by blast
    then show ?thesis using subs False by blast
  qed
qed

lemma pubs_wired_add:
  assumes w: "pubs_wired n" and n': "nd_publishers n' = nd_publishers n @ [a]" "nd_dave n' = nd_dave n" "nd_pub_at n' = nd_pub_at n"
    and a: "a \<notin> set (nd_publishers n)" "nd_pub_at n a = Some pb" "pb_box pb = Some b"
    and b: "b \<in> members (nd_dave n) (pb_topic pb)" "box_incoming n b = None"
    and old: "\<And>s. s \<in> set (nd_publishers n) \<Longrightarrow> pb_box (the (nd_pub_at n s)) \<noteq> Some b"
  shows "pubs_wired n'"
  unfolding pubs_wired_def n'
proof (intro conjI ballI impI)
  show "distinct (nd_publishers n @ [a])" using w a by (simp add: pubs_wired_def)
  fix s assume s: "s \<in> set (nd_publishers n @ [a])"
  have inc: "box_incoming n' = box_incoming n" by (simp add: box_incoming_def n' fun_eq_iff)
  show "\<exists>pb b. nd_pub_at n s = Some pb \<and> pb_box pb = Some b \<and> b \<in> members (nd_dave n) (pb_topic pb) \<and> box_incoming n' b = None"
    unfolding inc using s a b by (cases "s = a") (auto elim: pubs_wiredE [OF w])
  fix s' assume s': "s' \<in> set (nd_publishers n @ [a])" and "pb_box (the (nd_pub_at n s)) = pb_box (the (nd_pub_at n s'))"
  then show "s = s'"
    using s a old [of s] old [of s'] pubs_wired_inj [OF w, of s s'] by auto
qed

lemma fresh_not_member: "fresh_box mm b \<Longrightarrow> b \<notin> members mm t"
  by (auto simp: fresh_box_def)

text \<open>A new mailbox that is not registered yet disturbs nobody.\<close>

lemma put_box_live:
  assumes "node_live n" and "\<And>t. b \<notin> members (nd_dave n) t"
  shows "node_live (put_box b mb n)"
proof -
  note d = node_liveD [OF assms(1)]
  have p: "nd_dave (put_box b mb n) = (nd_dave n)\<lparr>mm_boxes := (mm_boxes (nd_dave n))(b \<mapsto> mb)\<rparr>"
    by (simp add: put_box_def)
  show ?thesis
  proof (rule node_liveI)
    show "mailman_inv (nd_dave (put_box b mb n))" unfolding p by (rule mailman_inv_put) (use d assms in auto)
    fix t a m assume "a \<in> members (nd_dave (put_box b mb n)) t" "mm_boxes (nd_dave (put_box b mb n)) a = Some m"
    then have "a \<in> members (nd_dave n) t" "mm_boxes (nd_dave n) a = Some m"
      using assms(2) by (auto simp: p split: if_splits)
    from d(2) [OF this] show "closure_ok (put_box b mb n) a m"
      by (rule closure_ok_mono) (simp_all add: put_box_def)
  qed (use d in \<open>simp_all add: put_box_def\<close>)
qed

lemma keys_distinct_insert:
  assumes "keys_distinct mm" and "fresh_box mm b"
    and "members mm' = (members mm)(t := insert b (members mm t))"
  shows "keys_distinct mm'"
proof -
  have "a \<in> members mm t' \<Longrightarrow> box_key a \<noteq> box_key b" for a t'
    using assms(2) by (simp add: fresh_box_def)
  then show ?thesis
    using assms(1) unfolding keys_distinct_def assms(3) by (auto split: if_splits) metis+
qed

text \<open>Registering a fresh mailbox in a live node.\<close>

lemma register_live:
  assumes live: "node_live n" and keys: "keys_distinct (nd_dave n)"
    and mb: "mm_boxes (nd_dave n) b = Some mb" and fresh: "fresh_box (nd_dave n) b" and ok: "closure_ok n b mb"
  obtains mm where "register_mailbox b (nd_dave n) = Inr mm" and "node_live (n\<lparr>nd_dave := mm\<rparr>)"
    and "keys_distinct mm"
    and "members mm = (members (nd_dave n))(mb_topic mb := insert b (members (nd_dave n) (mb_topic mb)))"
    and "mm_boxes mm = (mm_boxes (nd_dave n))(b \<mapsto> mb\<lparr>mb_outgoing := True\<rparr>)"
proof -
  obtain mm where mm: "register_mailbox b (nd_dave n) = Inr mm" "mailman_inv mm"
      "members mm = (members (nd_dave n))(mb_topic mb := insert b (members (nd_dave n) (mb_topic mb)))"
      "mm_boxes mm = (mm_boxes (nd_dave n))(b \<mapsto> mb\<lparr>mb_outgoing := True\<rparr>)"
    using node_liveD(1) [OF live] mb fresh by (rule register_fresh)
  have "closure_ok n a m" if "a \<in> members mm t" "mm_boxes mm a = Some m" for a m t
  proof (cases "a = b")
    case True
    then show ?thesis using that(2) ok by (auto simp: mm(4))
  next
    case False
    then have "a \<in> members (nd_dave n) t" "mm_boxes (nd_dave n) a = Some m"
      using that by (auto simp: mm(3,4) split: if_splits)
    then show ?thesis using node_liveD(2) [OF live] by blast
  qed
  then have c: "closure_ok (n\<lparr>nd_dave := mm\<rparr>) a m" if "a \<in> members mm t" "mm_boxes mm a = Some m" for a m t
    using closure_ok_mono [of n a m "n\<lparr>nd_dave := mm\<rparr>"] that by simp
  have "node_live (n\<lparr>nd_dave := mm\<rparr>)"
    by (rule node_liveI) (use c mm(2) node_liveD [OF live] in \<open>simp_all add: mm(4)\<close>)
  with mm keys_distinct_insert [OF keys fresh mm(3)] show thesis by (intro that [of mm]) simp_all
qed

text \<open>A fresh mailbox is made for an object of a wired node, which stays live, and registered.\<close>

lemma register_new:
  assumes w: "node_wired n" and b: "fresh_box (nd_dave n) b"
    and dave: "nd_dave n2 = (nd_dave n)\<lparr>mm_boxes := (mm_boxes (nd_dave n))(b \<mapsto> mb)\<rparr>"
    and live: "node_live n2" and ok: "closure_ok n2 b mb" and box: "nd_box n2 = nd_box n"
  obtains mm where "register_mailbox b (nd_dave n2) = Inr mm" and "node_live (n2\<lparr>nd_dave := mm\<rparr>)"
    and "keys_distinct mm" and "boxes_keep b n (n2\<lparr>nd_dave := mm\<rparr>)" and "b \<in> members mm (mb_topic mb)"
    and "box_incoming (n2\<lparr>nd_dave := mm\<rparr>) b = mb_incoming mb"
    and "nd_box n2 \<in> members mm topic_internal" and "box_incoming (n2\<lparr>nd_dave := mm\<rparr>) (nd_box n2) = Some Internal_cb"
    and "mm_boxes mm b = Some (mb\<lparr>mb_outgoing := True\<rparr>)"
    and "members mm = (members (nd_dave n))(mb_topic mb := insert b (members (nd_dave n) (mb_topic mb)))"
proof -
  note d = node_wiredD [OF w]
  have b': "b \<notin> members (nd_dave n) t" for t using b by (rule fresh_not_member)
  have "keys_distinct (nd_dave n2)" "mm_boxes (nd_dave n2) b = Some mb" "fresh_box (nd_dave n2) b"
    using d(2) b by (simp_all add: dave keys_distinct_def fresh_box_def)
  from register_live [OF live this ok] obtain mm where mm: "register_mailbox b (nd_dave n2) = Inr mm"
      "node_live (n2\<lparr>nd_dave := mm\<rparr>)" "keys_distinct mm"
      "members mm = (members (nd_dave n))(mb_topic mb := insert b (members (nd_dave n) (mb_topic mb)))"
      "mm_boxes mm = (mm_boxes (nd_dave n))(b \<mapsto> mb\<lparr>mb_outgoing := True\<rparr>)"
    by (auto simp: dave)
  have "nd_box n \<noteq> b" using b' d(4) by blast
  with mm d(4,5) show thesis
    by (intro that [of mm]) (simp_all add: boxes_keep_def box_incoming_def box)
qed

lemma publisher_wired:
  fixes n :: "('b, 'u) node" and t :: topic
  assumes w: "node_wired n" and a: "nd_pub_at n a = None" and b: "fresh_box (nd_dave n) b"
  defines "n2 \<equiv> (put_box b (mailbox_new t None False) n)
      \<lparr>nd_pub_at := (nd_pub_at n)(a \<mapsto> \<lparr>pb_topic = t, pb_box = Some b, pb_firehose = False, pb_husk = False\<rparr>),
       nd_publishers := nd_publishers n @ [a]\<rparr>"
  shows "node_live n2"
    and "\<exists>mm. register_mailbox b (nd_dave n2) = Inr mm \<and> node_wired (n2\<lparr>nd_dave := mm\<rparr>) \<and>
      members mm = (members (nd_dave n))(t := insert b (members (nd_dave n) t))"
proof -
  note d = node_wiredD [OF w]
  let ?mb = "mailbox_new t None False :: node_cb mailbox"
  let ?pb = "\<lparr>pb_topic = t, pb_box = Some b, pb_firehose = False, pb_husk = False\<rparr>"
  have new: "a \<notin> set (nd_publishers n)" using pub_boxD(1) [OF d(7)] a by blast
  have b': "b \<notin> members (nd_dave n) t" for t using b by (rule fresh_not_member)
  have old: "pb_box (the (nd_pub_at n s)) \<noteq> Some b" if "s \<in> set (nd_publishers n)" for s
    by (rule pub_boxD(2) [OF d(7) that b'])
  note p = node_liveD [OF put_box_live [OF d(1) b', of ?mb]]
  show live2: "node_live n2"
  proof (rule node_liveI)
    show "closure_ok n2 c m" if "c \<in> members (nd_dave n2) t" "mm_boxes (nd_dave n2) c = Some m" for t c m
      by (rule closure_ok_mono [OF p(2)]) (use that in \<open>simp_all add: n2_def put_box_def\<close>)
    show "\<exists>pb. nd_pub_at n2 s = Some pb \<and> \<not> pb_husk pb" if "s \<in> set (nd_publishers n2)" for s
      using that new p(7) by (auto simp: n2_def put_box_def)
  qed (use p in \<open>simp_all add: n2_def put_box_def\<close>)
  obtain mm where mm: "register_mailbox b (nd_dave n2) = Inr mm" "node_live (n2\<lparr>nd_dave := mm\<rparr>)"
      "keys_distinct mm" "boxes_keep b n (n2\<lparr>nd_dave := mm\<rparr>)" "b \<in> members mm t"
      "box_incoming (n2\<lparr>nd_dave := mm\<rparr>) b = None"
      "nd_box n2 \<in> members mm topic_internal" "box_incoming (n2\<lparr>nd_dave := mm\<rparr>) (nd_box n2) = Some Internal_cb"
      "members mm = (members (nd_dave n))(t := insert b (members (nd_dave n) t))"
    using register_new [OF w b _ live2, of ?mb]
    by (simp add: n2_def put_box_def mailbox_new_def closure_ok_def) metis
  let ?n = "n2\<lparr>nd_dave := mm\<rparr>"
  have "subs_wired ?n"
    by (rule subs_wired_keep [OF d(6) mm(4)])
       (use d(6) sub_boxD(2) [OF d(6) _ b'] in \<open>simp_all add: n2_def put_box_def subs_wired_def topic_at_def\<close>)
  moreover have "remotes_wired ?n"
    by (rule remotes_wired_keep [OF d(8) mm(4)])
       (use d(8) b' in \<open>auto simp: n2_def put_box_def remotes_wired_def\<close>)
  moreover have "pubs_wired ?n"
  proof (rule pubs_wired_add)
    have "boxes_keep b n (?n\<lparr>nd_publishers := nd_publishers n\<rparr>)"
      using mm(4) by (simp add: boxes_keep_def box_incoming_def)
    then show "pubs_wired (?n\<lparr>nd_publishers := nd_publishers n\<rparr>)"
      by (rule pubs_wired_keep [OF d(7)]) (use d(7) old new in \<open>auto simp: n2_def put_box_def pubs_wired_def\<close>)
    show "nd_pub_at (?n\<lparr>nd_publishers := nd_publishers n\<rparr>) a = Some ?pb" by (simp add: n2_def)
    show "pb_box (the (nd_pub_at (?n\<lparr>nd_publishers := nd_publishers n\<rparr>) s)) \<noteq> Some b"
      if "s \<in> set (nd_publishers (?n\<lparr>nd_publishers := nd_publishers n\<rparr>))" for s
      using old [of s] that new by (auto simp: n2_def)
  qed (use mm(5,6) new in \<open>simp_all add: n2_def put_box_def box_incoming_def\<close>)
  moreover have "owners_wired ?n"
    by (rule owners_wired_keep [OF d(9) mm(4)]) (use mm(6) in \<open>simp_all add: n2_def put_box_def\<close>)
  ultimately have "node_wired ?n" using mm by (simp add: node_wired_def)
  with mm(1,9) show "\<exists>mm. register_mailbox b (nd_dave n2) = Inr mm \<and> node_wired (n2\<lparr>nd_dave := mm\<rparr>) \<and>
      members mm = (members (nd_dave n))(t := insert b (members (nd_dave n) t))" by blast
qed

text \<open>
  A registered mailbox of a wired node is taken out of the table; \<open>n1\<close> is the node without
  the object it belonged to.
\<close>

lemma unregister_old:
  assumes w: "node_wired n" and mem: "b \<in> members (nd_dave n) t" and int: "box_incoming n b \<noteq> Some Internal_cb"
    and dave: "nd_dave n1 = nd_dave n" and box: "nd_box n1 = nd_box n"
    and closure: "\<And>t c mb. c \<noteq> b \<Longrightarrow> c \<in> members (nd_dave n) t \<Longrightarrow> mm_boxes (nd_dave n) c = Some mb \<Longrightarrow>
      closure_ok n c mb \<Longrightarrow> closure_ok n1 c mb"
    and remotes: "\<And>r. r \<in> set (nd_remotes n1) \<Longrightarrow> r \<in> set (nd_remotes n) \<and> nd_remote_at n1 r = nd_remote_at n r \<and>
      (\<exists>b. map_of (th_buffers (nd_thread n1)) (rn_link (the (nd_remote_at n r))) = Some b)"
    and subs: "\<And>s. s \<in> set (nd_subscribers n1) \<Longrightarrow> \<exists>sb. nd_sub_at n1 s = Some sb \<and> \<not> sb_husk sb"
    and pubs: "\<And>s. s \<in> set (nd_publishers n1) \<Longrightarrow> \<exists>pb. nd_pub_at n1 s = Some pb \<and> \<not> pb_husk pb"
  obtains mm where "unregister_mailbox b (nd_dave n1) = Inr mm" and "node_live (n1\<lparr>nd_dave := mm\<rparr>)"
    and "keys_distinct mm" and "boxes_keep b n (n1\<lparr>nd_dave := mm\<rparr>)" and "\<And>t. b \<notin> members mm t"
    and "nd_box n1 \<in> members mm topic_internal" and "box_incoming (n1\<lparr>nd_dave := mm\<rparr>) (nd_box n1) = Some Internal_cb"
proof -
  note d = node_wiredD [OF w] and l = node_liveD [OF node_wiredD(1) [OF w]]
  obtain mb where mb: "mm_boxes (nd_dave n) b = Some mb" using memberD [OF d(3) mem] by blast
  obtain mm where mm: "unregister_mailbox b (nd_dave n1) = Inr mm" "mailman_inv mm"
      "members mm = (members (nd_dave n))(t := members (nd_dave n) t - {b})"
      "mm_boxes mm = (mm_boxes (nd_dave n))(b \<mapsto> mb\<lparr>mb_outgoing := False\<rparr>)"
    using unregister_member [OF d(3) mem mb] dave by metis
  have gone: "b \<notin> members mm t'" for t'
    using members_disjoint [OF d(3) mem, of t'] by (auto simp: mm(3))
  have same: "c \<in> members mm t' \<longleftrightarrow> c \<in> members (nd_dave n) t' \<and> c \<noteq> b" for c t'
    using gone [of t'] by (cases "c = b") (simp_all add: mm(3))
  have "nd_box n \<noteq> b" using int d(5) by auto
  have "node_live (n1\<lparr>nd_dave := mm\<rparr>)"
  proof (rule node_liveI)
    fix t' a m assume "a \<in> members (nd_dave (n1\<lparr>nd_dave := mm\<rparr>)) t'" "mm_boxes (nd_dave (n1\<lparr>nd_dave := mm\<rparr>)) a = Some m"
    then have a: "a \<noteq> b" "a \<in> members (nd_dave n) t'" "mm_boxes (nd_dave n) a = Some m"
      by (auto simp: same mm(4) split: if_splits)
    show "closure_ok (n1\<lparr>nd_dave := mm\<rparr>) a m"
      by (rule closure_ok_mono [OF closure [OF a l(2) [OF a(2,3)]]]) simp_all
  next
    fix r assume "r \<in> set (nd_remotes (n1\<lparr>nd_dave := mm\<rparr>))"
    then show "\<exists>rn b. nd_remote_at (n1\<lparr>nd_dave := mm\<rparr>) r = Some rn \<and> rn_link rn \<noteq> null_tp \<and>
        map_of (th_buffers (nd_thread (n1\<lparr>nd_dave := mm\<rparr>))) (rn_link rn) = Some b"
      using remotes [of r] l(4) [of r] by auto
  next
    fix r r' rn rn'
    assume "r \<in> set (nd_remotes (n1\<lparr>nd_dave := mm\<rparr>))" "r' \<in> set (nd_remotes (n1\<lparr>nd_dave := mm\<rparr>))"
      "nd_remote_at (n1\<lparr>nd_dave := mm\<rparr>) r = Some rn" "nd_remote_at (n1\<lparr>nd_dave := mm\<rparr>) r' = Some rn'" "rn_link rn = rn_link rn'"
    then show "r = r'" using remotes [of r] remotes [of r'] l(5) [of r r' rn rn'] by simp
  qed (use mm(2) l(3) subs pubs \<open>nd_box n \<noteq> b\<close> in \<open>simp_all add: mm(4) box\<close>)
  moreover have "keys_distinct mm" using d(2) unfolding keys_distinct_def Ball_def same by blast
  ultimately show thesis
    using mm(1) d(4,5) \<open>nd_box n \<noteq> b\<close>
    by (intro that [of mm]) (simp_all add: boxes_keep_def box_incoming_def same mm(4) box)
qed

lemma count_list_distinct: "distinct xs \<Longrightarrow> x \<in> set xs \<Longrightarrow> count_list xs x = 1"
  by (induction xs) (auto simp: count_list_0_iff)

lemma counts_match_filter:
  assumes "counts_match m (\<lambda>t. length (filter (\<lambda>s. f s = t) xs))" and "distinct xs" and "x \<in> set xs"
  shows "counts_match (decr (f x) m) (\<lambda>t. length (filter (\<lambda>s. f s = t) (filter (\<lambda>s. s \<noteq> x) xs)))"
proof -
  have aux: "x \<notin> set ys \<Longrightarrow> length (filter (\<lambda>y. y \<noteq> x \<and> f y = t) ys) = length (filter (\<lambda>y. f y = t) ys)" for ys t
    by (induction ys) auto
  have "length (filter (\<lambda>s. f s = t) xs) = length (filter (\<lambda>s. f s = t) (filter (\<lambda>s. s \<noteq> x) xs)) + count_list [f x] t" for t
    using assms(2,3) by (induction xs) (auto simp: aux)
  with counts_match_decr [of m _ "[f x]"] assms(1) show ?thesis by simp
qed

lemma publisher_new_ok:
  assumes ok: "node_ok n" and users: "users_return env" and a: "nd_pub_at n a = None" and b: "fresh_box (nd_dave n) b"
  shows "\<exists>n'. publisher_new env a b t n = Inr n' \<and> node_ok n' \<and> nd_publishers n' = nd_publishers n @ [a] \<and>
    nd_subscribers n' = nd_subscribers n \<and> nd_sub_at n' = nd_sub_at n \<and> nd_remotes n' = nd_remotes n \<and>
    nd_pub_at n' = (nd_pub_at n)(a \<mapsto> \<lparr>pb_topic = t, pb_box = Some b, pb_firehose = False, pb_husk = False\<rparr>) \<and>
    members (nd_dave n') = (members (nd_dave n))(t := insert b (members (nd_dave n) t)) \<and>
    nd_id n' = nd_id n \<and> map fst (th_buffers (nd_thread n')) = map fst (th_buffers (nd_thread n))"
proof -
  have w: "node_wired n" using ok by (simp add: node_ok_def)
  define n2 where "n2 = (put_box b (mailbox_new t None False) n)
      \<lparr>nd_pub_at := (nd_pub_at n)(a \<mapsto> \<lparr>pb_topic = t, pb_box = Some b, pb_firehose = False, pb_husk = False\<rparr>),
       nd_publishers := nd_publishers n @ [a]\<rparr>"
  note p = publisher_wired [OF w a b, of t, folded n2_def]
  obtain n3 where n3: "send_info env False n2 = Inr n3" "frame n2 n3"
    using send_info_live [OF p(1) users] by blast
  obtain mm where mm: "register_mailbox b (nd_dave n2) = Inr mm" "node_wired (n2\<lparr>nd_dave := mm\<rparr>)"
      "members mm = (members (nd_dave n))(t := insert b (members (nd_dave n) t))"
    using p(2) by blast
  note f = frame_dave [OF n3(2), of mm]
  have "a \<notin> set (nd_publishers n)" using pub_boxD(1) [OF node_wiredD(7) [OF w]] a by blast
  then have "filter (\<lambda>x. x \<noteq> a) (nd_publishers n) = nd_publishers n" by (auto simp: filter_id_conv)
  then have "publisher_new env a b t n = Inr (n3\<lparr>nd_dave := mm\<rparr>)"
    using n3(1) mm(1) frameD(2) [OF n3(2)]
    by (simp add: publisher_new_def register_publisher_def unregister_publisher_def node_register_def Let_def
        n2_def put_box_def)
  moreover have "latest_ok (n2\<lparr>nd_dave := mm\<rparr>)"
    using ok by (simp add: n2_def put_box_def node_ok_def latest_ok_def)
  then have "node_ok (n3\<lparr>nd_dave := mm\<rparr>)" using mm(2) frame_ok [OF f] by (simp add: node_ok_def)
  ultimately show ?thesis
    using frameD [OF f] mm(3) by (simp add: n2_def put_box_def)
qed

lemma publisher_destroy_ok:
  assumes ok: "node_ok n" and a: "a \<in> set (nd_publishers n)"
  shows "\<exists>n'. publisher_destroy a n = Inr n' \<and> node_ok n' \<and> nd_publishers n' = filter (\<lambda>x. x \<noteq> a) (nd_publishers n) \<and>
    nd_pub_at n' a = None"
proof -
  have w: "node_wired n" using ok by (simp add: node_ok_def)
  note d = node_wiredD [OF w]
  obtain pb b where pb: "nd_pub_at n a = Some pb" "pb_box pb = Some b" "b \<in> members (nd_dave n) (pb_topic pb)"
      "box_incoming n b = None" by (rule pubs_wiredE [OF d(7) a])
  have husk: "\<not> pb_husk pb" using node_liveD(7) [OF d(1) a] pb(1) by auto
  define n1 where "n1 = n\<lparr>nd_publishers := filter (\<lambda>x. x \<noteq> a) (nd_publishers n), nd_pub_at := (nd_pub_at n)(a := None)\<rparr>"
  have inc: "box_incoming n b \<noteq> Some Internal_cb" using pb(4) by simp
  obtain mm where mm: "unregister_mailbox b (nd_dave n1) = Inr mm" "node_live (n1\<lparr>nd_dave := mm\<rparr>)"
    "keys_distinct mm" "boxes_keep b n (n1\<lparr>nd_dave := mm\<rparr>)" "\<And>t. b \<notin> members mm t" "nd_box n1 \<in> members mm topic_internal"
    "box_incoming (n1\<lparr>nd_dave := mm\<rparr>) (nd_box n1) = Some Internal_cb"
  proof (rule unregister_old [OF w pb(3) inc, of n1])
    show "closure_ok n1 c mb" if "closure_ok n c mb" for c mb
      by (rule closure_ok_mono [OF that]) (simp_all add: n1_def)
    show "r \<in> set (nd_remotes n) \<and> nd_remote_at n1 r = nd_remote_at n r \<and>
      (\<exists>b. map_of (th_buffers (nd_thread n1)) (rn_link (the (nd_remote_at n r))) = Some b)" if "r \<in> set (nd_remotes n1)" for r
      using node_liveD(4) [OF d(1), of r] that by (auto simp: n1_def)
  qed (use node_liveD [OF d(1)] in \<open>simp_all add: n1_def\<close>)
  let ?n = "n1\<lparr>nd_dave := mm\<rparr>"
  have "subs_wired ?n"
    by (rule subs_wired_keep [OF d(6) mm(4)])
       (use d(6) sub_boxD(3) [OF d(6), of _ b] pb(4) in \<open>simp_all add: n1_def subs_wired_def topic_at_def\<close>)
  moreover have "pubs_wired ?n"
  proof (rule pubs_wired_keep [OF d(7) mm(4)])
    show "distinct (nd_publishers ?n)" using d(7) by (simp add: n1_def pubs_wired_def)
    show "s \<in> set (nd_publishers n) \<and> nd_pub_at ?n s = nd_pub_at n s \<and> pb_box (the (nd_pub_at n s)) \<noteq> Some b"
      if "s \<in> set (nd_publishers ?n)" for s
      using that pubs_wired_inj [OF d(7) a, of s] pb by (auto simp: n1_def)
  qed
  moreover have "remotes_wired ?n"
    by (rule remotes_wired_keep [OF d(8) mm(4)]) (use d(8) pb(4) in \<open>auto simp: n1_def remotes_wired_def\<close>)
  moreover have "owners_wired ?n"
    by (rule owners_wired_keep [OF d(9) mm(4)]) (use mm(5) in \<open>simp_all add: n1_def\<close>)
  ultimately have "node_wired ?n" using mm by (simp add: node_wired_def)
  then have "node_ok ?n" using ok by (simp add: node_ok_def latest_ok_def n1_def)
  moreover have "publisher_destroy a n = Inr ?n"
    using pb(1,2) husk mm(1)
    by (simp add: publisher_destroy_def node_unregister_def unregister_publisher_def n1_def)
  ultimately show ?thesis by (simp add: n1_def)
qed

text \<open>A registered mailbox gets its closure.\<close>

lemma attach_live:
  assumes live: "node_live n" and mb: "mm_boxes (nd_dave n) b = Some mb"
    and mb': "mb_topic mb' = mb_topic mb" "mb_outgoing mb' = mb_outgoing mb" and ok: "closure_ok n b mb'"
  shows "node_live (put_box b mb' n)"
proof -
  note l = node_liveD [OF live]
  have dave: "nd_dave (put_box b mb' n) = (nd_dave n)\<lparr>mm_boxes := (mm_boxes (nd_dave n))(b \<mapsto> mb')\<rparr>"
    by (simp add: put_box_def)
  show ?thesis
  proof (rule node_liveI)
    show "mailman_inv (nd_dave (put_box b mb' n))"
      unfolding dave by (rule mailman_inv_closure [OF l(1) mb mb'])
    fix t c m assume "c \<in> members (nd_dave (put_box b mb' n)) t" "mm_boxes (nd_dave (put_box b mb' n)) c = Some m"
    then have "closure_ok n c m" using l(2) [of c t m] ok by (auto simp: dave split: if_splits)
    then show "closure_ok (put_box b mb' n) c m" by (rule closure_ok_mono) (simp_all add: put_box_def)
  qed (use l in \<open>simp_all add: put_box_def\<close>)
qed

lemma subs_wired_add:
  assumes w: "subs_wired n" and n': "nd_subscribers n' = nd_subscribers n @ [a]" "nd_dave n' = nd_dave n"
      "nd_sub_at n' = nd_sub_at n" "nd_local n' = incr (sb_topic sb) (nd_local n)"
    and a: "a \<notin> set (nd_subscribers n)" "nd_sub_at n a = Some sb" "sb_box sb = Some b"
    and b: "b \<in> members (nd_dave n) (sb_topic sb)" "box_incoming n b = Some (Subscriber_cb a cb arg)"
  shows "subs_wired n'"
  unfolding subs_wired_def
proof (intro conjI ballI)
  have inc: "box_incoming n' = box_incoming n" and top: "topic_at n' = topic_at n"
    by (simp_all add: box_incoming_def topic_at_def n' fun_eq_iff)
  show "distinct (nd_subscribers n')" using w a by (simp add: n' subs_wired_def)
  fix s assume s: "s \<in> set (nd_subscribers n')"
  show "\<exists>sb b cb arg. nd_sub_at n' s = Some sb \<and> sb_box sb = Some b \<and>
      b \<in> members (nd_dave n') (sb_topic sb) \<and> box_incoming n' b = Some (Subscriber_cb s cb arg)"
  proof (cases "s = a")
    case True
    then show ?thesis using a b by (auto simp: n' inc)
  next
    case False
    then have "s \<in> set (nd_subscribers n)" using s by (simp add: n')
    then show ?thesis unfolding inc n' by (rule subs_wiredE [OF w]) blast
  qed
next
  have "topic_at n a = sb_topic sb" using a by (simp add: topic_at_def)
  moreover have "topic_at n' = topic_at n" by (simp add: topic_at_def n' fun_eq_iff)
  moreover have "counts_match (fold incr [sb_topic sb] (nd_local n))
      (\<lambda>t. length (filter (\<lambda>s. topic_at n s = t) (nd_subscribers n)) + count_list [sb_topic sb] t)"
    by (rule counts_match_incr) (use w in \<open>simp add: subs_wired_def\<close>)
  ultimately show "counts_match (nd_local n') (\<lambda>t. length (filter (\<lambda>s. topic_at n' s = t) (nd_subscribers n')))"
    unfolding counts_match_def by (simp add: n')
qed

text \<open>The state of the node once a subscriber's mailbox is registered and has its closure.\<close>

lemma subscriber_wired:
  fixes n :: "('b, 'u) node" and t :: topic
  assumes w: "node_wired n" and a: "nd_sub_at n a = None" and b: "fresh_box (nd_dave n) b"
    and cb: "cb \<noteq> Service_callback"
  defines "n2 \<equiv> (put_box b (mailbox_new t None False) n)
      \<lparr>nd_sub_at := (nd_sub_at n)(a \<mapsto> \<lparr>sb_topic = t, sb_box = Some b, sb_husk = False, sb_packed = False\<rparr>),
       nd_local := incr t (nd_local n), nd_subscribers := nd_subscribers n @ [a]\<rparr>"
  shows "node_live n2"
    and "\<exists>mm mb. register_mailbox b (nd_dave n2) = Inr mm \<and> mm_boxes mm b = Some mb \<and>
      members mm = (members (nd_dave n))(t := insert b (members (nd_dave n) t)) \<and>
      node_wired (put_box b (mb\<lparr>mb_incoming := Some (Subscriber_cb a cb arg)\<rparr>) (n2\<lparr>nd_dave := mm\<rparr>))"
proof -
  note d = node_wiredD [OF w]
  let ?mb = "mailbox_new t None False :: node_cb mailbox"
  have new: "a \<notin> set (nd_subscribers n)" using sub_boxD(1) [OF d(6)] a by blast
  have b': "b \<notin> members (nd_dave n) t" for t using b by (rule fresh_not_member)
  note p = node_liveD [OF put_box_live [OF d(1) b', of ?mb]]
  show live2: "node_live n2"
  proof (rule node_liveI)
    show "closure_ok n2 c m" if "c \<in> members (nd_dave n2) t" "mm_boxes (nd_dave n2) c = Some m" for t c m
      by (rule closure_ok_mono [OF p(2)]) (use that in \<open>simp_all add: n2_def put_box_def\<close>)
    show "\<exists>sb. nd_sub_at n2 s = Some sb \<and> \<not> sb_husk sb" if "s \<in> set (nd_subscribers n2)" for s
      using that new p(6) by (auto simp: n2_def put_box_def)
  qed (use p in \<open>simp_all add: n2_def put_box_def\<close>)
  obtain mm where mm: "register_mailbox b (nd_dave n2) = Inr mm" "node_live (n2\<lparr>nd_dave := mm\<rparr>)"
      "keys_distinct mm" "boxes_keep b n (n2\<lparr>nd_dave := mm\<rparr>)" "b \<in> members mm t"
      "nd_box n2 \<in> members mm topic_internal" "box_incoming (n2\<lparr>nd_dave := mm\<rparr>) (nd_box n2) = Some Internal_cb"
      "mm_boxes mm b = Some (?mb\<lparr>mb_outgoing := True\<rparr>)"
      "members mm = (members (nd_dave n))(t := insert b (members (nd_dave n) t))"
    using register_new [OF w b _ live2, of ?mb]
    by (simp add: n2_def put_box_def mailbox_new_def closure_ok_def) metis
  let ?mb' = "?mb\<lparr>mb_outgoing := True, mb_incoming := Some (Subscriber_cb a cb arg)\<rparr>"
  let ?n = "put_box b ?mb' (n2\<lparr>nd_dave := mm\<rparr>)"
  have live: "node_live ?n"
  proof (rule attach_live [OF mm(2), of b "?mb\<lparr>mb_outgoing := True\<rparr>"])
    have "a \<in> set (nd_subscribers (n2\<lparr>nd_dave := mm\<rparr>))" by (simp add: n2_def)
    then show "closure_ok (n2\<lparr>nd_dave := mm\<rparr>) b ?mb'" using cb by (simp add: closure_ok_def)
  qed (use mm(8) in simp_all)
  have neq: "nd_box n \<noteq> b" using b' d(4) by blast
  have inc: "box_incoming ?n c = (if c = b then Some (Subscriber_cb a cb arg) else box_incoming (n2\<lparr>nd_dave := mm\<rparr>) c)" for c
    by (simp add: box_incoming_def put_box_def)
  have mem: "members (nd_dave ?n) = members mm" by (simp add: put_box_def)
  have keep: "boxes_keep b n ?n" using mm(4) inc by (simp add: boxes_keep_def mem)
  let ?o = "?n\<lparr>nd_subscribers := nd_subscribers n, nd_local := nd_local n\<rparr>"
  have top: "topic_at ?o s = topic_at n s" if "s \<in> set (nd_subscribers n)" for s
    using that new by (auto simp: topic_at_def n2_def put_box_def)
  have "subs_wired ?o"
  proof (rule subs_wired_keep [OF d(6), of b])
    have "filter (\<lambda>s. topic_at ?o s = t') (nd_subscribers n) = filter (\<lambda>s. topic_at n s = t') (nd_subscribers n)" for t'
      by (rule filter_cong [OF refl]) (simp only: top)
    then show "counts_match (nd_local ?o) (\<lambda>t'. length (filter (\<lambda>s. topic_at ?o s = t') (nd_subscribers ?o)))"
      using d(6) by (simp add: subs_wired_def)
    show "boxes_keep b n ?o" using keep by (simp add: boxes_keep_def box_incoming_def)
    show "distinct (nd_subscribers ?o)" using d(6) by (simp add: subs_wired_def)
    show "s \<in> set (nd_subscribers n) \<and> nd_sub_at ?o s = nd_sub_at n s \<and> sb_box (the (nd_sub_at n s)) \<noteq> Some b"
      if "s \<in> set (nd_subscribers ?o)" for s
      using that new sub_boxD(2) [OF d(6) _ b', of s] by (auto simp: n2_def put_box_def)
  qed
  then have "subs_wired ?n"
    by (rule subs_wired_add [of _ _ a "\<lparr>sb_topic = t, sb_box = Some b, sb_husk = False, sb_packed = False\<rparr>" b cb arg])
       (use new mm(5) in \<open>simp_all add: n2_def put_box_def box_incoming_def\<close>)
  moreover have "pubs_wired ?n"
    by (rule pubs_wired_keep [OF d(7) keep])
       (use d(7) pub_boxD(2) [OF d(7) _ b'] in \<open>simp_all add: n2_def put_box_def pubs_wired_def\<close>)
  moreover have "remotes_wired ?n"
    by (rule remotes_wired_keep [OF d(8) keep])
       (use d(8) b' in \<open>auto simp: n2_def put_box_def remotes_wired_def\<close>)
  moreover have "owners_wired ?n"
    by (rule owners_wired_keep [OF d(9) keep]) (use inc a in \<open>auto simp: n2_def put_box_def\<close>)
  moreover have "nd_box ?n = nd_box n2" "nd_box n2 = nd_box n" by (simp_all add: put_box_def n2_def)
  ultimately have "node_wired ?n"
    using live mm(3,6,7) inc neq mem by (simp add: node_wired_def keys_distinct_def)
  with mm(1,8,9) show "\<exists>mm mb. register_mailbox b (nd_dave n2) = Inr mm \<and> mm_boxes mm b = Some mb \<and>
      members mm = (members (nd_dave n))(t := insert b (members (nd_dave n) t)) \<and>
      node_wired (put_box b (mb\<lparr>mb_incoming := Some (Subscriber_cb a cb arg)\<rparr>) (n2\<lparr>nd_dave := mm\<rparr>))" by auto
qed

lemma frame_put_box: "frame n n' \<Longrightarrow> frame (put_box b mb n) (put_box b mb n')"
  by (auto simp: frame_def latest_ok_def put_box_def)

lemma subscriber_new_ok:
  assumes ok: "node_ok n" and users: "users_return env" and a: "nd_sub_at n a = None" and b: "fresh_box (nd_dave n) b"
    and cb: "cb \<noteq> Service_callback"
  shows "\<exists>n'. subscriber_new env a b t cb arg n = Inr n' \<and> node_ok n' \<and> nd_subscribers n' = nd_subscribers n @ [a] \<and>
    nd_publishers n' = nd_publishers n \<and> nd_pub_at n' = nd_pub_at n \<and> nd_remotes n' = nd_remotes n \<and>
    nd_sub_at n' = (nd_sub_at n)(a \<mapsto> \<lparr>sb_topic = t, sb_box = Some b, sb_husk = False, sb_packed = False\<rparr>) \<and>
    members (nd_dave n') = (members (nd_dave n))(t := insert b (members (nd_dave n) t)) \<and>
    box_incoming n' b = Some (Subscriber_cb a cb arg) \<and>
    nd_id n' = nd_id n \<and> map fst (th_buffers (nd_thread n')) = map fst (th_buffers (nd_thread n))"
proof -
  have w: "node_wired n" using ok by (simp add: node_ok_def)
  define n2 where "n2 = (put_box b (mailbox_new t None False) n)
      \<lparr>nd_sub_at := (nd_sub_at n)(a \<mapsto> \<lparr>sb_topic = t, sb_box = Some b, sb_husk = False, sb_packed = False\<rparr>),
       nd_local := incr t (nd_local n), nd_subscribers := nd_subscribers n @ [a]\<rparr>"
  note p = subscriber_wired [OF w a b cb, of t, folded n2_def]
  obtain n3 where n3: "send_info env False n2 = Inr n3" "frame n2 n3"
    using send_info_live [OF p(1) users] by blast
  obtain mm mb where mm: "register_mailbox b (nd_dave n2) = Inr mm" "mm_boxes mm b = Some mb"
      "members mm = (members (nd_dave n))(t := insert b (members (nd_dave n) t))"
      "node_wired (put_box b (mb\<lparr>mb_incoming := Some (Subscriber_cb a cb arg)\<rparr>) (n2\<lparr>nd_dave := mm\<rparr>))"
    using p(2) [of arg] by blast
  let ?f = "\<lambda>n. put_box b (mb\<lparr>mb_incoming := Some (Subscriber_cb a cb arg)\<rparr>) (n\<lparr>nd_dave := mm\<rparr>)"
  have f: "frame (?f n2) (?f n3)" by (intro frame_put_box frame_dave n3(2))
  have "a \<notin> set (nd_subscribers n)" using sub_boxD(1) [OF node_wiredD(6) [OF w]] a by blast
  then have "subscriber_new env a b t cb arg n = Inr (?f n3)"
    using n3(1) mm(1,2) frameD(2) [OF n3(2)]
    by (simp add: subscriber_new_def register_subscriber_def unregister_subscriber_def node_register_def Let_def
        n2_def put_box_def box_at_def set_incoming_mail_callback_def)
  moreover have "latest_ok (?f n2)" using ok by (simp add: n2_def put_box_def node_ok_def latest_ok_def)
  then have "node_ok (?f n3)" using mm(4) frame_ok [OF f] by (simp add: node_ok_def)
  ultimately show ?thesis using frameD [OF n3(2)] mm(3) by (simp add: n2_def put_box_def box_incoming_def)
qed

lemma subscriber_destroy_ok:
  assumes ok: "node_ok n" and a: "a \<in> set (nd_subscribers n)"
  shows "\<exists>n'. subscriber_destroy a n = Inr n' \<and> node_ok n' \<and>
    nd_subscribers n' = filter (\<lambda>x. x \<noteq> a) (nd_subscribers n) \<and> nd_sub_at n' a = None"
proof -
  have w: "node_wired n" using ok by (simp add: node_ok_def)
  note d = node_wiredD [OF w]
  obtain sb b cb arg where sb: "nd_sub_at n a = Some sb" "sb_box sb = Some b" "b \<in> members (nd_dave n) (sb_topic sb)"
      "box_incoming n b = Some (Subscriber_cb a cb arg)" by (rule subs_wiredE [OF d(6) a])
  have husk: "\<not> sb_husk sb" using node_liveD(6) [OF d(1) a] sb(1) by auto
  have dist: "distinct (nd_subscribers n)" using d(6) by (simp add: subs_wired_def)
  then have one: "count_list (nd_subscribers n) a = 1" using a by (rule count_list_distinct)
  define n1 where "n1 = n\<lparr>nd_subscribers := filter (\<lambda>x. x \<noteq> a) (nd_subscribers n),
      nd_local := decr (sb_topic sb) (nd_local n), nd_sub_at := (nd_sub_at n)(a := None)\<rparr>"
  have inc: "box_incoming n b \<noteq> Some Internal_cb" using sb(4) by simp
  obtain mm where mm: "unregister_mailbox b (nd_dave n1) = Inr mm" "node_live (n1\<lparr>nd_dave := mm\<rparr>)"
    "keys_distinct mm" "boxes_keep b n (n1\<lparr>nd_dave := mm\<rparr>)" "\<And>t. b \<notin> members mm t" "nd_box n1 \<in> members mm topic_internal"
    "box_incoming (n1\<lparr>nd_dave := mm\<rparr>) (nd_box n1) = Some Internal_cb"
  proof (rule unregister_old [OF w sb(3) inc, of n1])
    fix t c mb assume c: "c \<noteq> b" "c \<in> members (nd_dave n) t" "mm_boxes (nd_dave n) c = Some mb" "closure_ok n c mb"
    show "closure_ok n1 c mb"
    proof (rule closure_ok_mono [OF c(4)])
      fix s cb' arg' assume s: "mb_incoming mb = Some (Subscriber_cb s cb' arg')" "s \<in> set (nd_subscribers n)"
      then have "box_incoming n c = Some (Subscriber_cb s cb' arg')" using c(3) by (simp add: box_incoming_def)
      then obtain sb' where "nd_sub_at n s = Some sb'" "sb_box sb' = Some c"
        using d(9) c(2) unfolding owners_wired_def by blast
      then show "s \<in> set (nd_subscribers n1)" using s(2) sb(1,2) c(1) by (auto simp: n1_def)
    qed (simp_all add: n1_def)
  next
    show "r \<in> set (nd_remotes n) \<and> nd_remote_at n1 r = nd_remote_at n r \<and>
      (\<exists>b. map_of (th_buffers (nd_thread n1)) (rn_link (the (nd_remote_at n r))) = Some b)" if "r \<in> set (nd_remotes n1)" for r
      using node_liveD(4) [OF d(1), of r] that by (auto simp: n1_def)
  qed (use node_liveD [OF d(1)] in \<open>simp_all add: n1_def\<close>)
  let ?n = "n1\<lparr>nd_dave := mm\<rparr>"
  have "topic_at ?n s = topic_at n s" if "s \<noteq> a" for s using that by (simp add: topic_at_def n1_def)
  then have same: "filter (\<lambda>s. topic_at ?n s = t) (filter (\<lambda>x. x \<noteq> a) xs) = filter (\<lambda>s. topic_at n s = t) (filter (\<lambda>x. x \<noteq> a) xs)" for t xs
    by (induction xs) auto
  have "topic_at n a = sb_topic sb" by (simp add: topic_at_def sb(1))
  then have "counts_match (decr (sb_topic sb) (nd_local n))
      (\<lambda>t. length (filter (\<lambda>s. topic_at n s = t) (filter (\<lambda>x. x \<noteq> a) (nd_subscribers n))))"
    using counts_match_filter [OF _ dist a, of "nd_local n" "topic_at n"] d(6) by (simp add: subs_wired_def)
  then have "counts_match (nd_local ?n) (\<lambda>t. length (filter (\<lambda>s. topic_at ?n s = t) (nd_subscribers ?n)))"
    using same by (simp add: n1_def)
  then have "subs_wired ?n"
  proof (rule subs_wired_keep [OF d(6) mm(4), rotated -1])
    show "distinct (nd_subscribers ?n)" using dist by (simp add: n1_def)
    show "s \<in> set (nd_subscribers n) \<and> nd_sub_at ?n s = nd_sub_at n s \<and> sb_box (the (nd_sub_at n s)) \<noteq> Some b"
      if "s \<in> set (nd_subscribers ?n)" for s
      using that sub_boxD(3) [OF d(6), of s b] sb(4) by (auto simp: n1_def)
  qed
  moreover have "pubs_wired ?n"
    by (rule pubs_wired_keep [OF d(7) mm(4)])
       (use d(7) pub_boxD(3) [OF d(7), of _ b] sb(4) in \<open>simp_all add: n1_def pubs_wired_def\<close>)
  moreover have "remotes_wired ?n"
    by (rule remotes_wired_keep [OF d(8) mm(4)]) (use d(8) sb(4) in \<open>auto simp: n1_def remotes_wired_def\<close>)
  moreover have "owners_wired ?n"
    by (rule owners_wired_keep [OF d(9) mm(4)]) (use sb mm(5) in \<open>auto simp: n1_def\<close>)
  ultimately have "node_wired ?n" using mm by (simp add: node_wired_def)
  then have "node_ok ?n" using ok by (simp add: node_ok_def latest_ok_def n1_def)
  moreover have "subscriber_destroy a n = Inr ?n"
    using sb(1,2) husk mm(1) one a
    by (simp add: subscriber_destroy_def subscriber_set_husk_def unregister_subscriber_def node_unregister_def n1_def)
  ultimately show ?thesis by (simp add: n1_def)
qed

subsection \<open>Publishing\<close>

definition sub_calls :: "('b, 'u) node \<Rightarrow> 'b packet \<Rightarrow> nat \<Rightarrow> (nat \<times> nat \<times> 'b bson) list" where
  "sub_calls n p s =
     (case nd_sub_at n s of None \<Rightarrow> []
      | Some sb \<Rightarrow> (case sb_box sb of None \<Rightarrow> [] | Some b \<Rightarrow> calls n p b))"

lemma mset_concat_distinct: "distinct xs \<Longrightarrow> mset (concat (map f xs)) = (\<Sum>x \<in> set xs. mset (f x))"
  by (induction xs) auto

text \<open>The calls of a set of mailboxes that holds those of all subscribers of a topic.\<close>

lemma calls_of_subscribers:
  assumes w: "node_wired n" and xs: "distinct xs"
    "set xs = (members (nd_dave n) t \<union> members (nd_dave n) topic_any) - {b0}"
    and b0: "\<And>s cb arg. box_incoming n b0 \<noteq> Some (Subscriber_cb s cb arg)"
  shows "mset (concat (map (calls n p) xs)) =
    mset (concat (map (sub_calls n p) (filter (\<lambda>s. topic_at n s = t \<or> topic_at n s = topic_any) (nd_subscribers n))))"
proof -
  note d = node_wiredD [OF w]
  let ?ss = "filter (\<lambda>s. topic_at n s = t \<or> topic_at n s = topic_any) (nd_subscribers n)"
  let ?box = "\<lambda>s. the (sb_box (the (nd_sub_at n s)))"
  have sub: "nd_sub_at n s \<noteq> None \<and> sb_box (the (nd_sub_at n s)) = Some (?box s) \<and>
      ?box s \<in> members (nd_dave n) (topic_at n s) \<and> (\<exists>cb arg. box_incoming n (?box s) = Some (Subscriber_cb s cb arg))"
    if "s \<in> set (nd_subscribers n)" for s
    by (rule subs_wiredE [OF d(6) that]) (simp add: topic_at_def)
  have into: "?box ` set ?ss \<subseteq> set xs"
  proof
    fix x assume "x \<in> ?box ` set ?ss"
    then obtain s where s: "s \<in> set (nd_subscribers n)" "topic_at n s = t \<or> topic_at n s = topic_any" "x = ?box s" by auto
    with sub [OF s(1)] b0 show "x \<in> set xs" unfolding xs(2) by auto
  qed
  have none: "calls n p x = []" if x: "x \<in> set xs - ?box ` set ?ss" for x
  proof (rule ccontr)
    assume "calls n p x \<noteq> []"
    then obtain mb s f arg where mb: "mm_boxes (nd_dave n) x = Some mb" "mb_incoming mb = Some (Subscriber_cb s (User_callback f) arg)"
      by (auto simp: calls_def split: option.splits node_cb.splits callback.splits)
    obtain t' where t': "x \<in> members (nd_dave n) t'" "t' = t \<or> t' = topic_any" using x xs(2) by auto
    have "s \<in> set (nd_subscribers n)" using node_liveD(2) [OF d(1) t'(1) mb(1)] mb(2) by (simp add: closure_ok_def)
    moreover obtain sb where "nd_sub_at n s = Some sb" "sb_box sb = Some x"
      using d(9) t'(1) mb unfolding owners_wired_def box_incoming_def by (metis option.case(2))
    then have "?box s = x" by simp
    moreover have "topic_at n s = t'"
      using sub [OF \<open>s \<in> set (nd_subscribers n)\<close>] members_disjoint [OF d(3) _ t'(1)] \<open>?box s = x\<close> by blast
    ultimately have "x \<in> ?box ` set ?ss" using t'(2) by auto
    then show False using x by blast
  qed
  have inj: "inj_on ?box (set ?ss)"
  proof (rule inj_onI)
    fix s s' assume "s \<in> set ?ss" "s' \<in> set ?ss" and eq: "?box s = ?box s'"
    then have "s \<in> set (nd_subscribers n)" "s' \<in> set (nd_subscribers n)" by auto
    from sub [OF this(1)] sub [OF this(2)] eq show "s = s'" by auto
  qed
  have "mset (concat (map (calls n p) xs)) = (\<Sum>x \<in> set xs. mset (calls n p x))"
    by (rule mset_concat_distinct [OF xs(1)])
  also have "\<dots> = (\<Sum>x \<in> ?box ` set ?ss. mset (calls n p x))"
    by (rule sum.mono_neutral_right) (use into none in auto)
  also have "\<dots> = (\<Sum>s \<in> set ?ss. mset (calls n p (?box s)))"
    by (rule sum.reindex [OF inj, unfolded o_def])
  also have "\<dots> = (\<Sum>s \<in> set ?ss. mset (sub_calls n p s))"
  proof (rule sum.cong [OF refl])
    fix s assume "s \<in> set ?ss"
    then show "mset (calls n p (?box s)) = mset (sub_calls n p s)"
      using sub [of s] by (auto simp: sub_calls_def split: option.split)
  qed
  also have "\<dots> = mset (concat (map (sub_calls n p) ?ss))"
    by (rule mset_concat_distinct [symmetric]) (use d(6) in \<open>simp add: subs_wired_def\<close>)
  finally show ?thesis .
qed

lemma call_users_total: "users_return env \<Longrightarrow> \<exists>u'. call_users env cs u = Inr u'"
proof (induction cs arbitrary: u rule: rev_induct)
  case (snoc c cs)
  obtain v where "call_users env cs u = Inr v" using snoc by blast
  moreover obtain w where "ne_user env (fst c) (fst (snd c)) (snd (snd c)) v = Inr w"
    using snoc.prems unfolding users_return_def by blast
  ultimately show ?case by (simp add: case_prod_beta)
qed simp

lemma sends_to_remote:
  assumes "node_wired n" and "r \<in> set (nd_remotes n)" and "nd_remote_at n r = Some rn" and "\<not> p_local_only p"
  shows "sends_to n p r (rn_link rn) \<longleftrightarrow> wanted n rn (packet_topic p)"
  using node_wiredD(8) [OF assms(1)] assms(2-)
  by (auto simp: sends_to_def remotes_wired_def box_incoming_def split: option.splits)

text \<open>A publisher's mailbox in a wired node.\<close>

lemma publish_mail:
  assumes w: "node_wired n" and a: "a \<in> set (nd_publishers n)" and pb: "nd_pub_at n a = Some pb"
    and p: "p = published env pb (packet_new (ne_lib env) (pb_topic pb) (nd_time (update_time env n)) msg False) n"
  shows "\<exists>b. publish env a msg n = node_mail env b p (update_time env n) \<and> b \<in> members (nd_dave n) (pb_topic pb) \<and>
    box_incoming n b = None"
proof -
  define m where "m = update_time env n"
  have f: "frame n m" unfolding m_def by (rule frame_update_time)
  note same = frameD [OF f] and d = node_wiredD [OF w]
  obtain b where b: "pb_box pb = Some b" "b \<in> members (nd_dave n) (pb_topic pb)" "box_incoming n b = None"
    using pubs_wiredE [OF d(7), of a] a pb by (metis option.inject)
  obtain mb where mb: "mm_boxes (nd_dave n) b = Some mb" "mb_topic mb = pb_topic pb"
    by (rule memberD [OF d(3) b(2)])
  have husk: "\<not> pb_husk pb" using node_liveD(7) [OF d(1), of a] a pb by auto
  have "publish env a msg n = node_mail env b p m"
    using pb husk mb b(1) same
    by (simp add: publish_def publish_packet_def m_def [symmetric] p box_at_def Let_def published_def)
  then show ?thesis using b(2,3) m_def by blast
qed

lemma publish_eq:
  assumes w: "node_wired n" and a: "a \<in> set (nd_publishers n)" and pb: "nd_pub_at n a = Some pb"
    and t: "pb_topic pb \<noteq> topic_internal" "pb_topic pb \<noteq> topic_any" and users: "users_return env"
    and p: "p = published env pb (packet_new (ne_lib env) (pb_topic pb) (nd_time (update_time env n)) msg False) n"
  shows "\<exists>n' cs. publish env a msg n = Inr (success, n') \<and> frame n n' \<and>
    mset cs = mset (concat (map (sub_calls n p)
      (filter (\<lambda>s. topic_at n s = pb_topic pb \<or> topic_at n s = topic_any) (nd_subscribers n)))) \<and>
    call_users env cs (nd_user n) = Inr (nd_user n') \<and>
    (\<forall>r \<in> set (nd_remotes n). \<forall>rn b. nd_remote_at n r = Some rn \<longrightarrow>
       map_of (th_buffers (nd_thread n)) (rn_link rn) = Some b \<longrightarrow>
       map_of (th_buffers (nd_thread n')) (rn_link rn) =
         Some (if wanted n rn (pb_topic pb) then buffer_send (stamped (ne_lib env) (nd_id n) p) b else b))"
proof -
  define m where "m = update_time env n"
  have f: "frame n m" unfolding m_def by (rule frame_update_time)
  have wm: "node_wired m" using w frame_wired [OF f] by simp
  note same = frameD [OF f] and d = node_wiredD [OF wm]
  have user: "nd_user m = nd_user n" and want: "wanted m = wanted n" and thr: "nd_thread m = nd_thread n"
    by (simp_all add: m_def update_time_def Let_def wanted_def fun_eq_iff)
  obtain b where eq: "publish env a msg n = node_mail env b p m"
      and b: "b \<in> members (nd_dave m) (pb_topic pb)" "box_incoming m b = None"
    using publish_mail [OF w a pb p] same by (auto simp: m_def box_incoming_def)
  obtain mb where mb: "mm_boxes (nd_dave m) b = Some mb" "mb_outgoing mb" by (rule memberD [OF d(3) b(1)])
  have pt: "packet_topic p = pb_topic pb" "\<not> p_null p" "\<not> p_local_only p"
    by (simp_all add: p published_def packet_topic_def)
  have "\<forall>t. \<forall>c \<in> members (nd_dave m) t. box_key c = box_key b \<longrightarrow> c = b"
    using d(2) b(1) unfolding keys_distinct_def by blast
  then obtain xs where xs: "distinct xs" "set xs = (members (nd_dave m) (pb_topic pb) \<union> members (nd_dave m) topic_any) - {b}"
    and run: "\<And>u. call_users env (concat (map (calls m p) xs)) (nd_user m) = Inr u \<Longrightarrow>
      \<exists>n'. node_mail env b p m = Inr (success, n') \<and> handled env p m (set xs) u n'"
    using node_mail_handled [OF d(1) mb _ pt(2), of env] pt(1) t by metis
  let ?cs = "concat (map (calls m p) xs)"
  obtain u where u: "call_users env ?cs (nd_user m) = Inr u" using call_users_total [OF users] by blast
  obtain n' where n': "node_mail env b p m = Inr (success, n')" "handled env p m (set xs) u n'"
    using run [OF u] by blast
  have sc: "sub_calls m p = sub_calls n p" "topic_at m = topic_at n"
    unfolding fun_eq_iff sub_calls_def calls_def topic_at_def same by (rule refl | rule allI | rule conjI)+
  have "mset ?cs = mset (concat (map (sub_calls n p)
      (filter (\<lambda>s. topic_at n s = pb_topic pb \<or> topic_at n s = topic_any) (nd_subscribers n))))"
    using calls_of_subscribers [OF wm xs(1), of "pb_topic pb" b p] xs(2) b(2) by (simp add: sc same)
  moreover have "map_of (th_buffers (nd_thread n')) (rn_link rn) =
      Some (if wanted n rn (pb_topic pb) then buffer_send (stamped (ne_lib env) (nd_id n) p) c else c)"
    if r: "r \<in> set (nd_remotes n)" "nd_remote_at n r = Some rn" "map_of (th_buffers (nd_thread n)) (rn_link rn) = Some c" for r rn c
  proof -
    have rm: "r \<in> members (nd_dave m) topic_any" "box_incoming m r = Some (Remote_cb r)"
      using d(8) r(1) same by (auto simp: remotes_wired_def)
    then have "r \<in> set xs" using b(2) unfolding xs(2) by auto
    have live: "node_live m" by (rule d(1))
    have "(\<exists>x \<in> set xs. sends_to m p x (rn_link rn)) \<longleftrightarrow> wanted n rn (pb_topic pb)"
    proof
      assume "\<exists>x \<in> set xs. sends_to m p x (rn_link rn)"
      then obtain x where x: "x \<in> set xs" "sends_to m p x (rn_link rn)" by blast
      then obtain t' where t': "x \<in> members (nd_dave m) t'" using xs(2) by auto
      obtain mx where mx: "mm_boxes (nd_dave m) x = Some mx" "mb_incoming mx = Some (Remote_cb x)"
        using x(2) by (auto simp: sends_to_def split: option.splits)
      then have "x \<in> set (nd_remotes m)" using node_liveD(2) [OF live t' mx(1)] by (simp add: closure_ok_def)
      moreover obtain rx where "nd_remote_at m x = Some rx" "rn_link rx = rn_link rn" "wanted m rx (pb_topic pb)"
        using x(2) pt(1) by (auto simp: sends_to_def split: option.splits)
      moreover from this have "x = r"
        using node_liveD(5) [OF live \<open>x \<in> set (nd_remotes m)\<close>, of r rx rn] r same by simp
      ultimately show "wanted n rn (pb_topic pb)" using r(2) same want by simp
    next
      assume "wanted n rn (pb_topic pb)"
      then have "sends_to m p r (rn_link rn)"
        using sends_to_remote [OF wm, of r rn p] r same pt want by simp
      then show "\<exists>x \<in> set xs. sends_to m p x (rn_link rn)" using \<open>r \<in> set xs\<close> by blast
    qed
    then show ?thesis using n'(2) r(3) same(8) thr by (simp add: handled_def)
  qed
  moreover have "frame n n'" using f n'(2) frame_trans by (auto simp: handled_def)
  moreover have "call_users env ?cs (nd_user n) = Inr (nd_user n')" using u n'(2) user by (simp add: handled_def)
  ultimately show ?thesis using n'(1) eq by (intro exI [of _ n'] exI [of _ ?cs]) simp
qed

subsection \<open>A new node\<close>

lemma node_new_ok:
  "\<exists>n. node_new env name h rnd a link u = Inr n \<and> node_ok n \<and> nd_publishers n = [] \<and> nd_subscribers n = [] \<and>
     nd_remotes n = [] \<and> nd_pub_at n = Map.empty \<and> nd_sub_at n = Map.empty \<and> nd_remote_at n = Map.empty \<and> nd_user n = u \<and> nd_id n = ucast h XOR word_of_int rnd \<and>
     nd_box n = a \<and> members (nd_dave n) = (\<lambda>t. if t = topic_internal then {a} else {}) \<and>
     nd_thread n = tcp_thread_new link \<and> nd_server n = None"
proof -
  let ?mb = "mailbox_new topic_internal (Some Internal_cb) False"
  let ?dave = "\<lparr>mm_boxes = [a \<mapsto> ?mb], mm_slots = []\<rparr> :: node_cb mailman"
  have none: "members ?dave t = {}" for t by (simp add: members_def topic_slot_def)
  have inv: "mailman_inv ?dave" by (simp add: mailman_inv_def)
  have box: "mm_boxes ?dave a = Some ?mb" by simp
  have fresh: "fresh_box ?dave a" by (simp add: fresh_box_def none)
  obtain mm where mm: "register_mailbox a ?dave = Inr mm" "mailman_inv mm"
      "members mm = (members ?dave)(mb_topic ?mb := insert a (members ?dave (mb_topic ?mb)))"
      "mm_boxes mm = (mm_boxes ?dave)(a \<mapsto> ?mb\<lparr>mb_outgoing := True\<rparr>)"
    using register_fresh [OF inv box fresh] by blast
  have mem: "members mm = (\<lambda>t. if t = topic_internal then {a} else {})"
  proof -
    have "mb_topic ?mb = topic_internal" by (simp add: mailbox_new_def)
    then show ?thesis using mm(3) by (simp add: none fun_eq_iff)
  qed
  obtain n where n: "node_new env name h rnd a link u = Inr n" "nd_dave n = mm" "nd_publishers n = []"
      "nd_subscribers n = []" "nd_remotes n = []" "nd_pub_at n = Map.empty" "nd_sub_at n = Map.empty" "nd_remote_at n = Map.empty"
      "nd_user n = u" "nd_box n = a" "nd_latest n = []" "nd_subs n = Map.empty" "nd_local n = Map.empty"
      "nd_thread n = tcp_thread_new link" "nd_server n = None" "nd_id n = ucast h XOR word_of_int rnd"
    by (simp add: node_new_def mm(1))
  have inc: "box_incoming n a = Some Internal_cb"
    by (simp add: box_incoming_def n mm(4) mailbox_new_def)
  have "node_live n"
    by (rule node_liveI) (use mm(2,4) in \<open>auto simp: n mem closure_ok_def mailbox_new_def split: if_splits\<close>)
  then have "node_wired n"
    using inc
    by (simp add: node_wired_def keys_distinct_def subs_wired_def pubs_wired_def remotes_wired_def owners_wired_def
        n mem counts_match_def entry_of_def)
  moreover have "latest_ok n" by (simp add: latest_ok_def n counts_match_def entry_of_def)
  ultimately show ?thesis using n mem by (simp add: node_ok_def)
qed

subsection \<open>A sample node\<close>

text \<open>Users' callbacks that log what they are given, and a node with a subscriber and a publisher.\<close>

type_synonym sample_log = "(nat \<times> nat \<times> sample_doc bson) list"

definition sample_env :: "(sample_doc, sample_log) node_env" where
  "sample_env = \<lparr>ne_dbg = True, ne_lib = sample_lib, ne_junk = True, ne_port = 0, ne_strerror = (\<lambda>_. []),
     ne_resolver = plain_resolver, ne_clock = (\<lambda>k. \<lparr>tv_sec = int k, tv_usec = 0\<rparr>),
     ne_user = (\<lambda>f arg d u. Inr (u @ [(f, arg, d)]))\<rparr>"

lemma sample_env_users: "users_return sample_env"
  by (simp add: users_return_def sample_env_def)

lemma sample_node_exists:
  "\<exists>(n :: (sample_doc, sample_log) node) pb. node_ok n \<and> nd_publishers n = [5] \<and> nd_subscribers n = [1] \<and> nd_remotes n = [] \<and>
     nd_pub_at n 5 = Some pb \<and> pb_topic pb = ''/t'' \<and> topic_at n 1 = ''/t'' \<and>
     (\<forall>p. sub_calls n p 1 = [(7, 0, p_msg p)])"
proof -
  obtain n0 :: "(sample_doc, sample_log) node" where n0: "node_ok n0" "nd_publishers n0 = []" "nd_subscribers n0 = []" "nd_remotes n0 = []"
      "nd_pub_at n0 = Map.empty" "nd_sub_at n0 = Map.empty"
      "members (nd_dave n0) = (\<lambda>t. if t = topic_internal then {10} else {})"
    using node_new_ok [of sample_env "''robot''" 42 0 10 "\<lambda>_. quiet_link" "[]"] by (elim exE conjE) (rule that; assumption)
  have f0: "fresh_box (nd_dave n0) 20" by (simp add: fresh_box_def n0(7) box_key_def mailbox_id_def)
  have a0: "nd_pub_at n0 5 = None" by (simp add: n0(5))
  obtain n1 :: "(sample_doc, sample_log) node" where n1: "node_ok n1" "nd_publishers n1 = nd_publishers n0 @ [5]" "nd_subscribers n1 = nd_subscribers n0"
      "nd_remotes n1 = nd_remotes n0" "nd_sub_at n1 = nd_sub_at n0"
      "nd_pub_at n1 = (nd_pub_at n0)(5 \<mapsto> \<lparr>pb_topic = ''/t'', pb_box = Some 20, pb_firehose = False, pb_husk = False\<rparr>)"
      "members (nd_dave n1) = (members (nd_dave n0))(''/t'' := insert 20 (members (nd_dave n0) ''/t''))"
    using publisher_new_ok [OF n0(1) sample_env_users a0 f0, of "''/t''"]
    by (elim exE conjE) (rule that; assumption)
  have f1: "fresh_box (nd_dave n1) 30" by (auto simp: fresh_box_def n1(7) n0(7) box_key_def mailbox_id_def)
  have cb: "User_callback 7 \<noteq> Service_callback" by simp
  have a1: "nd_sub_at n1 1 = None" by (simp add: n1(5) n0(6))
  obtain n2 :: "(sample_doc, sample_log) node" where n2: "node_ok n2" "nd_publishers n2 = nd_publishers n1" "nd_subscribers n2 = nd_subscribers n1 @ [1]"
      "nd_remotes n2 = nd_remotes n1" "nd_pub_at n2 = nd_pub_at n1"
      "nd_sub_at n2 = (nd_sub_at n1)(1 \<mapsto> \<lparr>sb_topic = ''/t'', sb_box = Some 30, sb_husk = False, sb_packed = False\<rparr>)"
      "box_incoming n2 30 = Some (Subscriber_cb 1 (User_callback 7) 0)"
    using subscriber_new_ok [OF n1(1) sample_env_users a1 f1 cb, of "''/t''" 0]
    by (elim exE conjE) (rule that; assumption)
  have "sub_calls n2 p 1 = [(7, 0, p_msg p)]" for p
  proof -
    obtain mb where "mm_boxes (nd_dave n2) 30 = Some mb" "mb_incoming mb = Some (Subscriber_cb 1 (User_callback 7) 0)"
      using n2(7) by (auto simp: box_incoming_def split: option.splits)
    then show ?thesis by (simp add: sub_calls_def calls_def n2(6))
  qed
  moreover have "topic_at n2 1 = ''/t''" using n2(6) by (simp add: topic_at_def)
  ultimately show ?thesis using n2(1-5) n1 n0 by (intro exI [of _ n2]) simp
qed

subsection \<open>Properties\<close>



text \<open>C21: Endpoints may be made and destroyed in any order: when a node's invariant holds, users'
  functions return and new objects have new addresses (also in their low 32 bits), then
  advertising, subscribing, destroying a publisher and destroying a subscriber succeed, keep the
  invariant, and change the node's lists by exactly that object.\<close>

theorem endpoints_come_and_go:
  assumes "node_ok n" and "users_return env"
  shows "(\<forall>a b t. nd_pub_at n a = None \<longrightarrow> fresh_box (nd_dave n) b \<longrightarrow>
      (\<exists>n'. publisher_new env a b t n = Inr n' \<and> node_ok n' \<and> nd_publishers n' = nd_publishers n @ [a])) \<and>
    (\<forall>a b t cb arg. nd_sub_at n a = None \<longrightarrow> fresh_box (nd_dave n) b \<longrightarrow> cb \<noteq> Service_callback \<longrightarrow>
      (\<exists>n'. subscriber_new env a b t cb arg n = Inr n' \<and> node_ok n' \<and> nd_subscribers n' = nd_subscribers n @ [a])) \<and>
    (\<forall>a \<in> set (nd_publishers n). \<exists>n'. publisher_destroy a n = Inr n' \<and> node_ok n' \<and>
      nd_publishers n' = filter (\<lambda>x. x \<noteq> a) (nd_publishers n)) \<and>
    (\<forall>a \<in> set (nd_subscribers n). \<exists>n'. subscriber_destroy a n = Inr n' \<and> node_ok n' \<and>
      nd_subscribers n' = filter (\<lambda>x. x \<noteq> a) (nd_subscribers n))"
  using publisher_new_ok [OF assms] subscriber_new_ok [OF assms] publisher_destroy_ok [OF assms(1)]
    subscriber_destroy_ok [OF assms(1)] by meson

theorem endpoints_come_and_go_witness:
  "\<exists>(n :: (sample_doc, sample_log) node) n1 n2. node_ok n \<and> nd_publishers n = [5] \<and> publisher_destroy 5 n = Inr n1 \<and> node_ok n1 \<and> nd_publishers n1 = [] \<and>
     subscriber_destroy 1 n = Inr n2 \<and> node_ok n2 \<and> nd_subscribers n2 = []"
proof -
  obtain n :: "(sample_doc, sample_log) node" where n: "node_ok n" "nd_publishers n = [5]" "nd_subscribers n = [1]"
    using sample_node_exists by blast
  from endpoints_come_and_go [OF n(1) sample_env_users] n(2,3) show ?thesis using n(1) by fastforce
qed

end
