(* ===== verification/Node.thy ===== *)
theory Node
  imports Endpoints
begin

text \<open>
  The rest of \<open>node_impl.cpp\<close> and \<open>remote_node.cpp\<close>: the life of a connection to another
  node, the gateway, starting and stopping. Arguments named like system calls are what those
  return; addresses of new objects are arguments too.
\<close>

subsection \<open>Remote nodes\<close>

definition remote_new :: "('b, 'u) node_env \<Rightarrow> u64 \<Rightarrow> tp \<Rightarrow> mode \<Rightarrow> ('b, 'u) node \<Rightarrow> ('b, 'u) node exec" where
  "remote_new env r l m n =
     (let n1 = put_box r (mailbox_new topic_any (Some (Remote_cb r)) False) n in
      exec_bind (add_socket (ne_dbg env) l (nd_thread n1)) (\<lambda>(ret, t).
        Inr (n1\<lparr>nd_thread := t,
                nd_remote_at := (nd_remote_at n1)(r \<mapsto> \<lparr>rn_mode = m, rn_link = l, rn_ids = {}\<rparr>)\<rparr>)))"

definition remote_shutdown :: "('b, 'u) node_env \<Rightarrow> u64 \<Rightarrow> ('b, 'u) node \<Rightarrow> ('b, 'u) node exec" where
  "remote_shutdown env r n =
     exec_bind (load (nd_remote_at n) r) (\<lambda>rn.
       if rn_link rn = null_tp then Inr n
       else exec_bind (remove_socket (ne_dbg env) (rn_link rn) (nd_thread n)) (\<lambda>(ret, t).
            exec_bind (tcp_transport_destroy (th_link t (rn_link rn))) (\<lambda>s.
              Inr (n\<lparr>nd_thread := t\<lparr>th_link := (th_link t)(rn_link rn := s)\<rparr>,
                     nd_remote_at := (nd_remote_at n)(r \<mapsto> rn\<lparr>rn_link := null_tp\<rparr>)\<rparr>))))"

text \<open>The destructor.\<close>

definition remote_delete :: "('b, 'u) node_env \<Rightarrow> u64 \<Rightarrow> ('b, 'u) node \<Rightarrow> ('b, 'u) node exec" where
  "remote_delete env r n =
     exec_bind (remote_shutdown env r n) (\<lambda>n'. Inr (n'\<lparr>nd_remote_at := (nd_remote_at n')(r := None)\<rparr>))"

text \<open>
  \<open>spin_update\<close>. \<open>remote_take\<close> is one turn of its loop, in which \<open>False\<close> is the \<open>break\<close>; no
  turn adds to the queue it empties, so one turn more than its length is enough.
\<close>

definition seen :: "u32 \<Rightarrow> 'b packet \<Rightarrow> bool" where
  "seen i p \<longleftrightarrow> m_id (p_meta p) = i \<or> (\<exists>j \<in> set (m_path (p_meta p)). j = i)"

definition remote_take :: "('b, 'u) node_env \<Rightarrow> u64 \<Rightarrow> ('b, 'u) node \<Rightarrow> (bool \<times> ('b, 'u) node) exec" where
  "remote_take env r n =
     exec_bind (load (nd_remote_at n) r) (\<lambda>rn.
     exec_bind (next_packet (ne_dbg env) (packet_null (ne_lib env) (ne_junk env)) (rn_link rn) (nd_thread n)) (\<lambda>(p, t).
       let n1 = n\<lparr>nd_thread := t\<rparr> in
       if p_null p then Inr (False, n1)
       else if seen (nd_id n1) p then Inr (True, n1)
       else exec_bind (node_mail env r p
              (n1\<lparr>nd_remote_at := (nd_remote_at n1)(r \<mapsto> rn\<lparr>rn_ids := insert (m_id (p_meta p)) (rn_ids rn)\<rparr>)\<rparr>))
            (\<lambda>(ret, n2). Inr (True, n2))))"

fun remote_loop :: "('b, 'u) node_env \<Rightarrow> u64 \<Rightarrow> nat \<Rightarrow> ('b, 'u) node \<Rightarrow> ('b, 'u) node exec" where
  "remote_loop env r 0 n = Inr n"
| "remote_loop env r (Suc k) n =
     exec_bind (remote_take env r n) (\<lambda>(more, n'). if more then remote_loop env r k n' else Inr n')"

definition in_queue :: "tp \<Rightarrow> ('b, 'u) node \<Rightarrow> 'b packet list" where
  "in_queue l n = (case map_of (th_buffers (nd_thread n)) l of None \<Rightarrow> [] | Some b \<Rightarrow> bf_in b)"

definition remote_spin_update :: "('b, 'u) node_env \<Rightarrow> u64 \<Rightarrow> ('b, 'u) node \<Rightarrow> (void_result \<times> ('b, 'u) node) exec" where
  "remote_spin_update env r n =
     exec_bind (load (nd_remote_at n) r) (\<lambda>rn.
     exec_bind (remote_loop env r (Suc (length (in_queue (rn_link rn) n))) n) (\<lambda>n'. Inr (success, n')))"

subsection \<open>Joining a network\<close>

definition set_auto_exit :: "bool \<Rightarrow> ('b, 'u) node \<Rightarrow> ('b, 'u) node" where
  "set_auto_exit b n = n\<lparr>nd_auto_exit := b\<rparr>"

definition adopt_remote :: "('b, 'u) node_env \<Rightarrow> u64 \<Rightarrow> tp \<Rightarrow> mode \<Rightarrow> ('b, 'u) node \<Rightarrow> ('b, 'u) node exec" where
  "adopt_remote env r l m n =
     exec_bind (remote_new env r l m n) (\<lambda>n1.
     exec_bind (node_register r n1) (\<lambda>n2.
       send_info env False (n2\<lparr>nd_remotes := nd_remotes n2 @ [r]\<rparr>)))"

definition put_link :: "tp \<Rightarrow> tcp_link \<Rightarrow> ('b, 'u) node \<Rightarrow> ('b, 'u) node" where
  "put_link l s n = n\<lparr>nd_thread := (nd_thread n)\<lparr>th_link := (th_link (nd_thread n))(l := s)\<rparr>\<rparr>"

definition join_daylite :: "('b, 'u) node_env \<Rightarrow> u64 \<Rightarrow> tp \<Rightarrow> nat \<Rightarrow> int \<Rightarrow> u32 \<Rightarrow> int \<Rightarrow> u32 \<Rightarrow> socket_address \<Rightarrow> bool \<Rightarrow>
    ('b, 'u) node \<Rightarrow> (void_result \<times> ('b, 'u) node) exec" where
  "join_daylite env r l a socket_ret errno1 connect_ret errno2 gateway peer n =
     exec_bind (tcp_transport_open (ne_strerror env) (ne_resolver env) socket_ret errno1 connect_ret errno2
                  (tcp_transport_new a gateway (th_link (nd_thread n) l))) (\<lambda>(ret, s).
       if \<not> to_bool ret then exec_bind (tcp_transport_destroy s) (\<lambda>s'. Inr (ret, put_link l s' n))
       else exec_bind (adopt_remote env r l (if peer then Block_internal else Allow_internal) (put_link l s n)) (\<lambda>n'.
         Inr (success, n')))"

definition leave_daylite :: "void_result" where
  "leave_daylite = success"

subsection \<open>The gateway\<close>

text \<open>
  \<open>base\<close> is what the kernel and the heap hold for the server. A server the node already had is
  destroyed by the assignment. The clients a server deletes are the sockets links point to.
\<close>

definition tcp_server_new :: "socket_address \<Rightarrow> unit tcp_server \<Rightarrow> unit tcp_server" where
  "tcp_server_new address base =
     base\<lparr>sv_address := address, sv_socket := tcp_socket_new, sv_clients := [], sv_listeners := []\<rparr>"

definition free_sockets :: "nat set \<Rightarrow> ('b, 'u) node \<Rightarrow> ('b, 'u) node" where
  "free_sockets freed n =
     n\<lparr>nd_thread := (nd_thread n)\<lparr>th_link := (\<lambda>l. (th_link (nd_thread n) l)
         \<lparr>tl_heap := (\<lambda>a. if a \<in> freed then None else tl_heap (th_link (nd_thread n) l) a)\<rparr>)\<rparr>\<rparr>"

definition stop_gateway_service :: "nat \<Rightarrow> ('b, 'u) node \<Rightarrow> (void_result \<times> ('b, 'u) node) exec" where
  "stop_gateway_service this n =
     (case nd_server n of
        None \<Rightarrow> Inr (failure ''Node not started'' 0, n)
      | Some sv \<Rightarrow>
          exec_bind (server_close (snd (remove_tcp_server_listener this sv))) (\<lambda>sv'.
            Inr (success, free_sockets (set (sv_clients sv)) (n\<lparr>nd_server := None\<rparr>))))"

definition start_gateway_service :: "('b, 'u) node_env \<Rightarrow> nat \<Rightarrow> unit tcp_server \<Rightarrow> int \<Rightarrow> int \<Rightarrow> int \<Rightarrow> int \<Rightarrow> u32 \<Rightarrow>
    socket_address \<Rightarrow> ('b, 'u) node \<Rightarrow> (void_result \<times> ('b, 'u) node) exec" where
  "start_gateway_service env this base socket_ret setsockopt_ret bind_ret listen_ret errno address n =
     exec_bind (case nd_server n of
                  None \<Rightarrow> Inr n
                | Some old \<Rightarrow> exec_bind (server_close old) (\<lambda>_. Inr (free_sockets (set (sv_clients old)) n))) (\<lambda>n1.
       case server_open (ne_strerror env) (ne_resolver env) socket_ret setsockopt_ret bind_ret listen_ret errno
              (tcp_server_new address base) of
         (ret, sv) \<Rightarrow>
           if \<not> to_bool ret then Inr (ret, n1\<lparr>nd_server := None\<rparr>)
           else case add_tcp_server_listener this sv of
             (ret2, sv2) \<Rightarrow>
               if \<not> to_bool ret2 then
                 exec_bind (stop_gateway_service this (n1\<lparr>nd_server := Some sv2\<rparr>)) (\<lambda>(_, n2). Inr (ret2, n2))
               else Inr (success, n1\<lparr>nd_server := Some sv2\<rparr>))"

text \<open>
  The listener. \<open>base\<close> is the state of the link the new transport at \<open>l\<close> gets: its heap holds
  the client's socket \<open>c\<close>. A null link has no transport to cast to.
\<close>

definition server_connection :: "('b, 'u) node_env \<Rightarrow> u64 \<Rightarrow> tp \<Rightarrow> tcp_link \<Rightarrow> nat \<Rightarrow> ('b, 'u) node \<Rightarrow> ('b, 'u) node exec" where
  "server_connection env r l base c n =
     exec_bind (tcp_transport_of_socket c False base) (\<lambda>s0.
     exec_bind (tcp_transport_open (ne_strerror env) (ne_resolver env) (-1) 0 (-1) 0 s0) (\<lambda>(ret, s).
       if \<not> to_bool ret then exec_bind (tcp_transport_destroy s) (\<lambda>s'. Inr (put_link l s' n))
       else adopt_remote env r l Allow_internal (put_link l s n)))"

definition link_socket :: "('b, 'u) node \<Rightarrow> u64 \<Rightarrow> nat option exec" where
  "link_socket n r =
     exec_bind (load (nd_remote_at n) r) (\<lambda>rn.
       if rn_link rn = null_tp then Inl Null_deref
       else Inr (tt_socket (tl_transport (th_link (nd_thread n) (rn_link rn)))))"

definition mark_dead :: "('b, 'u) node \<Rightarrow> u32 \<Rightarrow> ('b, 'u) node" where
  "mark_dead n i =
     (case map_of (nd_latest n) i of
        None \<Rightarrow> n
      | Some info \<Rightarrow>
          let n1 = untally info n
          in n1\<lparr>nd_latest := AList.update i (info\<lparr>n_alive := False, n_out_topics := [], n_in_topics := [],
                                               n_splats := []\<rparr>) (nd_latest n1)\<rparr>)"

text \<open>
  One turn of the loop of \<open>server_disconnection\<close>. Erasing the remote drops the last pointer to
  it, because the mailman has just dropped its own.
\<close>

definition drop_remote :: "('b, 'u) node_env \<Rightarrow> u64 \<Rightarrow> ('b, 'u) node \<Rightarrow> ('b, 'u) node exec" where
  "drop_remote env r n = exec_bind (remote_delete env r n) (\<lambda>n'. Inr (n'\<lparr>nd_remotes := remove1 r (nd_remotes n')\<rparr>))"

definition disconnect_remote :: "('b, 'u) node_env \<Rightarrow> nat \<Rightarrow> ('b, 'u) node \<Rightarrow> u64 \<Rightarrow> ('b, 'u) node exec" where
  "disconnect_remote env c n r =
     exec_bind (link_socket n r) (\<lambda>s.
       if s \<noteq> Some c then Inr n
       else exec_bind (node_unregister r n) (\<lambda>n1.
            exec_bind (load (nd_remote_at n1) r) (\<lambda>rn.
              drop_remote env r (foldl mark_dead n1 (sorted_list_of_set (rn_ids rn))))))"

definition server_disconnection :: "('b, 'u) node_env \<Rightarrow> nat \<Rightarrow> ('b, 'u) node \<Rightarrow> ('b, 'u) node exec" where
  "server_disconnection env c n =
     exec_bind (exec_foldl (disconnect_remote env c) n (nd_remotes n)) (send_info env True)"

text \<open>The node as the listener of its server, whose clients' links get the addresses \<open>addr\<close>.\<close>

definition node_notify :: "('b, 'u) node_env \<Rightarrow> (nat \<Rightarrow> u64 \<times> tp) \<Rightarrow> ('b, 'u) node notifier" where
  "node_notify env addr b listener c sv =
     (let n = sv_world sv; l = snd (addr c);
          base = (th_link (nd_thread n) l)\<lparr>tl_heap := sv_heap sv, tl_kernel := sv_kernel sv, tl_in := sv_in sv c\<rparr>
      in exec_bind (if b then server_connection env (fst (addr c)) l base c n else server_disconnection env c n)
           (\<lambda>n'. Inr (sv\<lparr>sv_world := n'\<rparr>)))"

definition server_with :: "'w \<Rightarrow> 'v tcp_server \<Rightarrow> 'w tcp_server" where
  "server_with w sv =
     \<lparr>sv_address = sv_address sv, sv_socket = sv_socket sv, sv_clients = sv_clients sv,
      sv_listeners = sv_listeners sv, sv_heap = sv_heap sv, sv_kernel = sv_kernel sv, sv_in = sv_in sv,
      sv_world = w\<rparr>"

text \<open>The socket of a remote's transport, as the pointer.\<close>

definition socket_of :: "('b, 'u) node \<Rightarrow> u64 \<Rightarrow> nat option" where
  "socket_of n r = (case nd_remote_at n r of None \<Rightarrow> None
     | Some rn \<Rightarrow> tt_socket (tl_transport (th_link (nd_thread n) (rn_link rn))))"

text \<open>
  The server, the transport of a client and its channels hold pointers to one socket object. The
  model keeps the object with the link of the remote that uses it, if there is one, and the server
  sees it there when its turn comes: with what is left to read, and closed if the transport closed
  it. After the turn the links see what the server did to the objects.
\<close>

definition client_link :: "('b, 'u) node \<Rightarrow> nat \<Rightarrow> tcp_link option" where
  "client_link n c =
     (case filter (\<lambda>r. socket_of n r = Some c) (nd_remotes n) of
        [] \<Rightarrow> None
      | r # rs \<Rightarrow> map_option (\<lambda>rn. th_link (nd_thread n) (rn_link rn)) (nd_remote_at n r))"

definition client_socket :: "('b, 'u) node \<Rightarrow> unit tcp_server \<Rightarrow> nat \<Rightarrow> tcp_socket option" where
  "client_socket n sv c = (case client_link n c of None \<Rightarrow> sv_heap sv c | Some lk \<Rightarrow> tl_heap lk c)"

definition closed_fds :: "('b, 'u) node \<Rightarrow> unit tcp_server \<Rightarrow> int set" where
  "closed_fds n sv = (\<lambda>c. case sv_heap sv c of None \<Rightarrow> -1 | Some s \<Rightarrow> sk_fd s) `
     {c \<in> set (sv_clients sv). case client_socket n sv c of None \<Rightarrow> False | Some s \<Rightarrow> \<not> is_open s}"

definition client_view :: "('b, 'u) node \<Rightarrow> unit tcp_server \<Rightarrow> ('b, 'u) node tcp_server" where
  "client_view n sv =
     (server_with n sv)\<lparr>sv_heap := client_socket n sv,
       sv_kernel := (\<lambda>fd. if fd \<in> closed_fds n sv then None else sv_kernel sv fd),
       sv_in := (\<lambda>c. case client_link n c of None \<Rightarrow> sv_in sv c | Some lk \<Rightarrow> tl_in lk)\<rparr>"

definition client_events :: "'w tcp_server \<Rightarrow> ('b, 'u) node \<Rightarrow> ('b, 'u) node" where
  "client_events sv n =
     n\<lparr>nd_thread := (nd_thread n)\<lparr>th_link := (\<lambda>l. (th_link (nd_thread n) l)
         \<lparr>tl_in := (case tt_socket (tl_transport (th_link (nd_thread n) l)) of
             None \<Rightarrow> tl_in (th_link (nd_thread n) l)
           | Some c \<Rightarrow> if c \<in> set (sv_clients sv) then sv_in sv c else tl_in (th_link (nd_thread n) l))\<rparr>)\<rparr>\<rparr>"

text \<open>The server's turn in the spinner, with the connections that wait.\<close>

definition gateway_spin_update :: "('b, 'u) node_env \<Rightarrow> (nat \<Rightarrow> u64 \<times> tp) \<Rightarrow> (nat \<times> int \<times> sockaddr_in) list \<Rightarrow>
    ('b, 'u) node \<Rightarrow> ('b, 'u) node exec" where
  "gateway_spin_update env addr waiting n =
     (case nd_server n of
        None \<Rightarrow> Inr n
      | Some sv \<Rightarrow>
          let v = client_view n sv
          in exec_bind (server_spin_update (ne_strerror env) (ne_resolver env) (node_notify env addr) waiting v)
               (\<lambda>(ret, sv'). Inr (free_sockets {a. sv_heap v a \<noteq> None \<and> sv_heap sv' a = None}
                  (client_events sv' ((sv_world sv')\<lparr>nd_server := Some (server_with () sv')\<rparr>)))))"

subsection \<open>Starting and stopping\<close>

text \<open>
  The loop of \<open>stop\<close> over the subscribers runs on the vector \<open>set_husk\<close> erases from.
\<close>

fun husk_subscribers :: "nat list \<Rightarrow> ('b, 'u) node \<Rightarrow> ('b, 'u) node exec" where
  "husk_subscribers [] n = Inr n"
| "husk_subscribers (s # ss) n =
     exec_bind (subscriber_set_husk s n) (\<lambda>n'.
       if nd_subscribers n' \<noteq> nd_subscribers n then Inl Iterator_invalidated else husk_subscribers ss n')"

definition node_dismantle :: "('b, 'u) node_env \<Rightarrow> ('b, 'u) node \<Rightarrow> (void_result \<times> ('b, 'u) node) exec" where
  "node_dismantle env n1 =
     exec_bind (exec_foldl (\<lambda>n a. publisher_set_husk a n) n1 (nd_publishers n1)) (\<lambda>n2.
     exec_bind (husk_subscribers (nd_subscribers n2) n2) (\<lambda>n3.
     exec_bind (exec_foldl (\<lambda>n r. remote_shutdown env r n) n3 (nd_remotes n3)) (\<lambda>n4.
     exec_bind (exec_foldl (\<lambda>n r. remote_delete env r n) n4 (nd_remotes n4)) (\<lambda>n5.
       Inr (success, n5\<lparr>nd_remotes := []\<rparr>)))))"

definition node_stop :: "('b, 'u) node_env \<Rightarrow> nat \<Rightarrow> ('b, 'u) node \<Rightarrow> (void_result \<times> ('b, 'u) node) exec" where
  "node_stop env this n =
     exec_bind (stop_gateway_service this n) (\<lambda>(_, n1).
       node_dismantle env (n1\<lparr>nd_dave := mailman_clear (nd_dave n1)\<rparr>))"

definition node_start :: "('b, 'u) node_env \<Rightarrow> nat \<Rightarrow> unit tcp_server \<Rightarrow> int \<Rightarrow> int \<Rightarrow> int \<Rightarrow> int \<Rightarrow> u32 \<Rightarrow>
    u64 \<Rightarrow> tp \<Rightarrow> nat \<Rightarrow> int \<Rightarrow> u32 \<Rightarrow> int \<Rightarrow> u32 \<Rightarrow> socket_address \<Rightarrow> ('b, 'u) node \<Rightarrow> (void_result \<times> ('b, 'u) node) exec" where
  "node_start env this base ssocket setsockopt_ret bind_ret listen_ret errno r l a socket_ret errno1 connect_ret errno2 known n =
     exec_bind (start_gateway_service env this base ssocket setsockopt_ret bind_ret listen_ret errno \<lparr>sa_host = [], sa_port = 0\<rparr> n)
       (\<lambda>(_, n1). join_daylite env r l a socket_ret errno1 connect_ret errno2 known False n1)"

definition node_destroy :: "('b, 'u) node_env \<Rightarrow> nat \<Rightarrow> ('b, 'u) node \<Rightarrow> ('b, 'u) node exec" where
  "node_destroy env this n =
     exec_bind (node_stop env this (n\<lparr>nd_thread := thread_exit (nd_thread n)\<rparr>)) (\<lambda>(_, n'). Inr n')"

text \<open>\<open>spin_update\<close>; with \<open>None\<close> the process has exited.\<close>

definition prune_remote :: "('b, 'u) node_env \<Rightarrow> ('b, 'u) node \<Rightarrow> u64 \<Rightarrow> ('b, 'u) node exec" where
  "prune_remote env n r =
     exec_bind (link_socket n r) (\<lambda>s.
       if s \<noteq> None then Inr n else exec_bind (node_unregister r n) (drop_remote env r))"

definition node_spin_update :: "('b, 'u) node_env \<Rightarrow> nat \<Rightarrow> bool \<Rightarrow> ('b, 'u) node \<Rightarrow>
    (void_result option \<times> ('b, 'u) node) exec" where
  "node_spin_update env this should_exit n =
     exec_bind (exec_foldl (prune_remote env) n (nd_remotes n)) (\<lambda>n1.
       if nd_auto_exit n1 \<and> should_exit then exec_bind (node_destroy env this n1) (\<lambda>n2. Inr (None, n2))
       else Inr (Some success, n1))"

subsection \<open>The invariant over changes of links and queues\<close>

text \<open>
  The invariant only asks of the links that the same ones are watched, and of the remotes that
  they keep their links.
\<close>

lemma wired_links:
  assumes "node_wired n"
    and "nd_dave n' = nd_dave n" "nd_box n' = nd_box n" "nd_remotes n' = nd_remotes n" "nd_subscribers n' = nd_subscribers n"
      "nd_publishers n' = nd_publishers n" "nd_sub_at n' = nd_sub_at n" "nd_pub_at n' = nd_pub_at n" "nd_local n' = nd_local n"
    and rn: "\<And>r. r \<in> set (nd_remotes n) \<Longrightarrow> map_option rn_link (nd_remote_at n' r) = map_option rn_link (nd_remote_at n r)"
    and bs: "\<And>l. map_of (th_buffers (nd_thread n')) l = None \<longleftrightarrow> map_of (th_buffers (nd_thread n)) l = None"
  shows "node_wired n'"
proof -
  note d = node_wiredD [OF assms(1)] and l = node_liveD [OF node_wiredD(1) [OF assms(1)]]
  have inc: "box_incoming n' = box_incoming n" "topic_at n' = topic_at n"
    by (simp_all add: box_incoming_def topic_at_def assms(2,7) fun_eq_iff)
  have link: "\<exists>rn. nd_remote_at n r = Some rn \<and> rn_link rn = rn_link rn'" if "r \<in> set (nd_remotes n)" "nd_remote_at n' r = Some rn'" for r rn'
    using rn [OF that(1)] that(2) by (cases "nd_remote_at n r") auto
  have "node_live n'"
  proof (rule node_liveI, unfold assms(2-8))
    fix t a mb assume "a \<in> members (nd_dave n) t" "mm_boxes (nd_dave n) a = Some mb"
    from l(2) [OF this] show "closure_ok n' a mb" by (rule closure_ok_mono) (simp_all add: assms(4,5))
  next
    fix r assume r: "r \<in> set (nd_remotes n)"
    obtain rn0 b where "nd_remote_at n r = Some rn0" "rn_link rn0 \<noteq> null_tp" "map_of (th_buffers (nd_thread n)) (rn_link rn0) = Some b"
      using l(4) [OF r] by blast
    with rn [OF r] bs [of "rn_link rn0"] show "\<exists>rn b. nd_remote_at n' r = Some rn \<and> rn_link rn \<noteq> null_tp \<and>
        map_of (th_buffers (nd_thread n')) (rn_link rn) = Some b" by (cases "nd_remote_at n' r") auto
  next
    fix r r' rn1 rn2
    assume r: "r \<in> set (nd_remotes n)" "r' \<in> set (nd_remotes n)" and "nd_remote_at n' r = Some rn1" "nd_remote_at n' r' = Some rn2"
      and "rn_link rn1 = rn_link rn2"
    with link [of r rn1] link [of r' rn2] l(5) [OF r] show "r = r'" by auto
  qed (use l in simp_all)
  with d show ?thesis
    unfolding node_wired_def subs_wired_def pubs_wired_def remotes_wired_def owners_wired_def inc assms(2-9) by simp
qed

subsection \<open>Receiving\<close>

lemma next_packet_watched:
  assumes "l \<noteq> null_tp" and "map_of (th_buffers t) l = Some b"
  shows "next_packet dbg none l t = Inr (fst (buffer_next none b),
    t\<lparr>th_buffers := AList.update l (snd (buffer_next none b)) (th_buffers t)\<rparr>)"
  using assms by (simp add: next_packet_def case_prod_beta)

lemma in_queue_frame: "frame n n' \<Longrightarrow> in_queue l n' = in_queue l n"
  using frameD(16) [of n n' l]
  by (cases "map_of (th_buffers (nd_thread n)) l"; cases "map_of (th_buffers (nd_thread n')) l") (auto simp: in_queue_def)

text \<open>One turn of the loop, on a packet that may be delivered.\<close>

lemma remote_take_step:
  assumes ok: "node_ok n" and users: "users_return env" and r: "r \<in> set (nd_remotes n)" and rn: "nd_remote_at n r = Some rn"
    and q: "in_queue (rn_link rn) n = p # ps" and p: "deliverable p"
  shows "\<exists>n'. remote_take env r n = Inr (True, n') \<and> node_ok n' \<and> in_queue (rn_link rn) n' = ps \<and>
    nd_remotes n' = nd_remotes n \<and> nd_id n' = nd_id n \<and>
    nd_remote_at n' = (nd_remote_at n)(r \<mapsto> rn\<lparr>rn_ids := (if seen (nd_id n) p then rn_ids rn else insert (m_id (p_meta p)) (rn_ids rn))\<rparr>)"
proof -
  have w: "node_wired n" using ok by (simp add: node_ok_def)
  obtain b where link: "rn_link rn \<noteq> null_tp" and b: "map_of (th_buffers (nd_thread n)) (rn_link rn) = Some b"
    using node_liveD(4) [OF node_wiredD(1) [OF w] r] rn by auto
  let ?none = "packet_null (ne_lib env) (ne_junk env)"
  define b' where "b' = snd (buffer_next ?none b)"
  have bn: "buffer_next ?none b = (p, b')" "bf_in b' = ps"
    using q b by (simp_all add: in_queue_def b'_def buffer_next_def)
  define t where "t = (nd_thread n)\<lparr>th_buffers := AList.update (rn_link rn) b' (th_buffers (nd_thread n))\<rparr>"
  have next_p: "next_packet (ne_dbg env) ?none (rn_link rn) (nd_thread n) = Inr (p, t)"
    using next_packet_watched [OF link b, of "ne_dbg env" ?none] bn by (simp add: t_def)
  define ids where "ids = (if seen (nd_id n) p then rn_ids rn else insert (m_id (p_meta p)) (rn_ids rn))"
  define n1 where "n1 = n\<lparr>nd_thread := t, nd_remote_at := (nd_remote_at n)(r \<mapsto> rn\<lparr>rn_ids := ids\<rparr>)\<rparr>"
  have w1: "node_wired n1"
    by (rule wired_links [OF w]) (use rn b in \<open>auto simp: n1_def t_def AList.update_conv'\<close>)
  have ok1: "node_ok n1" using w1 ok by (simp add: node_ok_def latest_ok_def n1_def)
  have q1: "in_queue (rn_link rn) n1 = ps" by (simp add: in_queue_def n1_def t_def AList.update_conv' bn(2))
  show ?thesis
  proof (cases "seen (nd_id n) p")
    case True
    then have "remote_take env r n = Inr (True, n\<lparr>nd_thread := t\<rparr>)"
      using rn next_p p by (simp add: remote_take_def deliverable_def)
    moreover have same: "(nd_remote_at n)(r \<mapsto> rn\<lparr>rn_ids := ids\<rparr>) = nd_remote_at n"
      using True rn by (auto simp: ids_def)
    then have "n1 = n\<lparr>nd_thread := t\<rparr>" by (simp add: n1_def)
    ultimately show ?thesis using ok1 q1 same unfolding ids_def by (intro exI [of _ n1]) simp
  next
    case False
    obtain mb where mb: "mm_boxes (nd_dave n1) r = Some mb"
      using node_wiredD(8) [OF w1] r by (auto simp: remotes_wired_def box_incoming_def n1_def split: option.splits)
    from node_mail_live [OF node_wiredD(1) [OF w1] mb p users] obtain n2 where
      n2: "node_mail env r p n1 = Inr (success, n2)" "frame n1 n2" by blast
    then have "remote_take env r n = Inr (True, n2)"
      using rn next_p p False by (simp add: remote_take_def deliverable_def n1_def ids_def)
    moreover have "in_queue (rn_link rn) n2 = ps" using q1 in_queue_frame [OF n2(2)] by simp
    ultimately show ?thesis using frame_ok [OF n2(2) ok1] frameD [OF n2(2)]
      by (intro exI [of _ n2]) (simp add: n1_def ids_def)
  qed
qed

lemma remote_take_empty:
  assumes ok: "node_ok n" and r: "r \<in> set (nd_remotes n)" and rn: "nd_remote_at n r = Some rn"
    and q: "in_queue (rn_link rn) n = []"
  shows "remote_take env r n = Inr (False, n)"
proof -
  obtain b where link: "rn_link rn \<noteq> null_tp" and b: "map_of (th_buffers (nd_thread n)) (rn_link rn) = Some b"
    using node_liveD(4) [OF node_wiredD(1) r] ok rn by (auto simp: node_ok_def)
  then have "buffer_next (packet_null (ne_lib env) (ne_junk env)) b = (packet_null (ne_lib env) (ne_junk env), b)"
    using q by (simp add: in_queue_def buffer_next_def)
  with next_packet_watched [OF link b, of "ne_dbg env" "packet_null (ne_lib env) (ne_junk env)"] b
  have "next_packet (ne_dbg env) (packet_null (ne_lib env) (ne_junk env)) (rn_link rn) (nd_thread n) =
      Inr (packet_null (ne_lib env) (ne_junk env), nd_thread n)"
    by (simp add: AList.update_triv)
  then show ?thesis using rn by (simp add: remote_take_def packet_null_def)
qed

lemma remote_loop_drains:
  assumes "node_ok n" and "users_return env" and "r \<in> set (nd_remotes n)" and "nd_remote_at n r = Some rn"
    and "\<forall>p \<in> set (in_queue (rn_link rn) n). deliverable p" and "length (in_queue (rn_link rn) n) < k"
  shows "\<exists>n'. remote_loop env r k n = Inr n' \<and> node_ok n' \<and> in_queue (rn_link rn) n' = [] \<and>
    nd_remote_at n' r = Some (rn\<lparr>rn_ids := rn_ids rn \<union>
      (\<lambda>p. m_id (p_meta p)) ` {p \<in> set (in_queue (rn_link rn) n). \<not> seen (nd_id n) p}\<rparr>)"
  using assms
proof (induction k arbitrary: n rn)
  case (Suc k)
  show ?case
  proof (cases "in_queue (rn_link rn) n")
    case Nil
    then show ?thesis using remote_take_empty [OF Suc.prems(1,3,4) Nil, of env] Suc.prems by simp
  next
    case (Cons p ps)
    from remote_take_step [OF Suc.prems(1-4) Cons] Suc.prems(5) Cons obtain n1 where
      n1: "remote_take env r n = Inr (True, n1)" "node_ok n1" "in_queue (rn_link rn) n1 = ps"
        "nd_remotes n1 = nd_remotes n" "nd_id n1 = nd_id n"
        "nd_remote_at n1 = (nd_remote_at n)(r \<mapsto> rn\<lparr>rn_ids := (if seen (nd_id n) p then rn_ids rn else insert (m_id (p_meta p)) (rn_ids rn))\<rparr>)"
      by auto
    let ?rn = "rn\<lparr>rn_ids := (if seen (nd_id n) p then rn_ids rn else insert (m_id (p_meta p)) (rn_ids rn))\<rparr>"
    have "\<exists>n'. remote_loop env r k n1 = Inr n' \<and> node_ok n' \<and> in_queue (rn_link ?rn) n' = [] \<and>
      nd_remote_at n' r = Some (?rn\<lparr>rn_ids := rn_ids ?rn \<union>
        (\<lambda>p. m_id (p_meta p)) ` {p \<in> set (in_queue (rn_link ?rn) n1). \<not> seen (nd_id n1) p}\<rparr>)"
      by (rule Suc.IH [OF n1(2) Suc.prems(2)]) (use Suc.prems n1 Cons in simp_all)
    moreover have "rn_ids ?rn \<union> (\<lambda>p. m_id (p_meta p)) ` {p \<in> set (in_queue (rn_link ?rn) n1). \<not> seen (nd_id n1) p} =
        rn_ids rn \<union> (\<lambda>p. m_id (p_meta p)) ` {p \<in> set (in_queue (rn_link rn) n). \<not> seen (nd_id n) p}"
      using n1(3,5) Cons by auto
    ultimately show ?thesis using n1(1) by auto
  qed
qed simp

subsection \<open>Adopting a connection\<close>

text \<open>The node once a new remote is there, listed and registered.\<close>

lemma remote_wired:
  fixes n :: "('b, 'u) node" and m :: mode
  assumes w: "node_wired n" and r: "fresh_box (nd_dave n) r" and l: "l \<noteq> null_tp" "map_of (th_buffers (nd_thread n)) l = None"
  defines "n2 \<equiv> (put_box r (mailbox_new topic_any (Some (Remote_cb r)) False) n)
      \<lparr>nd_thread := (nd_thread n)\<lparr>th_buffers := AList.update l buffer_new (th_buffers (nd_thread n))\<rparr>,
       nd_remote_at := (nd_remote_at n)(r \<mapsto> \<lparr>rn_mode = m, rn_link = l, rn_ids = {}\<rparr>), nd_remotes := nd_remotes n @ [r]\<rparr>"
  shows "\<exists>mm. register_mailbox r (nd_dave n2) = Inr mm \<and> node_wired (n2\<lparr>nd_dave := mm\<rparr>) \<and>
      members mm = (members (nd_dave n))(topic_any := insert r (members (nd_dave n) topic_any)) \<and>
      boxes_keep r n (n2\<lparr>nd_dave := mm\<rparr>)"
proof -
  note d = node_wiredD [OF w]
  let ?mb = "mailbox_new topic_any (Some (Remote_cb r)) False :: node_cb mailbox"
  have r': "r \<notin> members (nd_dave n) t" for t using r by (rule fresh_not_member)
  have new: "r \<notin> set (nd_remotes n)" using d(8) r' by (auto simp: remotes_wired_def)
  note p = node_liveD [OF put_box_live [OF d(1) r', of ?mb]] and old = node_liveD [OF d(1)]
  have other: "\<exists>rn b. nd_remote_at n x = Some rn \<and> rn_link rn \<noteq> l \<and> rn_link rn \<noteq> null_tp \<and>
      map_of (th_buffers (nd_thread n)) (rn_link rn) = Some b" if "x \<in> set (nd_remotes n)" for x
    using old(4) [OF that] l(2) by force
  have live2: "node_live n2"
  proof (rule node_liveI)
    show "closure_ok n2 c mb" if "c \<in> members (nd_dave n2) t" "mm_boxes (nd_dave n2) c = Some mb" for t c mb
      by (rule closure_ok_mono [OF p(2)]) (use that in \<open>simp_all add: n2_def put_box_def\<close>)
    show "\<exists>rn b. nd_remote_at n2 x = Some rn \<and> rn_link rn \<noteq> null_tp \<and> map_of (th_buffers (nd_thread n2)) (rn_link rn) = Some b"
      if "x \<in> set (nd_remotes n2)" for x
      using that other [of x] new l(1) by (cases "x = r") (auto simp: n2_def AList.update_conv')
    fix x y rx ry
    assume xy: "x \<in> set (nd_remotes n2)" "y \<in> set (nd_remotes n2)" "nd_remote_at n2 x = Some rx" "nd_remote_at n2 y = Some ry"
      "rn_link rx = rn_link ry"
    have link: "rn_link rz = l \<longleftrightarrow> z = r" if "z \<in> set (nd_remotes n2)" "nd_remote_at n2 z = Some rz" for z rz
    proof (cases "z = r")
      case True
      then show ?thesis using that(2) by (auto simp: n2_def)
    next
      case False
      then show ?thesis using that other [of z] by (auto simp: n2_def)
    qed
    show "x = y"
    proof (cases "x = r \<or> y = r")
      case True
      then show ?thesis using link [OF xy(1,3)] link [OF xy(2,4)] xy(5) by auto
    next
      case False
      then have "x \<in> set (nd_remotes n)" "y \<in> set (nd_remotes n)" "nd_remote_at n x = Some rx" "nd_remote_at n y = Some ry"
        using xy by (simp_all add: n2_def)
      then show ?thesis using old(5) xy(5) by blast
    qed
  qed (use p in \<open>simp_all add: n2_def put_box_def\<close>)
  have "closure_ok n2 r ?mb" by (simp add: closure_ok_def mailbox_new_def n2_def)
  then obtain mm where mm: "register_mailbox r (nd_dave n2) = Inr mm" "node_live (n2\<lparr>nd_dave := mm\<rparr>)"
      "keys_distinct mm" "boxes_keep r n (n2\<lparr>nd_dave := mm\<rparr>)" "r \<in> members mm topic_any"
      "box_incoming (n2\<lparr>nd_dave := mm\<rparr>) r = Some (Remote_cb r)"
      "nd_box n2 \<in> members mm topic_internal" "box_incoming (n2\<lparr>nd_dave := mm\<rparr>) (nd_box n2) = Some Internal_cb"
      "members mm = (members (nd_dave n))(topic_any := insert r (members (nd_dave n) topic_any))"
    using register_new [OF w r _ live2, of ?mb] by (simp add: n2_def put_box_def mailbox_new_def) metis
  let ?n = "n2\<lparr>nd_dave := mm\<rparr>"
  have "subs_wired ?n"
    by (rule subs_wired_keep [OF d(6) mm(4)])
       (use d(6) sub_boxD(2) [OF d(6) _ r'] in \<open>simp_all add: n2_def put_box_def subs_wired_def topic_at_def\<close>)
  moreover have "pubs_wired ?n"
    by (rule pubs_wired_keep [OF d(7) mm(4)])
       (use d(7) pub_boxD(2) [OF d(7) _ r'] in \<open>simp_all add: n2_def put_box_def pubs_wired_def\<close>)
  moreover have "remotes_wired ?n"
  proof -
    have "boxes_keep r n (?n\<lparr>nd_remotes := nd_remotes n\<rparr>)" using mm(4) by (simp add: boxes_keep_def box_incoming_def)
    then have "remotes_wired (?n\<lparr>nd_remotes := nd_remotes n\<rparr>)"
      by (rule remotes_wired_keep [OF d(8)]) (use d(8) new in \<open>auto simp: remotes_wired_def\<close>)
    then show ?thesis using mm(5,6) new by (auto simp: remotes_wired_def n2_def box_incoming_def)
  qed
  moreover have "owners_wired ?n"
    by (rule owners_wired_keep [OF d(9) mm(4)]) (use mm(6) in \<open>simp_all add: n2_def put_box_def\<close>)
  ultimately have "node_wired ?n" using mm by (simp add: node_wired_def)
  with mm(1,4,9) show ?thesis by blast
qed

lemma adopt_remote_ok:
  assumes ok: "node_ok n" and users: "users_return env" and r: "fresh_box (nd_dave n) r"
    and l: "l \<noteq> null_tp" "map_of (th_buffers (nd_thread n)) l = None"
  shows "\<exists>n'. adopt_remote env r l m n = Inr n' \<and> node_ok n' \<and> nd_remotes n' = nd_remotes n @ [r] \<and>
    nd_remote_at n' = (nd_remote_at n)(r \<mapsto> \<lparr>rn_mode = m, rn_link = l, rn_ids = {}\<rparr>) \<and> nd_id n' = nd_id n \<and>
    map fst (th_buffers (nd_thread n')) = map fst (th_buffers (nd_thread n)) @ [l] \<and>
    th_link (nd_thread n') = th_link (nd_thread n) \<and> nd_publishers n' = nd_publishers n \<and> nd_subscribers n' = nd_subscribers n \<and>
    nd_pub_at n' = nd_pub_at n \<and> nd_sub_at n' = nd_sub_at n \<and> nd_server n' = nd_server n \<and>
    members (nd_dave n') = (members (nd_dave n))(topic_any := insert r (members (nd_dave n) topic_any)) \<and>
    (\<forall>t. \<forall>c \<in> members (nd_dave n) t. box_incoming n' c = box_incoming n c)"
proof -
  have w: "node_wired n" using ok by (simp add: node_ok_def)
  define n2 where "n2 = (put_box r (mailbox_new topic_any (Some (Remote_cb r)) False) n)
      \<lparr>nd_thread := (nd_thread n)\<lparr>th_buffers := AList.update l buffer_new (th_buffers (nd_thread n))\<rparr>,
       nd_remote_at := (nd_remote_at n)(r \<mapsto> \<lparr>rn_mode = m, rn_link = l, rn_ids = {}\<rparr>), nd_remotes := nd_remotes n @ [r]\<rparr>"
  obtain mm where mm: "register_mailbox r (nd_dave n2) = Inr mm" "node_wired (n2\<lparr>nd_dave := mm\<rparr>)"
      "members mm = (members (nd_dave n))(topic_any := insert r (members (nd_dave n) topic_any))"
      "boxes_keep r n (n2\<lparr>nd_dave := mm\<rparr>)"
    using remote_wired [OF w r l, of m] unfolding n2_def by blast
  have "node_ok (n2\<lparr>nd_dave := mm\<rparr>)"
    using mm(2) ok by (simp add: node_ok_def latest_ok_def n2_def put_box_def)
  moreover obtain n3 where n3: "send_info env False (n2\<lparr>nd_dave := mm\<rparr>) = Inr n3" "frame (n2\<lparr>nd_dave := mm\<rparr>) n3"
    using send_info_live [OF node_wiredD(1) [OF mm(2)] users] by blast
  ultimately have "node_ok n3" by (simp add: frame_ok)
  moreover have "adopt_remote env r l m n = Inr n3"
  proof -
    let ?n1 = "(put_box r (mailbox_new topic_any (Some (Remote_cb r)) False) n)
      \<lparr>nd_thread := (nd_thread n)\<lparr>th_buffers := AList.update l buffer_new (th_buffers (nd_thread n))\<rparr>,
       nd_remote_at := (nd_remote_at n)(r \<mapsto> \<lparr>rn_mode = m, rn_link = l, rn_ids = {}\<rparr>)\<rparr>"
    have "remote_new env r l m n = Inr ?n1"
      using l by (simp add: remote_new_def add_socket_def put_box_def)
    moreover have "node_register r ?n1 = Inr (?n1\<lparr>nd_dave := mm\<rparr>)"
      using mm(1) by (simp add: node_register_def n2_def put_box_def)
    moreover have "?n1\<lparr>nd_dave := mm, nd_remotes := nd_remotes (?n1\<lparr>nd_dave := mm\<rparr>) @ [r]\<rparr> = n2\<lparr>nd_dave := mm\<rparr>"
      by (rule node.equality) (simp_all add: n2_def put_box_def)
    ultimately show ?thesis using n3(1) by (simp add: adopt_remote_def)
  qed
  moreover have "l \<notin> fst ` set (th_buffers (nd_thread n))" using l(2) by (simp add: map_of_eq_None_iff)
  then have "map fst (AList.update l buffer_new (th_buffers (nd_thread n))) = map fst (th_buffers (nd_thread n)) @ [l]"
    by (simp add: alist_update_new)
  moreover have "\<forall>t. \<forall>c \<in> members (nd_dave n) t. box_incoming n3 c = box_incoming n c"
    using mm(4) frameD(2) [OF n3(2)] fresh_not_member [OF r] by (fastforce simp: boxes_keep_def box_incoming_def)
  ultimately show ?thesis using frameD [OF n3(2)] mm(3) by (simp add: n2_def put_box_def)
qed

lemma put_link_ok: "node_ok n \<Longrightarrow> node_ok (put_link l s n)"
  unfolding node_ok_def by (auto intro: wired_links simp: put_link_def latest_ok_def)

subsection \<open>Losing a connection\<close>

definition dead :: "node_info \<Rightarrow> node_info" where
  "dead info = info\<lparr>n_alive := False, n_out_topics := [], n_in_topics := [], n_splats := []\<rparr>"

lemma mark_dead_latest: "nd_latest (mark_dead n i) =
    (case map_of (nd_latest n) i of None \<Rightarrow> nd_latest n | Some info \<Rightarrow> AList.update i (dead info) (nd_latest n))"
  by (simp add: mark_dead_def untally_def dead_def Let_def split: option.split)

lemma frame_mark_dead: "frame n (mark_dead n i)"
proof -
  have "latest_ok (mark_dead n i)" if ok: "latest_ok n"
  proof (cases "map_of (nd_latest n) i")
    case None
    then show ?thesis using ok by (simp add: mark_dead_def)
  next
    case (Some info)
    have i: "n_id info = i" "i \<noteq> nd_id n" using ok map_of_SomeD [OF Some] by (auto simp: latest_ok_def)
    have "counts_match (fold incr (n_in_topics (dead info)) (fold decr (n_in_topics info) (nd_subs n)))
        (listed (AList.update i (dead info) (nd_latest n)))"
      by (rule counts_match_replace) (use ok in \<open>simp_all add: Some latest_ok_def\<close>)
    moreover have "nd_subs (mark_dead n i) = fold incr (n_in_topics (dead info)) (fold decr (n_in_topics info) (nd_subs n))"
      by (simp add: mark_dead_def Some untally_def Let_def dead_def)
    moreover have "nd_id (mark_dead n i) = nd_id n" by (simp add: mark_dead_def Some untally_def Let_def)
    ultimately show ?thesis
      using ok i by (auto simp: latest_ok_def mark_dead_latest Some alist_simps dead_def)
  qed
  then show ?thesis by (simp add: frame_def mark_dead_def untally_def Let_def split: option.split)
qed

lemma frame_mark_all: "frame n (foldl mark_dead n is)"
  by (induction "is" arbitrary: n) (auto intro: frame_trans frame_mark_dead)

lemma mark_all_latest:
  "map_of (nd_latest (foldl mark_dead n is)) i =
   map_option (\<lambda>info. if i \<in> set is then dead info else info) (map_of (nd_latest n) i)"
proof (induction "is" arbitrary: n)
  case (Cons j js)
  have "map_of (nd_latest (mark_dead n j)) i = map_option (\<lambda>info. if i = j then dead info else info) (map_of (nd_latest n) i)"
    by (cases "map_of (nd_latest n) j"; cases "i = j")
       (auto simp: mark_dead_latest AList.update_conv' map_option.id [unfolded id_def])
  moreover have "dead (dead info) = dead info" for info by (simp add: dead_def)
  ultimately show ?case
    using Cons.IH [of "mark_dead n j"] by (cases "map_of (nd_latest n) i") auto
qed (simp add: map_option.id [unfolded id_def])

lemma mark_all_thread: "nd_thread (foldl mark_dead n is) = nd_thread n"
proof (induction "is" arbitrary: n)
  case (Cons i js)
  then show ?case by (simp add: mark_dead_def untally_def Let_def split: option.split)
qed simp

lemma mark_all_dave: "foldl mark_dead (n\<lparr>nd_dave := mm\<rparr>) is = (foldl mark_dead n is)\<lparr>nd_dave := mm\<rparr>"
proof (induction "is" arbitrary: n)
  case (Cons i js)
  have "mark_dead (n\<lparr>nd_dave := mm\<rparr>) i = (mark_dead n i)\<lparr>nd_dave := mm\<rparr>"
    by (rule node.equality) (simp_all add: mark_dead_def untally_def Let_def split: option.split)
  then show ?case by (simp add: Cons.IH)
qed simp

lemma remote_delete_eq:
  assumes "nd_remote_at n r = Some rn" and "rn_link rn \<noteq> null_tp" and "map_of (th_buffers (nd_thread n)) (rn_link rn) = Some b"
    and "tcp_transport_destroy (th_link (nd_thread n) (rn_link rn)) = Inr s"
  shows "remote_delete env r n = Inr (n\<lparr>nd_thread := (nd_thread n)
      \<lparr>th_buffers := AList.delete (rn_link rn) (th_buffers (nd_thread n)), th_link := (th_link (nd_thread n))(rn_link rn := s)\<rparr>,
      nd_remote_at := (nd_remote_at n)(r := None)\<rparr>)"
  using assms by (simp add: remote_delete_def remote_shutdown_def remove_socket_def)

text \<open>
  What losing remotes leaves alone: nothing becomes watched or registered, and the remotes that
  are left keep their links.
\<close>

definition same_remote :: "('b, 'u) node \<Rightarrow> ('b, 'u) node \<Rightarrow> u64 \<Rightarrow> bool" where
  "same_remote n n' x \<longleftrightarrow> nd_remote_at n' x = nd_remote_at n x \<and>
     (\<forall>rn. nd_remote_at n x = Some rn \<longrightarrow> th_link (nd_thread n') (rn_link rn) = th_link (nd_thread n) (rn_link rn))"

definition shrinks :: "('b, 'u) node \<Rightarrow> ('b, 'u) node \<Rightarrow> bool" where
  "shrinks n n' \<longleftrightarrow> nd_server n' = nd_server n \<and> nd_publishers n' = nd_publishers n \<and> nd_subscribers n' = nd_subscribers n \<and>
     set (nd_remotes n') \<subseteq> set (nd_remotes n) \<and>
     (\<forall>t. members (nd_dave n') t \<subseteq> members (nd_dave n) t) \<and>
     (\<forall>l. map_of (th_buffers (nd_thread n)) l = None \<longrightarrow> map_of (th_buffers (nd_thread n')) l = None) \<and>
     (\<forall>x \<in> set (nd_remotes n'). same_remote n n' x)"

lemma same_remote_trans: "same_remote n n' x \<Longrightarrow> same_remote n' n'' x \<Longrightarrow> same_remote n n'' x"
  by (auto simp: same_remote_def)

lemma shrinks_refl: "shrinks n n"
  by (simp add: shrinks_def same_remote_def)

lemma shrinks_trans: "shrinks n n' \<Longrightarrow> shrinks n' n'' \<Longrightarrow> shrinks n n''"
  unfolding shrinks_def by (auto simp: subset_iff intro: same_remote_trans [of _ n'])

text \<open>Unregistering and destroying a remote, with some nodes marked dead in between.\<close>

lemma drop_remote_ok:
  assumes ok: "node_ok n" and r: "r \<in> set (nd_remotes n)" and rn: "nd_remote_at n r = Some rn"
    and s: "tcp_transport_destroy (th_link (nd_thread n) (rn_link rn)) = Inr s"
  shows "\<exists>n'. exec_bind (node_unregister r n) (\<lambda>n1. drop_remote env r (foldl mark_dead n1 is)) = Inr n' \<and> node_ok n' \<and>
    nd_remotes n' = remove1 r (nd_remotes n) \<and> nd_remote_at n' = (nd_remote_at n)(r := None) \<and> nd_id n' = nd_id n \<and>
    nd_thread n' = (nd_thread n)\<lparr>th_buffers := AList.delete (rn_link rn) (th_buffers (nd_thread n)),
      th_link := (th_link (nd_thread n))(rn_link rn := s)\<rparr> \<and>
    (\<forall>i. map_of (nd_latest n') i = map_option (\<lambda>info. if i \<in> set is then dead info else info) (map_of (nd_latest n) i)) \<and>
    shrinks n n'"
proof -
  have w: "node_wired n" using ok by (simp add: node_ok_def)
  note d = node_wiredD [OF w] and live = node_liveD [OF node_wiredD(1) [OF w]]
  have rd: "r \<in> members (nd_dave n) topic_any" "box_incoming n r = Some (Remote_cb r)" "distinct (nd_remotes n)"
    using d(8) r by (simp_all add: remotes_wired_def)
  then have inc: "box_incoming n r \<noteq> Some Internal_cb" by simp
  obtain b where link: "rn_link rn \<noteq> null_tp" and b: "map_of (th_buffers (nd_thread n)) (rn_link rn) = Some b"
    using live(4) [OF r] rn by auto
  define t where "t = (nd_thread n)\<lparr>th_buffers := AList.delete (rn_link rn) (th_buffers (nd_thread n)),
      th_link := (th_link (nd_thread n))(rn_link rn := s)\<rparr>"
  let ?m = "foldl mark_dead n is"
  note f = frameD [OF frame_mark_all [of n "is"]]
  define n1 where "n1 = ?m\<lparr>nd_thread := t, nd_remote_at := (nd_remote_at n)(r := None), nd_remotes := remove1 r (nd_remotes n)\<rparr>"
  obtain mm where mm: "unregister_mailbox r (nd_dave n1) = Inr mm" "node_live (n1\<lparr>nd_dave := mm\<rparr>)"
    "keys_distinct mm" "boxes_keep r n (n1\<lparr>nd_dave := mm\<rparr>)" "\<And>t. r \<notin> members mm t" "nd_box n1 \<in> members mm topic_internal"
    "box_incoming (n1\<lparr>nd_dave := mm\<rparr>) (nd_box n1) = Some Internal_cb"
  proof (rule unregister_old [OF w rd(1) inc, of n1])
    fix t' c mb assume c: "c \<noteq> r" "c \<in> members (nd_dave n) t'" "mm_boxes (nd_dave n) c = Some mb" "closure_ok n c mb"
    show "closure_ok n1 c mb"
    proof (rule closure_ok_mono [OF c(4)])
      fix x assume "mb_incoming mb = Some (Remote_cb x)" "x \<in> set (nd_remotes n)"
      then show "x \<in> set (nd_remotes n1)" using c(1,4) rd(3) by (simp add: n1_def closure_ok_def)
    qed (simp add: n1_def f)
  next
    fix x assume "x \<in> set (nd_remotes n1)"
    then have x: "x \<in> set (nd_remotes n)" "x \<noteq> r" using rd(3) by (simp_all add: n1_def)
    obtain rx bx where rx: "nd_remote_at n x = Some rx" "map_of (th_buffers (nd_thread n)) (rn_link rx) = Some bx"
      using live(4) [OF x(1)] by blast
    have "rn_link rx \<noteq> rn_link rn" using live(5) [OF x(1) r rx(1) rn] x(2) by blast
    with rx x show "x \<in> set (nd_remotes n) \<and> nd_remote_at n1 x = nd_remote_at n x \<and>
        (\<exists>b. map_of (th_buffers (nd_thread n1)) (rn_link (the (nd_remote_at n x))) = Some b)"
      by (simp add: n1_def t_def AList.delete_conv')
  qed (use live in \<open>simp_all add: n1_def f\<close>)
  let ?n = "n1\<lparr>nd_dave := mm\<rparr>"
  have subs: "topic_at ?n = topic_at n" by (simp add: topic_at_def fun_eq_iff n1_def f)
  have "subs_wired ?n"
    by (rule subs_wired_keep [OF d(6) mm(4)])
       (use d(6) sub_boxD(3) [OF d(6), of _ r] rd(2) in \<open>simp_all add: subs_wired_def subs\<close>, simp_all add: n1_def f)
  moreover have "pubs_wired ?n"
    by (rule pubs_wired_keep [OF d(7) mm(4)])
       (use d(7) pub_boxD(3) [OF d(7), of _ r] rd(2) in \<open>simp_all add: n1_def f pubs_wired_def\<close>)
  moreover have "remotes_wired ?n"
    by (rule remotes_wired_keep [OF d(8) mm(4)]) (use rd(3) in \<open>auto simp: n1_def\<close>)
  moreover have "owners_wired ?n"
    by (rule owners_wired_keep [OF d(9) mm(4)]) (use mm(5) in \<open>simp_all add: n1_def f\<close>)
  ultimately have "node_wired ?n" using mm by (simp add: node_wired_def)
  moreover have "latest_ok ?n" using ok f(17) by (simp add: node_ok_def n1_def latest_ok_def)
  ultimately have okn: "node_ok ?n" by (simp add: node_ok_def)
  have "unregister_mailbox r (nd_dave n) = Inr mm" using mm(1) by (simp add: n1_def f)
  then have un: "node_unregister r n = Inr (n\<lparr>nd_dave := mm\<rparr>)" by (simp add: node_unregister_def)
  have "remote_delete env r (?m\<lparr>nd_dave := mm\<rparr>) = Inr ((?m\<lparr>nd_dave := mm\<rparr>)\<lparr>nd_thread := t, nd_remote_at := (nd_remote_at n)(r := None)\<rparr>)"
    using remote_delete_eq [of "?m\<lparr>nd_dave := mm\<rparr>" r rn b s env] rn link b s by (simp add: f mark_all_thread t_def)
  moreover have "(?m\<lparr>nd_dave := mm\<rparr>)\<lparr>nd_thread := t, nd_remote_at := (nd_remote_at n)(r := None), nd_remotes := remove1 r (nd_remotes n)\<rparr> = ?n"
    by (rule node.equality) (simp_all add: n1_def)
  ultimately have "exec_bind (node_unregister r n) (\<lambda>n1. drop_remote env r (foldl mark_dead n1 is)) = Inr ?n"
    by (simp add: un drop_remote_def mark_all_dave f)
  moreover have "nd_latest ?n = nd_latest ?m" by (simp add: n1_def)
  moreover have "shrinks n ?n"
  proof -
    have "members mm t' \<subseteq> members (nd_dave n) t'" for t'
    proof
      fix c assume "c \<in> members mm t'"
      moreover from this have "c \<noteq> r" using mm(5) by blast
      ultimately show "c \<in> members (nd_dave n) t'" using mm(4) by (simp add: boxes_keep_def)
    qed
    moreover have "same_remote n ?n x" if "x \<in> set (nd_remotes ?n)" for x
    proof -
      have x: "x \<in> set (nd_remotes n)" "x \<noteq> r" using that rd(3) by (simp_all add: n1_def)
      then show ?thesis using live(5) [OF x(1) r _ rn] by (auto simp: n1_def t_def same_remote_def)
    qed
    ultimately show ?thesis by (auto simp: shrinks_def n1_def f t_def AList.delete_conv' dest: subsetD [OF set_remove1_subset])
  qed
  ultimately show ?thesis using okn mark_all_latest [of n "is"] by (intro exI [of _ ?n]) (simp add: n1_def f t_def)
qed

definition ids_of :: "('b, 'u) node \<Rightarrow> u64 \<Rightarrow> u32 set" where
  "ids_of n r = (case nd_remote_at n r of None \<Rightarrow> {} | Some rn \<Rightarrow> rn_ids rn)"

lemma link_socket_eq:
  assumes "node_live n" and "r \<in> set (nd_remotes n)"
  shows "link_socket n r = Inr (socket_of n r)"
proof -
  obtain rn where "nd_remote_at n r = Some rn" "rn_link rn \<noteq> null_tp" using node_liveD(4) [OF assms] by blast
  then show ?thesis by (simp add: link_socket_def socket_of_def)
qed

text \<open>The transport behind a remote can be destroyed: its socket pointer is null or alive.\<close>

definition transport_sound :: "('b, 'u) node \<Rightarrow> u64 \<Rightarrow> bool" where
  "transport_sound n r \<longleftrightarrow> (\<forall>rn. nd_remote_at n r = Some rn \<longrightarrow>
     (\<exists>s. tcp_transport_destroy (th_link (nd_thread n) (rn_link rn)) = Inr s))"

lemma same_remoteD:
  assumes "same_remote n n' x"
  shows "nd_remote_at n' x = nd_remote_at n x" and "socket_of n' x = socket_of n x"
    and "transport_sound n' x = transport_sound n x"
    and "nd_remote_at n x = Some rn \<Longrightarrow> th_link (nd_thread n') (rn_link rn) = th_link (nd_thread n) (rn_link rn)"
  using assms by (auto simp: same_remote_def socket_of_def transport_sound_def split: option.splits)

lemma disconnect_all:
  assumes "node_ok n" and "distinct rs" and "set rs \<subseteq> set (nd_remotes n)"
    and "\<forall>r \<in> set rs. socket_of n r = Some c \<longrightarrow> transport_sound n r"
  shows "\<exists>n'. exec_foldl (disconnect_remote env c) n rs = Inr n' \<and> node_ok n' \<and> nd_id n' = nd_id n \<and>
    nd_remotes n' = filter (\<lambda>r. \<not> (r \<in> set rs \<and> socket_of n r = Some c)) (nd_remotes n) \<and>
    (\<forall>i. map_of (nd_latest n') i =
       map_option (\<lambda>info. if \<exists>r \<in> set rs. socket_of n r = Some c \<and> i \<in> ids_of n r then dead info else info) (map_of (nd_latest n) i)) \<and>
    shrinks n n'"
  using assms
proof (induction rs arbitrary: n)
  case Nil
  then show ?case by (simp add: map_option.id [unfolded id_def] shrinks_refl)
next
  case (Cons r rs)
  have w: "node_wired n" and r: "r \<in> set (nd_remotes n)" using Cons.prems by (simp_all add: node_ok_def)
  note live = node_wiredD(1) [OF w] and d = node_wiredD(8) [OF w]
  show ?case
  proof (cases "socket_of n r = Some c")
    case False
    then have "disconnect_remote env c n r = Inr n" by (simp add: disconnect_remote_def link_socket_eq [OF live r])
    moreover have "\<exists>x \<in> set (r # rs). socket_of n x = Some c \<and> i \<in> ids_of n x \<Longrightarrow>
      \<exists>x \<in> set rs. socket_of n x = Some c \<and> i \<in> ids_of n x" for i using False by auto
    moreover have "filter (\<lambda>x. \<not> (x \<in> set (r # rs) \<and> socket_of n x = Some c)) (nd_remotes n) =
        filter (\<lambda>x. \<not> (x \<in> set rs \<and> socket_of n x = Some c)) (nd_remotes n)"
      by (rule filter_cong) (use False in auto)
    ultimately show ?thesis using Cons.IH [of n] Cons.prems False by simp
  next
    case True
    obtain rn where rn: "nd_remote_at n r = Some rn" using node_liveD(4) [OF live r] by blast
    obtain s where s: "tcp_transport_destroy (th_link (nd_thread n) (rn_link rn)) = Inr s"
      using Cons.prems(4) True rn by (auto simp: transport_sound_def)
    let ?is = "sorted_list_of_set (rn_ids rn)"
    obtain n1 where n1: "exec_bind (node_unregister r n) (\<lambda>n1. drop_remote env r (foldl mark_dead n1 ?is)) = Inr n1" "node_ok n1"
        "nd_remotes n1 = remove1 r (nd_remotes n)" "nd_remote_at n1 = (nd_remote_at n)(r := None)" "nd_id n1 = nd_id n"
        "nd_thread n1 = (nd_thread n)\<lparr>th_buffers := AList.delete (rn_link rn) (th_buffers (nd_thread n)),
          th_link := (th_link (nd_thread n))(rn_link rn := s)\<rparr>"
        "\<forall>i. map_of (nd_latest n1) i = map_option (\<lambda>info. if i \<in> set ?is then dead info else info) (map_of (nd_latest n) i)"
        "shrinks n n1"
      using drop_remote_ok [OF Cons.prems(1) r rn s, of env ?is] by blast
    have ids: "set ?is = ids_of n r" by (simp add: ids_of_def rn)
    have "disconnect_remote env c n r = Inr n1"
      using n1(1) rn True
      by (auto simp: disconnect_remote_def link_socket_eq [OF live r] node_unregister_def exec_simps)
    moreover have other: "nd_remote_at n1 x = nd_remote_at n x" "socket_of n1 x = socket_of n x" "ids_of n1 x = ids_of n x"
        "transport_sound n1 x = transport_sound n x"
      if x: "x \<in> set (nd_remotes n)" "x \<noteq> r" for x
    proof -
      obtain rx where rx: "nd_remote_at n x = Some rx" using node_liveD(4) [OF live x(1)] by blast
      have "rn_link rx \<noteq> rn_link rn" using node_liveD(5) [OF live x(1) r rx rn] x(2) by blast
      then show "nd_remote_at n1 x = nd_remote_at n x" "socket_of n1 x = socket_of n x" "ids_of n1 x = ids_of n x"
        "transport_sound n1 x = transport_sound n x"
        using rx x(2) by (simp_all add: n1(4,6) socket_of_def ids_of_def transport_sound_def)
    qed
    have rs: "set rs \<subseteq> set (nd_remotes n1)" "r \<notin> set rs"
      using Cons.prems(2,3) d by (auto simp: n1(3) remotes_wired_def)
    have same: "x \<in> set rs \<Longrightarrow> x \<in> set (nd_remotes n) \<and> x \<noteq> r" for x using Cons.prems(2,3) by auto
    obtain n2 where n2: "exec_foldl (disconnect_remote env c) n1 rs = Inr n2" "node_ok n2" "nd_id n2 = nd_id n1"
        "nd_remotes n2 = filter (\<lambda>r. \<not> (r \<in> set rs \<and> socket_of n1 r = Some c)) (nd_remotes n1)"
        "\<forall>i. map_of (nd_latest n2) i =
           map_option (\<lambda>info. if \<exists>r \<in> set rs. socket_of n1 r = Some c \<and> i \<in> ids_of n1 r then dead info else info) (map_of (nd_latest n1) i)"
        "shrinks n1 n2"
      using Cons.IH [OF n1(2) _ rs(1)] Cons.prems(2,4) same other by auto
    have "nd_remotes n2 = filter (\<lambda>x. \<not> (x \<in> set (r # rs) \<and> socket_of n x = Some c)) (nd_remotes n)"
    proof -
      have "remove1 r (nd_remotes n) = filter (\<lambda>x. x \<noteq> r) (nd_remotes n)"
        using d by (auto simp: remotes_wired_def distinct_remove1_removeAll removeAll_filter_not_eq intro: filter_cong)
      then show ?thesis
        unfolding n2(4) n1(3) using other(2) True same by (auto intro!: filter_cong)
    qed
    moreover have "map_of (nd_latest n2) i = map_option (\<lambda>info. if \<exists>x \<in> set (r # rs). socket_of n x = Some c \<and> i \<in> ids_of n x
        then dead info else info) (map_of (nd_latest n) i)" for i
    proof -
      have "(\<exists>x \<in> set rs. socket_of n1 x = Some c \<and> i \<in> ids_of n1 x) \<longleftrightarrow> (\<exists>x \<in> set rs. socket_of n x = Some c \<and> i \<in> ids_of n x)"
        using other same by auto
      moreover have "dead (dead info) = dead info" for info by (simp add: dead_def)
      ultimately show ?thesis
        using n2(5) n1(7) True by (cases "map_of (nd_latest n) i") (auto simp: ids)
    qed
    ultimately show ?thesis using n2(1-3) n1(5) shrinks_trans [OF n1(8) n2(6)] by simp
  qed
qed

subsection \<open>Stopping\<close>

lemma stop_gateway_keeps:
  assumes "stop_gateway_service this n = Inr (x, n1)"
  shows "nd_dave n1 = nd_dave n" "nd_publishers n1 = nd_publishers n" "nd_subscribers n1 = nd_subscribers n"
    "nd_remotes n1 = nd_remotes n" "nd_pub_at n1 = nd_pub_at n" "nd_sub_at n1 = nd_sub_at n" "nd_remote_at n1 = nd_remote_at n"
    "th_buffers (nd_thread n1) = th_buffers (nd_thread n)" "nd_server n1 = None"
    "\<And>l. tl_transport (th_link (nd_thread n1) l) = tl_transport (th_link (nd_thread n) l)"
    "\<And>sv c l. nd_server n = Some sv \<Longrightarrow> c \<in> set (sv_clients sv) \<Longrightarrow> tl_heap (th_link (nd_thread n1) l) c = None"
  using assms by (auto simp: stop_gateway_service_def free_sockets_def exec_simps split: option.splits)

text \<open>
  Each remote that is shut down leaves the others alone, so all of them can be shut down when
  each could; and one whose socket the server has deleted faults.
\<close>

lemma transport_destroy_fault: "tcp_transport_destroy l = Inl f \<Longrightarrow> f = Use_after_free"
  by (auto simp: tcp_transport_destroy_def tcp_transport_close_def exec_bind_Inl_iff deref_def Let_def split: option.splits prod.splits)

definition remotes_apart :: "('b, 'u) node \<Rightarrow> u64 list \<Rightarrow> bool" where
  "remotes_apart n rs \<longleftrightarrow> distinct rs \<and>
     (\<forall>r \<in> set rs. \<exists>rn. nd_remote_at n r = Some rn \<and> rn_link rn \<noteq> null_tp \<and> map_of (th_buffers (nd_thread n)) (rn_link rn) \<noteq> None) \<and>
     (\<forall>r \<in> set rs. \<forall>r' \<in> set rs. \<forall>rn rn'. nd_remote_at n r = Some rn \<longrightarrow> nd_remote_at n r' = Some rn' \<longrightarrow>
        rn_link rn = rn_link rn' \<longrightarrow> r = r')"

lemma remote_shutdown_eq:
  assumes "nd_remote_at n r = Some rn" and "rn_link rn \<noteq> null_tp" and "map_of (th_buffers (nd_thread n)) (rn_link rn) \<noteq> None"
  shows "remote_shutdown env r n = exec_bind (tcp_transport_destroy (th_link (nd_thread n) (rn_link rn))) (\<lambda>s.
    Inr (n\<lparr>nd_thread := (nd_thread n)\<lparr>th_buffers := AList.delete (rn_link rn) (th_buffers (nd_thread n)),
            th_link := (th_link (nd_thread n))(rn_link rn := s)\<rparr>,
           nd_remote_at := (nd_remote_at n)(r \<mapsto> rn\<lparr>rn_link := null_tp\<rparr>)\<rparr>))"
  using assms by (cases "map_of (th_buffers (nd_thread n)) (rn_link rn)") (simp_all add: remote_shutdown_def remove_socket_def)

lemma shutdown_all:
  assumes "remotes_apart n rs"
  shows "((\<forall>r \<in> set rs. transport_sound n r) \<longrightarrow>
      (\<exists>n'. exec_foldl (\<lambda>n r. remote_shutdown env r n) n rs = Inr n' \<and> nd_remotes n' = nd_remotes n \<and> nd_dave n' = nd_dave n \<and>
        (\<forall>r \<in> set rs. \<exists>rn. nd_remote_at n' r = Some rn \<and> rn_link rn = null_tp) \<and>
        (\<forall>r. r \<notin> set rs \<longrightarrow> nd_remote_at n' r = nd_remote_at n r))) \<and>
    (\<not> (\<forall>r \<in> set rs. transport_sound n r) \<longrightarrow>
      exec_foldl (\<lambda>n r. remote_shutdown env r n) n rs = Inl Use_after_free)"
  using assms
proof (induction rs arbitrary: n)
  case (Cons r rs)
  obtain rn where rn: "nd_remote_at n r = Some rn" "rn_link rn \<noteq> null_tp" "map_of (th_buffers (nd_thread n)) (rn_link rn) \<noteq> None"
    using Cons.prems by (auto simp: remotes_apart_def)
  define n1 where "n1 s = n\<lparr>nd_thread := (nd_thread n)\<lparr>th_buffers := AList.delete (rn_link rn) (th_buffers (nd_thread n)),
            th_link := (th_link (nd_thread n))(rn_link rn := s)\<rparr>,
           nd_remote_at := (nd_remote_at n)(r \<mapsto> rn\<lparr>rn_link := null_tp\<rparr>)\<rparr>" for s
  have eq: "remote_shutdown env r n = exec_bind (tcp_transport_destroy (th_link (nd_thread n) (rn_link rn))) (\<lambda>s. Inr (n1 s))"
    using remote_shutdown_eq [OF rn] by (simp add: n1_def)
  have other: "nd_remote_at (n1 s) x = nd_remote_at n x" "transport_sound (n1 s) x = transport_sound n x"
    "\<And>rx. nd_remote_at n x = Some rx \<Longrightarrow> rn_link rx \<noteq> rn_link rn" if x: "x \<in> set rs" for x s
  proof -
    have "x \<noteq> r" using x Cons.prems by (auto simp: remotes_apart_def)
    then show l: "rn_link rx \<noteq> rn_link rn" if "nd_remote_at n x = Some rx" for rx
      using Cons.prems x rn(1) that by (auto simp: remotes_apart_def)
    show "nd_remote_at (n1 s) x = nd_remote_at n x" "transport_sound (n1 s) x = transport_sound n x"
      using \<open>x \<noteq> r\<close> l by (auto simp: n1_def transport_sound_def)
  qed
  have apart: "remotes_apart (n1 s) rs" for s
    using Cons.prems other unfolding remotes_apart_def by (fastforce simp: n1_def AList.delete_conv')
  have IH: "(\<forall>r \<in> set rs. transport_sound n r) \<longrightarrow>
      (\<exists>n'. exec_foldl (\<lambda>n r. remote_shutdown env r n) (n1 s) rs = Inr n' \<and> nd_remotes n' = nd_remotes n \<and> nd_dave n' = nd_dave n \<and>
        (\<forall>r \<in> set rs. \<exists>rn. nd_remote_at n' r = Some rn \<and> rn_link rn = null_tp) \<and>
        (\<forall>r. r \<notin> set rs \<longrightarrow> nd_remote_at n' r = nd_remote_at (n1 s) r))"
    and IH': "\<not> (\<forall>r \<in> set rs. transport_sound n r) \<longrightarrow>
      exec_foldl (\<lambda>n r. remote_shutdown env r n) (n1 s) rs = Inl Use_after_free" for s
    using Cons.IH [OF apart, of s] other(2) by (simp_all add: n1_def)
  have r: "r \<notin> set rs" using Cons.prems by (simp add: remotes_apart_def)
  show ?case
  proof (cases "tcp_transport_destroy (th_link (nd_thread n) (rn_link rn))")
    case (Inl f)
    then show ?thesis using transport_destroy_fault [OF Inl] rn(1) by (simp add: eq transport_sound_def)
  next
    case (Inr s)
    have ok: "transport_sound n r" using Inr rn(1) by (simp add: transport_sound_def)
    have "nd_remote_at (n1 s) x = (if x = r then Some (rn\<lparr>rn_link := null_tp\<rparr>) else nd_remote_at n x)" for x
      by (simp add: n1_def)
    then show ?thesis using IH [of s] IH' [of s] r ok by (auto simp: eq Inr)
  qed
qed simp

lemma delete_all:
  assumes "distinct rs" and "\<forall>r \<in> set rs. \<exists>rn. nd_remote_at n r = Some rn \<and> rn_link rn = null_tp"
  shows "\<exists>n'. exec_foldl (\<lambda>n r. remote_delete env r n) n rs = Inr n' \<and> nd_dave n' = nd_dave n"
  using assms
proof (induction rs arbitrary: n)
  case (Cons r rs)
  then obtain rn where "nd_remote_at n r = Some rn" "rn_link rn = null_tp" by auto
  then have "remote_delete env r n = Inr (n\<lparr>nd_remote_at := (nd_remote_at n)(r := None)\<rparr>)"
    by (simp add: remote_delete_def remote_shutdown_def)
  moreover have "\<exists>n'. exec_foldl (\<lambda>n r. remote_delete env r n) (n\<lparr>nd_remote_at := (nd_remote_at n)(r := None)\<rparr>) rs = Inr n' \<and>
      nd_dave n' = nd_dave (n\<lparr>nd_remote_at := (nd_remote_at n)(r := None)\<rparr>)"
    by (rule Cons.IH) (use Cons.prems in auto)
  ultimately show ?case by simp
qed simp

lemma publisher_husk_cleared:
  assumes "node_wired n" and "a \<in> set (nd_publishers n)" and "nd_dave m = mailman_clear (nd_dave n)" and "nd_pub_at m = nd_pub_at n"
  shows "publisher_set_husk a m = Inl Null_deref"
proof -
  obtain pb b where pb: "nd_pub_at n a = Some pb" "pb_box pb = Some b" "b \<in> members (nd_dave n) (pb_topic pb)"
    by (rule pubs_wiredE [OF node_wiredD(7) [OF assms(1)] assms(2)])
  obtain mb where "mm_boxes (nd_dave n) b = Some mb" by (rule memberD [OF node_wiredD(3) [OF assms(1)] pb(3)])
  then show ?thesis using pb by (simp add: publisher_set_husk_def assms(3,4) node_unregister_def unregister_cleared)
qed

lemma subscriber_husk_cleared:
  assumes "node_wired n" and "s \<in> set (nd_subscribers n)" and "nd_dave m = mailman_clear (nd_dave n)" and "nd_sub_at m = nd_sub_at n"
  shows "subscriber_set_husk s m = Inl Null_deref"
proof -
  obtain sb b where sb: "nd_sub_at n s = Some sb" "sb_box sb = Some b" "b \<in> members (nd_dave n) (sb_topic sb)"
    by (rule subs_wiredE [OF node_wiredD(6) [OF assms(1)] assms(2)])
  obtain mb where mb: "mm_boxes (nd_dave n) b = Some mb" by (rule memberD [OF node_wiredD(3) [OF assms(1)] sb(3)])
  have "\<not> sb_husk sb" using node_liveD(6) [OF node_wiredD(1) [OF assms(1)] assms(2)] sb(1) by auto
  moreover obtain m1 where "unregister_subscriber s m = Inr m1" "nd_dave m1 = nd_dave m"
    using sb(1) by (cases "s \<in> set (nd_subscribers m)") (simp_all add: unregister_subscriber_def assms(4))
  ultimately show ?thesis
    using sb mb by (simp add: subscriber_set_husk_def assms(3,4) node_unregister_def unregister_cleared)
qed

lemma wired_apart: "node_wired n \<Longrightarrow> remotes_apart n (nd_remotes n)"
  using node_wiredD(1,8) [of n] unfolding remotes_apart_def remotes_wired_def node_live_def by blast

text \<open>What \<open>stop\<close> does once the gateway is stopped.\<close>

lemma stop_eq:
  assumes w: "node_wired n" and gw: "stop_gateway_service this n = Inr (x, n1)"
  shows "nd_publishers n \<noteq> [] \<or> nd_subscribers n \<noteq> [] \<Longrightarrow> node_stop env this n = Inl Null_deref"
    and "nd_publishers n = [] \<Longrightarrow> nd_subscribers n = [] \<Longrightarrow> \<forall>r \<in> set (nd_remotes n). transport_sound n1 r \<Longrightarrow>
      \<exists>n'. node_stop env this n = Inr (success, n') \<and> nd_remotes n' = [] \<and> (\<forall>t. members (nd_dave n') t = {})"
    and "nd_publishers n = [] \<Longrightarrow> nd_subscribers n = [] \<Longrightarrow> \<not> (\<forall>r \<in> set (nd_remotes n). transport_sound n1 r) \<Longrightarrow>
      node_stop env this n = Inl Use_after_free"
proof -
  note k = stop_gateway_keeps [OF gw]
  define m where "m = n1\<lparr>nd_dave := mailman_clear (nd_dave n1)\<rparr>"
  have m: "nd_dave m = mailman_clear (nd_dave n)" "nd_pub_at m = nd_pub_at n" "nd_sub_at m = nd_sub_at n"
    "nd_publishers m = nd_publishers n" "nd_subscribers m = nd_subscribers n" "nd_remotes m = nd_remotes n"
    by (simp_all add: m_def k)
  have stop: "node_stop env this n =
     exec_bind (exec_foldl (\<lambda>n a. publisher_set_husk a n) m (nd_publishers n)) (\<lambda>n2.
     exec_bind (husk_subscribers (nd_subscribers n2) n2) (\<lambda>n3.
     exec_bind (exec_foldl (\<lambda>n r. remote_shutdown env r n) n3 (nd_remotes n3)) (\<lambda>n4.
     exec_bind (exec_foldl (\<lambda>n r. remote_delete env r n) n4 (nd_remotes n4)) (\<lambda>n5.
       Inr (success, n5\<lparr>nd_remotes := []\<rparr>)))))"
    by (simp add: node_stop_def node_dismantle_def gw k m_def)
  show "node_stop env this n = Inl Null_deref" if ne: "nd_publishers n \<noteq> [] \<or> nd_subscribers n \<noteq> []"
  proof (cases "nd_publishers n")
    case (Cons a as)
    then show ?thesis using publisher_husk_cleared [OF w _ m(1,2), of a] by (simp add: stop)
  next
    case Nil
    then obtain s ss where "nd_subscribers n = s # ss" using ne by (cases "nd_subscribers n") auto
    then show ?thesis using subscriber_husk_cleared [OF w _ m(1,3), of s] Nil m(5) by (simp add: stop)
  qed
  assume none: "nd_publishers n = []" "nd_subscribers n = []"
  have apart: "remotes_apart m (nd_remotes m)"
    using wired_apart [OF w] by (simp add: remotes_apart_def m_def k)
  have sound: "transport_sound m r = transport_sound n1 r" for r by (simp add: transport_sound_def m_def)
  note sh = shutdown_all [OF apart, of env, unfolded sound m(6)]
  show "\<exists>n'. node_stop env this n = Inr (success, n') \<and> nd_remotes n' = [] \<and> (\<forall>t. members (nd_dave n') t = {})"
    if all: "\<forall>r \<in> set (nd_remotes n). transport_sound n1 r"
  proof -
    obtain n4 where n4: "exec_foldl (\<lambda>n r. remote_shutdown env r n) m (nd_remotes n) = Inr n4" "nd_remotes n4 = nd_remotes n"
        "nd_dave n4 = nd_dave m" "\<forall>r \<in> set (nd_remotes n). \<exists>rn. nd_remote_at n4 r = Some rn \<and> rn_link rn = null_tp"
      using sh all by auto
    have "distinct (nd_remotes n)" using node_wiredD(8) [OF w] by (simp add: remotes_wired_def)
    from delete_all [OF this n4(4)] obtain n5 where
      "exec_foldl (\<lambda>n r. remote_delete env r n) n4 (nd_remotes n) = Inr n5" "nd_dave n5 = nd_dave n4" by blast
    then show ?thesis
      using n4 none m by (simp add: stop members_def topic_slot_def mailman_clear_def)
  qed
  show "node_stop env this n = Inl Use_after_free" if "\<not> (\<forall>r \<in> set (nd_remotes n). transport_sound n1 r)"
    using sh that none m by (simp add: stop)
qed

end
