(* ===== verification/Splat.thy ===== *)
theory Splat
  imports Channels
begin

text \<open>
  \<open>class splat\<close> (\<open>splat.hpp\<close>, \<open>splat.cpp\<close>): a packet in a file that processes map into their
  memory, guarded by a mutex in the file. The code is behind \<open>SPLAT_ENABLED\<close>, which the build does not
  define. What \<open>open\<close>, \<open>mmap\<close> and \<open>munmap\<close> return are arguments; a file has the same content in
  every process that maps it. The mutex of a file of zeros is free, as on Linux.
\<close>

subsection \<open>State\<close>

datatype splat_mode = Off | Pub | Sub

text \<open>\<open>sd_data\<close> is what follows the header, up to the end of the last page of the file.\<close>

record splat_data =
  sd_locked :: bool
  sd_version :: u32
  sd_size :: u32
  sd_data :: "byte list"

text \<open>
  \<open>sp_backing\<close> is the file whose mapping \<open>_backing\<close> points to, \<open>None\<close> when it is null or
  \<open>MAP_FAILED\<close>.
\<close>

record 'b splat =
  sp_node_id :: u32
  sp_topic :: topic
  sp_fd :: int
  sp_backing :: "string option"
  sp_size :: u64
  sp_current_version :: u32
  sp_latest :: "'b packet"
  sp_mode :: splat_mode

definition splat_new :: "'b bson_lib \<Rightarrow> bool \<Rightarrow> u32 \<Rightarrow> topic \<Rightarrow> 'b splat" where
  "splat_new lib junk node_id t =
     \<lparr>sp_node_id = node_id, sp_topic = t, sp_fd = -1, sp_backing = None, sp_size = 0,
      sp_current_version = 0, sp_latest = packet_null lib junk, sp_mode = Off\<rparr>"

text \<open>\<open>sizeof(splat_data)\<close> on 64-bit Linux: a mutex of 40 bytes and two integers.\<close>

definition header_size :: u64 where
  "header_size = 48"

subsection \<open>The file\<close>

fun decimal :: "nat \<Rightarrow> string" where
  "decimal n = (if n < 10 then [char_of (48 + n)] else decimal (n div 10) @ [char_of (48 + n mod 10)])"

declare decimal.simps [simp del]

definition splat_file :: "u32 \<Rightarrow> topic \<Rightarrow> string" where
  "splat_file node_id t =
     ''/tmp/'' @ decimal (unat node_id) @ ''-'' @ map (\<lambda>c. if c = CHR ''/'' then CHR ''!'' else c) t @ ''.splat''"

definition zeroed :: "u64 \<Rightarrow> splat_data" where
  "zeroed sz = \<lparr>sd_locked = False, sd_version = 0, sd_size = 0,
     sd_data = replicate ((unat sz + 4095) div 4096 * 4096 - unat header_size) 0\<rparr>"

text \<open>\<open>O_TRUNC\<close> empties a file that exists, and \<open>ftruncate\<close> fills it with zeros.\<close>

definition splat_map :: "int \<Rightarrow> bool \<Rightarrow> u64 \<Rightarrow> 'b splat \<Rightarrow> (string \<Rightarrow> splat_data option) \<Rightarrow>
    void_result \<times> 'b splat \<times> (string \<Rightarrow> splat_data option)" where
  "splat_map open_ret mmap_ok sz sp files =
     (let filename = splat_file (sp_node_id sp) (sp_topic sp); sp1 = sp\<lparr>sp_fd := open_ret\<rparr> in
      if sp_fd sp1 < 0 then (failure (''Failed to create '' @ filename) 0, sp1, files)
      else let files1 = files(filename \<mapsto> zeroed sz) in
        if \<not> mmap_ok
        then (failure (''Failed to memory map file '' @ filename) 0, sp1\<lparr>sp_fd := -1, sp_backing := None\<rparr>, files1)
        else (success, sp1\<lparr>sp_backing := Some filename, sp_size := sz\<rparr>, files1))"

definition splat_unmap :: "bool \<Rightarrow> bool \<Rightarrow> 'b splat \<Rightarrow> (void_result \<times> 'b splat) exec" where
  "splat_unmap dbg munmap_ok sp =
     (if sp_fd sp < 0 then Inr (failure ''fd is invalid'' 0, sp)
      else exec_bind (cassert dbg (sp_backing sp \<noteq> None)) (\<lambda>_.
        if \<not> munmap_ok then Inr (failure ''Memory un-mapping failed!'' 0, sp)
        else Inr (success, sp\<lparr>sp_fd := -1, sp_backing := None, sp_mode := Off, sp_size := 0\<rparr>)))"

definition splat_create :: "int \<Rightarrow> bool \<Rightarrow> u64 \<Rightarrow> 'b splat \<Rightarrow> (string \<Rightarrow> splat_data option) \<Rightarrow>
    void_result \<times> 'b splat \<times> (string \<Rightarrow> splat_data option)" where
  "splat_create open_ret mmap_ok max_size sp files =
     (case splat_map open_ret mmap_ok max_size sp files of
        (ret, sp1, files1) \<Rightarrow>
          if \<not> to_bool ret then (ret, sp1, files1)
          else (success, sp1\<lparr>sp_mode := Pub\<rparr>, files1(the (sp_backing sp1) \<mapsto> zeroed (sp_size sp1))))"

definition splat_connect :: "int \<Rightarrow> bool \<Rightarrow> u64 \<Rightarrow> 'b splat \<Rightarrow> (string \<Rightarrow> splat_data option) \<Rightarrow>
    void_result \<times> 'b splat \<times> (string \<Rightarrow> splat_data option)" where
  "splat_connect open_ret mmap_ok defined_max_size sp files =
     (case splat_map open_ret mmap_ok defined_max_size sp files of
        (ret, sp1, files1) \<Rightarrow> (ret, (if to_bool ret then sp1\<lparr>sp_mode := Sub\<rparr> else sp1), files1))"

definition splat_close :: "bool \<Rightarrow> bool \<Rightarrow> 'b splat \<Rightarrow> (void_result \<times> 'b splat) exec" where
  "splat_close dbg munmap_ok sp =
     exec_bind (cassert dbg (sp_mode sp \<noteq> Off)) (\<lambda>_. splat_unmap dbg munmap_ok (sp\<lparr>sp_mode := Off\<rparr>))"

definition splat_destroy :: "bool \<Rightarrow> bool \<Rightarrow> 'b splat \<Rightarrow> 'b splat exec" where
  "splat_destroy dbg munmap_ok sp =
     (if sp_mode sp \<noteq> Off then exec_bind (splat_close dbg munmap_ok sp) (\<lambda>(ret, sp'). Inr sp') else Inr sp)"

definition update_available :: "bool \<Rightarrow> 'b splat \<Rightarrow> splat_data \<Rightarrow> bool exec" where
  "update_available dbg sp f =
     exec_bind (cassert dbg (sp_mode sp = Sub)) (\<lambda>_. Inr (sd_version f \<noteq> sp_current_version sp \<and> sd_size f \<noteq> 0))"

subsection \<open>Pushing and polling\<close>

text \<open>
  The statements of \<open>push\<close> and \<open>poll\<close> that touch the file, in order: \<open>Lock\<close> is where the loop
  over \<open>trylock\<close> ends. \<open>bson_get_data\<close> gives the bytes \<open>d\<close> of the packet.
\<close>

datatype splat_pc =
    Idle
  | Push_lock "byte list" | Push_version "byte list" | Push_size "byte list" | Push_data "byte list" | Push_unlock "byte list"
  | Poll_lock | Poll_version | Poll_data | Poll_unlock

fun critical :: "splat_pc \<Rightarrow> bool" where
  "critical (Push_version d) \<longleftrightarrow> True"
| "critical (Push_size d) \<longleftrightarrow> True"
| "critical (Push_data d) \<longleftrightarrow> True"
| "critical (Push_unlock d) \<longleftrightarrow> True"
| "critical Poll_version \<longleftrightarrow> True"
| "critical Poll_data \<longleftrightarrow> True"
| "critical Poll_unlock \<longleftrightarrow> True"
| "critical _ \<longleftrightarrow> False"

definition push_start :: "bool \<Rightarrow> 'b bson_lib \<Rightarrow> 'b packet \<Rightarrow> 'b splat \<Rightarrow> ('b splat \<times> splat_pc) exec" where
  "push_start dbg lib latest sp =
     exec_bind (cassert dbg (sp_mode sp = Pub)) (\<lambda>_.
       case p_packed latest of
         None \<Rightarrow> Inl Null_deref
       | Some doc \<Rightarrow>
           let d = bson_data lib doc; len = word_of_nat (length d) :: u32 in
           exec_bind (cassert dbg (ucast len < sp_size sp - header_size)) (\<lambda>_.
             Inr (sp\<lparr>sp_current_version := sp_current_version sp + 1\<rparr>, Push_lock d)))"

definition splat_advance :: "'b bson_lib \<Rightarrow> bool \<Rightarrow> 'b splat \<Rightarrow> splat_pc \<Rightarrow> splat_data \<Rightarrow>
    ('b splat \<times> splat_pc \<times> splat_data) exec option" where
  "splat_advance lib junk sp pc f =
     (case pc of
        Idle \<Rightarrow> None
      | Push_lock d \<Rightarrow> if sd_locked f then None else Some (Inr (sp, Push_version d, f\<lparr>sd_locked := True\<rparr>))
      | Push_version d \<Rightarrow> Some (Inr (sp, Push_size d, f\<lparr>sd_version := sp_current_version sp\<rparr>))
      | Push_size d \<Rightarrow> Some (Inr (sp, Push_data d, f\<lparr>sd_size := word_of_nat (length d)\<rparr>))
      | Push_data d \<Rightarrow> Some (if length d \<le> length (sd_data f)
          then Inr (sp, Push_unlock d, f\<lparr>sd_data := d @ drop (length d) (sd_data f)\<rparr>) else Inl Buffer_overflow)
      | Push_unlock d \<Rightarrow> Some (Inr (sp, Idle, f\<lparr>sd_locked := False\<rparr>))
      | Poll_lock \<Rightarrow> if sd_locked f then None else Some (Inr (sp, Poll_version, f\<lparr>sd_locked := True\<rparr>))
      | Poll_version \<Rightarrow> Some (Inr (sp\<lparr>sp_current_version := sd_version f\<rparr>, Poll_data, f))
      | Poll_data \<Rightarrow> Some (if unat (sd_size f) > length (sd_data f) then Inl Buffer_overflow
          else exec_bind (bson_of_const (bson_read lib (take (unat (sd_size f)) (sd_data f)))) (\<lambda>doc.
               exec_bind (packet_of_packed lib junk doc) (\<lambda>p.
                 Inr (sp\<lparr>sp_latest := set_local_only True (packet_copy p)\<rparr>, Poll_unlock, f))))
      | Poll_unlock \<Rightarrow> Some (Inr (sp, Idle, f\<lparr>sd_locked := False\<rparr>)))"

definition poll_start :: "bool \<Rightarrow> 'b splat \<Rightarrow> ('b splat \<times> splat_pc) exec" where
  "poll_start dbg sp = exec_bind (cassert dbg (sp_mode sp = Sub)) (\<lambda>_. Inr (sp, Poll_lock))"

text \<open>
  Processes whose objects map one file. \<open>ss_log\<close> remembers the pushes that are complete: the
  version and the bytes of each. A document has less than \<open>2 ^ 31\<close> bytes.
\<close>

record 'b splat_state =
  ss_file :: splat_data
  ss_proc :: "nat \<Rightarrow> 'b splat \<times> splat_pc"
  ss_log :: "(u32 \<times> byte list) list"

definition log_push :: "'b splat \<Rightarrow> splat_pc \<Rightarrow> (u32 \<times> byte list) list \<Rightarrow> (u32 \<times> byte list) list" where
  "log_push sp pc log = (case pc of Push_unlock d \<Rightarrow> log @ [(sp_current_version sp, d)] | _ \<Rightarrow> log)"

inductive splat_step :: "bool \<Rightarrow> 'b bson_lib \<Rightarrow> bool \<Rightarrow> 'b splat_state \<Rightarrow> 'b splat_state \<Rightarrow> bool"
  for dbg :: bool and lib :: "'b bson_lib" and junk :: bool where
  Start_push: "ss_proc s i = (sp, Idle) \<Longrightarrow> push_start dbg lib p sp = Inr (sp', Push_lock d) \<Longrightarrow> length d < 2 ^ 31 \<Longrightarrow>
    splat_step dbg lib junk s (s\<lparr>ss_proc := (ss_proc s)(i := (sp', Push_lock d))\<rparr>)"
| Start_poll: "ss_proc s i = (sp, Idle) \<Longrightarrow> poll_start dbg sp = Inr (sp', pc) \<Longrightarrow>
    splat_step dbg lib junk s (s\<lparr>ss_proc := (ss_proc s)(i := (sp', pc))\<rparr>)"
| Advance: "ss_proc s i = (sp, pc) \<Longrightarrow> splat_advance lib junk sp pc (ss_file s) = Some (Inr (sp', pc', f)) \<Longrightarrow>
    splat_step dbg lib junk s
      (s\<lparr>ss_file := f, ss_proc := (ss_proc s)(i := (sp', pc')), ss_log := log_push sp pc (ss_log s)\<rparr>)"

inductive_cases splat_stepE: "splat_step dbg lib junk s s'"

text \<open>A process joins: its \<open>connect\<close> opens the file the others have mapped.\<close>

definition attach :: "int \<Rightarrow> u64 \<Rightarrow> nat \<Rightarrow> 'b splat_state \<Rightarrow> 'b splat_state" where
  "attach open_ret sz j s =
     (let sp = fst (ss_proc s j); name = splat_file (sp_node_id sp) (sp_topic sp) in
      case splat_connect open_ret True sz sp [name \<mapsto> ss_file s] of
        (ret, sp', files) \<Rightarrow> s\<lparr>ss_file := the (files name), ss_proc := (ss_proc s)(j := (sp', Idle))\<rparr>)"

subsection \<open>The invariant\<close>

definition last_push :: "(u32 \<times> byte list) list \<Rightarrow> u32 \<times> byte list" where
  "last_push log = (if log = [] then (0, []) else last log)"

definition holds_push :: "splat_data \<Rightarrow> u32 \<times> byte list \<Rightarrow> bool" where
  "holds_push f vd \<longleftrightarrow> sd_version f = fst vd \<and> unat (sd_size f) = length (snd vd) \<and>
     take (length (snd vd)) (sd_data f) = snd vd \<and> length (snd vd) \<le> length (sd_data f)"

text \<open>What each process knows at each point of its code; only inside the lock is it about the file.\<close>

definition read_from :: "'b bson_lib \<Rightarrow> bool \<Rightarrow> byte list \<Rightarrow> 'b packet \<Rightarrow> bool" where
  "read_from lib junk d p \<longleftrightarrow> (\<exists>doc q. bson_read lib d = Some doc \<and> packet_of_packed lib junk (Some doc) = Inr q \<and>
     p = set_local_only True q)"

fun pc_ok :: "'b bson_lib \<Rightarrow> bool \<Rightarrow> u32 \<times> byte list \<Rightarrow> splat_data \<Rightarrow> 'b splat \<Rightarrow> splat_pc \<Rightarrow> bool" where
  "pc_ok lib junk vd f sp (Push_lock d) \<longleftrightarrow> length d < 2 ^ 31"
| "pc_ok lib junk vd f sp (Push_version d) \<longleftrightarrow> length d < 2 ^ 31"
| "pc_ok lib junk vd f sp (Push_size d) \<longleftrightarrow> length d < 2 ^ 31 \<and> sd_version f = sp_current_version sp"
| "pc_ok lib junk vd f sp (Push_data d) \<longleftrightarrow> sd_version f = sp_current_version sp \<and> unat (sd_size f) = length d"
| "pc_ok lib junk vd f sp (Push_unlock d) \<longleftrightarrow> holds_push f (sp_current_version sp, d)"
| "pc_ok lib junk vd f sp Poll_version \<longleftrightarrow> holds_push f vd"
| "pc_ok lib junk vd f sp Poll_data \<longleftrightarrow> holds_push f vd \<and> sp_current_version sp = fst vd"
| "pc_ok lib junk vd f sp Poll_unlock \<longleftrightarrow> holds_push f vd \<and> sp_current_version sp = fst vd \<and>
     read_from lib junk (snd vd) (sp_latest sp)"
| "pc_ok lib junk vd f sp _ \<longleftrightarrow> True"

lemma pc_ok_outside: "\<not> critical pc \<Longrightarrow> pc_ok lib junk vd f sp pc = pc_ok lib junk vd' f' sp pc"
  by (cases pc) simp_all

definition splat_inv :: "'b bson_lib \<Rightarrow> bool \<Rightarrow> 'b splat_state \<Rightarrow> bool" where
  "splat_inv lib junk s \<longleftrightarrow>
     (\<forall>i j. critical (snd (ss_proc s i)) \<longrightarrow> critical (snd (ss_proc s j)) \<longrightarrow> i = j) \<and>
     (sd_locked (ss_file s) \<longleftrightarrow> (\<exists>i. critical (snd (ss_proc s i)))) \<and>
     (\<not> sd_locked (ss_file s) \<longrightarrow> holds_push (ss_file s) (last_push (ss_log s))) \<and>
     (\<forall>i. pc_ok lib junk (last_push (ss_log s)) (ss_file s) (fst (ss_proc s i)) (snd (ss_proc s i)))"

text \<open>One statement of the process that may run it.\<close>

lemma advance_ok:
  assumes "splat_advance lib junk sp pc f = Some (Inr (sp', pc', f'))"
    and "pc_ok lib junk (last_push log) f sp pc" and "\<not> sd_locked f \<longrightarrow> holds_push f (last_push log)"
    and "critical pc \<longrightarrow> sd_locked f"
  shows "pc_ok lib junk (last_push (log_push sp pc log)) f' sp' pc' \<and>
    (\<not> sd_locked f' \<longrightarrow> holds_push f' (last_push (log_push sp pc log))) \<and>
    (sd_locked f' \<longleftrightarrow> critical pc') \<and> (critical pc \<or> \<not> sd_locked f)"
proof (cases pc)
  case (Push_size d)
  then have "unat (word_of_nat (length d) :: u32) = length d"
    using assms(2) by (simp add: unat_of_nat take_bit_nat_eq_self)
  then show ?thesis
    using assms Push_size by (auto simp: splat_advance_def log_push_def)
next
  case Poll_data
  then have f: "holds_push f (last_push log)" using assms(2) by simp
  have "read_from lib junk (snd (last_push log)) (sp_latest sp')"
    using assms(1) f Poll_data
    by (auto simp: splat_advance_def exec_simps holds_push_def read_from_def bson_of_const_def split: if_splits option.splits)
  then show ?thesis
    using assms Poll_data by (auto simp: splat_advance_def exec_simps log_push_def split: if_splits)
qed (use assms in \<open>auto simp: splat_advance_def log_push_def holds_push_def last_push_def split: if_splits\<close>)

lemma splat_inv_outside:
  assumes inv: "splat_inv lib junk s" and i: "ss_proc s i = (sp, pc)" "\<not> critical pc"
    and new: "\<not> critical pc'" "pc_ok lib junk (last_push (ss_log s)) (ss_file s) sp' pc'"
  shows "splat_inv lib junk (s\<lparr>ss_proc := (ss_proc s)(i := (sp', pc'))\<rparr>)"
proof -
  have "critical (snd (((ss_proc s)(i := (sp', pc'))) j)) \<longleftrightarrow> critical (snd (ss_proc s j))" for j
    using i new(1) by simp
  then show ?thesis using inv new(2) unfolding splat_inv_def by (simp del: fun_upd_apply) simp
qed

lemma splat_inv_step:
  assumes "splat_step dbg lib junk s s'" and inv: "splat_inv lib junk s"
  shows "splat_inv lib junk s'"
  using assms(1)
proof (cases rule: splat_step.cases)
  case (Start_push i sp p sp' d)
  then show ?thesis using splat_inv_outside [OF inv Start_push(2)] by simp
next
  case (Start_poll i sp sp' pc)
  then have "pc = Poll_lock" by (auto simp: poll_start_def exec_simps)
  then show ?thesis using Start_poll(1) splat_inv_outside [OF inv Start_poll(2), of pc sp'] by simp
next
  case (Advance i sp pc sp' pc' f)
  let ?log = "log_push sp pc (ss_log s)"
  have i: "ss_proc s i = (sp, pc)" by (rule Advance(2))
  have mutex: "j = i" if "critical (snd (ss_proc s j))" "critical pc" for j
    using inv that i unfolding splat_inv_def by (metis snd_conv)
  have lock: "sd_locked (ss_file s) \<longleftrightarrow> (\<exists>i. critical (snd (ss_proc s i)))" using inv by (simp add: splat_inv_def)
  have pre: "pc_ok lib junk (last_push (ss_log s)) (ss_file s) sp pc"
    "\<not> sd_locked (ss_file s) \<longrightarrow> holds_push (ss_file s) (last_push (ss_log s))" "critical pc \<longrightarrow> sd_locked (ss_file s)"
    using inv i lock unfolding splat_inv_def by (metis fst_conv snd_conv)+
  note a = advance_ok [OF Advance(3) pre]
  have others: "\<not> critical (snd (ss_proc s j))" if "j \<noteq> i" for j
    using a mutex lock that by blast
  have "pc_ok lib junk (last_push ?log) f (fst (ss_proc s j)) (snd (ss_proc s j))" if "j \<noteq> i" for j
    using inv pc_ok_outside [OF others [OF that]] unfolding splat_inv_def by blast
  then show ?thesis
    unfolding Advance(1) splat_inv_def using a others by (auto split: if_splits)
qed

definition splat_start :: "u64 \<Rightarrow> (nat \<Rightarrow> 'b splat) \<Rightarrow> 'b splat_state" where
  "splat_start sz sps = \<lparr>ss_file = zeroed sz, ss_proc = (\<lambda>i. (sps i, Idle)), ss_log = []\<rparr>"

lemma splat_start_inv: "splat_inv lib junk (splat_start sz sps)"
  by (simp add: splat_inv_def splat_start_def zeroed_def holds_push_def last_push_def)

lemma splat_inv_reachable:
  "(splat_step dbg lib junk)\<^sup>*\<^sup>* (splat_start sz sps) s \<Longrightarrow> splat_inv lib junk s"
  by (induction rule: rtranclp_induct) (auto intro: splat_start_inv splat_inv_step)

subsection \<open>A process alone\<close>

definition put_proc :: "nat \<Rightarrow> 'b splat \<Rightarrow> splat_pc \<Rightarrow> splat_data \<Rightarrow> (u32 \<times> byte list) list \<Rightarrow> 'b splat_state \<Rightarrow> 'b splat_state" where
  "put_proc i sp pc f log s = s\<lparr>ss_file := f, ss_proc := (ss_proc s)(i := (sp, pc)), ss_log := log\<rparr>"

lemma put_proc_simps [simp]:
  "ss_proc (put_proc i sp pc f log s) i = (sp, pc)" "j \<noteq> i \<Longrightarrow> ss_proc (put_proc i sp pc f log s) j = ss_proc s j"
  "ss_file (put_proc i sp pc f log s) = f" "ss_log (put_proc i sp pc f log s) = log"
  "put_proc i sp' pc' f' log' (put_proc i sp pc f log s) = put_proc i sp' pc' f' log' s"
  by (simp_all add: put_proc_def)

lemma advance_put:
  assumes "splat_advance lib junk sp pc f = Some (Inr (sp', pc', f'))"
  shows "(splat_step dbg lib junk)\<^sup>*\<^sup>* (put_proc i sp pc f log s) (put_proc i sp' pc' f' (log_push sp pc log) s)"
  using splat_step.Advance [of "put_proc i sp pc f log s" i sp pc lib junk sp' pc' f' dbg] assms
  by (simp add: put_proc_def)

lemma advance_more:
  assumes "(splat_step dbg lib junk)\<^sup>*\<^sup>* s (put_proc i sp pc f log t)"
    and "splat_advance lib junk sp pc f = Some (Inr (sp', pc', f'))" and "log' = log_push sp pc log"
  shows "(splat_step dbg lib junk)\<^sup>*\<^sup>* s (put_proc i sp' pc' f' log' t)"
  using rtranclp_trans [OF assms(1) advance_put [OF assms(2)]] assms(3) by simp

lemma push_alone:
  assumes i: "ss_proc s i = (sp, Idle)" and start: "push_start dbg lib p sp = Inr (sp', Push_lock d)" and d: "length d < 2 ^ 31"
    and f: "\<not> sd_locked (ss_file s)" "length d \<le> length (sd_data (ss_file s))"
  shows "(splat_step dbg lib junk)\<^sup>*\<^sup>* s (put_proc i sp' Idle
    (ss_file s\<lparr>sd_version := sp_current_version sp', sd_size := word_of_nat (length d),
       sd_data := d @ drop (length d) (sd_data (ss_file s))\<rparr>)
    (ss_log s @ [(sp_current_version sp', d)]) s)"
proof -
  let ?f = "ss_file s" and ?log = "ss_log s" and ?v = "sp_current_version sp'"
  let ?l = "?f\<lparr>sd_locked := True\<rparr>" and ?run = "\<lambda>t. (splat_step dbg lib junk)\<^sup>*\<^sup>* s t"
  let ?done = "?l\<lparr>sd_version := ?v, sd_size := word_of_nat (length d), sd_data := d @ drop (length d) (sd_data ?f)\<rparr>"
  have "splat_step dbg lib junk s (put_proc i sp' (Push_lock d) ?f ?log s)"
    using splat_step.Start_push [OF i start d, of junk] by (simp add: put_proc_def)
  then have "?run (put_proc i sp' (Push_lock d) ?f ?log s)" by blast
  then have "?run (put_proc i sp' (Push_version d) ?l ?log s)"
    by (rule advance_more) (use f in \<open>simp_all add: splat_advance_def log_push_def\<close>)
  then have "?run (put_proc i sp' (Push_size d) (?l\<lparr>sd_version := ?v\<rparr>) ?log s)"
    by (rule advance_more) (simp_all add: splat_advance_def log_push_def)
  then have "?run (put_proc i sp' (Push_data d) (?l\<lparr>sd_version := ?v, sd_size := word_of_nat (length d)\<rparr>) ?log s)"
    by (rule advance_more) (simp_all add: splat_advance_def log_push_def)
  then have "?run (put_proc i sp' (Push_unlock d) ?done ?log s)"
    by (rule advance_more) (use f in \<open>simp_all add: splat_advance_def log_push_def\<close>)
  then show ?thesis by (rule advance_more) (use f in \<open>simp_all add: splat_advance_def log_push_def\<close>)
qed

lemma poll_alone:
  assumes j: "ss_proc s j = (sp, Idle)" and m: "sp_mode sp = Sub" and f: "\<not> sd_locked (ss_file s)"
  shows "(splat_step dbg lib junk)\<^sup>*\<^sup>* s (put_proc j (sp\<lparr>sp_current_version := sd_version (ss_file s)\<rparr>) Poll_data
    (ss_file s\<lparr>sd_locked := True\<rparr>) (ss_log s) s)"
proof -
  let ?f = "ss_file s" and ?log = "ss_log s" and ?run = "\<lambda>t. (splat_step dbg lib junk)\<^sup>*\<^sup>* s t"
  have "splat_step dbg lib junk s (put_proc j sp Poll_lock ?f ?log s)"
    using splat_step.Start_poll [OF j, of dbg sp Poll_lock lib junk] m by (simp add: put_proc_def poll_start_def)
  then have "?run (put_proc j sp Poll_lock ?f ?log s)" by blast
  then have "?run (put_proc j sp Poll_version (?f\<lparr>sd_locked := True\<rparr>) ?log s)"
    by (rule advance_more) (use f in \<open>simp_all add: splat_advance_def log_push_def\<close>)
  then show ?thesis by (rule advance_more) (simp_all add: splat_advance_def log_push_def)
qed

text \<open>
  \<open>node_impl::push_splat\<close> creates a splat of twice the size of its first document and pushes that
  document: in a debug build the assertion fails when the header eats the room, and for very small
  documents the subtraction wraps, so that it holds for the wrong reason.
\<close>

lemma first_push_fits:
  assumes "sp_mode sp = Pub" and "p_packed p = Some doc" and "length (bson_data lib doc) < 2 ^ 31"
    and "sp_size sp = 2 * word_of_nat (length (bson_data lib doc))"
  shows "push_start True lib p sp = Inl Assert_failed \<longleftrightarrow>
    24 \<le> length (bson_data lib doc) \<and> length (bson_data lib doc) \<le> 48"
proof -
  define n where "n = length (bson_data lib doc)"
  have n: "n < 2 ^ 31" using assms(3) by (simp add: n_def)
  have u: "unat (2 * word_of_nat n :: u64) = 2 * n" "unat (ucast (word_of_nat n :: u32) :: u64) = n"
    using n by (simp_all add: unat_word_ariths unat_of_nat unsigned_ucast_eq take_bit_nat_eq_self)
  have "ucast (word_of_nat n :: u32) < (2 * word_of_nat n :: u64) - header_size \<longleftrightarrow> \<not> (24 \<le> n \<and> n \<le> 48)"
    using n u by (simp add: word_less_nat_alt unat_sub_if' header_size_def) linarith
  then show ?thesis using assms by (auto simp: push_start_def n_def Let_def cassert_def)
qed

subsection \<open>Properties\<close>

text \<open>C22: While nobody joins, the lock works: in every interleaving of any number of pushes and
  polls, no two processes are between locking and unlocking, and what a poll has read when it is
  about to unlock is the version and the packet of one and the same push, the last that was
  complete; no poll sees the version of one push with the bytes of another.\<close>

theorem splat_polls_consistent:
  assumes "(splat_step dbg lib junk)\<^sup>*\<^sup>* (splat_start sz sps) s"
  shows "(\<forall>i j. critical (snd (ss_proc s i)) \<longrightarrow> critical (snd (ss_proc s j)) \<longrightarrow> i = j) \<and>
    (\<forall>i. snd (ss_proc s i) = Poll_unlock \<longrightarrow>
       (\<exists>doc p. bson_read lib (snd (last_push (ss_log s))) = Some doc \<and> packet_of_packed lib junk (Some doc) = Inr p \<and>
          sp_latest (fst (ss_proc s i)) = set_local_only True p \<and>
          sp_current_version (fst (ss_proc s i)) = fst (last_push (ss_log s))))"
proof -
  have inv: "splat_inv lib junk s" by (rule splat_inv_reachable [OF assms])
  have "pc_ok lib junk (last_push (ss_log s)) (ss_file s) (fst (ss_proc s i)) (snd (ss_proc s i))" for i
    using inv by (simp add: splat_inv_def)
  from this have "\<exists>doc p. bson_read lib (snd (last_push (ss_log s))) = Some doc \<and> packet_of_packed lib junk (Some doc) = Inr p \<and>
      sp_latest (fst (ss_proc s i)) = set_local_only True p \<and> sp_current_version (fst (ss_proc s i)) = fst (last_push (ss_log s))"
    if "snd (ss_proc s i) = Poll_unlock" for i
    using that unfolding read_from_def by (metis pc_ok.simps(8) read_from_def)
  then show ?thesis using inv unfolding splat_inv_def by blast
qed

lemma zeroed_simps [simp]:
  "\<not> sd_locked (zeroed sz)" "sd_version (zeroed sz) = 0" "sd_size (zeroed sz) = 0"
  "length (sd_data (zeroed sz)) = (unat sz + 4095) div 4096 * 4096 - 48"
  by (simp_all add: zeroed_def header_size_def)

definition sample_splats :: "nat \<Rightarrow> sample_doc splat" where
  "sample_splats i = (splat_new sample_lib True 42 ''/t'')\<lparr>sp_fd := 3, sp_backing := Some (splat_file 42 ''/t''), sp_size := 4096,
     sp_mode := (if i = 0 then Pub else Sub)\<rparr>"

theorem splat_polls_consistent_witness:
  "\<exists>s. (splat_step True tiny_lib True)\<^sup>*\<^sup>* (splat_start 4096 sample_splats) s \<and> snd (ss_proc s 1) = Poll_unlock \<and>
     sp_current_version (fst (ss_proc s 1)) = 1 \<and> sp_latest (fst (ss_proc s 1)) = set_local_only True tiny_packet"
proof -
  let ?s0 = "splat_start 4096 sample_splats" and ?d = "[5, 0, 0, 0, 0] :: byte list"
  let ?sp = "(sample_splats 0)\<lparr>sp_current_version := 1\<rparr>"
  obtain doc where doc: "p_packed tiny_packet = Some doc" using tiny_packed by blast
  have start: "push_start True tiny_lib tiny_packet (sample_splats 0) = Inr (?sp, Push_lock ?d)"
    by (simp add: push_start_def doc tiny_lib_def sample_splats_def splat_new_def header_size_def Let_def)
  define s1 where "s1 = put_proc 0 ?sp Idle (ss_file ?s0\<lparr>sd_version := 1, sd_size := word_of_nat (length ?d),
      sd_data := ?d @ drop (length ?d) (sd_data (ss_file ?s0))\<rparr>) (ss_log ?s0 @ [(1, ?d)]) ?s0"
  have s1: "(splat_step True tiny_lib True)\<^sup>*\<^sup>* ?s0 s1"
    using push_alone [OF _ start, of ?s0 0 True] by (simp add: s1_def splat_start_def)
  let ?sq = "(sample_splats 1)\<lparr>sp_current_version := 1\<rparr>" and ?f = "ss_file s1\<lparr>sd_locked := True\<rparr>"
  have "(splat_step True tiny_lib True)\<^sup>*\<^sup>* s1 (put_proc 1 ?sq Poll_data ?f (ss_log s1) s1)"
    using poll_alone [of s1 1 "sample_splats 1" True tiny_lib True]
    by (simp add: s1_def splat_start_def sample_splats_def splat_new_def)
  from rtranclp_trans [OF s1 this] have run: "(splat_step True tiny_lib True)\<^sup>*\<^sup>* ?s0 (put_proc 1 ?sq Poll_data ?f (ss_log s1) s1)" .
  have q: "packet_of_packed tiny_lib True (Some doc) = Inr (tiny_packet\<lparr>p_local_only := True\<rparr>)"
    using sendable_read_back [OF tiny_laws tiny_sendable, of True] doc by simp
  let ?s2 = "put_proc 1 (?sq\<lparr>sp_latest := set_local_only True (tiny_packet\<lparr>p_local_only := True\<rparr>)\<rparr>) Poll_unlock ?f (ss_log s1) s1"
  have take5: "take (unat (sd_size ?f)) (sd_data ?f) = ?d" "unat (sd_size ?f) \<le> length (sd_data ?f)"
    by (simp_all add: s1_def)
  have "bson_read tiny_lib ?d = Some doc" by (simp add: tiny_lib_def doc)
  then have "splat_advance tiny_lib True ?sq Poll_data ?f =
      Some (Inr (?sq\<lparr>sp_latest := set_local_only True (tiny_packet\<lparr>p_local_only := True\<rparr>)\<rparr>, Poll_unlock, ?f))"
    using take5 q by (simp add: splat_advance_def bson_of_const_def)
  from advance_more [OF run this] have reach: "(splat_step True tiny_lib True)\<^sup>*\<^sup>* ?s0 ?s2" by (simp add: log_push_def)
  from splat_polls_consistent [OF reach] show ?thesis
    using reach by (intro exI [of _ ?s2]) (auto simp: set_local_only_def)
qed

text \<open>Joining breaks it: \<open>connect\<close> opens the file with \<open>O_TRUNC\<close>, which wipes what the owner
  and the earlier subscribers have mapped, the mutex included. After it the version and the size
  are 0, so no subscriber sees the last push any more, and a process that is inside the lock is not
  alone: the newcomer's first poll gets in too.\<close>

theorem splat_connect_breaks_lock:
  assumes "0 \<le> open_ret" and "critical (snd (ss_proc s i))" and "i \<noteq> j"
  shows "\<exists>s'. (splat_step dbg lib junk)\<^sup>*\<^sup>* (attach open_ret sz j s) s' \<and>
    critical (snd (ss_proc s' i)) \<and> critical (snd (ss_proc s' j)) \<and>
    sd_version (ss_file (attach open_ret sz j s)) = 0 \<and>
    (\<forall>sp. sp_mode sp = Sub \<longrightarrow> update_available dbg sp (ss_file (attach open_ret sz j s)) = Inr False)"
proof -
  let ?t = "attach open_ret sz j s" and ?sp = "fst (ss_proc s j)"
  have t: "ss_file ?t = zeroed sz" "ss_proc ?t i = ss_proc s i"
    "\<exists>sp. ss_proc ?t j = (sp, Idle) \<and> sp_mode sp = Sub"
    using assms(1,3) by (simp_all add: attach_def splat_connect_def splat_map_def Let_def)
  then obtain sp where sp: "ss_proc ?t j = (sp, Idle)" "sp_mode sp = Sub" by blast
  let ?s' = "put_proc j (sp\<lparr>sp_current_version := sd_version (ss_file ?t)\<rparr>) Poll_data (ss_file ?t\<lparr>sd_locked := True\<rparr>) (ss_log ?t) ?t"
  have "(splat_step dbg lib junk)\<^sup>*\<^sup>* ?t ?s'" by (rule poll_alone [OF sp]) (simp add: t(1))
  moreover have "critical (snd (ss_proc ?s' i))" "critical (snd (ss_proc ?s' j))" using assms(2,3) t(2) by simp_all
  ultimately show ?thesis by (intro exI [of _ ?s']) (simp add: t(1) update_available_def)
qed

theorem splat_connect_breaks_lock_witness:
  "\<exists>s s' :: sample_doc splat_state. (splat_step True tiny_lib True)\<^sup>*\<^sup>* (attach 4 4096 1 s) s' \<and>
     critical (snd (ss_proc s' 0)) \<and> critical (snd (ss_proc s' 1))"
proof -
  let ?s = "\<lparr>ss_file = (zeroed 4096)\<lparr>sd_locked := True\<rparr>,
     ss_proc = (\<lambda>i. if i = 0 then (sample_splats 0, Push_version [5, 0, 0, 0, 0]) else (splat_new sample_lib True 42 ''/t'', Idle)),
     ss_log = []\<rparr>"
  have "critical (snd (ss_proc ?s 0))" by simp
  from splat_connect_breaks_lock [OF _ this, of 4 1 True tiny_lib True 4096] obtain s' where
    "(splat_step True tiny_lib True)\<^sup>*\<^sup>* (attach 4 4096 1 ?s) s'" "critical (snd (ss_proc s' 0))" "critical (snd (ss_proc s' 1))"
    by auto
  then show ?thesis by blast
qed

end
