(* ===== verification/Splat_Node.thy ===== *)
theory Splat_Node
  imports Node Splat
begin

text \<open>
  The sections of \<open>node_impl.cpp\<close> and \<open>remote_node.cpp\<close> behind \<open>SPLAT_ENABLED\<close>: a node that hands
  droppable packets of its own to splats instead of its links, announces its splats, and reads
  those of other nodes. What a definition here leaves out of a function is in the default build
  and the same. \<open>new splat\<close> objects are cells of a heap, numbered as they are made; the calls of
  the system are numbered likewise, and what they return is an argument.
\<close>

subsection \<open>A splat used from one process\<close>

text \<open>
  \<open>push\<close> and \<open>poll\<close> from their start to their end, while no other process has the lock. A lock
  that is not free is never given back, because nothing else runs.
\<close>

fun splat_finish :: "nat \<Rightarrow> 'b bson_lib \<Rightarrow> bool \<Rightarrow> 'b splat \<Rightarrow> splat_pc \<Rightarrow> splat_data \<Rightarrow> ('b splat \<times> splat_data) exec" where
  "splat_finish 0 lib junk sp pc f = Inl Diverges"
| "splat_finish (Suc k) lib junk sp pc f =
     (if pc = Idle then Inr (sp, f)
      else case splat_advance lib junk sp pc f of
             None \<Rightarrow> Inl Diverges
           | Some r \<Rightarrow> exec_bind r (\<lambda>(sp', pc', f'). splat_finish k lib junk sp' pc' f'))"

definition splat_steps :: nat where
  "splat_steps = 6"

subsection \<open>State\<close>

record ('b, 'u) splat_node =
  sn_node :: "('b, 'u) node"
  sn_splats :: "(topic \<times> nat) list"
  sn_remote_splats :: "(topic \<times> nat) list"
  sn_splat_at :: "nat \<Rightarrow> 'b splat option"
  sn_files :: "string \<Rightarrow> splat_data option"
  sn_calls :: nat

record splat_sys =
  sy_open :: "nat \<Rightarrow> int"
  sy_mmap :: "nat \<Rightarrow> bool"
  sy_munmap :: "nat \<Rightarrow> bool"

definition on_node :: "(('b, 'u) node \<Rightarrow> ('r \<times> ('b, 'u) node) exec) \<Rightarrow> ('b, 'u) splat_node \<Rightarrow>
    ('r \<times> ('b, 'u) splat_node) exec" where
  "on_node f s = exec_bind (f (sn_node s)) (\<lambda>(r, n). Inr (r, s\<lparr>sn_node := n\<rparr>))"

definition count_splat :: "(topic \<Rightarrow> (topic \<Rightarrow> u32 option) \<Rightarrow> topic \<Rightarrow> u32 option) \<Rightarrow> topic \<Rightarrow>
    ('b, 'u) splat_node \<Rightarrow> ('b, 'u) splat_node" where
  "count_splat f t s = s\<lparr>sn_node := (sn_node s)\<lparr>nd_splat := f t (nd_splat (sn_node s))\<rparr>\<rparr>"

text \<open>The file behind \<open>_backing\<close>, which the code dereferences.\<close>

definition backing :: "('b, 'u) splat_node \<Rightarrow> 'b splat \<Rightarrow> (string \<times> splat_data) exec" where
  "backing s sp =
     (case sp_backing sp of
        None \<Rightarrow> Inl Null_deref
      | Some name \<Rightarrow> (case sn_files s name of None \<Rightarrow> Inl Null_deref | Some f \<Rightarrow> Inr (name, f)))"

text \<open>\<open>close\<close> and \<open>delete\<close> of the object at an address.\<close>

definition close_at :: "('b, 'u) node_env \<Rightarrow> splat_sys \<Rightarrow> nat \<Rightarrow> ('b, 'u) splat_node \<Rightarrow> ('b, 'u) splat_node exec" where
  "close_at env sys a s =
     exec_bind (load (sn_splat_at s) a) (\<lambda>sp.
     exec_bind (splat_close (ne_dbg env) (sy_munmap sys (sn_calls s)) sp) (\<lambda>(ret, sp').
       Inr (s\<lparr>sn_splat_at := (sn_splat_at s)(a \<mapsto> sp'), sn_calls := Suc (sn_calls s)\<rparr>)))"

definition delete_at :: "('b, 'u) node_env \<Rightarrow> splat_sys \<Rightarrow> nat \<Rightarrow> ('b, 'u) splat_node \<Rightarrow> ('b, 'u) splat_node exec" where
  "delete_at env sys a s =
     exec_bind (load (sn_splat_at s) a) (\<lambda>sp.
     exec_bind (splat_destroy (ne_dbg env) (sy_munmap sys (sn_calls s)) sp) (\<lambda>sp'.
       Inr (s\<lparr>sn_splat_at := (sn_splat_at s)(a := None), sn_calls := Suc (sn_calls s)\<rparr>)))"

subsection \<open>The splats of others\<close>

definition register_splat :: "('b, 'u) node_env \<Rightarrow> splat_sys \<Rightarrow> splat_info \<Rightarrow> ('b, 'u) splat_node \<Rightarrow>
    (void_result \<times> ('b, 'u) splat_node) exec" where
  "register_splat env sys info s =
     exec_bind (case map_of (sn_remote_splats s) (splat_topic info) of
                  None \<Rightarrow> Inr s
                | Some a \<Rightarrow>
                    exec_bind (load (sn_splat_at s) a) (\<lambda>sp.
                    exec_bind (if sp_mode sp \<noteq> Off then close_at env sys a s else Inr s) (\<lambda>s1.
                    exec_bind (delete_at env sys a s1) (\<lambda>s2.
                      Inr (s2\<lparr>sn_remote_splats := AList.delete (splat_topic info) (sn_remote_splats s2)\<rparr>))))) (\<lambda>s1.
       let a = sn_calls s1 in
       case splat_connect (sy_open sys a) (sy_mmap sys a) (ucast (splat_size info))
              (splat_new (ne_lib env) (ne_junk env) (splat_node_id info) (splat_topic info)) (sn_files s1) of
         (ret, sp, files) \<Rightarrow>
           let s2 = s1\<lparr>sn_splat_at := (sn_splat_at s1)(a \<mapsto> sp), sn_files := files, sn_calls := Suc a\<rparr> in
           if \<not> to_bool ret then exec_bind (delete_at env sys a s2) (\<lambda>s3. Inr (ret, s3))
           else Inr (ret, s2\<lparr>sn_remote_splats := sn_remote_splats s2 @ [(splat_topic info, a)]\<rparr>))"

definition unregister_splat :: "('b, 'u) node_env \<Rightarrow> splat_sys \<Rightarrow> splat_info \<Rightarrow> ('b, 'u) splat_node \<Rightarrow>
    (void_result \<times> ('b, 'u) splat_node) exec" where
  "unregister_splat env sys info s =
     (case map_of (sn_remote_splats s) (splat_topic info) of
        None \<Rightarrow> Inr (failure ''Splat not found'' 0, s)
      | Some a \<Rightarrow>
          exec_bind (close_at env sys a s) (\<lambda>s1.
          exec_bind (delete_at env sys a s1) (\<lambda>s2.
            Inr (success, s2\<lparr>sn_remote_splats := AList.delete (splat_topic info) (sn_remote_splats s2)\<rparr>))))"

definition splat_tally :: "('b, 'u) node_env \<Rightarrow> splat_sys \<Rightarrow> node_info \<Rightarrow> ('b, 'u) splat_node \<Rightarrow>
    ('b, 'u) splat_node exec" where
  "splat_tally env sys info s =
     exec_foldl (\<lambda>s splat. exec_bind (register_splat env sys splat (count_splat incr (splat_topic splat) s)) (\<lambda>(ret, s'). Inr s'))
       (s\<lparr>sn_node := (sn_node s)\<lparr>nd_subs := fold incr (n_in_topics info) (nd_subs (sn_node s))\<rparr>\<rparr>) (n_splats info)"

definition splat_untally :: "('b, 'u) node_env \<Rightarrow> splat_sys \<Rightarrow> node_info \<Rightarrow> ('b, 'u) splat_node \<Rightarrow>
    ('b, 'u) splat_node exec" where
  "splat_untally env sys info s =
     exec_foldl (\<lambda>s splat. exec_bind (unregister_splat env sys splat s) (\<lambda>(ret, s'). Inr (count_splat decr (splat_topic splat) s')))
       (s\<lparr>sn_node := (sn_node s)\<lparr>nd_subs := fold decr (n_in_topics info) (nd_subs (sn_node s))\<rparr>\<rparr>) (n_splats info)"

definition splat_store_info :: "('b, 'u) node_env \<Rightarrow> splat_sys \<Rightarrow> node_info \<Rightarrow> ('b, 'u) splat_node \<Rightarrow>
    ('b, 'u) splat_node exec" where
  "splat_store_info env sys info s =
     exec_bind (case map_of (nd_latest (sn_node s)) (n_id info) of
                  Some old \<Rightarrow> splat_untally env sys old s
                | None \<Rightarrow> Inr s) (\<lambda>s1.
       splat_tally env sys info
         (s1\<lparr>sn_node := (sn_node s1)\<lparr>nd_latest := AList.update (n_id info) info (nd_latest (sn_node s1))\<rparr>\<rparr>))"

definition splat_internal_handler :: "('b, 'u) node_env \<Rightarrow> splat_sys \<Rightarrow> 'b packet \<Rightarrow> ('b, 'u) splat_node \<Rightarrow>
    (void_result \<times> ('b, 'u) splat_node) exec" where
  "splat_internal_handler env sys p s =
     (let n1 = update_time env (sn_node s);
          n2 = (if later (packet_stamp p) (nd_time n1) then n1\<lparr>nd_time := packet_stamp p\<rparr> else n1)
      in case p_msg p of
           None \<Rightarrow> Inl Null_deref
         | Some doc \<Rightarrow>
             let info = (case info_unbind (ne_lib env) doc of Some i \<Rightarrow> i | None \<Rightarrow> info_default (ne_lib env))
             in if n_id info = nd_id n2 then Inr (success, s\<lparr>sn_node := n2\<rparr>)
                else exec_bind (splat_store_info env sys info (s\<lparr>sn_node := n2\<rparr>)) (\<lambda>s'. Inr (success, s')))"

subsection \<open>The splats of this node\<close>

text \<open>
  \<open>push_splat\<close> tells the network of a new splat with \<open>send_info\<close>, which delivers to remotes
  again; \<open>tell\<close> is that call. A first document's length is doubled at 32 bits.
\<close>

definition push_at :: "('b, 'u) node_env \<Rightarrow> 'b packet \<Rightarrow> nat \<Rightarrow> ('b, 'u) splat_node \<Rightarrow> ('b, 'u) splat_node exec" where
  "push_at env p a s =
     exec_bind (load (sn_splat_at s) a) (\<lambda>sp.
     exec_bind (push_start (ne_dbg env) (ne_lib env) p sp) (\<lambda>(sp1, pc).
     exec_bind (backing s sp1) (\<lambda>(name, f).
     exec_bind (splat_finish splat_steps (ne_lib env) (ne_junk env) sp1 pc f) (\<lambda>(sp2, f').
       Inr (s\<lparr>sn_splat_at := (sn_splat_at s)(a \<mapsto> sp2), sn_files := (sn_files s)(name \<mapsto> f')\<rparr>)))))"

definition push_splat :: "(('b, 'u) splat_node \<Rightarrow> ('b, 'u) splat_node exec) \<Rightarrow> ('b, 'u) node_env \<Rightarrow> splat_sys \<Rightarrow>
    'b packet \<Rightarrow> ('b, 'u) splat_node \<Rightarrow> (void_result \<times> ('b, 'u) splat_node) exec" where
  "push_splat tell env sys p s =
     (let t = m_topic (p_meta p) in
      if nd_subs (sn_node s) t = None \<or> nd_subs (sn_node s) t = Some 0 then Inr (success, s)
      else case map_of (sn_splats s) t of
        Some a \<Rightarrow> exec_bind (push_at env p a s) (\<lambda>s'. Inr (success, s'))
      | None \<Rightarrow>
          (case p_packed p of
             None \<Rightarrow> Inl Null_deref
           | Some doc \<Rightarrow>
               let a = sn_calls s; len = word_of_nat (length (bson_data (ne_lib env) doc)) :: u32 in
               case splat_create (sy_open sys a) (sy_mmap sys a) (ucast (push_bit 1 len))
                      (splat_new (ne_lib env) (ne_junk env) (nd_id (sn_node s)) t) (sn_files s) of
                 (ret, sp, files) \<Rightarrow>
                   let s1 = s\<lparr>sn_splat_at := (sn_splat_at s)(a \<mapsto> sp), sn_files := files, sn_calls := Suc a\<rparr> in
                   if \<not> to_bool ret then Inr (ret, s1)
                   else exec_bind (tell (s1\<lparr>sn_splats := sn_splats s1 @ [(t, a)]\<rparr>)) (\<lambda>s2.
                        exec_bind (push_at env p a s2) (\<lambda>s3. Inr (success, s3)))))"

text \<open>\<open>remote_node::send\<close>: a splattable packet stays off the link.\<close>

definition splattable :: "'b packet \<Rightarrow> ('b, 'u) node \<Rightarrow> bool" where
  "splattable p n \<longleftrightarrow> m_droppable (p_meta p) \<and> m_origin_id (p_meta p) = nd_id n"

definition splat_remote_send :: "(('b, 'u) splat_node \<Rightarrow> ('b, 'u) splat_node exec) \<Rightarrow> ('b, 'u) node_env \<Rightarrow> splat_sys \<Rightarrow>
    u64 \<Rightarrow> 'b packet \<Rightarrow> ('b, 'u) splat_node \<Rightarrow> (void_result \<times> ('b, 'u) splat_node) exec" where
  "splat_remote_send tell env sys r p s =
     (let n = sn_node s in
      if p_local_only p then Inr (success, s)
      else exec_bind (load (nd_remote_at n) r) (\<lambda>rn.
        if \<not> wanted n rn (m_topic (p_meta p)) then Inr (success, s)
        else let q = stamped (ne_lib env) (nd_id n) (packet_copy p) in
          if splattable p n then exec_bind (push_splat tell env sys q s) (\<lambda>(ret, s'). Inr (success, s'))
          else exec_bind (thread_send (ne_dbg env) (rn_link rn) q (nd_thread n)) (\<lambda>(ret, t).
            Inr (ret, s\<lparr>sn_node := n\<lparr>nd_thread := t\<rparr>\<rparr>))))"

fun splat_run :: "(('b, 'u) splat_node \<Rightarrow> ('b, 'u) splat_node exec) \<Rightarrow> ('b, 'u) node_env \<Rightarrow> splat_sys \<Rightarrow>
    node_cb \<Rightarrow> 'b packet \<Rightarrow> ('b, 'u) splat_node \<Rightarrow> (void_result \<times> ('b, 'u) splat_node) exec" where
  "splat_run tell env sys Internal_cb p s = splat_internal_handler env sys p s"
| "splat_run tell env sys (Remote_cb r) p s = splat_remote_send tell env sys r p s"
| "splat_run tell env sys (Subscriber_cb a cb arg) p s = on_node (subscriber_handler env a cb arg p) s"

definition splat_mail :: "(('b, 'u) splat_node \<Rightarrow> ('b, 'u) splat_node exec) \<Rightarrow> ('b, 'u) node_env \<Rightarrow> splat_sys \<Rightarrow>
    u64 \<Rightarrow> 'b packet \<Rightarrow> ('b, 'u) splat_node \<Rightarrow> (void_result \<times> ('b, 'u) splat_node) exec" where
  "splat_mail tell env sys a p s = place_outgoing_mail (splat_run tell env sys) (nd_dave (sn_node s)) a p s"

text \<open>\<open>info\<close> lists the node's splats, and \<open>send_info\<close> sends it.\<close>

definition splat_info_of :: "('b, 'u) node_env \<Rightarrow> ('b, 'u) splat_node \<Rightarrow> node_info exec" where
  "splat_info_of env s =
     exec_bind (node_info_of env (sn_node s)) (\<lambda>ret.
     exec_bind (exec_map (\<lambda>e. exec_bind (load (sn_splat_at s) (snd e)) (\<lambda>sp.
         Inr \<lparr>splat_node_id = nd_id (sn_node s), splat_topic = sp_topic sp, splat_size = ucast (sp_size sp)\<rparr>)) (sn_splats s))
       (\<lambda>infos. Inr (ret\<lparr>n_splats := n_splats ret @ infos\<rparr>)))"

definition splat_send_one :: "(('b, 'u) splat_node \<Rightarrow> ('b, 'u) splat_node exec) \<Rightarrow> ('b, 'u) node_env \<Rightarrow> splat_sys \<Rightarrow>
    node_info \<Rightarrow> ('b, 'u) splat_node \<Rightarrow> ('b, 'u) splat_node exec" where
  "splat_send_one tell env sys info s =
     exec_bind (splat_mail tell env sys (nd_box (sn_node s))
         (packet_new (ne_lib env) topic_internal (nd_time (sn_node s)) (Some (info_bind (ne_lib env) info)) True) s)
       (\<lambda>(r, s'). Inr s')"

definition splat_send_info_with :: "(('b, 'u) splat_node \<Rightarrow> ('b, 'u) splat_node exec) \<Rightarrow> ('b, 'u) node_env \<Rightarrow> splat_sys \<Rightarrow>
    bool \<Rightarrow> ('b, 'u) splat_node \<Rightarrow> ('b, 'u) splat_node exec" where
  "splat_send_info_with tell env sys include_dead s =
     (let s1 = s\<lparr>sn_node := update_time env (sn_node s)\<rparr> in
      exec_bind (splat_info_of env s1) (\<lambda>info.
      exec_bind (splat_send_one tell env sys info s1) (\<lambda>s2.
        exec_foldl (\<lambda>s peer.
            if \<not> include_dead \<and> \<not> n_alive (snd peer) then Inr s else splat_send_one tell env sys (snd peer) s)
          s2 (nd_latest (sn_node s2)))))"

text \<open>
  The packets of \<open>send_info\<close> are not droppable, so no call of it is nested in another
  (\<open>splat_send_info_unfold\<close> below).
\<close>

definition splat_send_info :: "('b, 'u) node_env \<Rightarrow> splat_sys \<Rightarrow> bool \<Rightarrow> ('b, 'u) splat_node \<Rightarrow> ('b, 'u) splat_node exec" where
  "splat_send_info env sys = splat_send_info_with (\<lambda>_. Inl Diverges) env sys"

definition splat_node_mail :: "('b, 'u) node_env \<Rightarrow> splat_sys \<Rightarrow> u64 \<Rightarrow> 'b packet \<Rightarrow> ('b, 'u) splat_node \<Rightarrow>
    (void_result \<times> ('b, 'u) splat_node) exec" where
  "splat_node_mail env sys = splat_mail (splat_send_info env sys False) env sys"

subsection \<open>Reading the splats of others\<close>

definition poll_at :: "('b, 'u) node_env \<Rightarrow> nat \<Rightarrow> ('b, 'u) splat_node \<Rightarrow> ('b packet \<times> ('b, 'u) splat_node) exec" where
  "poll_at env a s =
     exec_bind (load (sn_splat_at s) a) (\<lambda>sp.
     exec_bind (poll_start (ne_dbg env) sp) (\<lambda>(sp1, pc).
     exec_bind (backing s sp1) (\<lambda>(name, f).
     exec_bind (splat_finish splat_steps (ne_lib env) (ne_junk env) sp1 pc f) (\<lambda>(sp2, f').
       Inr (sp_latest sp2, s\<lparr>sn_splat_at := (sn_splat_at s)(a \<mapsto> sp2), sn_files := (sn_files s)(name \<mapsto> f')\<rparr>)))))"

definition update_splat :: "('b, 'u) node_env \<Rightarrow> splat_sys \<Rightarrow> ('b, 'u) splat_node \<Rightarrow> topic \<times> nat \<Rightarrow>
    ('b, 'u) splat_node exec" where
  "update_splat env sys s e =
     exec_bind (load (sn_splat_at s) (snd e)) (\<lambda>sp.
     exec_bind (cassert (ne_dbg env) (sp_mode sp = Sub)) (\<lambda>_.
     exec_bind (backing s sp) (\<lambda>(name, f).
     exec_bind (update_available (ne_dbg env) sp f) (\<lambda>available.
       if \<not> available then Inr s
       else if nd_local (sn_node s) (sp_topic sp) = None then Inr s
       else exec_bind (poll_at env (snd e) s) (\<lambda>(latest, s1).
            exec_bind (splat_node_mail env sys (nd_box (sn_node s1)) latest s1) (\<lambda>(ret, s2). Inr s2))))))"

definition update_splats :: "('b, 'u) node_env \<Rightarrow> splat_sys \<Rightarrow> ('b, 'u) splat_node \<Rightarrow> ('b, 'u) splat_node exec" where
  "update_splats env sys s = exec_foldl (update_splat env sys) s (sn_remote_splats s)"

definition is_only_splat :: "topic \<Rightarrow> bool" where
  "is_only_splat t = False"

text \<open>\<open>remote_node::spin_update\<close>.\<close>

definition splat_remote_take :: "('b, 'u) node_env \<Rightarrow> splat_sys \<Rightarrow> u64 \<Rightarrow> ('b, 'u) splat_node \<Rightarrow>
    (bool \<times> ('b, 'u) splat_node) exec" where
  "splat_remote_take env sys r s =
     (let n = sn_node s in
      exec_bind (load (nd_remote_at n) r) (\<lambda>rn.
      exec_bind (next_packet (ne_dbg env) (packet_null (ne_lib env) (ne_junk env)) (rn_link rn) (nd_thread n)) (\<lambda>(p, t).
        let n1 = n\<lparr>nd_thread := t\<rparr> in
        if p_null p then Inr (False, s\<lparr>sn_node := n1\<rparr>)
        else if seen (nd_id n1) p then Inr (True, s\<lparr>sn_node := n1\<rparr>)
        else exec_bind (splat_node_mail env sys r p
               (s\<lparr>sn_node := n1\<lparr>nd_remote_at := (nd_remote_at n1)(r \<mapsto> rn\<lparr>rn_ids := insert (m_id (p_meta p)) (rn_ids rn)\<rparr>)\<rparr>\<rparr>))
             (\<lambda>(ret, s2). Inr (True, s2)))))"

fun splat_remote_loop :: "('b, 'u) node_env \<Rightarrow> splat_sys \<Rightarrow> u64 \<Rightarrow> nat \<Rightarrow> ('b, 'u) splat_node \<Rightarrow> ('b, 'u) splat_node exec" where
  "splat_remote_loop env sys r 0 s = Inr s"
| "splat_remote_loop env sys r (Suc k) s =
     exec_bind (splat_remote_take env sys r s) (\<lambda>(more, s'). if more then splat_remote_loop env sys r k s' else Inr s')"

definition splat_remote_spin_update :: "('b, 'u) node_env \<Rightarrow> splat_sys \<Rightarrow> u64 \<Rightarrow> ('b, 'u) splat_node \<Rightarrow>
    (void_result \<times> ('b, 'u) splat_node) exec" where
  "splat_remote_spin_update env sys r s =
     exec_bind (update_splats env sys s) (\<lambda>s1.
     exec_bind (load (nd_remote_at (sn_node s1)) r) (\<lambda>rn.
     exec_bind (splat_remote_loop env sys r (Suc (length (in_queue (rn_link rn) (sn_node s1)))) s1) (\<lambda>s2. Inr (success, s2))))"

subsection \<open>Publishing and stopping\<close>

definition splat_publish :: "('b, 'u) node_env \<Rightarrow> splat_sys \<Rightarrow> nat \<Rightarrow> 'b packet \<Rightarrow> ('b, 'u) splat_node \<Rightarrow>
    (void_result \<times> ('b, 'u) splat_node) exec" where
  "splat_publish env sys a p s =
     exec_bind (load (nd_pub_at (sn_node s)) a) (\<lambda>pb.
       if pb_husk pb then Inl Null_deref
       else case pb_box pb of
              None \<Rightarrow> Inl Null_deref
            | Some b \<Rightarrow> splat_node_mail env sys b (published env pb p (sn_node s)) s)"

text \<open>\<open>stop\<close> deletes the splats and leaves the tables as they are.\<close>

definition splat_stop :: "('b, 'u) node_env \<Rightarrow> splat_sys \<Rightarrow> nat \<Rightarrow> ('b, 'u) splat_node \<Rightarrow>
    (void_result \<times> ('b, 'u) splat_node) exec" where
  "splat_stop env sys this s =
     exec_bind (on_node (stop_gateway_service this) s) (\<lambda>(_, s0).
     let s1 = s0\<lparr>sn_node := (sn_node s0)\<lparr>nd_dave := mailman_clear (nd_dave (sn_node s0))\<rparr>\<rparr> in
     exec_bind (exec_foldl (\<lambda>s e. delete_at env sys (snd e) s) s1 (sn_splats s1)) (\<lambda>s2.
     exec_bind (exec_foldl (\<lambda>s e. delete_at env sys (snd e) s) s2 (sn_remote_splats s2)) (\<lambda>s3.
       on_node (node_dismantle env) s3)))"

definition splat_node_destroy :: "('b, 'u) node_env \<Rightarrow> splat_sys \<Rightarrow> nat \<Rightarrow> ('b, 'u) splat_node \<Rightarrow> ('b, 'u) splat_node exec" where
  "splat_node_destroy env sys this s =
     exec_bind (splat_stop env sys this (s\<lparr>sn_node := (sn_node s)\<lparr>nd_thread := thread_exit (nd_thread (sn_node s))\<rparr>\<rparr>))
       (\<lambda>(_, s'). Inr s')"

subsection \<open>A push and a poll from start to end\<close>

text \<open>Running alone is one way to run between others.\<close>

lemma splat_finish_runs:
  assumes "splat_finish k lib junk sp pc f = Inr (sp', f')"
  shows "\<exists>log'. (splat_step dbg lib junk)\<^sup>*\<^sup>* (put_proc i sp pc f log s) (put_proc i sp' Idle f' log' s)"
  using assms
proof (induction k arbitrary: sp pc f log)
  case (Suc k)
  show ?case
  proof (cases "pc = Idle")
    case False
    then obtain sp1 pc1 f1 where a: "splat_advance lib junk sp pc f = Some (Inr (sp1, pc1, f1))"
        "splat_finish k lib junk sp1 pc1 f1 = Inr (sp', f')"
      using Suc.prems by (auto simp: exec_simps split: option.splits)
    from Suc.IH [OF a(2)] show ?thesis using rtranclp_trans [OF advance_put [OF a(1)]] by blast
  qed (use Suc.prems in auto)
qed simp

definition written :: "u32 \<Rightarrow> byte list \<Rightarrow> splat_data \<Rightarrow> splat_data" where
  "written v d f = f\<lparr>sd_version := v, sd_size := word_of_nat (length d), sd_data := d @ drop (length d) (sd_data f)\<rparr>"

lemma finish_push:
  assumes "\<not> sd_locked f" and "length d \<le> length (sd_data f)"
  shows "splat_finish splat_steps lib junk sp (Push_lock d) f = Inr (sp, written (sp_current_version sp) d f)"
  using assms by (simp add: splat_steps_def eval_nat_numeral splat_advance_def written_def)

lemma finish_poll:
  assumes "\<not> sd_locked f" and "unat (sd_size f) \<le> length (sd_data f)"
    and "bson_read lib (take (unat (sd_size f)) (sd_data f)) = Some doc" and "packet_of_packed lib junk (Some doc) = Inr q"
  shows "splat_finish splat_steps lib junk sp Poll_lock f =
    Inr (sp\<lparr>sp_current_version := sd_version f, sp_latest := set_local_only True q\<rparr>, f)"
  using assms by (simp add: splat_steps_def eval_nat_numeral splat_advance_def bson_of_const_def)

text \<open>What a document leaves in a file it fits into, a poll reads.\<close>

lemma written_simps [simp]:
  "sd_version (written v d f) = v" "sd_locked (written v d f) = sd_locked f"
  "length d \<le> length (sd_data f) \<Longrightarrow> length (sd_data (written v d f)) = length (sd_data f)"
  "take (length d) (sd_data (written v d f)) = d"
  by (simp_all add: written_def)

lemma written_size [simp]: "length d < 2 ^ 31 \<Longrightarrow> unat (sd_size (written v d f)) = length d"
  by (simp add: written_def unat_of_nat take_bit_nat_eq_self)

lemma written_size_0: "0 < length d \<Longrightarrow> length d < 2 ^ 31 \<Longrightarrow> sd_size (written v d f) \<noteq> 0"
  using written_size [of d v f] by (metis less_numeral_extra(3) unat_0)

text \<open>A cell of one of the tables: a live object of the entry's topic with a mapped file.\<close>

definition cell_ok :: "('b, 'u) splat_node \<Rightarrow> splat_mode \<Rightarrow> topic \<times> nat \<Rightarrow> bool" where
  "cell_ok s m e \<longleftrightarrow> snd e < sn_calls s \<and>
     (\<exists>sp name f. sn_splat_at s (snd e) = Some sp \<and> sp_topic sp = fst e \<and> sp_mode sp = m \<and> 0 \<le> sp_fd sp \<and>
        sp_backing sp = Some name \<and> sn_files s name = Some f)"

definition splats_ok :: "('b, 'u) splat_node \<Rightarrow> bool" where
  "splats_ok s \<longleftrightarrow> distinct (map fst (sn_splats s)) \<and> distinct (map fst (sn_remote_splats s)) \<and>
     distinct (map snd (sn_splats s @ sn_remote_splats s)) \<and>
     (\<forall>e \<in> set (sn_splats s). cell_ok s Pub e) \<and> (\<forall>e \<in> set (sn_remote_splats s). cell_ok s Sub e)"

lemma splats_okD:
  assumes "splats_ok s"
  shows "distinct (map fst (sn_splats s))" "distinct (map fst (sn_remote_splats s))"
    "distinct (map snd (sn_splats s @ sn_remote_splats s))"
    "e \<in> set (sn_splats s) \<Longrightarrow> cell_ok s Pub e" "e \<in> set (sn_remote_splats s) \<Longrightarrow> cell_ok s Sub e"
  using assms by (auto simp: splats_ok_def)

text \<open>Other objects, more files and more calls leave a cell as it is.\<close>

definition grows :: "nat set \<Rightarrow> ('b, 'u) splat_node \<Rightarrow> ('b, 'u) splat_node \<Rightarrow> bool" where
  "grows A s s' \<longleftrightarrow> sn_calls s \<le> sn_calls s' \<and> dom (sn_files s) \<subseteq> dom (sn_files s') \<and>
     (\<forall>a. a \<notin> A \<longrightarrow> a < sn_calls s \<longrightarrow> sn_splat_at s' a = sn_splat_at s a)"

lemma cell_ok_tables [simp]:
  "cell_ok (s\<lparr>sn_remote_splats := al\<rparr>) = cell_ok s" "cell_ok (s\<lparr>sn_splats := al\<rparr>) = cell_ok s"
  "cell_ok (s\<lparr>sn_node := n\<rparr>) = cell_ok s"
  by (simp_all add: cell_ok_def fun_eq_iff)

lemma growsD:
  assumes "grows A s s'"
  shows "sn_calls s \<le> sn_calls s'" "sn_files s name = Some f \<Longrightarrow> \<exists>f'. sn_files s' name = Some f'"
    "a \<notin> A \<Longrightarrow> a < sn_calls s \<Longrightarrow> sn_splat_at s' a = sn_splat_at s a"
  using assms by (auto simp: grows_def dom_def)

lemma grows_cell:
  assumes "grows A s s'" and "cell_ok s m e" and "snd e \<notin> A"
  shows "cell_ok s' m e"
proof -
  obtain sp name f where "snd e < sn_calls s" "sn_splat_at s (snd e) = Some sp" "sp_topic sp = fst e" "sp_mode sp = m"
      "0 \<le> sp_fd sp" "sp_backing sp = Some name" "sn_files s name = Some f"
    using assms(2) unfolding cell_ok_def by blast
  moreover from growsD(2) [OF assms(1) this(7)] obtain f' where "sn_files s' name = Some f'" by blast
  ultimately show ?thesis using growsD(1) [OF assms(1)] growsD(3) [OF assms(1,3)] unfolding cell_ok_def by simp
qed

lemma grows_trans:
  assumes "grows A s s'" and "grows B s' s''"
  shows "grows (A \<union> B) s s''"
proof -
  have "sn_splat_at s'' a = sn_splat_at s a" if "a \<notin> A \<union> B" "a < sn_calls s" for a
    using growsD(3) [OF assms(1), of a] growsD(3) [OF assms(2), of a] growsD(1) [OF assms(1)] that by simp
  then show ?thesis using assms unfolding grows_def by (blast intro: order_trans)
qed

lemma grows_refl [simp]: "grows A s s"
  by (simp add: grows_def)

lemma splats_ok_node [simp]: "splats_ok (s\<lparr>sn_node := n\<rparr>) = splats_ok s"
  by (simp add: splats_ok_def)

lemma grows_node [simp]: "grows A s (s'\<lparr>sn_node := n\<rparr>) = grows A s s'" "grows A (s\<lparr>sn_node := n\<rparr>) s' = grows A s s'"
  by (simp_all add: grows_def)

subsection \<open>Registering and unregistering\<close>

text \<open>Closing and deleting the object of an entry and erasing the entry, as both calls do.\<close>

lemma drop_cell:
  assumes ok: "splats_ok s" and a: "map_of (sn_remote_splats s) t = Some a"
  obtains s1 s2 where "close_at env sys a s = Inr s1" and "delete_at env sys a s1 = Inr s2"
    and "splats_ok (s2\<lparr>sn_remote_splats := AList.delete t (sn_remote_splats s2)\<rparr>)" and "sn_node s2 = sn_node s"
    and "sn_splats s2 = sn_splats s" and "sn_remote_splats s2 = sn_remote_splats s" and "grows {a} s s2"
    and "sn_files s2 = sn_files s"
proof -
  have e: "(t, a) \<in> set (sn_remote_splats s)" by (rule map_of_SomeD [OF a])
  obtain sp where sp: "sn_splat_at s a = Some sp" "sp_mode sp = Sub" "0 \<le> sp_fd sp" "sp_backing sp \<noteq> None" "a < sn_calls s"
    using splats_okD(5) [OF ok e] by (auto simp: cell_ok_def)
  let ?k = "sy_munmap sys (sn_calls s)"
  obtain ret sp' where c: "splat_close (ne_dbg env) ?k sp = Inr (ret, sp')" "sp_mode sp' = Off"
    using sp by (cases ?k) (simp_all add: splat_close_def splat_unmap_def not_less [symmetric])
  define s1 where "s1 = s\<lparr>sn_splat_at := (sn_splat_at s)(a \<mapsto> sp'), sn_calls := Suc (sn_calls s)\<rparr>"
  define s2 where "s2 = s1\<lparr>sn_splat_at := (sn_splat_at s1)(a := None), sn_calls := Suc (sn_calls s1)\<rparr>"
  have g: "grows {a} s s2" by (auto simp: grows_def s1_def s2_def)
  let ?s = "s2\<lparr>sn_remote_splats := AList.delete t (sn_remote_splats s2)\<rparr>"
  have same: "sn_splats s2 = sn_splats s" "sn_remote_splats s2 = sn_remote_splats s" "sn_node s2 = sn_node s" "sn_files s2 = sn_files s"
    by (simp_all add: s1_def s2_def)
  have "snd x \<noteq> a" if "x \<in> set (sn_splats s) \<or> x \<in> set (sn_remote_splats s) \<and> fst x \<noteq> t" for x
  proof -
    have "distinct (map snd (sn_splats s @ sn_remote_splats s))" by (rule splats_okD(3) [OF ok])
    then have "x = (t, a)" if "snd x = a" "x \<in> set (sn_splats s @ sn_remote_splats s)"
      using e that inj_onD [of snd "set (sn_splats s @ sn_remote_splats s)" x "(t, a)"] by (simp only: distinct_map) auto
    moreover have "(t, a) \<notin> set (sn_splats s)" using splats_okD(3) [OF ok] e by force
    ultimately show ?thesis using that by (cases x) auto
  qed
  then have "\<forall>x \<in> set (sn_splats s). cell_ok s2 Pub x" "\<forall>x \<in> set (sn_remote_splats s). fst x \<noteq> t \<longrightarrow> cell_ok s2 Sub x"
    using splats_okD(4,5) [OF ok] grows_cell [OF g] by blast+
  moreover have "distinct (map snd (sn_splats s @ AList.delete t (sn_remote_splats s)))"
    using splats_okD(3) [OF ok] by (auto simp: AList.delete_eq distinct_map inj_on_def)
  ultimately have "splats_ok ?s"
    using splats_okD(1,2) [OF ok] by (simp add: splats_ok_def same alist_simps del: split_paired_All)
  moreover have "close_at env sys a s = Inr s1" "delete_at env sys a s1 = Inr s2"
    using sp(1) c by (simp_all add: close_at_def delete_at_def s1_def s2_def splat_destroy_def)
  ultimately show thesis using that g same by blast
qed

lemma unregister_splat_ok:
  assumes ok: "splats_ok s"
  shows "\<exists>ret s'. unregister_splat env sys info s = Inr (ret, s') \<and> splats_ok s' \<and> sn_node s' = sn_node s \<and>
    sn_splats s' = sn_splats s \<and> grows (snd ` set (sn_remote_splats s)) s s' \<and>
    sn_remote_splats s' = AList.delete (splat_topic info) (sn_remote_splats s) \<and> sn_files s' = sn_files s"
proof (cases "map_of (sn_remote_splats s) (splat_topic info)")
  case None
  then have "splat_topic info \<notin> fst ` set (sn_remote_splats s)" by (simp add: map_of_eq_None_iff)
  then have "AList.delete (splat_topic info) (sn_remote_splats s) = sn_remote_splats s"
    by (force simp: AList.delete_eq filter_id_conv)
  then show ?thesis using ok None by (simp add: unregister_splat_def)
next
  case (Some a)
  obtain s1 s2 where d: "close_at env sys a s = Inr s1" "delete_at env sys a s1 = Inr s2"
      "splats_ok (s2\<lparr>sn_remote_splats := AList.delete (splat_topic info) (sn_remote_splats s2)\<rparr>)" "sn_node s2 = sn_node s"
      "sn_splats s2 = sn_splats s" "sn_remote_splats s2 = sn_remote_splats s" "grows {a} s s2" "sn_files s2 = sn_files s"
    by (rule drop_cell [OF ok Some])
  have "a \<in> snd ` set (sn_remote_splats s)" using map_of_SomeD [OF Some] by force
  then have "grows (snd ` set (sn_remote_splats s)) s s2" using d(7) unfolding grows_def by blast
  then have "grows (snd ` set (sn_remote_splats s)) s
      (s2\<lparr>sn_remote_splats := AList.delete (splat_topic info) (sn_remote_splats s2)\<rparr>)" by (simp add: grows_def)
  then show ?thesis using d by (simp add: unregister_splat_def Some)
qed

lemma to_bool_simps [simp]: "to_bool (failure m c :: void_result) = False" "to_bool success"
  by (simp_all add: to_bool_def failure_def success_def result_of_message_def result_of_value_def)

lemma splat_new_simps [simp]:
  "sp_topic (splat_new lib junk i t) = t" "sp_mode (splat_new lib junk i t) = Off" "sp_node_id (splat_new lib junk i t) = i"
  "sp_backing (splat_new lib junk i t) = None" "sp_fd (splat_new lib junk i t) = -1" "sp_current_version (splat_new lib junk i t) = 0"
  by (simp_all add: splat_new_def)

text \<open>A new object, connected to the file of its node and topic.\<close>

lemma connect_new:
  "splat_connect r ok sz (splat_new lib junk i t) files =
    (if r < 0 then (failure (''Failed to create '' @ splat_file i t) 0, (splat_new lib junk i t)\<lparr>sp_fd := r\<rparr>, files)
     else if \<not> ok then (failure (''Failed to memory map file '' @ splat_file i t) 0, splat_new lib junk i t, files(splat_file i t \<mapsto> zeroed sz))
     else (success, (splat_new lib junk i t)\<lparr>sp_fd := r, sp_backing := Some (splat_file i t), sp_size := sz, sp_mode := Sub\<rparr>,
       files(splat_file i t \<mapsto> zeroed sz)))"
  by (simp add: splat_connect_def splat_map_def splat_new_def Let_def)

lemma add_cell:
  assumes ok: "splats_ok s" and t: "t \<notin> fst ` set (sn_remote_splats s)"
    and sp: "sp_topic sp = t" "sp_mode sp = Sub" "0 \<le> sp_fd sp" "sp_backing sp = Some name" "files name = Some f"
      "dom (sn_files s) \<subseteq> dom files" and a: "a = sn_calls s"
  shows "splats_ok (s\<lparr>sn_splat_at := (sn_splat_at s)(a \<mapsto> sp), sn_files := files, sn_calls := Suc a,
    sn_remote_splats := sn_remote_splats s @ [(t, a)]\<rparr>)"
proof -
  define s1 where "s1 = s\<lparr>sn_splat_at := (sn_splat_at s)(a \<mapsto> sp), sn_files := files, sn_calls := Suc a\<rparr>"
  have g: "grows {} s s1" using sp(6) a by (auto simp: grows_def s1_def)
  have below: "snd e < a" if "e \<in> set (sn_splats s @ sn_remote_splats s)" for e
    using that splats_okD(4,5) [OF ok, of e] unfolding cell_ok_def a by auto
  have new: "cell_ok s1 Sub (t, a)" using sp by (simp add: cell_ok_def s1_def)
  have "\<forall>e \<in> set (sn_splats s). cell_ok s1 Pub e" "\<forall>e \<in> set (sn_remote_splats s). cell_ok s1 Sub e"
    using splats_okD(4,5) [OF ok] grows_cell [OF g] by blast+
  moreover have "a \<notin> snd ` set (sn_splats s @ sn_remote_splats s)" using below by force
  ultimately have "splats_ok (s1\<lparr>sn_remote_splats := sn_remote_splats s @ [(t, a)]\<rparr>)"
    using splats_okD(1-3) [OF ok] t new by (simp add: splats_ok_def s1_def [symmetric] del: split_paired_All) (simp add: s1_def image_Un)
  then show ?thesis by (simp add: s1_def)
qed

lemma splats_ok_grows:
  assumes "splats_ok s" and "grows {} s s'" and "sn_splats s' = sn_splats s" and "sn_remote_splats s' = sn_remote_splats s"
  shows "splats_ok s'"
proof -
  have "\<forall>e \<in> set (sn_splats s). cell_ok s' Pub e" "\<forall>e \<in> set (sn_remote_splats s). cell_ok s' Sub e"
    using splats_okD(4,5) [OF assms(1)] grows_cell [OF assms(2)] by blast+
  then show ?thesis using splats_okD(1-3) [OF assms(1)] assms(3,4) by (simp add: splats_ok_def)
qed

lemma keys_delete: "fst ` set (AList.delete t al) = fst ` set al - {t}"
  by (force simp: AList.delete_eq)

abbreviation registered :: "('b, 'u) splat_node \<Rightarrow> topic set" where
  "registered s \<equiv> fst ` set (sn_remote_splats s)"

text \<open>What neither call touches.\<close>

definition keeps_own :: "('b, 'u) splat_node \<Rightarrow> ('b, 'u) splat_node \<Rightarrow> bool" where
  "keeps_own s s' \<longleftrightarrow> splats_ok s' \<and> sn_splats s' = sn_splats s \<and>
     (\<forall>e \<in> set (sn_splats s). sn_splat_at s' (snd e) = sn_splat_at s (snd e))"

lemma keeps_own_refl: "splats_ok s \<Longrightarrow> keeps_own s s"
  by (simp add: keeps_own_def)

lemma keeps_own_trans: "keeps_own s s' \<Longrightarrow> keeps_own s' s'' \<Longrightarrow> keeps_own s s''"
  by (simp add: keeps_own_def)

lemma keeps_own_node [simp]: "keeps_own s (s'\<lparr>sn_node := n\<rparr>) = keeps_own s s'" "keeps_own (s\<lparr>sn_node := n\<rparr>) s' = keeps_own s s'"
  by (simp_all add: keeps_own_def)

lemma grows_keeps_own:
  assumes "splats_ok s" and "grows (snd ` set (sn_remote_splats s)) s s'" and "splats_ok s'" and "sn_splats s' = sn_splats s"
  shows "keeps_own s s'"
proof -
  have "sn_splat_at s' (snd e) = sn_splat_at s (snd e)" if "e \<in> set (sn_splats s)" for e
  proof (rule growsD(3) [OF assms(2)])
    show "snd e \<notin> snd ` set (sn_remote_splats s)" using splats_okD(3) [OF assms(1)] that by auto
    show "snd e < sn_calls s" using splats_okD(4) [OF assms(1) that] by (simp add: cell_ok_def)
  qed
  then show ?thesis using assms(3,4) by (simp add: keeps_own_def)
qed

definition sys_works :: "splat_sys \<Rightarrow> bool" where
  "sys_works sys \<longleftrightarrow> (\<forall>k. 0 \<le> sy_open sys k \<and> sy_mmap sys k)"

lemma register_splat_ok:
  assumes ok: "splats_ok s"
  shows "\<exists>ret s'. register_splat env sys info s = Inr (ret, s') \<and> keeps_own s s' \<and> sn_node s' = sn_node s \<and>
    registered s' = (if to_bool ret then insert (splat_topic info) (registered s) else registered s - {splat_topic info}) \<and>
    (sys_works sys \<longrightarrow> to_bool ret)"
proof -
  let ?t = "splat_topic info"
  let ?pre = "case map_of (sn_remote_splats s) ?t of
                  None \<Rightarrow> Inr s
                | Some a \<Rightarrow>
                    exec_bind (load (sn_splat_at s) a) (\<lambda>sp.
                    exec_bind (if sp_mode sp \<noteq> Off then close_at env sys a s else Inr s) (\<lambda>s1.
                    exec_bind (delete_at env sys a s1) (\<lambda>s2.
                      Inr (s2\<lparr>sn_remote_splats := AList.delete ?t (sn_remote_splats s2)\<rparr>))))"
  have "\<exists>s1. ?pre = Inr s1 \<and> splats_ok s1 \<and> sn_node s1 = sn_node s \<and> sn_splats s1 = sn_splats s \<and>
      grows (snd ` set (sn_remote_splats s)) s s1 \<and> registered s1 = registered s - {?t} \<and> ?t \<notin> registered s1"
  proof (cases "map_of (sn_remote_splats s) ?t")
    case None
    then have "?t \<notin> registered s" by (simp add: map_of_eq_None_iff)
    then show ?thesis using ok None by auto
  next
    case (Some a)
    have e: "(?t, a) \<in> set (sn_remote_splats s)" by (rule map_of_SomeD [OF Some])
    obtain sp where sp: "sn_splat_at s a = Some sp" "sp_mode sp = Sub"
      using splats_okD(5) [OF ok e] by (auto simp: cell_ok_def)
    have "unregister_splat env sys info s = exec_bind ?pre (\<lambda>s1. Inr (success, s1))"
      using sp by (simp add: unregister_splat_def Some exec_bind_assoc)
    with unregister_splat_ok [OF ok, of env sys info] show ?thesis by (auto simp: exec_simps keys_delete)
  qed
  then obtain s1 where pre: "?pre = Inr s1" and s1: "splats_ok s1" "sn_node s1 = sn_node s" "sn_splats s1 = sn_splats s"
      "grows (snd ` set (sn_remote_splats s)) s s1" "registered s1 = registered s - {?t}" "?t \<notin> registered s1"
    by blast
  let ?a = "sn_calls s1" and ?sp = "splat_new (ne_lib env) (ne_junk env) (splat_node_id info) ?t"
  obtain ret sp files where c: "splat_connect (sy_open sys ?a) (sy_mmap sys ?a) (ucast (splat_size info)) ?sp (sn_files s1) = (ret, sp, files)"
    by (metis prod_cases3)
  have files: "dom (sn_files s1) \<subseteq> dom files" using c by (auto simp: connect_new split: if_splits)
  define s2 where "s2 = s1\<lparr>sn_splat_at := (sn_splat_at s1)(?a \<mapsto> sp), sn_files := files, sn_calls := Suc ?a\<rparr>"
  have g2: "grows {} s1 s2" using files by (auto simp: s2_def grows_def)
  have reg: "register_splat env sys info s = (if \<not> to_bool ret then exec_bind (delete_at env sys ?a s2) (\<lambda>s3. Inr (ret, s3))
      else Inr (ret, s2\<lparr>sn_remote_splats := sn_remote_splats s2 @ [(?t, ?a)]\<rparr>))"
    unfolding register_splat_def pre by (simp add: c Let_def s2_def)
  have works: "sys_works sys \<longrightarrow> to_bool ret" using c by (auto simp: connect_new sys_works_def not_less [symmetric])
  show ?thesis
  proof (cases "to_bool ret")
    case True
    then have sp: "sp_topic sp = ?t" "sp_mode sp = Sub" "0 \<le> sp_fd sp" "sp_backing sp = Some (splat_file (splat_node_id info) ?t)"
        "\<exists>f. files (splat_file (splat_node_id info) ?t) = Some f"
      using c by (auto simp: connect_new split: if_splits)
    let ?s' = "s2\<lparr>sn_remote_splats := sn_remote_splats s2 @ [(?t, ?a)]\<rparr>"
    obtain f where "files (splat_file (splat_node_id info) ?t) = Some f" using sp(5) by blast
    from add_cell [OF s1(1,6) sp(1-4) this files refl] have "splats_ok ?s'" by (simp add: s2_def)
    moreover have "grows (snd ` set (sn_remote_splats s)) s ?s'"
      using grows_trans [OF s1(4) g2] by (simp add: grows_def)
    ultimately have "keeps_own s ?s'" by (intro grows_keeps_own [OF ok]) (simp_all add: s2_def s1)
    then show ?thesis using True works reg s1(2,5) by (simp add: s2_def)
  next
    case False
    then have sp: "sp_mode sp = Off" using c by (auto simp: connect_new split: if_splits)
    let ?s' = "s2\<lparr>sn_splat_at := (sn_splat_at s2)(?a := None), sn_calls := Suc (sn_calls s2)\<rparr>"
    have d: "delete_at env sys ?a s2 = Inr ?s'" using sp by (simp add: delete_at_def splat_destroy_def s2_def)
    have g: "grows {} s1 ?s'" using files by (auto simp: s2_def grows_def)
    have "splats_ok ?s'" by (rule splats_ok_grows [OF s1(1) g]) (simp_all add: s2_def)
    moreover have "grows (snd ` set (sn_remote_splats s)) s ?s'" using grows_trans [OF s1(4) g] by simp
    ultimately have "keeps_own s ?s'" by (intro grows_keeps_own [OF ok]) (simp_all add: s2_def s1)
    then show ?thesis using False works reg d s1(2,5) by (simp add: s2_def)
  qed
qed

subsection \<open>The information of another node\<close>

lemma count_splat_simps [simp]:
  "sn_splats (count_splat f t s) = sn_splats s" "sn_remote_splats (count_splat f t s) = sn_remote_splats s"
  "splats_ok (count_splat f t s) = splats_ok s" "keeps_own (count_splat f t s) s' = keeps_own s s'"
  "keeps_own s (count_splat f t s') = keeps_own s s'"
  "sn_node (count_splat f t s) = (sn_node s)\<lparr>nd_splat := f t (nd_splat (sn_node s))\<rparr>"
  by (simp_all add: count_splat_def)

lemma register_all:
  assumes "splats_ok s"
  shows "\<exists>s'. exec_foldl (\<lambda>s splat. exec_bind (register_splat env sys splat (count_splat incr (splat_topic splat) s)) (\<lambda>(ret, s'). Inr s')) s xs = Inr s' \<and>
    keeps_own s s' \<and> sn_node s' = (sn_node s)\<lparr>nd_splat := fold incr (map splat_topic xs) (nd_splat (sn_node s))\<rparr> \<and>
    registered s' \<subseteq> registered s \<union> splat_topic ` set xs \<and>
    (sys_works sys \<longrightarrow> registered s' = registered s \<union> splat_topic ` set xs)"
  using assms
proof (induction xs arbitrary: s)
  case (Cons x xs)
  have "splats_ok (count_splat incr (splat_topic x) s)" using Cons.prems by simp
  then obtain ret s1 where r: "register_splat env sys x (count_splat incr (splat_topic x) s) = Inr (ret, s1)"
      "keeps_own s s1" "sn_node s1 = (sn_node s)\<lparr>nd_splat := incr (splat_topic x) (nd_splat (sn_node s))\<rparr>"
      "registered s1 = (if to_bool ret then insert (splat_topic x) (registered s) else registered s - {splat_topic x})"
      "sys_works sys \<longrightarrow> to_bool ret"
    using register_splat_ok [of "count_splat incr (splat_topic x) s" env sys x] by auto
  have "splats_ok s1" using r(2) by (simp add: keeps_own_def)
  from Cons.IH [OF this] obtain s' where
    i: "exec_foldl (\<lambda>s splat. exec_bind (register_splat env sys splat (count_splat incr (splat_topic splat) s)) (\<lambda>(ret, s'). Inr s')) s1 xs = Inr s'"
      "keeps_own s1 s'" "sn_node s' = (sn_node s1)\<lparr>nd_splat := fold incr (map splat_topic xs) (nd_splat (sn_node s1))\<rparr>"
      "registered s' \<subseteq> registered s1 \<union> splat_topic ` set xs"
      "sys_works sys \<longrightarrow> registered s' = registered s1 \<union> splat_topic ` set xs"
    by blast
  show ?case
    using r i keeps_own_trans [OF r(2) i(2)] by (auto split: if_splits)
qed (simp add: keeps_own_refl)

lemma unregister_all:
  assumes "splats_ok s"
  shows "\<exists>s'. exec_foldl (\<lambda>s splat. exec_bind (unregister_splat env sys splat s) (\<lambda>(ret, s'). Inr (count_splat decr (splat_topic splat) s'))) s xs = Inr s' \<and>
    keeps_own s s' \<and> sn_node s' = (sn_node s)\<lparr>nd_splat := fold decr (map splat_topic xs) (nd_splat (sn_node s))\<rparr> \<and>
    registered s' = registered s - splat_topic ` set xs"
  using assms
proof (induction xs arbitrary: s)
  case (Cons x xs)
  obtain ret s1 where r: "unregister_splat env sys x s = Inr (ret, s1)" "splats_ok s1" "sn_node s1 = sn_node s" "sn_splats s1 = sn_splats s"
      "grows (snd ` set (sn_remote_splats s)) s s1" "sn_remote_splats s1 = AList.delete (splat_topic x) (sn_remote_splats s)"
    using unregister_splat_ok [OF Cons.prems, of env sys x] by blast
  let ?s1 = "count_splat decr (splat_topic x) s1"
  have "splats_ok ?s1" using r(2) by simp
  from Cons.IH [OF this] obtain s' where
    i: "exec_foldl (\<lambda>s splat. exec_bind (unregister_splat env sys splat s) (\<lambda>(ret, s'). Inr (count_splat decr (splat_topic splat) s'))) ?s1 xs = Inr s'"
      "keeps_own s1 s'" "sn_node s' = (sn_node ?s1)\<lparr>nd_splat := fold decr (map splat_topic xs) (nd_splat (sn_node ?s1))\<rparr>"
      "registered s' = registered ?s1 - splat_topic ` set xs"
    by auto
  have "keeps_own s s'"
    by (rule keeps_own_trans [OF grows_keeps_own [OF Cons.prems r(5,2,4)] i(2)])
  then show ?case using r i by (auto simp: keys_delete)
qed (simp add: keeps_own_refl)

text \<open>
  With splats or without, the node learns the same; beside that the topics of the old
  information are unregistered and those of the new registered.
\<close>

definition old_splats :: "node_info \<Rightarrow> ('b, 'u) node \<Rightarrow> topic set" where
  "old_splats info n = (case map_of (nd_latest n) (n_id info) of None \<Rightarrow> {} | Some old \<Rightarrow> splat_topic ` set (n_splats old))"

lemma splat_store_info_ok:
  assumes ok: "splats_ok s"
  shows "\<exists>s'. splat_store_info env sys info s = Inr s' \<and> keeps_own s s' \<and> sn_node s' = store_info info (sn_node s) \<and>
    registered s' \<subseteq> (registered s - old_splats info (sn_node s)) \<union> splat_topic ` set (n_splats info) \<and>
    (sys_works sys \<longrightarrow> registered s' = (registered s - old_splats info (sn_node s)) \<union> splat_topic ` set (n_splats info))"
proof -
  let ?old = "map_of (nd_latest (sn_node s)) (n_id info)"
  have "\<exists>s1. (case ?old of Some old \<Rightarrow> splat_untally env sys old s | None \<Rightarrow> Inr s) = Inr s1 \<and> keeps_own s s1 \<and>
      sn_node s1 = (case ?old of Some old \<Rightarrow> untally old (sn_node s) | None \<Rightarrow> sn_node s) \<and>
      registered s1 = registered s - old_splats info (sn_node s)"
  proof (cases ?old)
    case None
    then show ?thesis using ok by (simp add: keeps_own_refl old_splats_def)
  next
    case (Some old)
    let ?s = "s\<lparr>sn_node := (sn_node s)\<lparr>nd_subs := fold decr (n_in_topics old) (nd_subs (sn_node s))\<rparr>\<rparr>"
    have "splats_ok ?s" using ok by simp
    from unregister_all [OF this, of env sys "n_splats old"] show ?thesis
      by (simp add: Some splat_untally_def untally_def old_splats_def)
  qed
  then obtain s1 where s1: "(case ?old of Some old \<Rightarrow> splat_untally env sys old s | None \<Rightarrow> Inr s) = Inr s1" "keeps_own s s1"
      "sn_node s1 = (case ?old of Some old \<Rightarrow> untally old (sn_node s) | None \<Rightarrow> sn_node s)"
      "registered s1 = registered s - old_splats info (sn_node s)"
    by blast
  let ?n = "(sn_node s1)\<lparr>nd_latest := AList.update (n_id info) info (nd_latest (sn_node s1))\<rparr>"
  let ?s = "s1\<lparr>sn_node := ?n\<lparr>nd_subs := fold incr (n_in_topics info) (nd_subs ?n)\<rparr>\<rparr>"
  have "splats_ok ?s" using s1(2) by (simp add: keeps_own_def)
  from register_all [OF this, of env sys "n_splats info"] obtain s' where
    s': "splat_tally env sys info (s1\<lparr>sn_node := ?n\<rparr>) = Inr s'" "keeps_own s1 s'" "sn_node s' = tally info ?n"
      "registered s' \<subseteq> registered s1 \<union> splat_topic ` set (n_splats info)"
      "sys_works sys \<longrightarrow> registered s' = registered s1 \<union> splat_topic ` set (n_splats info)"
    unfolding splat_tally_def tally_def by auto
  have "sn_node s' = store_info info (sn_node s)"
    using s'(3) s1(3) by (simp add: store_info_def Let_def)
  then show ?thesis
    using s1 s' keeps_own_trans [OF s1(2) s'(2)] unfolding splat_store_info_def by auto
qed

subsection \<open>Deliveries that push nothing\<close>

text \<open>Two ways to run the closures that agree on the packet agree on its delivery.\<close>

definition slot_runs :: "(node_cb \<Rightarrow> bool) \<Rightarrow> node_cb mailman \<Rightarrow> (u32 \<times> u64 option) list \<Rightarrow> bool" where
  "slot_runs C mm es \<longleftrightarrow> (\<forall>e \<in> set es. \<forall>mb cb. box_at mm (snd e) = Inr mb \<longrightarrow> mb_incoming mb = Some cb \<longrightarrow> C cb)"

lemma deliver_sim:
  assumes run: "\<And>cb w r w' s. C cb \<Longrightarrow> run cb p w = Inr (r, w') \<Longrightarrow> R w s \<Longrightarrow> \<exists>s'. run' cb p s = Inr (r, s') \<and> R w' s'"
    and "slot_runs C mm es" and "deliver run mm k p es w = Inr w'" and "R w s"
  shows "\<exists>s'. deliver run' mm k p es s = Inr s' \<and> R w' s'"
  using assms(2-)
proof (induction es arbitrary: w s)
  case (Cons e es)
  obtain i a where e: "e = (i, a)" by (cases e)
  have rest: "slot_runs C mm es" using Cons.prems(1) by (simp add: slot_runs_def)
  show ?case
  proof (cases "i = k")
    case True
    then show ?thesis using Cons e rest by simp
  next
    case False
    then obtain mb r w1 where w1: "box_at mm a = Inr mb" "place_incoming_mail run mb p w = Inr (r, w1)" "assert_result r = Inr ()"
        "deliver run mm k p es w1 = Inr w'"
      using Cons.prems(2) e by (auto simp: exec_simps)
    have "C cb" if "mb_incoming mb = Some cb" for cb using that Cons.prems(1) e w1(1) by (simp add: slot_runs_def)
    then have "\<exists>s1. place_incoming_mail run' mb p s = Inr (r, s1) \<and> R w1 s1"
      using w1(2) Cons.prems(3) run by (auto simp: place_incoming_mail_def split: option.splits)
    then obtain s1 where s1: "place_incoming_mail run' mb p s = Inr (r, s1)" "R w1 s1" by blast
    from Cons.IH [OF rest w1(4) s1(2)] s1(1) w1(1,3) e False show ?thesis by simp
  qed
qed simp

lemma place_outgoing_sim:
  assumes run: "\<And>cb w r w' s. C cb \<Longrightarrow> run cb p w = Inr (r, w') \<Longrightarrow> R w s \<Longrightarrow> \<exists>s'. run' cb p s = Inr (r, s') \<and> R w' s'"
    and slots: "slot_runs C mm (topic_slot mm (packet_topic p))" "slot_runs C mm (topic_slot mm topic_any)"
    and mail: "place_outgoing_mail run mm a p w = Inr (r, w')" and "R w s"
  shows "\<exists>s'. place_outgoing_mail run' mm a p s = Inr (r, s') \<and> R w' s'"
proof -
  obtain mb where mb: "box_at mm (Some a) = Inr mb" using mail by (auto simp: place_outgoing_mail_def exec_simps)
  let ?go = "\<lambda>run t w. case map_of (mm_slots mm) t of None \<Rightarrow> Inr w | Some es \<Rightarrow> deliver run mm (box_key a) p es w"
  have go: "\<exists>s'. ?go run' t s = Inr s' \<and> R w' s'"
    if "?go run t w = Inr w'" "R w s" "slot_runs C mm (topic_slot mm t)" for t w w' s
    using that deliver_sim [where run = run and run' = run' and R = R and C = C, OF run]
    by (auto simp: topic_slot_def split: option.splits)
  show ?thesis
  proof (cases "mb_outgoing mb")
    case False
    then show ?thesis using mail assms(5) mb by (auto simp: place_outgoing_mail_def)
  next
    case True
    then obtain w1 w2 where w: "?go run (packet_topic p) w = Inr w1" "?go run topic_any w1 = Inr w2" "r = success" "w' = w2"
      using mail mb by (auto simp: place_outgoing_mail_def mailman_send_def exec_simps)
    from go [OF w(1) assms(5) slots(1)] obtain s1 where s1: "?go run' (packet_topic p) s = Inr s1" "R w1 s1" by blast
    from go [OF w(2) s1(2) slots(2)] obtain s2 where s2: "?go run' topic_any s1 = Inr s2" "R w2 s2" by blast
    show ?thesis using mb True w(3,4) s1(1) s2 by (simp add: place_outgoing_mail_def mailman_send_def)
  qed
qed

lemma splat_internal_ok:
  assumes ok: "splats_ok s" and run: "internal_handler env p (sn_node s) = Inr (r, n')"
  shows "\<exists>s'. splat_internal_handler env sys p s = Inr (r, s') \<and> sn_node s' = n' \<and> keeps_own s s'"
proof -
  obtain doc where doc: "p_msg p = Some doc" using run by (auto simp: internal_handler_def Let_def split: option.splits)
  define n1 where "n1 = update_time env (sn_node s)"
  define n2 where "n2 = (if later (packet_stamp p) (nd_time n1) then n1\<lparr>nd_time := packet_stamp p\<rparr> else n1)"
  define info where "info = (case info_unbind (ne_lib env) doc of Some i \<Rightarrow> i | None \<Rightarrow> info_default (ne_lib env))"
  have "splats_ok (s\<lparr>sn_node := n2\<rparr>)" using ok by simp
  from splat_store_info_ok [OF this, of env sys info] obtain s' where
    s': "splat_store_info env sys info (s\<lparr>sn_node := n2\<rparr>) = Inr s'" "keeps_own s s'" "sn_node s' = store_info info n2"
    by auto
  have eqs: "splat_internal_handler env sys p s = (if n_id info = nd_id n2 then Inr (success, s\<lparr>sn_node := n2\<rparr>)
      else exec_bind (splat_store_info env sys info (s\<lparr>sn_node := n2\<rparr>)) (\<lambda>s'. Inr (success, s')))"
    "internal_handler env p (sn_node s) = (if n_id info = nd_id n2 then Inr (success, n2) else Inr (success, store_info info n2))"
    by (simp_all only: splat_internal_handler_def internal_handler_def Let_def doc n1_def n2_def info_def option.case)
  show ?thesis
  proof (cases "n_id info = nd_id n2")
    case True
    then show ?thesis using eqs run keeps_own_refl [OF ok] by (intro exI [of _ "s\<lparr>sn_node := n2\<rparr>"]) simp
  next
    case False
    then show ?thesis using eqs run s' by simp
  qed
qed

definition quiet_packet :: "'b packet \<Rightarrow> bool" where
  "quiet_packet p \<longleftrightarrow> p_local_only p \<or> \<not> m_droppable (p_meta p)"

lemma splat_remote_quiet:
  assumes "quiet_packet p \<or> \<not> splattable p (sn_node s)"
  shows "splat_remote_send tell env sys r p s = on_node (remote_send env r p) s"
proof (cases "nd_remote_at (sn_node s) r")
  case None
  then show ?thesis by (simp add: splat_remote_send_def remote_send_def on_node_def load_def)
next
  case (Some rn)
  show ?thesis
  proof (cases "p_local_only p \<or> \<not> wanted (sn_node s) rn (m_topic (p_meta p))")
    case True
    then show ?thesis using Some by (auto simp: splat_remote_send_def remote_send_def on_node_def)
  next
    case False
    then have "\<not> splattable p (sn_node s)" using assms by (auto simp: quiet_packet_def splattable_def)
    then show ?thesis
      using Some False by (simp add: splat_remote_send_def remote_send_def on_node_def exec_bind_assoc case_prod_unfold Let_def)
  qed
qed

lemma splat_run_quiet:
  assumes "quiet_packet p" and ok: "splats_ok s" and run: "node_run env cb p (sn_node s) = Inr (r, n')"
  shows "\<exists>s'. splat_run tell env sys cb p s = Inr (r, s') \<and> sn_node s' = n' \<and> keeps_own s s'"
proof (cases cb)
  case Internal_cb
  then show ?thesis using splat_internal_ok [OF ok] run by simp
next
  case (Remote_cb x)
  then show ?thesis
    using splat_remote_quiet [of p s tell env sys x] assms(1) run keeps_own_refl [OF ok] by (simp add: on_node_def)
next
  case (Subscriber_cb a c arg)
  then show ?thesis using run keeps_own_refl [OF ok] by (auto simp: on_node_def)
qed

text \<open>A packet that is quiet goes the way it goes in the default build.\<close>

lemma splat_mail_quiet:
  assumes "quiet_packet p" and ok: "splats_ok s" and "node_mail env a p (sn_node s) = Inr (r, n')"
  shows "\<exists>s'. splat_mail tell env sys a p s = Inr (r, s') \<and> sn_node s' = n' \<and> keeps_own s s'"
proof -
  let ?R = "\<lambda>n t. sn_node t = n \<and> keeps_own s t"
  have step: "\<exists>s'. splat_run tell env sys cb p t = Inr (r, s') \<and> ?R n' s'"
    if "node_run env cb p n = Inr (r, n')" "?R n t" for cb n r n' t
  proof -
    have "splats_ok t" using that(2) by (simp add: keeps_own_def)
    from splat_run_quiet [OF assms(1) this, of env cb r n' tell sys] that show ?thesis by (auto intro: keeps_own_trans)
  qed
  have "?R (sn_node s) s" using keeps_own_refl [OF ok] by simp
  from place_outgoing_sim [where R = ?R and run = "node_run env" and run' = "splat_run tell env sys" and C = "\<lambda>_. True",
      OF step _ _ assms(3) [unfolded node_mail_def] this] show ?thesis
    by (simp add: splat_mail_def slot_runs_def)
qed

subsection \<open>Telling the network\<close>

lemma place_outgoing_cong:
  assumes "\<And>cb w. run cb p w = run' cb p w"
  shows "place_outgoing_mail run mm a p w = place_outgoing_mail run' mm a p w"
proof -
  have "place_incoming_mail run mb p v = place_incoming_mail run' mb p v" for mb v
    using assms by (simp add: place_incoming_mail_def split: option.split)
  then have "deliver run mm k p es v = deliver run' mm k p es v" for k es v
    by (induction es arbitrary: v) (auto intro!: arg_cong2 [where f = exec_bind])
  then have "deliver run mm k p = deliver run' mm k p" for k by (intro ext)
  then show ?thesis unfolding place_outgoing_mail_def mailman_send_def by (simp only:)
qed

text \<open>\<open>send_info\<close> does not come back to itself, so it is what the code computes.\<close>

lemma splat_send_one_tell: "splat_send_one tell env sys info s = splat_send_one tell' env sys info s"
proof -
  let ?p = "packet_new (ne_lib env) topic_internal (nd_time (sn_node s)) (Some (info_bind (ne_lib env) info)) True"
  have "splat_run tell env sys cb ?p t = splat_run tell' env sys cb ?p t" for cb t
    by (cases cb) (simp_all add: splat_remote_quiet quiet_packet_def)
  then show ?thesis unfolding splat_send_one_def splat_mail_def by (simp only: place_outgoing_cong [of "splat_run tell env sys" ?p "splat_run tell' env sys"])
qed

lemma splat_send_info_unfold: "splat_send_info_with (splat_send_info env sys False) env sys = splat_send_info env sys"
proof -
  have "splat_send_one (splat_send_info env sys False) env sys = splat_send_one (\<lambda>_. Inl Diverges) env sys"
    by (intro ext) (rule splat_send_one_tell)
  then have "splat_send_info_with (splat_send_info env sys False) env sys = splat_send_info_with (\<lambda>_. Inl Diverges) env sys"
    unfolding splat_send_info_with_def by (simp only:)
  then show ?thesis by (simp only: splat_send_info_def)
qed

lemma splat_send_one_live:
  assumes "node_live (sn_node s)" and "splats_ok s" and "users_return env"
  shows "\<exists>s'. splat_send_one tell env sys info s = Inr s' \<and> keeps_own s s' \<and> frame (sn_node s) (sn_node s') \<and> node_live (sn_node s')"
proof -
  let ?p = "packet_new (ne_lib env) topic_internal (nd_time (sn_node s)) (Some (info_bind (ne_lib env) info)) True"
  obtain mb where "mm_boxes (nd_dave (sn_node s)) (nd_box (sn_node s)) = Some mb" using node_liveD(3) [OF assms(1)] by blast
  from node_mail_live [OF assms(1) this packet_new_deliverable assms(3)] obtain n' where
    n': "node_mail env (nd_box (sn_node s)) ?p (sn_node s) = Inr (success, n')" "frame (sn_node s) n'" "node_live n'"
    by blast
  have "quiet_packet ?p" by (simp add: quiet_packet_def)
  from splat_mail_quiet [OF this assms(2) n'(1), of tell sys] n'(2,3) show ?thesis by (auto simp: splat_send_one_def)
qed

lemma splat_info_of_ok:
  assumes "splats_ok s" and "node_info_of env (sn_node s) = Inr info"
  shows "splat_info_of env s = Inr (info\<lparr>n_splats := n_splats info @ map (\<lambda>e. \<lparr>splat_node_id = nd_id (sn_node s),
    splat_topic = fst e, splat_size = ucast (sp_size (the (sn_splat_at s (snd e))))\<rparr>) (sn_splats s)\<rparr>)"
proof -
  have "exec_map (\<lambda>e. exec_bind (load (sn_splat_at s) (snd e)) (\<lambda>sp.
      Inr \<lparr>splat_node_id = nd_id (sn_node s), splat_topic = sp_topic sp, splat_size = ucast (sp_size sp)\<rparr>)) (sn_splats s) =
    Inr (map (\<lambda>e. \<lparr>splat_node_id = nd_id (sn_node s), splat_topic = fst e,
      splat_size = ucast (sp_size (the (sn_splat_at s (snd e))))\<rparr>) (sn_splats s))"
    by (rule exec_map_pure) (use splats_okD(4) [OF assms(1)] in \<open>fastforce simp: cell_ok_def\<close>)
  then show ?thesis using assms(2) by (simp add: splat_info_of_def)
qed

lemma node_info_of_live:
  assumes "node_live n"
  shows "\<exists>info. node_info_of env n = Inr info"
proof -
  have subs: "exec_map (\<lambda>s. exec_bind (load (nd_sub_at n) s) (\<lambda>sb. Inr (sb_topic sb))) (nd_subscribers n) =
      Inr (map (\<lambda>s. sb_topic (the (nd_sub_at n s))) (nd_subscribers n))"
    by (rule exec_map_pure) (use node_liveD(6) [OF assms] in fastforce)
  have pubs: "exec_map (\<lambda>s. exec_bind (load (nd_pub_at n) s) (\<lambda>pb. Inr (pb_topic pb))) (nd_publishers n) =
      Inr (map (\<lambda>s. pb_topic (the (nd_pub_at n s))) (nd_publishers n))"
    by (rule exec_map_pure) (use node_liveD(7) [OF assms] in fastforce)
  show ?thesis unfolding node_info_of_def subs pubs Let_def by simp
qed

lemma splat_send_info_live:
  assumes live: "node_live (sn_node s)" and ok: "splats_ok s" and users: "users_return env"
  shows "\<exists>s'. splat_send_info env sys include_dead s = Inr s' \<and> keeps_own s s' \<and> frame (sn_node s) (sn_node s')"
proof -
  define s1 where "s1 = s\<lparr>sn_node := update_time env (sn_node s)\<rparr>"
  have f1: "frame (sn_node s) (sn_node s1)" unfolding s1_def by (simp add: frame_update_time)
  have live1: "node_live (sn_node s1)" and ok1: "splats_ok s1" using live ok frame_live [OF f1] by (simp_all add: s1_def)
  obtain i0 where "node_info_of env (sn_node s1) = Inr i0" using node_info_of_live [OF live1] by blast
  from splat_info_of_ok [OF ok1 this] obtain info where info: "splat_info_of env s1 = Inr info" by blast
  let ?tell = "\<lambda>_. Inl Diverges"
  obtain s2 where s2: "splat_send_one ?tell env sys info s1 = Inr s2" "keeps_own s1 s2" "frame (sn_node s1) (sn_node s2)" "node_live (sn_node s2)"
    using splat_send_one_live [OF live1 ok1 users] by blast
  let ?P = "\<lambda>t. keeps_own s1 t \<and> frame (sn_node s1) (sn_node t) \<and> node_live (sn_node t)"
  have step: "\<exists>t'. (if \<not> include_dead \<and> \<not> n_alive (snd peer) then Inr t else splat_send_one ?tell env sys (snd peer) t) = Inr t' \<and> ?P t'"
    if t: "?P t" for t and peer :: "u32 \<times> node_info"
  proof -
    have "splats_ok t" using t by (simp add: keeps_own_def)
    from splat_send_one_live [OF _ this users, of ?tell sys "snd peer"] obtain t' where
      "splat_send_one ?tell env sys (snd peer) t = Inr t'" "keeps_own t t'" "frame (sn_node t) (sn_node t')" "node_live (sn_node t')"
      using t by blast
    then show ?thesis using t keeps_own_trans frame_trans by auto
  qed
  have "\<exists>s3. exec_foldl (\<lambda>s peer. if \<not> include_dead \<and> \<not> n_alive (snd peer) then Inr s else splat_send_one ?tell env sys (snd peer) s)
      s2 (nd_latest (sn_node s2)) = Inr s3 \<and> ?P s3"
    by (rule exec_foldl_total [where P = ?P]) (use s2 step in blast)+
  then obtain s3 where s3: "exec_foldl (\<lambda>s peer. if \<not> include_dead \<and> \<not> n_alive (snd peer) then Inr s else splat_send_one ?tell env sys (snd peer) s)
      s2 (nd_latest (sn_node s2)) = Inr s3" "?P s3"
    by blast
  have "splat_send_info env sys include_dead s = Inr s3"
    unfolding splat_send_info_def splat_send_info_with_def Let_def s1_def [symmetric] by (simp only: info s2(1) s3(1) exec_bind.simps)
  then show ?thesis using s3(2) f1 frame_trans by (auto simp: s1_def)
qed

text \<open>Off the internal topic such a delivery leaves everything about splats alone.\<close>

lemma live_slot_runs:
  assumes live: "node_live n" and t: "t \<noteq> topic_internal"
  shows "slot_runs (\<lambda>cb. cb \<noteq> Internal_cb) (nd_dave n) (topic_slot (nd_dave n) t)"
  unfolding slot_runs_def
proof (intro ballI allI impI)
  fix e mb cb
  assume e: "e \<in> set (topic_slot (nd_dave n) t)" and mb: "box_at (nd_dave n) (snd e) = Inr mb" "mb_incoming mb = Some cb"
  obtain x where x: "e = (box_key x, Some x)" "mm_boxes (nd_dave n) x = Some mb" "mb_topic mb = t"
    using mailman_invD(3) [OF node_liveD(1) [OF live] e] mb(1)
    by (elim entry_okE) (auto simp: box_at_def split: option.splits)
  have "x \<in> members (nd_dave n) t" using e x(1) by (auto simp: members_def)
  from node_liveD(2) [OF live this x(2)] show "cb \<noteq> Internal_cb"
    using x(3) mb(2) t by (auto simp: closure_ok_def)
qed

lemma splat_mail_exact:
  assumes "quiet_packet p" and live: "node_live (sn_node s)" and t: "packet_topic p \<noteq> topic_internal"
    and mail: "node_mail env a p (sn_node s) = Inr (r, n')"
  shows "splat_mail tell env sys a p s = Inr (r, s\<lparr>sn_node := n'\<rparr>)"
proof -
  let ?R = "\<lambda>n t. t = s\<lparr>sn_node := n\<rparr>"
  have step: "\<exists>s'. splat_run tell env sys cb p t = Inr (r, s') \<and> ?R n' s'"
    if "cb \<noteq> Internal_cb" "node_run env cb p n = Inr (r, n')" "?R n t" for cb n r n' t
    using that assms(1) by (cases cb) (auto simp: splat_remote_quiet on_node_def)
  have "topic_any \<noteq> topic_internal" "?R (sn_node s) s" by simp_all
  from place_outgoing_sim [where R = ?R and run = "node_run env" and run' = "splat_run tell env sys" and C = "\<lambda>cb. cb \<noteq> Internal_cb",
      OF step live_slot_runs [OF live t] live_slot_runs [OF live this(1)] mail [unfolded node_mail_def] this(2)]
  show ?thesis by (simp add: splat_mail_def)
qed

subsection \<open>Pushing and polling in a node\<close>

text \<open>An object with its file.\<close>

definition splat_cell :: "('b, 'u) splat_node \<Rightarrow> nat \<Rightarrow> 'b splat \<Rightarrow> string \<Rightarrow> splat_data \<Rightarrow> bool" where
  "splat_cell s a sp name f \<longleftrightarrow> sn_splat_at s a = Some sp \<and> sp_backing sp = Some name \<and> sn_files s name = Some f"

definition fits :: "bool \<Rightarrow> byte list \<Rightarrow> 'b splat \<Rightarrow> splat_data \<Rightarrow> bool" where
  "fits dbg d sp f \<longleftrightarrow> length d < 2 ^ 31 \<and> length d \<le> length (sd_data f) \<and>
     (dbg \<longrightarrow> ucast (word_of_nat (length d) :: u32) < sp_size sp - header_size)"

lemma push_at_ok:
  assumes "splat_cell s a sp name f" and "sp_mode sp = Pub" and "\<not> sd_locked f" and "p_packed p = Some doc"
    and "fits (ne_dbg env) (bson_data (ne_lib env) doc) sp f"
  shows "push_at env p a s = Inr (s\<lparr>sn_splat_at := (sn_splat_at s)(a \<mapsto> sp\<lparr>sp_current_version := sp_current_version sp + 1\<rparr>),
    sn_files := (sn_files s)(name \<mapsto> written (sp_current_version sp + 1) (bson_data (ne_lib env) doc) f)\<rparr>)"
proof -
  have "push_start (ne_dbg env) (ne_lib env) p sp =
      Inr (sp\<lparr>sp_current_version := sp_current_version sp + 1\<rparr>, Push_lock (bson_data (ne_lib env) doc))"
    using assms(2,4,5) by (auto simp: push_start_def fits_def Let_def cassert_def)
  then show ?thesis using assms by (simp add: push_at_def splat_cell_def fits_def backing_def finish_push)
qed

text \<open>A document that has outgrown its splat.\<close>

lemma push_at_too_large:
  assumes "splat_cell s a sp name f" and "sp_mode sp = Pub" and "\<not> sd_locked f" and "p_packed p = Some doc"
    and "d = bson_data (ne_lib env) doc"
  shows "ne_dbg env \<Longrightarrow> \<not> ucast (word_of_nat (length d) :: u32) < sp_size sp - header_size \<Longrightarrow> push_at env p a s = Inl Assert_failed"
    and "\<not> ne_dbg env \<Longrightarrow> length (sd_data f) < length d \<Longrightarrow> push_at env p a s = Inl Buffer_overflow"
  using assms
  by (simp_all add: push_at_def splat_cell_def push_start_def Let_def backing_def splat_steps_def eval_nat_numeral splat_advance_def)

definition idle_splat :: "('b, 'u) splat_node \<Rightarrow> topic \<times> nat \<Rightarrow> bool" where
  "idle_splat s e \<longleftrightarrow> (\<exists>sp name f. splat_cell s (snd e) sp name f \<and> sp_mode sp = Sub \<and>
     (sd_version f = sp_current_version sp \<or> sd_size f = 0 \<or> nd_local (sn_node s) (sp_topic sp) = None))"

lemma update_idle: "idle_splat s e \<Longrightarrow> update_splat env sys s e = Inr s"
  by (auto simp: idle_splat_def splat_cell_def update_splat_def backing_def update_available_def)

lemma update_all_idle: "\<forall>e \<in> set es. idle_splat s e \<Longrightarrow> exec_foldl (update_splat env sys) s es = Inr s"
  by (induction es) (simp_all add: update_idle)

lemma poll_at_ok:
  assumes "splat_cell s b sp name f" and "sp_mode sp = Sub" and "\<not> sd_locked f" and "unat (sd_size f) \<le> length (sd_data f)"
    and "bson_read (ne_lib env) (take (unat (sd_size f)) (sd_data f)) = Some doc"
    and "packet_of_packed (ne_lib env) (ne_junk env) (Some doc) = Inr q"
  shows "poll_at env b s = Inr (set_local_only True q,
    s\<lparr>sn_splat_at := (sn_splat_at s)(b \<mapsto> sp\<lparr>sp_current_version := sd_version f, sp_latest := set_local_only True q\<rparr>)\<rparr>)"
proof -
  have "(sn_files s)(name \<mapsto> f) = sn_files s" using assms(1) by (auto simp: splat_cell_def)
  then show ?thesis
    using assms by (simp add: poll_at_def splat_cell_def poll_start_def backing_def finish_poll)
qed

text \<open>A packet that may not leave the node reaches its subscribers and nobody else.\<close>

lemma local_mail:
  assumes ok: "node_ok n" and users: "users_return env" and p: "p_local_only p" "\<not> p_null p" "packet_topic p = t"
    and t: "t \<noteq> topic_internal" "t \<noteq> topic_any"
  shows "\<exists>n' cs. node_mail env (nd_box n) p n = Inr (success, n') \<and> frame n n' \<and>
    mset cs = mset (concat (map (sub_calls n p) (filter (\<lambda>s. topic_at n s = t \<or> topic_at n s = topic_any) (nd_subscribers n)))) \<and>
    call_users env cs (nd_user n) = Inr (nd_user n') \<and>
    (\<forall>l. map_of (th_buffers (nd_thread n')) l = map_of (th_buffers (nd_thread n)) l)"
proof -
  have w: "node_wired n" using ok by (simp add: node_ok_def)
  note d = node_wiredD [OF w]
  obtain mb where mb: "mm_boxes (nd_dave n) (nd_box n) = Some mb" "mb_outgoing mb" by (rule memberD [OF d(3,4)])
  have key: "\<forall>t. \<forall>c \<in> members (nd_dave n) t. box_key c = box_key (nd_box n) \<longrightarrow> c = nd_box n"
    using d(2,4) unfolding keys_distinct_def by blast
  obtain xs where xs: "distinct xs" "set xs = (members (nd_dave n) t \<union> members (nd_dave n) topic_any) - {nd_box n}"
    and run: "\<And>u. call_users env (concat (map (calls n p) xs)) (nd_user n) = Inr u \<Longrightarrow>
      \<exists>n'. node_mail env (nd_box n) p n = Inr (success, n') \<and> handled env p n (set xs) u n'"
    using node_mail_handled [OF d(1) mb key p(2), of env] p(3) t by metis
  let ?cs = "concat (map (calls n p) xs)"
  obtain u where u: "call_users env ?cs (nd_user n) = Inr u" using call_users_total [OF users] by blast
  obtain n' where n': "node_mail env (nd_box n) p n = Inr (success, n')" "handled env p n (set xs) u n'"
    using run [OF u] by blast
  have "box_incoming n (nd_box n) \<noteq> Some (Subscriber_cb s cb arg)" for s cb arg by (simp add: d(5))
  from calls_of_subscribers [OF w xs this, of p]
  have "mset ?cs = mset (concat (map (sub_calls n p) (filter (\<lambda>s. topic_at n s = t \<or> topic_at n s = topic_any) (nd_subscribers n))))" .
  moreover have "\<not> sends_to n p r l" for r l using p(1) by (simp add: sends_to_def)
  ultimately show ?thesis
    using n' u by (intro exI [of _ n'] exI [of _ ?cs]) (simp add: handled_def map_option.id [unfolded id_def])
qed

lemma update_splat_delivers:
  assumes ok: "node_ok (sn_node s)" and users: "users_return env"
    and cell: "splat_cell s b sp name f" "sp_mode sp = Sub" "\<not> sd_locked f" "unat (sd_size f) \<le> length (sd_data f)" "sd_size f \<noteq> 0"
    and new: "sd_version f \<noteq> sp_current_version sp" "nd_local (sn_node s) (sp_topic sp) \<noteq> None"
    and read: "bson_read (ne_lib env) (take (unat (sd_size f)) (sd_data f)) = Some doc"
      "packet_of_packed (ne_lib env) (ne_junk env) (Some doc) = Inr q0" "q = set_local_only True q0"
    and t: "packet_topic q = t" "t \<noteq> topic_internal" "t \<noteq> topic_any"
  shows "\<exists>n' cs. update_splat env sys s (t', b) = Inr (s\<lparr>sn_splat_at := (sn_splat_at s)(b \<mapsto> sp\<lparr>sp_current_version := sd_version f,
      sp_latest := q\<rparr>), sn_node := n'\<rparr>) \<and> frame (sn_node s) n' \<and>
    mset cs = mset (concat (map (sub_calls (sn_node s) q)
      (filter (\<lambda>x. topic_at (sn_node s) x = t \<or> topic_at (sn_node s) x = topic_any) (nd_subscribers (sn_node s))))) \<and>
    call_users env cs (nd_user (sn_node s)) = Inr (nd_user n') \<and>
    (\<forall>l. map_of (th_buffers (nd_thread n')) l = map_of (th_buffers (nd_thread (sn_node s))) l)"
proof -
  let ?s1 = "s\<lparr>sn_splat_at := (sn_splat_at s)(b \<mapsto> sp\<lparr>sp_current_version := sd_version f, sp_latest := q\<rparr>)\<rparr>"
  have poll: "poll_at env b s = Inr (q, ?s1)"
    using poll_at_ok [OF cell(1-4) read(1,2)] by (simp add: read(3))
  have "p_local_only q" "\<not> p_null q"
    using packet_of_packed_packed [OF read(2)] by (simp_all add: read(3) set_local_only_def)
  from local_mail [OF ok users this t] obtain n' cs where
    m: "node_mail env (nd_box (sn_node s)) q (sn_node s) = Inr (success, n')" "frame (sn_node s) n'"
      "mset cs = mset (concat (map (sub_calls (sn_node s) q)
        (filter (\<lambda>x. topic_at (sn_node s) x = t \<or> topic_at (sn_node s) x = topic_any) (nd_subscribers (sn_node s)))))"
      "call_users env cs (nd_user (sn_node s)) = Inr (nd_user n')"
      "\<forall>l. map_of (th_buffers (nd_thread n')) l = map_of (th_buffers (nd_thread (sn_node s))) l"
    by blast
  have live: "node_live (sn_node ?s1)" using ok by (simp add: node_ok_def node_wired_def)
  have "quiet_packet q" using \<open>p_local_only q\<close> by (simp add: quiet_packet_def)
  from splat_mail_exact [OF this live _, of env "nd_box (sn_node s)" success n' "splat_send_info env sys False" sys] t m(1)
  have "splat_node_mail env sys (nd_box (sn_node ?s1)) q ?s1 = Inr (success, ?s1\<lparr>sn_node := n'\<rparr>)"
    by (simp add: splat_node_mail_def)
  then have "update_splat env sys s (t', b) = Inr (?s1\<lparr>sn_node := n'\<rparr>)"
    using cell(1,2,5) new poll by (auto simp: update_splat_def splat_cell_def backing_def update_available_def)
  with m(2-) show ?thesis by (intro exI [of _ n'] exI [of _ cs]) simp
qed

lemma update_splats_delivers:
  assumes upd: "update_splat env sys s (t, b) = Inr (s\<lparr>sn_splat_at := (sn_splat_at s)(b \<mapsto> sp'), sn_node := n'\<rparr>)"
    and e: "(t, b) \<in> set (sn_remote_splats s)" "distinct (map snd (sn_remote_splats s))"
    and others: "\<forall>e \<in> set (sn_remote_splats s). snd e \<noteq> b \<longrightarrow> idle_splat s e" and local: "nd_local n' = nd_local (sn_node s)"
    and now: "splat_cell s b sp name f" "sp_backing sp' = Some name" "sp_mode sp' = Sub" "sp_current_version sp' = sd_version f"
    and s': "s' = s\<lparr>sn_splat_at := (sn_splat_at s)(b \<mapsto> sp'), sn_node := n'\<rparr>"
  shows "update_splats env sys s = Inr s' \<and> update_splats env sys s' = Inr s'"
proof -
  obtain es1 es2 where es: "sn_remote_splats s = es1 @ (t, b) # es2" using e(1) by (meson split_list)
  have apart: "snd x \<noteq> b" if "x \<in> set es1 \<union> set es2" for x using e(2) that unfolding es by force
  have keep: "idle_splat s' x" if "idle_splat s x" "snd x \<noteq> b" for x
    using that local by (simp add: idle_splat_def splat_cell_def s')
  have "idle_splat s' (t, b)" using now by (simp add: idle_splat_def splat_cell_def s')
  then have all: "\<forall>x \<in> set (sn_remote_splats s). idle_splat s' x"
    using keep others by (metis es apart Un_iff in_set_conv_decomp set_ConsD set_append)
  have "exec_foldl (update_splat env sys) s es1 = Inr s" by (rule update_all_idle) (use others apart es in auto)
  moreover have "exec_foldl (update_splat env sys) s' es2 = Inr s'" by (rule update_all_idle) (use all es in auto)
  ultimately have "update_splats env sys s = Inr s'" using upd by (simp add: update_splats_def es exec_foldl_append s')
  moreover have "update_splats env sys s' = Inr s'"
    unfolding update_splats_def by (rule update_all_idle) (use all in \<open>simp add: s'\<close>)
  ultimately show ?thesis by blast
qed

text \<open>
  What it takes for a packet on topic \<open>t\<close> to be pushed by one node and polled by another: a remote,
  a listener and a splat that is set up; the same splat registered, a local subscription, and a
  version that has not been seen.
\<close>

definition push_ready :: "('b, 'u) splat_node \<Rightarrow> u64 \<Rightarrow> topic \<Rightarrow> nat \<Rightarrow> 'b splat \<Rightarrow> string \<Rightarrow> splat_data \<Rightarrow> bool" where
  "push_ready s r t a sp name f \<longleftrightarrow> nd_remote_at (sn_node s) r \<noteq> None \<and> nd_subs (sn_node s) t \<noteq> None \<and>
     nd_subs (sn_node s) t \<noteq> Some 0 \<and> map_of (sn_splats s) t = Some a \<and> splat_cell s a sp name f \<and>
     sp_mode sp = Pub \<and> \<not> sd_locked f"

definition poll_ready :: "('b, 'u) splat_node \<Rightarrow> topic \<Rightarrow> nat \<Rightarrow> string \<Rightarrow> u32 \<Rightarrow> bool" where
  "poll_ready s t b name v \<longleftrightarrow> (t, b) \<in> set (sn_remote_splats s) \<and> distinct (map snd (sn_remote_splats s)) \<and>
     nd_local (sn_node s) t \<noteq> None \<and>
     (\<exists>sp. sn_splat_at s b = Some sp \<and> sp_backing sp = Some name \<and> sp_mode sp = Sub \<and> sp_topic sp = t \<and> sp_current_version sp \<noteq> v)"

lemma push_send:
  assumes "push_ready P r t a sp name f" and "splattable p (sn_node P)" and "\<not> p_local_only p" and "packet_topic p = t"
    and "q = stamped (ne_lib env) (nd_id (sn_node P)) p"
  shows "splat_remote_send tell env sys r p P = exec_bind (push_at env q a P) (\<lambda>s'. Inr (success, s'))"
proof -
  obtain rn where rn: "nd_remote_at (sn_node P) r = Some rn" using assms(1) by (auto simp: push_ready_def)
  have "wanted (sn_node P) rn t" "m_topic (p_meta q) = t" "m_topic (p_meta p) = t"
    using assms by (auto simp: push_ready_def wanted_def packet_topic_def)
  then show ?thesis
    using assms(1-3) rn
    by (auto simp: splat_remote_send_def push_splat_def Let_def assms(5) [symmetric] push_ready_def exec_bind_assoc)
qed

lemma splat_crosses_full:
  assumes "bson_laws (ne_lib env)" and "ne_lib env' = ne_lib env" and "users_return env'"
    and "q = stamped (ne_lib env) (nd_id (sn_node P)) p" and "packet_sendable (ne_lib env) q" and "p_packed q = Some doc"
    and "d = bson_data (ne_lib env) doc" and "d \<noteq> []" and "bson_read (ne_lib env) d = Some doc"
    and ready: "push_ready P r t a sp name f"
    and "splattable p (sn_node P)" and "\<not> p_local_only p" and "packet_topic p = t" and "t \<noteq> topic_internal" and "t \<noteq> topic_any"
    and "splat_cell P a sp name f" and "sp_mode sp = Pub" and "\<not> sd_locked f" and "fits (ne_dbg env) d sp f"
    and "node_ok (sn_node S)" and "(t, b) \<in> set (sn_remote_splats S)" and "distinct (map snd (sn_remote_splats S))"
    and "sn_splat_at S b = Some sp'" and "sp_backing sp' = Some name" and "sp_mode sp' = Sub" and "sp_topic sp' = t"
    and "nd_local (sn_node S) t \<noteq> None" and "sp_current_version sp' \<noteq> sp_current_version sp + 1"
    and "S1 = S\<lparr>sn_files := (sn_files P)(name \<mapsto> written (sp_current_version sp + 1) d f)\<rparr>"
    and "\<forall>e \<in> set (sn_remote_splats S). snd e \<noteq> b \<longrightarrow> idle_splat S1 e"
  shows "\<exists>P' S2 cs. splat_remote_send (splat_send_info env sys False) env sys r p P = Inr (success, P') \<and>
    sn_node P' = sn_node P \<and> sn_files P' = sn_files S1 \<and>
    update_splats env' sys' S1 = Inr S2 \<and> node_ok (sn_node S2) \<and>
    mset cs = mset (concat (map (sub_calls (sn_node S) (set_local_only True q))
      (filter (\<lambda>x. topic_at (sn_node S) x = t \<or> topic_at (sn_node S) x = topic_any) (nd_subscribers (sn_node S))))) \<and>
    call_users env' cs (nd_user (sn_node S)) = Inr (nd_user (sn_node S2)) \<and>
    (\<forall>l. map_of (th_buffers (nd_thread (sn_node S2))) l = map_of (th_buffers (nd_thread (sn_node S))) l) \<and>
    update_splats env' sys' S2 = Inr S2"
proof -
  let ?v = "sp_current_version sp + 1"
  let ?f = "written ?v d f"
  have len: "length d < 2 ^ 31" "length d \<le> length (sd_data f)" using assms(19) by (simp_all add: fits_def)
  have size: "unat (sd_size ?f) = length d" "sd_size ?f \<noteq> 0" using len(1) assms(8) written_size_0 [of d] by simp_all
  define P' where "P' = P\<lparr>sn_splat_at := (sn_splat_at P)(a \<mapsto> sp\<lparr>sp_current_version := ?v\<rparr>), sn_files := sn_files S1\<rparr>"
  have push: "push_at env q a P = Inr P'"
    using push_at_ok [OF assms(16-18,6), of env] assms(7,19) by (simp add: P'_def assms(29))
  have meta: "packet_topic q = t" using assms(13) by (simp add: assms(4))
  have send: "splat_remote_send (splat_send_info env sys False) env sys r p P = Inr (success, P')"
    using push_send [OF ready assms(11-13,4)] push by simp
  have cell: "splat_cell S1 b sp' name ?f" using assms(23,24) by (simp add: splat_cell_def assms(29))
  have read: "bson_read (ne_lib env') (take (unat (sd_size ?f)) (sd_data ?f)) = Some doc"
      "packet_of_packed (ne_lib env') (ne_junk env') (Some doc) = Inr (q\<lparr>p_local_only := ne_junk env'\<rparr>)"
    using assms(9) size(1) sendable_read_back [OF assms(1,5), of "ne_junk env'"] by (simp_all add: assms(2,6))
  have q: "set_local_only True q = set_local_only True (q\<lparr>p_local_only := ne_junk env'\<rparr>)" "packet_topic (set_local_only True q) = t"
    using meta by (simp_all add: set_local_only_def packet_topic_def)
  have "\<exists>n' cs. update_splat env' sys' S1 (t, b) = Inr (S1\<lparr>sn_splat_at := (sn_splat_at S1)(b \<mapsto> sp'\<lparr>sp_current_version := sd_version ?f,
      sp_latest := set_local_only True q\<rparr>), sn_node := n'\<rparr>) \<and> frame (sn_node S1) n' \<and>
    mset cs = mset (concat (map (sub_calls (sn_node S1) (set_local_only True q))
      (filter (\<lambda>x. topic_at (sn_node S1) x = t \<or> topic_at (sn_node S1) x = topic_any) (nd_subscribers (sn_node S1))))) \<and>
    call_users env' cs (nd_user (sn_node S1)) = Inr (nd_user n') \<and>
    (\<forall>l. map_of (th_buffers (nd_thread n')) l = map_of (th_buffers (nd_thread (sn_node S1))) l)"
    by (rule update_splat_delivers [OF _ assms(3) cell assms(25) _ _ size(2) _ _ read q(1,2) assms(14,15)])
       (use assms size(1) len in simp_all)
  then obtain n' cs where n': "update_splat env' sys' S1 (t, b) = Inr (S1\<lparr>sn_splat_at := (sn_splat_at S1)(b \<mapsto> sp'\<lparr>sp_current_version := sd_version ?f,
      sp_latest := set_local_only True q\<rparr>), sn_node := n'\<rparr>)" "frame (sn_node S1) n'"
    and rest: "mset cs = mset (concat (map (sub_calls (sn_node S1) (set_local_only True q))
      (filter (\<lambda>x. topic_at (sn_node S1) x = t \<or> topic_at (sn_node S1) x = topic_any) (nd_subscribers (sn_node S1)))))"
    "call_users env' cs (nd_user (sn_node S1)) = Inr (nd_user n')"
    "\<forall>l. map_of (th_buffers (nd_thread n')) l = map_of (th_buffers (nd_thread (sn_node S1))) l"
    by blast
  have tables: "sn_node S1 = sn_node S" "sn_remote_splats S1 = sn_remote_splats S" by (simp_all add: assms(29))
  let ?S2 = "S1\<lparr>sn_splat_at := (sn_splat_at S1)(b \<mapsto> sp'\<lparr>sp_current_version := sd_version ?f, sp_latest := set_local_only True q\<rparr>), sn_node := n'\<rparr>"
  have "update_splats env' sys' S1 = Inr ?S2 \<and> update_splats env' sys' ?S2 = Inr ?S2"
    by (rule update_splats_delivers [OF n'(1) _ _ _ frameD(9) [OF n'(2)] cell]) (use assms tables in simp_all)
  moreover have "node_ok n'" using frame_ok [OF n'(2)] assms(20) tables by simp
  ultimately show ?thesis
    using send rest tables by (intro exI [of _ P'] exI [of _ ?S2] exI [of _ cs]) (simp add: P'_def)
qed


text \<open>Stopping leaves no server.\<close>

lemma stop_gateway_server: "stop_gateway_service this n = Inr (r, n') \<Longrightarrow> nd_server n' = None"
  by (auto simp: stop_gateway_service_def exec_simps free_sockets_def split: option.splits)

lemma dismantle_server:
  fixes env :: "('b, 'u) node_env"
  assumes "node_dismantle env n = Inr (r, n')"
  shows "nd_server n' = nd_server n"
proof -
  have pub: "nd_server m' = nd_server m" if "publisher_set_husk a m = Inr m'" for a m and m' :: "('b, 'u) node"
    using that by (auto simp: publisher_set_husk_def node_unregister_def exec_simps split: option.splits)
  have husk: "nd_server m' = nd_server m" if "husk_subscribers ss m = Inr m'" for ss m and m' :: "('b, 'u) node"
    using that
  proof (induction ss arbitrary: m)
    case (Cons x ss)
    then show ?case
      by (auto simp: subscriber_set_husk_def unregister_subscriber_def node_unregister_def exec_simps split: if_splits option.splits)
  qed simp
  have shut: "nd_server m' = nd_server m" if sh: "remote_shutdown env x m = Inr m'" for x m and m' :: "('b, 'u) node"
  proof -
    obtain rn where rn: "nd_remote_at m x = Some rn" using sh by (auto simp: remote_shutdown_def exec_bind_Inr_iff load_Inr)
    show ?thesis
    proof (cases "rn_link rn = null_tp")
      case False
      then show ?thesis using sh rn by (simp add: remote_shutdown_def) (auto simp: exec_bind_Inr_iff)
    qed (use sh rn in \<open>simp add: remote_shutdown_def\<close>)
  qed
  have del: "nd_server m' = nd_server m" if "remote_delete env x m = Inr m'" for x m and m' :: "('b, 'u) node"
    using that by (auto simp: remote_delete_def exec_simps dest!: shut)
  obtain n2 n3 n4 n5 where n: "exec_foldl (\<lambda>n a. publisher_set_husk a n) n (nd_publishers n) = Inr n2"
      "husk_subscribers (nd_subscribers n2) n2 = Inr n3" "exec_foldl (\<lambda>n r. remote_shutdown env r n) n3 (nd_remotes n3) = Inr n4"
      "exec_foldl (\<lambda>n r. remote_delete env r n) n4 (nd_remotes n4) = Inr n5" "n' = n5\<lparr>nd_remotes := []\<rparr>"
    using assms by (auto simp: node_dismantle_def exec_simps)
  have "nd_server n2 = nd_server n" by (rule exec_foldl_invariant [OF n(1)]) (use pub in auto)
  moreover have "nd_server n4 = nd_server n3" by (rule exec_foldl_invariant [OF n(3)]) (use shut in auto)
  moreover have "nd_server n5 = nd_server n4" by (rule exec_foldl_invariant [OF n(4)]) (use del in auto)
  ultimately show ?thesis using husk [OF n(2)] n(5) by simp
qed

subsection \<open>Properties\<close>

text \<open>C24: Information about another node does to the node what it does without splats, and never
  faults: whatever the handler is sent, it returns, the node's own splats keep their objects, every
  pointer in the two tables stays live, distinct and mapped, and when the system calls succeed the
  topics registered afterwards are those registered before, less those of the sender's old
  information, plus those of the new. (A topic two nodes have splats for is thus lost when one of
  them leaves.)\<close>

theorem splat_info_refines:
  assumes "splats_ok s" and "p_msg p = Some doc" and "info_unbind (ne_lib env) doc = Some info" and "n_id info \<noteq> nd_id (sn_node s)"
  shows "\<exists>s'. splat_internal_handler env sys p s = Inr (success, s') \<and>
    internal_handler env p (sn_node s) = Inr (success, sn_node s') \<and> splats_ok s' \<and> sn_splats s' = sn_splats s \<and>
    (\<forall>e \<in> set (sn_splats s). sn_splat_at s' (snd e) = sn_splat_at s (snd e)) \<and>
    (sys_works sys \<longrightarrow> fst ` set (sn_remote_splats s') =
       (fst ` set (sn_remote_splats s) - old_splats info (sn_node s)) \<union> splat_topic ` set (n_splats info))"
proof -
  define n1 where "n1 = update_time env (sn_node s)"
  define n2 where "n2 = (if later (packet_stamp p) (nd_time n1) then n1\<lparr>nd_time := packet_stamp p\<rparr> else n1)"
  have n2: "nd_id n2 = nd_id (sn_node s)" "old_splats info n2 = old_splats info (sn_node s)"
    by (simp_all add: n2_def n1_def update_time_def Let_def old_splats_def)
  have "splats_ok (s\<lparr>sn_node := n2\<rparr>)" using assms(1) by simp
  from splat_store_info_ok [OF this, of env sys info] obtain s' where
    s': "splat_store_info env sys info (s\<lparr>sn_node := n2\<rparr>) = Inr s'" "keeps_own s s'" "sn_node s' = store_info info n2"
      "sys_works sys \<longrightarrow> registered s' = (registered s - old_splats info (sn_node s)) \<union> splat_topic ` set (n_splats info)"
    using n2(2) by auto
  have "splat_internal_handler env sys p s = Inr (success, s')" "internal_handler env p (sn_node s) = Inr (success, sn_node s')"
    using assms(2-4) n2(1) s'(1,3)
    by (simp_all add: splat_internal_handler_def internal_handler_def Let_def n1_def [symmetric] n2_def [symmetric])
  then show ?thesis using s'(2,4) by (intro exI [of _ s']) (simp add: keeps_own_def)
qed

text \<open>C23: A packet crosses from one process to another through a splat. A droppable packet the node
  itself published, on a topic somebody listens to, goes to no link but into the file of its splat;
  at its next \<open>update_splats\<close> a node that has the splat registered calls every active subscriber
  of the topic or of \<open>*\<close> exactly once with that packet, queues it for nobody, keeps its
  invariant, and does nothing at the update after that.\<close>

theorem splat_crosses:
  assumes "bson_laws (ne_lib env)" and "ne_lib env' = ne_lib env" and "users_return env'"
    and "q = stamped (ne_lib env) (nd_id (sn_node P)) p" and "packet_sendable (ne_lib env) q" and "p_packed q = Some doc"
    and "d = bson_data (ne_lib env) doc" and "d \<noteq> []" and "bson_read (ne_lib env) d = Some doc"
    and "splattable p (sn_node P)" and "\<not> p_local_only p" and "packet_topic p = t" and "t \<noteq> topic_internal" and "t \<noteq> topic_any"
    and "push_ready P r t a sp name f" and "fits (ne_dbg env) d sp f"
    and "node_ok (sn_node S)" and "poll_ready S t b name (sp_current_version sp + 1)"
    and "S1 = S\<lparr>sn_files := (sn_files P)(name \<mapsto> written (sp_current_version sp + 1) d f)\<rparr>"
    and "\<forall>e \<in> set (sn_remote_splats S). snd e \<noteq> b \<longrightarrow> idle_splat S1 e"
  shows "\<exists>P' S2 cs. splat_remote_send (splat_send_info env sys False) env sys r p P = Inr (success, P') \<and>
    sn_node P' = sn_node P \<and> sn_files P' = sn_files S1 \<and>
    update_splats env' sys' S1 = Inr S2 \<and> node_ok (sn_node S2) \<and>
    mset cs = mset (concat (map (sub_calls (sn_node S) (set_local_only True q))
      (filter (\<lambda>x. topic_at (sn_node S) x = t \<or> topic_at (sn_node S) x = topic_any) (nd_subscribers (sn_node S))))) \<and>
    call_users env' cs (nd_user (sn_node S)) = Inr (nd_user (sn_node S2)) \<and>
    (\<forall>l. map_of (th_buffers (nd_thread (sn_node S2))) l = map_of (th_buffers (nd_thread (sn_node S))) l) \<and>
    update_splats env' sys' S2 = Inr S2"
proof -
  note pub = assms(15) [unfolded push_ready_def]
  obtain sp' where sub: "(t, b) \<in> set (sn_remote_splats S)" "distinct (map snd (sn_remote_splats S))"
      "sn_splat_at S b = Some sp'" "sp_backing sp' = Some name" "sp_mode sp' = Sub" "sp_topic sp' = t"
      "nd_local (sn_node S) t \<noteq> None" "sp_current_version sp' \<noteq> sp_current_version sp + 1"
    using assms(18) unfolding poll_ready_def by blast
  have cell: "splat_cell P a sp name f" "sp_mode sp = Pub" "\<not> sd_locked f" using pub by simp_all
  show ?thesis
    by (rule splat_crosses_full [OF assms(1-9,15,10-14) cell assms(16,17) sub assms(19,20)])
qed

text \<open>A publisher with a splat for \<open>/t\<close>, a packet of its own and a library that reads the bytes of that packet.\<close>

definition splat_packet :: "sample_doc packet" where
  "splat_packet = (sample_packet ''/t'')\<lparr>p_meta := sample_meta\<lparr>m_topic := ''/t'', m_droppable := True, m_origin_id := 77\<rparr>\<rparr>"

definition splat_lib :: "sample_doc bson_lib" where
  "splat_lib = sample_lib\<lparr>bson_data := (\<lambda>_. [5, 0, 0, 0, 0]), bson_read := (\<lambda>_. p_packed (stamped sample_lib 77 splat_packet))\<rparr>"

definition sample_pub_splat :: "sample_doc splat" where
  "sample_pub_splat = (splat_new sample_lib True 77 ''/t'')\<lparr>sp_fd := 3, sp_backing := Some ''/tmp/77-!t.splat'', sp_size := 4096, sp_mode := Pub\<rparr>"

definition sample_splat_node :: "('b, 'u) node \<Rightarrow> (topic \<times> nat) list \<Rightarrow> (topic \<times> nat) list \<Rightarrow> 'b splat \<Rightarrow> ('b, 'u) splat_node" where
  "sample_splat_node n own other sp = \<lparr>sn_node = n, sn_splats = own, sn_remote_splats = other, sn_splat_at = [0 \<mapsto> sp],
     sn_files = [''/tmp/77-!t.splat'' \<mapsto> zeroed 4096], sn_calls = 1\<rparr>"

definition sample_sys :: splat_sys where
  "sample_sys = \<lparr>sy_open = (\<lambda>_. 3), sy_mmap = (\<lambda>_. True), sy_munmap = (\<lambda>_. True)\<rparr>"

lemma sample_splats_ok:
  "splats_ok (sample_splat_node n [] [(''/t'', 0)] (sample_pub_splat\<lparr>sp_mode := Sub\<rparr>))"
  by (simp add: splats_ok_def cell_ok_def sample_splat_node_def sample_pub_splat_def)

theorem splat_info_refines_witness:
  "\<exists>s'. splat_internal_handler unit_env sample_sys
      ((sample_packet topic_internal)\<lparr>p_msg := Some (Info_doc (sample_info\<lparr>n_id := 5,
         n_splats := [\<lparr>splat_node_id = 5, splat_topic = ''/u'', splat_size = 200\<rparr>]\<rparr>))\<rparr>)
      (sample_splat_node sample_remote_node [] [(''/t'', 0)] (sample_pub_splat\<lparr>sp_mode := Sub\<rparr>)) = Inr (success, s') \<and>
    splats_ok s' \<and> fst ` set (sn_remote_splats s') = {''/t'', ''/u''}"
proof -
  let ?info = "sample_info\<lparr>n_id := 5, n_splats := [\<lparr>splat_node_id = 5, splat_topic = ''/u'', splat_size = 200\<rparr>]\<rparr>"
  let ?p = "(sample_packet topic_internal)\<lparr>p_msg := Some (Info_doc ?info)\<rparr>"
  let ?s = "sample_splat_node sample_remote_node [] [(''/t'', 0)] (sample_pub_splat\<lparr>sp_mode := Sub\<rparr>)"
  have p: "p_msg ?p = Some (Info_doc ?info)" "info_unbind (ne_lib unit_env) (Info_doc ?info) = Some ?info"
      "n_id ?info \<noteq> nd_id (sn_node ?s)"
    by (simp_all add: unit_env_def sample_splat_node_def sample_remote_node_def)
  have "sys_works sample_sys" "old_splats ?info (sn_node ?s) = {}" "fst ` set (sn_remote_splats ?s) = {''/t''}"
    by (simp_all add: sys_works_def sample_sys_def old_splats_def sample_splat_node_def sample_remote_node_def sample_info_def)
  with splat_info_refines [OF sample_splats_ok p, of sample_sys] show ?thesis by auto
qed

lemma splat_lib_facts:
  "bson_laws splat_lib" "stamped splat_lib i p = stamped sample_lib i p"
  "packet_sendable splat_lib (stamped sample_lib 77 splat_packet)"
proof -
  show "bson_laws splat_lib" using sample_lib_laws by (simp add: splat_lib_def bson_laws_def)
  show "stamped splat_lib i p = stamped sample_lib i p" by (simp add: stamped_def packet_build_def splat_lib_def)
  show "packet_sendable splat_lib (stamped sample_lib 77 splat_packet)"
    by (simp add: packet_sendable_def stamped_def packet_build_def splat_lib_def splat_packet_def sample_packet_def)
qed

theorem splat_crosses_witness:
  "\<exists>P' n S2. splat_remote_send (splat_send_info (unit_env\<lparr>ne_lib := splat_lib\<rparr>) sample_sys False) (unit_env\<lparr>ne_lib := splat_lib\<rparr>)
       sample_sys 20 splat_packet (sample_splat_node sample_remote_node [(''/t'', 0)] [] sample_pub_splat) = Inr (success, P') \<and>
     update_splats (sample_env\<lparr>ne_lib := splat_lib\<rparr>) sample_sys
       ((sample_splat_node n [] [(''/t'', 0)] (sample_pub_splat\<lparr>sp_mode := Sub\<rparr>))\<lparr>sn_files := sn_files P'\<rparr>) = Inr S2 \<and>
     nd_user (sn_node S2) = nd_user n @ [(7, 0, p_msg splat_packet)]"
proof -
  let ?env = "unit_env\<lparr>ne_lib := splat_lib\<rparr>" and ?env' = "sample_env\<lparr>ne_lib := splat_lib\<rparr>"
  let ?P = "sample_splat_node sample_remote_node [(''/t'', 0)] [] sample_pub_splat" and ?f = "zeroed 4096"
  let ?name = "''/tmp/77-!t.splat''" and ?d = "[5, 0, 0, 0, 0] :: byte list"
  let ?q = "stamped sample_lib 77 splat_packet"
  obtain n :: "(sample_doc, sample_log) node" where n: "node_ok n" "nd_subscribers n = [1]" "topic_at n 1 = ''/t''"
      and calls: "\<And>p. sub_calls n p 1 = [(7, 0, p_msg p)]"
    using sample_node_exists by blast
  have "counts_match (nd_local n) (\<lambda>t. length (filter (\<lambda>s. topic_at n s = t) (nd_subscribers n)))"
    using n(1) by (simp add: node_ok_def node_wired_def subs_wired_def)
  then have local: "nd_local n ''/t'' \<noteq> None" using n(2,3) by (simp add: counts_match_def)
  let ?S = "sample_splat_node n [] [(''/t'', 0)] (sample_pub_splat\<lparr>sp_mode := Sub\<rparr>)"
  obtain doc where doc: "p_packed ?q = Some doc" using sendable_packed [OF splat_lib_facts(3)] by blast
  have users: "users_return ?env'" by (simp add: users_return_def sample_env_def)
  have lib: "ne_lib ?env = splat_lib" "ne_lib ?env' = ne_lib ?env" "bson_laws (ne_lib ?env)" "nd_id (sn_node ?P) = 77"
    by (simp_all add: splat_lib_facts(1) sample_splat_node_def sample_remote_node_def)
  have q: "?q = stamped (ne_lib ?env) (nd_id (sn_node ?P)) splat_packet" "packet_sendable (ne_lib ?env) ?q"
    by (simp_all only: lib splat_lib_facts)
  have d: "?d = bson_data (ne_lib ?env) doc" "?d \<noteq> []" "bson_read (ne_lib ?env) ?d = Some doc"
    by (simp_all add: splat_lib_def doc)
  have p: "splattable splat_packet (sn_node ?P)" "\<not> p_local_only splat_packet" "packet_topic splat_packet = ''/t''"
      "''/t'' \<noteq> topic_internal" "''/t'' \<noteq> topic_any"
    by (simp_all add: splattable_def lib(4) splat_packet_def sample_packet_def packet_topic_def topic_internal_def topic_any_def)
  have push: "push_ready ?P 20 ''/t'' 0 sample_pub_splat ?name ?f"
    by (simp add: push_ready_def sample_splat_node_def sample_remote_node_def splat_cell_def sample_pub_splat_def)
  have fit: "fits (ne_dbg ?env) ?d sample_pub_splat ?f"
    by (simp add: fits_def sample_pub_splat_def header_size_def)
  have v: "sp_current_version sample_pub_splat = 0" by (simp add: sample_pub_splat_def)
  have poll: "poll_ready ?S ''/t'' 0 ?name (sp_current_version sample_pub_splat + 1)"
    unfolding v using local by (simp add: poll_ready_def sample_splat_node_def sample_pub_splat_def)
  have ok: "node_ok (sn_node ?S)" using n(1) by (simp add: sample_splat_node_def)
  have idle: "\<forall>e \<in> set (sn_remote_splats ?S). snd e \<noteq> 0 \<longrightarrow> idle_splat s e" for s
    by (simp add: sample_splat_node_def)
  from splat_crosses [OF lib(3,2) users q doc d p push fit ok poll refl idle, of sample_sys sample_sys]
  obtain P' S2 cs where
    r: "splat_remote_send (splat_send_info ?env sample_sys False) ?env sample_sys 20 splat_packet ?P = Inr (success, P')"
      "sn_files P' = sn_files (?S\<lparr>sn_files := (sn_files ?P)(?name \<mapsto> written (sp_current_version sample_pub_splat + 1) ?d ?f)\<rparr>)"
      "update_splats ?env' sample_sys (?S\<lparr>sn_files := (sn_files ?P)(?name \<mapsto> written (sp_current_version sample_pub_splat + 1) ?d ?f)\<rparr>) = Inr S2"
      "mset cs = mset (concat (map (sub_calls n (set_local_only True ?q)) (filter (\<lambda>x. topic_at n x = ''/t'' \<or> topic_at n x = topic_any) (nd_subscribers n))))"
      "call_users ?env' cs (nd_user n) = Inr (nd_user (sn_node S2))"
    by (auto simp: sample_splat_node_def)
  have "mset cs = {#(7, 0, p_msg splat_packet)#}" using r(4) n(2,3) calls by (simp add: set_local_only_def)
  then have "cs = [(7, 0, p_msg splat_packet)]" by (metis mset_single_iff_right mset_zero_iff_right mset.simps)
  then have "nd_user (sn_node S2) = nd_user n @ [(7, 0, p_msg splat_packet)]" using r(5) by (simp add: sample_env_def)
  moreover have "sn_files P' = (sn_files ?P)(?name \<mapsto> written (sp_current_version sample_pub_splat + 1) ?d ?f)"
    by (rule trans [OF r(2)]) simp
  ultimately show ?thesis using r(1,3) by (intro exI [of _ P'] exI [of _ n] exI [of _ S2]) (simp only: simp_thms)
qed

text \<open>A splat keeps the size of its first document. When that document had \<open>k\<close> bytes, a later
  one of at least \<open>2 k - 48\<close> bytes aborts a debug build (as does the first itself, when \<open>k\<close> is
  between 24 and 48), and one that is longer than the pages of the file writes past them.\<close>

theorem splat_push_too_large:
  assumes "push_ready P r t a sp name f" and "splattable p (sn_node P)" and "\<not> p_local_only p" and "packet_topic p = t"
    and "p_packed (stamped (ne_lib env) (nd_id (sn_node P)) p) = Some doc" and "d = bson_data (ne_lib env) doc" and "length d < 2 ^ 31"
    and "24 \<le> k" and "k < 2 ^ 31" and "sp_size sp = word_of_nat (2 * k)" and "length (sd_data f) = length (sd_data (zeroed (sp_size sp)))"
  shows "(ne_dbg env \<and> 2 * k - 48 \<le> length d \<longrightarrow> splat_remote_send tell env sys r p P = Inl Assert_failed) \<and>
    (\<not> ne_dbg env \<and> (2 * k + 4095) div 4096 * 4096 - 48 < length d \<longrightarrow>
       splat_remote_send tell env sys r p P = Inl Buffer_overflow)"
proof -
  have cell: "splat_cell P a sp name f" "sp_mode sp = Pub" "\<not> sd_locked f" using assms(1) by (simp_all add: push_ready_def)
  note send = push_send [OF assms(1-4) refl, of tell env sys]
  have u1: "unat (sp_size sp) = 2 * k"
    unfolding assms(10) by (rule unat_u64_of_nat) (use assms(9) in simp)
  have u2: "unat (ucast (word_of_nat (length d) :: u32) :: u64) = length d"
    using assms(7) by (simp add: unat_of_nat unsigned_ucast_eq take_bit_nat_eq_self)
  have "unat (sp_size sp - header_size) = 2 * k - 48"
    using assms(8) u1 by (simp add: unat_sub word_le_nat_alt header_size_def)
  then have "ucast (word_of_nat (length d) :: u32) < sp_size sp - header_size \<longleftrightarrow> length d < 2 * k - 48"
    using u2 by (simp add: word_less_nat_alt)
  moreover have "length (sd_data f) = (2 * k + 4095) div 4096 * 4096 - 48"
    using assms(11) u1 by simp
  ultimately show ?thesis
    using push_at_too_large [OF cell assms(5,6), of] by (auto simp: send)
qed

theorem splat_push_too_large_witness:
  "splat_remote_send (\<lambda>s. Inr s) (unit_env\<lparr>ne_lib := splat_lib\<lparr>bson_data := (\<lambda>_. replicate 50 0)\<rparr>\<rparr>) sample_sys 20 splat_packet
     (sample_splat_node sample_remote_node [(''/t'', 0)] [] (sample_pub_splat\<lparr>sp_size := 98\<rparr>)) = Inl Assert_failed"
proof -
  let ?lib = "splat_lib\<lparr>bson_data := (\<lambda>_. replicate 50 0)\<rparr>"
  let ?env = "unit_env\<lparr>ne_lib := ?lib\<rparr>" and ?sp = "sample_pub_splat\<lparr>sp_size := 98\<rparr>"
  let ?P = "sample_splat_node sample_remote_node [(''/t'', 0)] [] ?sp"
  have push: "push_ready ?P 20 ''/t'' 0 ?sp ''/tmp/77-!t.splat'' (zeroed 4096)"
    by (simp add: push_ready_def sample_splat_node_def sample_remote_node_def splat_cell_def sample_pub_splat_def)
  have p: "splattable splat_packet (sn_node ?P)" "\<not> p_local_only splat_packet" "packet_topic splat_packet = ''/t''"
    by (simp_all add: splattable_def sample_splat_node_def sample_remote_node_def splat_packet_def sample_packet_def packet_topic_def)
  obtain doc where doc: "p_packed (stamped (ne_lib ?env) (nd_id (sn_node ?P)) splat_packet) = Some doc"
    by (auto simp: stamped_def packet_build_def splat_packet_def sample_packet_def)
  have k: "(24 :: nat) \<le> 49" "(49 :: nat) < 2 ^ 31" "sp_size ?sp = word_of_nat (2 * 49)"
      "length (sd_data (zeroed 4096)) = length (sd_data (zeroed (sp_size ?sp)))"
    by simp_all
  show ?thesis
    using splat_push_too_large [OF push p doc refl _ k, of "\<lambda>s. Inr s" sample_sys]
    by (simp add: unit_env_def)
qed

text \<open>Stopping a node deletes its splats and those it registered but leaves both tables as they
  were: when either has an entry, the destructor, which stops the node again, uses an object
  after its deletion.\<close>

theorem splat_stop_dangles:
  assumes "splat_stop env sys this s = Inr (ret, s')" and "sn_splats s \<noteq> [] \<or> sn_remote_splats s \<noteq> []"
  shows "sn_splats s' = sn_splats s \<and> sn_remote_splats s' = sn_remote_splats s \<and>
    splat_node_destroy env sys this s' = Inl Use_after_free"
proof -
  have one: "sn_splats t' = sn_splats t \<and> sn_remote_splats t' = sn_remote_splats t \<and> sn_node t' = sn_node t \<and>
      sn_splat_at t' = (sn_splat_at t)(a := None)" if "delete_at env sys a t = Inr t'" for a t t'
    using that by (auto simp: delete_at_def exec_simps)
  have all: "sn_splats t' = sn_splats t \<and> sn_remote_splats t' = sn_remote_splats t \<and> sn_node t' = sn_node t \<and>
      (\<forall>a. sn_splat_at t a = None \<or> a \<in> snd ` set es \<longrightarrow> sn_splat_at t' a = None)"
    if "exec_foldl (\<lambda>s e. delete_at env sys (snd e) s) t es = Inr t'" for es :: "(topic \<times> nat) list" and t t'
    using that
  proof (induction es arbitrary: t)
    case (Cons e es)
    obtain t1 where t1: "delete_at env sys (snd e) t = Inr t1" "exec_foldl (\<lambda>s e. delete_at env sys (snd e) s) t1 es = Inr t'"
      using Cons.prems by (auto simp: exec_simps)
    from Cons.IH [OF t1(2)] one [OF t1(1)] show ?case by auto
  qed simp
  obtain r0 n0 s1 s2 s3 r3 n3 where
    gw: "stop_gateway_service this (sn_node s) = Inr (r0, n0)"
    and s1: "s1 = s\<lparr>sn_node := n0\<lparr>nd_dave := mailman_clear (nd_dave n0)\<rparr>\<rparr>"
    and s2: "exec_foldl (\<lambda>s e. delete_at env sys (snd e) s) s1 (sn_splats s1) = Inr s2"
    and s3: "exec_foldl (\<lambda>s e. delete_at env sys (snd e) s) s2 (sn_remote_splats s2) = Inr s3"
      "node_dismantle env (sn_node s3) = Inr (r3, n3)" "s' = s3\<lparr>sn_node := n3\<rparr>"
    using assms(1) unfolding splat_stop_def on_node_def Let_def by (auto simp: exec_simps)
  have tables: "sn_splats s' = sn_splats s" "sn_remote_splats s' = sn_remote_splats s"
    using all [OF s2] all [OF s3(1)] by (simp_all add: s1 s3(3))
  have gone: "sn_splat_at s' (snd e) = None" if "e \<in> set (sn_splats s) \<union> set (sn_remote_splats s)" for e
    using all [OF s2] all [OF s3(1)] that by (auto simp: s1 s3(3))
  have "nd_server (sn_node s3) = None"
    using all [OF s2] all [OF s3(1)] stop_gateway_server [OF gw] by (simp add: s1)
  then have server: "nd_server (sn_node s') = None" using dismantle_server [OF s3(2)] by (simp add: s3(3))
  have fault: "exec_foldl (\<lambda>s e. delete_at env sys (snd e) s) t (e # es) = Inl Use_after_free" if "sn_splat_at t (snd e) = None" for t e es
    using that by (simp add: delete_at_def load_def)
  have "splat_node_destroy env sys this s' = Inl Use_after_free"
  proof (cases "sn_splats s")
    case Nil
    then obtain e es where "sn_remote_splats s = e # es" using assms(2) by (cases "sn_remote_splats s") auto
    then show ?thesis
      using Nil tables gone [of e] server
      by (simp add: splat_node_destroy_def splat_stop_def on_node_def stop_gateway_service_def fault del: exec_foldl.simps(2))
  next
    case (Cons e es)
    then show ?thesis
      using tables gone [of e] server
      by (simp add: splat_node_destroy_def splat_stop_def on_node_def stop_gateway_service_def fault del: exec_foldl.simps(2))
  qed
  then show ?thesis using tables by simp
qed

definition lonely_node :: "(sample_doc, unit) node" where
  "lonely_node = sample_remote_node\<lparr>nd_remotes := []\<rparr>"

theorem splat_stop_dangles_witness:
  "\<exists>s' ret. splat_stop unit_env sample_sys 9 (sample_splat_node lonely_node [(''/t'', 0)] [] sample_pub_splat) = Inr (ret, s') \<and>
     splat_node_destroy unit_env sample_sys 9 s' = Inl Use_after_free"
proof -
  let ?s = "sample_splat_node lonely_node [(''/t'', 0)] [] sample_pub_splat"
  have "\<exists>ret s'. splat_stop unit_env sample_sys 9 ?s = Inr (ret, s')"
    by (simp add: splat_stop_def on_node_def sample_splat_node_def lonely_node_def sample_remote_node_def stop_gateway_service_def
        delete_at_def sample_pub_splat_def splat_destroy_def splat_close_def splat_unmap_def sample_sys_def node_dismantle_def)
  then obtain ret s' where s': "splat_stop unit_env sample_sys 9 ?s = Inr (ret, s')" by blast
  have "sn_splats ?s \<noteq> [] \<or> sn_remote_splats ?s \<noteq> []" by (simp add: sample_splat_node_def)
  from splat_stop_dangles [OF s' this] s' show ?thesis by blast
qed

end
