(* ===== verification/System_Clock.thy ===== *)
theory System_Clock
  imports Clock "HOL-Library.Signed_Division"
begin

text \<open>
  The clocks of the machine as the code reads them: \<open>gettimeofday\<close> for Windows
  (\<open>src_win/win_sys_time.c\<close>), and the timer \<open>rate\<close> (\<open>rate.hpp\<close>), a class nothing uses yet.
\<close>

subsection \<open>Windows\<close>

text \<open>
  \<open>low\<close> and \<open>high\<close> are the halves of the \<open>FILETIME\<close>, the hundreds of nanoseconds since 1601, that
  \<open>SystemTimeToFileTime\<close> makes of the time \<open>GetSystemTime\<close> reads, and \<open>ms\<close> is the \<open>wMilliseconds\<close>
  of that time. A \<open>long\<close> has 32 bits on Windows.
\<close>

definition epoch :: u64 where
  "epoch = 116444736000000000"

definition quad_part :: "u32 \<Rightarrow> u32 \<Rightarrow> u64" where
  "quad_part low high = word_cat high low"

definition gettimeofday :: "u32 \<Rightarrow> u32 \<Rightarrow> u16 \<Rightarrow> timeval" where
  "gettimeofday low high ms =
     \<lparr>tv_sec = sint (ucast ((quad_part low high - epoch) div 10000000) :: u32),
      tv_usec = sint (ucast ms * 1000 :: u32)\<rparr>"

subsection \<open>The timer\<close>

text \<open>
  The steady clock counts nanoseconds. \<open>should_fire\<close> reads it twice when it fires, \<open>now\<close> for the
  test and \<open>again\<close> for the next round. The cast to milliseconds cuts towards zero.
\<close>

record rate =
  rt_last :: int
  rt_duration :: int

definition rate_new :: "int \<Rightarrow> int \<Rightarrow> rate" where
  "rate_new duration now = \<lparr>rt_last = now, rt_duration = duration\<rparr>"

definition should_fire :: "int \<Rightarrow> int \<Rightarrow> rate \<Rightarrow> bool \<times> rate" where
  "should_fire now again r =
     (if (now - rt_last r) sdiv 1000000 \<le> rt_duration r then (False, r)
      else (True, r\<lparr>rt_last := again\<rparr>))"

text \<open>A sequence of calls: the readings at which it fired.\<close>

fun fires :: "(int \<times> int) list \<Rightarrow> rate \<Rightarrow> int list" where
  "fires [] r = []"
| "fires ((now, again) # ts) r =
     (case should_fire now again r of (b, r') \<Rightarrow> (if b then [now] else []) @ fires ts r')"

subsection \<open>Facts\<close>

lemma sint_of_uint: "sint (w :: u32) = (uint w + 2 ^ 31) mod 2 ^ 32 - 2 ^ 31"
  by (simp add: sint_uint signed_take_bit_eq_take_bit_shift take_bit_eq_mod)

lemma gettimeofday_sec:
  assumes "uint (quad_part low high) = uint epoch + 10000000 * s + r" and "0 \<le> s" and "0 \<le> r" and "r < 10000000"
  shows "tv_sec (gettimeofday low high ms) = (s + 2 ^ 31) mod 2 ^ 32 - 2 ^ 31"
proof -
  let ?q = "quad_part low high - epoch"
  have "uint ?q = 10000000 * s + r"
    using assms by (subst uint_sub_lem [THEN iffD1]) (simp_all add: algebra_simps)
  moreover have "(10000000 * s + r) div 10000000 = s" using assms(3,4) by simp
  ultimately have "uint (?q div 10000000) = s" by (simp add: uint_div)
  then have u: "uint (ucast (?q div 10000000) :: u32) = s mod 2 ^ 32" by (simp add: unsigned_ucast_eq take_bit_eq_mod)
  show ?thesis by (simp add: gettimeofday_def sint_of_uint [of "ucast (?q div 10000000)"] u mod_add_left_eq)
qed

lemma gettimeofday_usec:
  assumes "uint ms < 1000"
  shows "tv_usec (gettimeofday low high ms) = uint ms * 1000"
proof -
  have "uint (ucast ms :: u32) = uint ms" by (simp add: unsigned_ucast_eq take_bit_eq_mod) (use assms in simp)
  then have "uint (ucast ms * 1000 :: u32) = uint ms * 1000"
    using assms by (subst uint_mult_lem [THEN iffD1]) simp_all
  then show ?thesis using assms by (simp add: gettimeofday_def sint_of_uint [of "ucast ms * 1000"])
qed

text \<open>The spacing of the times at which a timer fires, while the clock does not go back.\<close>

fun spaced :: "int \<Rightarrow> int \<Rightarrow> int list \<Rightarrow> bool" where
  "spaced d t [] = True"
| "spaced d t (x # xs) = (t + d \<le> x \<and> spaced d x xs)"

fun steady :: "int \<Rightarrow> (int \<times> int) list \<Rightarrow> bool" where
  "steady t [] = True"
| "steady t ((now, again) # ts) = (t \<le> now \<and> now \<le> again \<and> steady again ts)"

lemma spaced_mono: "t' \<le> t \<Longrightarrow> spaced d t xs \<Longrightarrow> spaced d t' xs"
  by (cases xs) auto

lemma steady_mono: "t' \<le> t \<Longrightarrow> steady t xs \<Longrightarrow> steady t' xs"
  by (cases xs) auto

lemma int_le_div_iff:
  assumes "0 < (b :: int)"
  shows "d \<le> a div b \<longleftrightarrow> d * b \<le> a"
proof
  assume "d \<le> a div b"
  then have "d * b \<le> a div b * b" using assms by simp
  also have "\<dots> \<le> a" using pos_mod_sign [OF assms, of a] div_mult_mod_eq [of a b] by linarith
  finally show "d * b \<le> a" .
next
  assume "d * b \<le> a"
  from zdiv_mono1 [OF this assms] show "d \<le> a div b" using assms by simp
qed

lemma should_fire_iff:
  assumes "rt_last r \<le> now" and "0 \<le> rt_duration r"
  shows "fst (should_fire now again r) \<longleftrightarrow> rt_last r + (rt_duration r + 1) * 1000000 \<le> now"
proof -
  have "(now - rt_last r) sdiv 1000000 = (now - rt_last r) div 1000000"
    using assms(1) by (simp add: signed_divide_int_def sgn_if)
  then have "fst (should_fire now again r) \<longleftrightarrow> \<not> (now - rt_last r) div 1000000 \<le> rt_duration r"
    by (simp add: should_fire_def)
  also have "\<dots> \<longleftrightarrow> rt_duration r + 1 \<le> (now - rt_last r) div 1000000" by linarith
  also have "\<dots> \<longleftrightarrow> (rt_duration r + 1) * 1000000 \<le> now - rt_last r"
    by (rule int_le_div_iff) simp
  also have "\<dots> \<longleftrightarrow> rt_last r + (rt_duration r + 1) * 1000000 \<le> now" by linarith
  finally show ?thesis .
qed

lemma should_fire_cases:
  assumes "rt_last r \<le> now" and "0 \<le> rt_duration r"
  shows "should_fire now again r = (if rt_last r + (rt_duration r + 1) * 1000000 \<le> now
    then (True, r\<lparr>rt_last := again\<rparr>) else (False, r))"
  using should_fire_iff [OF assms, of again] by (auto simp: should_fire_def split: if_splits)

subsection \<open>Properties\<close>

text \<open>C28: The replacement of \<open>gettimeofday\<close> for Windows is exact while its seconds fit: for the
  file time of a moment \<open>s\<close> seconds and \<open>ms\<close> milliseconds after 1970 the result is a proper
  \<open>timeval\<close>, and up to the end of the 31-bit seconds (in 2038) it is that moment, to the
  microsecond; after it, because a \<open>long\<close> has 32 bits there, the seconds are negative.\<close>

theorem gettimeofday_exact:
  assumes "uint (quad_part low high) = uint epoch + 10000000 * s + 10000 * uint ms"
    and "uint ms < 1000" and "0 \<le> s" and "s < 2 ^ 32"
  shows "tv_ok (gettimeofday low high ms) \<and>
    (s < 2 ^ 31 \<longrightarrow> tv_us (gettimeofday low high ms) = (uint (quad_part low high) - uint epoch) div 10) \<and>
    (2 ^ 31 \<le> s \<longrightarrow> tv_sec (gettimeofday low high ms) = s - 2 ^ 32)"
proof -
  have sec: "tv_sec (gettimeofday low high ms) = (s + 2 ^ 31) mod 2 ^ 32 - 2 ^ 31"
    by (rule gettimeofday_sec [OF assms(1)]) (use assms(2,3) in simp_all)
  note usec = gettimeofday_usec [OF assms(2), of low high]
  have "(s + 2 ^ 31) mod 2 ^ 32 = s + 2 ^ 31" if "s < 2 ^ 31" using assms(3) that by simp
  moreover have "(s + 2 ^ 31) mod 2 ^ 32 = s - 2 ^ 31" if "2 ^ 31 \<le> s"
  proof -
    have "(s + 2 ^ 31) mod 2 ^ 32 = (s - 2 ^ 31 + 2 ^ 32) mod 2 ^ 32" by (simp add: add.commute)
    also have "\<dots> = (s - 2 ^ 31) mod 2 ^ 32" by (rule mod_add_self2)
    also have "\<dots> = s - 2 ^ 31" using assms(4) that by simp
    finally show ?thesis .
  qed
  ultimately show ?thesis
    using assms(2) sec usec by (auto simp: tv_ok_def tv_us_def assms(1))
qed

theorem gettimeofday_exact_witness:
  "tv_us (gettimeofday 3577643008 27111902 0) = 0 \<and>
   tv_us (gettimeofday (3577643008 + 15000000) 27111902 500) = 1500000"
proof -
  have q: "uint (quad_part 3577643008 27111902) = uint epoch + 10000000 * 0 + 10000 * uint (0 :: u16)"
    "uint (quad_part (3577643008 + 15000000) 27111902) = uint epoch + 10000000 * 1 + 10000 * uint (500 :: u16)"
    by (simp_all add: quad_part_def epoch_def word_cat_eq)
  from gettimeofday_exact [OF q(1)] gettimeofday_exact [OF q(2)] show ?thesis
    unfolding q by simp
qed

text \<open>The timer keeps its distance: whenever and however often it is asked, on a clock that does
  not go back, it fires only when more than its duration, in whole milliseconds, has passed
  since it was made or last fired, and it does fire then; else it stays as it is.\<close>

theorem rate_spacing:
  assumes "steady (rt_last r) ts" and "0 \<le> rt_duration r"
  shows "spaced ((rt_duration r + 1) * 1000000) (rt_last r) (fires ts r) \<and>
    (\<forall>now again ts'. ts = (now, again) # ts' \<longrightarrow>
      fires ts r = (if rt_last r + (rt_duration r + 1) * 1000000 \<le> now
        then now # fires ts' (r\<lparr>rt_last := again\<rparr>) else fires ts' r))"
proof -
  have "spaced ((rt_duration r + 1) * 1000000) (rt_last r) (fires ts r)"
    using assms
  proof (induction ts r rule: fires.induct)
    case (2 now again ts r)
    then have ih: "spaced ((rt_duration r' + 1) * 1000000) (rt_last r') (fires ts r')"
      if "snd (should_fire now again r) = r'" "steady (rt_last r') ts" "0 \<le> rt_duration r'" for r'
      using that by (metis surjective_pairing)
    show ?case
    proof (cases "rt_last r + (rt_duration r + 1) * 1000000 \<le> now")
      case True
      with 2(2,3) should_fire_cases [of r now again] ih [of "r\<lparr>rt_last := again\<rparr>"] spaced_mono [of now again]
      show ?thesis by simp
    next
      case False
      with 2(2,3) should_fire_cases [of r now again] ih [of r] steady_mono [of "rt_last r" again ts]
      show ?thesis by simp
    qed
  qed simp
  moreover have "fires ts r = (if rt_last r + (rt_duration r + 1) * 1000000 \<le> now
      then now # fires ts' (r\<lparr>rt_last := again\<rparr>) else fires ts' r)" if "ts = (now, again) # ts'" for now again ts'
    using should_fire_cases [of r now again] assms that by simp
  ultimately show ?thesis by blast
qed

theorem rate_spacing_witness:
  "fires [(5000000, 5000001), (6000000, 6000001), (7000000, 7000002), (12000001, 12000001)] (rate_new 5 0) = [6000000, 12000001] \<and>
   spaced 6000000 0 [6000000, 12000001]"
proof -
  let ?ts = "[(5000000, 5000001), (6000000, 6000001), (7000000, 7000002), (12000001, 12000001)] :: (int \<times> int) list"
  have "steady (rt_last (rate_new 5 0)) ?ts" "0 \<le> rt_duration (rate_new 5 0)" by (simp_all add: rate_new_def)
  from rate_spacing [OF this] show ?thesis by (simp add: rate_new_def should_fire_def signed_divide_int_def)
qed

end
