(* ===== verification/Node_Life.thy ===== *)
theory Node_Life
  imports Node
begin

text \<open>
  The life of a node: what a connection, a disconnection, the loop over received packets and
  \<open>stop\<close> do to a node whose invariant holds, and the invariant over every sequence of calls of
  its users, events of its server and its remotes, and sections of its thread.
\<close>

subsection \<open>Connections\<close>

lemma open_client_transport:
  assumes "tl_heap base c = Some s" and "is_open s" and "associated_address s = Some addr"
  shows "\<exists>s0 s1. tcp_transport_of_socket c False base = Inr s0 \<and>
    tcp_transport_open strerror rs (-1) 0 (-1) 0 s0 = Inr (success, s1) \<and> tt_socket (tl_transport s1) = Some c \<and>
    \<not> tt_owns (tl_transport s1) \<and> tl_heap s1 = tl_heap base \<and> (\<exists>s2. tcp_transport_destroy s1 = Inr s2)"
  using assms
  by (simp add: tcp_transport_destroy_def tcp_transport_close_def tcp_close_def tcp_transport_of_socket_def deref_def option_unwrap_def tcp_transport_open_def fd_def is_open_def
      option_none_def option_some_def tcp_transport_channels_def Let_def)

lemma tcp_transport_destroy_freed:
  "tt_socket (tl_transport l) = Some c \<Longrightarrow> tl_heap l c = None \<Longrightarrow> tcp_transport_destroy l \<noteq> Inr s"
  by (simp add: tcp_transport_destroy_def tcp_transport_close_def deref_def Let_def)

lemma success_true [simp]: "to_bool success"
  by (simp add: success_def to_bool_def result_of_value_def)

lemma server_connection_ok:
  assumes ok: "node_ok n" and users: "users_return env" and r: "fresh_box (nd_dave n) r"
    and l: "l \<noteq> null_tp" "map_of (th_buffers (nd_thread n)) l = None"
    and c: "tl_heap base c = Some s" "is_open s" "associated_address s = Some addr"
  shows "\<exists>n'. server_connection env r l base c n = Inr n' \<and> node_ok n' \<and> nd_remotes n' = nd_remotes n @ [r] \<and>
    nd_remote_at n' r = Some \<lparr>rn_mode = Allow_internal, rn_link = l, rn_ids = {}\<rparr> \<and> socket_of n' r = Some c \<and>
    transport_sound n' r \<and> tl_heap (th_link (nd_thread n') l) = tl_heap base \<and>
    \<not> tt_owns (tl_transport (th_link (nd_thread n') l)) \<and> nd_id n' = nd_id n \<and> nd_publishers n' = nd_publishers n \<and> nd_subscribers n' = nd_subscribers n \<and>
    map fst (th_buffers (nd_thread n')) = map fst (th_buffers (nd_thread n)) @ [l] \<and>
    nd_pub_at n' = nd_pub_at n \<and> nd_sub_at n' = nd_sub_at n \<and> nd_server n' = nd_server n \<and>
    members (nd_dave n') = (members (nd_dave n))(topic_any := insert r (members (nd_dave n) topic_any)) \<and>
    (\<forall>t. \<forall>c \<in> members (nd_dave n) t. box_incoming n' c = box_incoming n c) \<and>
    (\<forall>x. x \<noteq> r \<longrightarrow> nd_remote_at n' x = nd_remote_at n x) \<and>
    (\<forall>x. x \<noteq> l \<longrightarrow> th_link (nd_thread n') x = th_link (nd_thread n) x)"
proof -
  obtain s0 s1 s2 where t: "tcp_transport_of_socket c False base = Inr s0"
      "tcp_transport_open (ne_strerror env) (ne_resolver env) (-1) 0 (-1) 0 s0 = Inr (success, s1)"
      "tt_socket (tl_transport s1) = Some c" "\<not> tt_owns (tl_transport s1)" "tl_heap s1 = tl_heap base"
      "tcp_transport_destroy s1 = Inr s2"
    using open_client_transport [OF c] by blast
  have "fresh_box (nd_dave (put_link l s1 n)) r" "map_of (th_buffers (nd_thread (put_link l s1 n))) l = None"
    using r l(2) by (simp_all add: put_link_def)
  from adopt_remote_ok [OF put_link_ok [OF ok] users this(1) l(1) this(2), of Allow_internal] obtain n' where
    n': "adopt_remote env r l Allow_internal (put_link l s1 n) = Inr n'" "node_ok n'" "nd_remotes n' = nd_remotes n @ [r]"
      "nd_remote_at n' = (nd_remote_at n)(r \<mapsto> \<lparr>rn_mode = Allow_internal, rn_link = l, rn_ids = {}\<rparr>)"
      "th_link (nd_thread n') = (th_link (nd_thread n))(l := s1)"
      "nd_id n' = nd_id n" "nd_publishers n' = nd_publishers n" "nd_subscribers n' = nd_subscribers n"
      "map fst (th_buffers (nd_thread n')) = map fst (th_buffers (nd_thread n)) @ [l]"
      "nd_pub_at n' = nd_pub_at n" "nd_sub_at n' = nd_sub_at n" "nd_server n' = nd_server n"
      "members (nd_dave n') = (members (nd_dave n))(topic_any := insert r (members (nd_dave n) topic_any))"
      "\<forall>t. \<forall>c \<in> members (nd_dave n) t. box_incoming n' c = box_incoming n c"
    by (elim exE conjE) (rule that; simp add: put_link_def box_incoming_def)
  moreover have "server_connection env r l base c n = Inr n'" using t n'(1) by (simp add: server_connection_def)
  ultimately show ?thesis using t by (intro exI [of _ n']) (simp add: socket_of_def transport_sound_def)
qed

lemma join_ok:
  assumes ok: "node_ok n" and users: "users_return env" and r: "fresh_box (nd_dave n) r"
    and l: "l \<noteq> null_tp" "map_of (th_buffers (nd_thread n)) l = None"
    and j: "join_daylite env r l a socket_ret errno1 connect_ret errno2 gateway peer n = Inr (ret, n')"
  shows "node_ok n'"
proof -
  obtain ret' s where s: "tcp_transport_open (ne_strerror env) (ne_resolver env) socket_ret errno1 connect_ret errno2
      (tcp_transport_new a gateway (th_link (nd_thread n) l)) = Inr (ret', s)"
    using j by (auto simp: join_daylite_def exec_simps)
  show ?thesis
  proof (cases "to_bool ret'")
    case False
    then show ?thesis using j s put_link_ok [OF ok] by (auto simp: join_daylite_def exec_simps)
  next
    case True
    have "fresh_box (nd_dave (put_link l s n)) r" "map_of (th_buffers (nd_thread (put_link l s n))) l = None"
      using r l(2) by (simp_all add: put_link_def)
    from adopt_remote_ok [OF put_link_ok [OF ok] users this(1) l(1) this(2)] obtain n2 where
      "adopt_remote env r l (if peer then Block_internal else Allow_internal) (put_link l s n) = Inr n2" "node_ok n2"
      by blast
    then show ?thesis using j s True by (simp add: join_daylite_def)
  qed
qed

lemma server_disconnection_ok:
  assumes ok: "node_ok n" and users: "users_return env"
    and sound: "\<forall>r \<in> set (nd_remotes n). socket_of n r = Some c \<longrightarrow> transport_sound n r"
  shows "\<exists>n1 n'. exec_foldl (disconnect_remote env c) n (nd_remotes n) = Inr n1 \<and> node_ok n1 \<and>
    nd_remotes n1 = filter (\<lambda>r. socket_of n r \<noteq> Some c) (nd_remotes n) \<and>
    (\<forall>i. map_of (nd_latest n1) i = map_option (\<lambda>info. if \<exists>r \<in> set (nd_remotes n). socket_of n r = Some c \<and> i \<in> ids_of n r
       then dead info else info) (map_of (nd_latest n) i)) \<and>
    server_disconnection env c n = Inr n' \<and> send_info env True n1 = Inr n' \<and> node_ok n' \<and> nd_remotes n' = nd_remotes n1 \<and>
    shrinks n n'"
proof -
  have "distinct (nd_remotes n)" using node_wiredD(8) ok by (auto simp: node_ok_def remotes_wired_def)
  from disconnect_all [OF ok this subset_refl sound, of env] obtain n1 where
    n1: "exec_foldl (disconnect_remote env c) n (nd_remotes n) = Inr n1" "node_ok n1"
      "nd_remotes n1 = filter (\<lambda>r. \<not> (r \<in> set (nd_remotes n) \<and> socket_of n r = Some c)) (nd_remotes n)"
      "\<forall>i. map_of (nd_latest n1) i = map_option (\<lambda>info. if \<exists>r \<in> set (nd_remotes n). socket_of n r = Some c \<and> i \<in> ids_of n r
         then dead info else info) (map_of (nd_latest n) i)" "shrinks n n1"
    by blast
  have "node_live n1" using n1(2) node_wiredD(1) by (auto simp: node_ok_def)
  from send_info_live [OF this users] obtain n' where n': "send_info env True n1 = Inr n'" "frame n1 n'" by blast
  have "nd_remotes n1 = filter (\<lambda>r. socket_of n r \<noteq> Some c) (nd_remotes n)"
    unfolding n1(3) by (rule filter_cong) auto
  moreover note f = frameD [OF n'(2)]
  have "map_of (th_buffers (nd_thread n1)) l = None \<Longrightarrow> map_of (th_buffers (nd_thread n')) l = None" for l
    using f(16) [of l] by simp
  then have "shrinks n1 n'" by (simp add: shrinks_def same_remote_def f)
  from shrinks_trans [OF n1(5) this] have "shrinks n n'" .
  ultimately show ?thesis
    using n1 n' frame_ok [OF n'(2)] frameD(5) [OF n'(2)] by (intro exI [of _ n1] exI [of _ n']) (simp add: server_disconnection_def)
qed

subsection \<open>Every sequence of steps\<close>

lemma remote_take_ok:
  assumes ok: "node_ok n" and r: "r \<in> set (nd_remotes n)" and take: "remote_take env r n = Inr (b, n')"
  shows "node_ok n'"
proof -
  have w: "node_wired n" using ok by (simp add: node_ok_def)
  obtain rn p t where rn: "nd_remote_at n r = Some rn"
      "next_packet (ne_dbg env) (packet_null (ne_lib env) (ne_junk env)) (rn_link rn) (nd_thread n) = Inr (p, t)"
    using take by (auto simp: remote_take_def exec_simps)
  have keys: "map_of (th_buffers t) l = None \<longleftrightarrow> map_of (th_buffers (nd_thread n)) l = None" for l
    using rn(2) by (auto simp: next_packet_def exec_simps AList.update_conv' split: option.splits prod.splits if_splits)
  have ok1: "node_ok (n\<lparr>nd_thread := t, nd_remote_at := (nd_remote_at n)(r \<mapsto> rn\<lparr>rn_ids := ids\<rparr>)\<rparr>)" for ids
    using wired_links [OF w, of "n\<lparr>nd_thread := t, nd_remote_at := (nd_remote_at n)(r \<mapsto> rn\<lparr>rn_ids := ids\<rparr>)\<rparr>"] keys rn(1) ok
    by (simp add: node_ok_def latest_ok_def)
  have "(nd_remote_at n)(r \<mapsto> rn\<lparr>rn_ids := rn_ids rn\<rparr>) = nd_remote_at n" using rn(1) by auto
  then have ok0: "node_ok (n\<lparr>nd_thread := t\<rparr>)" using ok1 [of "rn_ids rn"] by simp
  show ?thesis
  proof (cases "p_null p \<or> seen (nd_id n) p")
    case True
    then show ?thesis using take rn ok0 by (auto simp: remote_take_def Let_def split: if_splits)
  next
    case False
    then obtain ret where "node_mail env r p (n\<lparr>nd_thread := t,
        nd_remote_at := (nd_remote_at n)(r \<mapsto> rn\<lparr>rn_ids := insert (m_id (p_meta p)) (rn_ids rn)\<rparr>)\<rparr>) = Inr (ret, n')"
      using take rn by (auto simp: remote_take_def exec_simps Let_def)
    from frame_ok [OF node_mail_frame [OF this] ok1] show ?thesis .
  qed
qed

lemma publish_frame: "publish env a msg n = Inr (ret, n') \<Longrightarrow> frame n n'"
  by (auto simp: publish_def publish_packet_def exec_simps Let_def split: if_splits option.splits
      dest!: node_mail_frame intro: frame_trans [OF frame_update_time])

text \<open>The flags of publishers and subscribers do not matter to the invariant.\<close>

lemma wired_flags:
  assumes w: "node_wired n"
    and same: "nd_dave n' = nd_dave n" "nd_box n' = nd_box n" "nd_remotes n' = nd_remotes n" "nd_subscribers n' = nd_subscribers n"
      "nd_publishers n' = nd_publishers n" "nd_remote_at n' = nd_remote_at n" "nd_thread n' = nd_thread n" "nd_local n' = nd_local n"
    and pubs: "\<And>a. map_option (\<lambda>pb. (pb_topic pb, pb_box pb, pb_husk pb)) (nd_pub_at n' a) =
        map_option (\<lambda>pb. (pb_topic pb, pb_box pb, pb_husk pb)) (nd_pub_at n a)"
    and subs: "\<And>a. map_option (\<lambda>sb. (sb_topic sb, sb_box sb, sb_husk sb)) (nd_sub_at n' a) =
        map_option (\<lambda>sb. (sb_topic sb, sb_box sb, sb_husk sb)) (nd_sub_at n a)"
  shows "node_wired n'"
proof -
  note d = node_wiredD [OF w] and live = node_liveD [OF node_wiredD(1) [OF w]]
  have sub: "\<exists>sb'. nd_sub_at n' a = Some sb' \<and> sb_topic sb' = sb_topic sb \<and> sb_box sb' = sb_box sb \<and> sb_husk sb' = sb_husk sb"
    if "nd_sub_at n a = Some sb" for a sb
    using subs [of a] that by (cases "nd_sub_at n' a") auto
  have pub: "\<exists>pb'. nd_pub_at n' a = Some pb' \<and> pb_topic pb' = pb_topic pb \<and> pb_box pb' = pb_box pb \<and> pb_husk pb' = pb_husk pb"
    if "nd_pub_at n a = Some pb" for a pb
    using pubs [of a] that by (cases "nd_pub_at n' a") auto
  have inc: "box_incoming n' = box_incoming n" by (simp add: box_incoming_def same fun_eq_iff)
  have top: "topic_at n' = topic_at n"
  proof
    fix a show "topic_at n' a = topic_at n a"
      using subs [of a] by (cases "nd_sub_at n a"; cases "nd_sub_at n' a") (auto simp: topic_at_def)
  qed
  have "node_live n'"
  proof (rule node_liveI, unfold same)
    fix t a mb assume "a \<in> members (nd_dave n) t" "mm_boxes (nd_dave n) a = Some mb"
    from live(2) [OF this] show "closure_ok n' a mb" by (rule closure_ok_mono) (simp_all add: same)
  next
    fix s assume "s \<in> set (nd_subscribers n)"
    then show "\<exists>sb. nd_sub_at n' s = Some sb \<and> \<not> sb_husk sb" using live(6) sub by metis
  next
    fix s assume "s \<in> set (nd_publishers n)"
    then show "\<exists>pb. nd_pub_at n' s = Some pb \<and> \<not> pb_husk pb" using live(7) pub by metis
  next
    show "r = r'" if "r \<in> set (nd_remotes n)" "r' \<in> set (nd_remotes n)" "nd_remote_at n r = Some rn" "nd_remote_at n r' = Some rn'"
      "rn_link rn = rn_link rn'" for r r' rn rn'
      using live(5) [OF that] .
  qed (rule live(1,3,4); assumption?)+
  moreover have "subs_wired n'"
    unfolding subs_wired_def inc top same
  proof (intro conjI ballI)
    fix s assume "s \<in> set (nd_subscribers n)"
    from subs_wiredE [OF d(6) this] obtain sb b cb arg where "nd_sub_at n s = Some sb" "sb_box sb = Some b"
      "b \<in> members (nd_dave n) (sb_topic sb)" "box_incoming n b = Some (Subscriber_cb s cb arg)" by blast
    then show "\<exists>sb b cb arg. nd_sub_at n' s = Some sb \<and> sb_box sb = Some b \<and> b \<in> members (nd_dave n) (sb_topic sb) \<and>
        box_incoming n b = Some (Subscriber_cb s cb arg)" using sub [of s sb] by auto
  qed (use d(6) in \<open>simp_all add: subs_wired_def\<close>)
  moreover have "pubs_wired n'"
    unfolding pubs_wired_def inc same
  proof (intro conjI ballI impI)
    fix s assume s: "s \<in> set (nd_publishers n)"
    from pubs_wiredE [OF d(7) this] obtain pb b where pb: "nd_pub_at n s = Some pb" "pb_box pb = Some b"
      "b \<in> members (nd_dave n) (pb_topic pb)" "box_incoming n b = None" by blast
    then show "\<exists>pb b. nd_pub_at n' s = Some pb \<and> pb_box pb = Some b \<and> b \<in> members (nd_dave n) (pb_topic pb) \<and>
        box_incoming n b = None" using pub [of s pb] by auto
    fix s' assume s': "s' \<in> set (nd_publishers n)" and eq: "pb_box (the (nd_pub_at n' s)) = pb_box (the (nd_pub_at n' s'))"
    obtain pb' where pb': "nd_pub_at n s' = Some pb'" using pubs_wiredE [OF d(7) s'] by blast
    obtain q q' where "nd_pub_at n' s = Some q" "pb_box q = pb_box pb" "nd_pub_at n' s' = Some q'" "pb_box q' = pb_box pb'"
      using pub [OF pb(1)] pub [OF pb'] by blast
    with eq pb(1) pb' have "pb_box (the (nd_pub_at n s)) = pb_box (the (nd_pub_at n s'))" by simp
    then show "s = s'" by (rule pubs_wired_inj [OF d(7) s s'])
  qed (use d(7) in \<open>simp add: pubs_wired_def\<close>)
  moreover have "owners_wired n'"
    unfolding owners_wired_def inc same
  proof (intro allI impI)
    fix t c s cb arg assume "c \<in> members (nd_dave n) t" "box_incoming n c = Some (Subscriber_cb s cb arg)"
    then obtain sb where "nd_sub_at n s = Some sb" "sb_box sb = Some c" using d(9) unfolding owners_wired_def by blast
    then show "\<exists>sb. nd_sub_at n' s = Some sb \<and> sb_box sb = Some c" using sub [of s sb] by auto
  qed
  ultimately show ?thesis using d unfolding node_wired_def remotes_wired_def inc same by blast
qed

inductive node_step :: "('b, 'u) node_env \<Rightarrow> ('b, 'u) node \<Rightarrow> ('b, 'u) node \<Rightarrow> bool" for env :: "('b, 'u) node_env" where
  Advertise: "nd_pub_at n a = None \<Longrightarrow> fresh_box (nd_dave n) b \<Longrightarrow> publisher_new env a b t n = Inr n' \<Longrightarrow> node_step env n n'"
| Unadvertise: "a \<in> set (nd_publishers n) \<Longrightarrow> publisher_destroy a n = Inr n' \<Longrightarrow> node_step env n n'"
| Firehose: "set_firehose a f n = Inr n' \<Longrightarrow> node_step env n n'"
| Publish: "publish env a msg n = Inr (ret, n') \<Longrightarrow> node_step env n n'"
| Subscribe: "nd_sub_at n a = None \<Longrightarrow> fresh_box (nd_dave n) b \<Longrightarrow> cb \<noteq> Service_callback \<Longrightarrow>
    subscriber_new env a b t cb arg n = Inr n' \<Longrightarrow> node_step env n n'"
| Unsubscribe: "a \<in> set (nd_subscribers n) \<Longrightarrow> subscriber_destroy a n = Inr n' \<Longrightarrow> node_step env n n'"
| Packed: "set_send_packed a f n = Inr n' \<Longrightarrow> node_step env n n'"
| Connect: "fresh_box (nd_dave n) r \<Longrightarrow> l \<noteq> null_tp \<Longrightarrow> map_of (th_buffers (nd_thread n)) l = None \<Longrightarrow>
    tl_heap base c = Some s \<Longrightarrow> is_open s \<Longrightarrow> associated_address s = Some addr \<Longrightarrow>
    server_connection env r l base c n = Inr n' \<Longrightarrow> node_step env n n'"
| Disconnect: "\<forall>r \<in> set (nd_remotes n). socket_of n r = Some c \<longrightarrow> transport_sound n r \<Longrightarrow>
    server_disconnection env c n = Inr n' \<Longrightarrow> node_step env n n'"
| Join: "fresh_box (nd_dave n) r \<Longrightarrow> l \<noteq> null_tp \<Longrightarrow> map_of (th_buffers (nd_thread n)) l = None \<Longrightarrow>
    join_daylite env r l a socket_ret errno1 connect_ret errno2 gateway peer n = Inr (ret, n') \<Longrightarrow> node_step env n n'"
| Take: "r \<in> set (nd_remotes n) \<Longrightarrow> remote_take env r n = Inr (b, n') \<Longrightarrow> node_step env n n'"
| Thread: "thread_step ops (ne_dbg env) none (nd_thread n) t \<Longrightarrow>
    \<forall>l. map_of (th_buffers t) l = None \<longleftrightarrow> map_of (th_buffers (nd_thread n)) l = None \<Longrightarrow> node_step env n (n\<lparr>nd_thread := t\<rparr>)"
| User: "node_step env n (n\<lparr>nd_user := u\<rparr>)"

inductive_cases node_stepE: "node_step env n n'"

lemma node_ok_step:
  assumes "node_step env n n'" and "users_return env" and "node_ok n"
  shows "node_ok n'"
  using assms
proof (induction rule: node_step.induct)
  case (Advertise n a b t n')
  then show ?case using publisher_new_ok [of n env a b t] by auto
next
  case (Unadvertise a n n')
  then show ?case using publisher_destroy_ok [of n a] by auto
next
  case (Firehose a f n n')
  then obtain pb where pb: "nd_pub_at n a = Some pb" "n' = n\<lparr>nd_pub_at := (nd_pub_at n)(a \<mapsto> pb\<lparr>pb_firehose := f\<rparr>)\<rparr>"
    by (auto simp: set_firehose_def exec_simps)
  have "node_wired n'" by (rule wired_flags [of n]) (use pb Firehose(3) in \<open>simp_all add: node_ok_def\<close>)
  then show ?case using Firehose(3) pb(2) by (simp add: node_ok_def latest_ok_def)
next
  case (Publish a msg n ret n')
  then show ?case using publish_frame frame_ok by blast
next
  case (Subscribe n a b cb t arg n')
  then show ?case using subscriber_new_ok [of n env a b cb t arg] by auto
next
  case (Unsubscribe a n n')
  then show ?case using subscriber_destroy_ok [of n a] by auto
next
  case (Packed a f n n')
  then obtain sb where sb: "nd_sub_at n a = Some sb" "n' = n\<lparr>nd_sub_at := (nd_sub_at n)(a \<mapsto> sb\<lparr>sb_packed := f\<rparr>)\<rparr>"
    by (auto simp: set_send_packed_def exec_simps)
  have "node_wired n'" by (rule wired_flags [of n]) (use sb Packed(3) in \<open>simp_all add: node_ok_def\<close>)
  then show ?case using Packed(3) sb(2) by (simp add: node_ok_def latest_ok_def)
next
  case (Connect n r l base c s addr n')
  then show ?case using server_connection_ok [of n env r l base c s addr] by auto
next
  case (Disconnect n c n')
  then show ?case using server_disconnection_ok [of n env c] by auto
next
  case (Join n r l a socket_ret errno1 connect_ret errno2 gateway peer ret n')
  then show ?case using join_ok by blast
next
  case (Take r n b n')
  then show ?case using remote_take_ok by blast
next
  case (Thread ops none n t)
  then show ?case using wired_links [of n "n\<lparr>nd_thread := t\<rparr>"] by (simp add: node_ok_def latest_ok_def)
next
  case (User n u)
  then show ?case using wired_links [of n "n\<lparr>nd_user := u\<rparr>"] by (simp add: node_ok_def latest_ok_def)
qed

subsection \<open>A connected node\<close>

text \<open>
  A node with one remote whose link uses the client socket 7, which knows the node 9 through it
  and has the packets \<open>qs\<close> to read from it.
\<close>

definition open_socket :: tcp_socket where
  "open_socket = \<lparr>sk_fd = 3, associated_address = Some \<lparr>sa_host = ''10.0.0.2'', sa_port = 40000\<rparr>\<rparr>"

lemma queue_ok:
  assumes ok: "node_ok n" and rn: "nd_remote_at n r = Some rn" and l: "map fst (th_buffers (nd_thread n)) = [l]"
  shows "node_ok (n\<lparr>nd_thread := (nd_thread n)\<lparr>th_buffers := [(l, buffer_new\<lparr>bf_in := qs\<rparr>)]\<rparr>,
    nd_remote_at := (nd_remote_at n)(r \<mapsto> rn\<lparr>rn_ids := ids\<rparr>)\<rparr>)"
proof -
  have "map_of (th_buffers (nd_thread n)) x = None \<longleftrightarrow> x \<noteq> l" for x
    using l by (metis list.set(1) list.set(2) list.set_map map_of_eq_None_iff singleton_iff)
  then show ?thesis
    using wired_links [of n "n\<lparr>nd_thread := (nd_thread n)\<lparr>th_buffers := [(l, buffer_new\<lparr>bf_in := qs\<rparr>)]\<rparr>,
      nd_remote_at := (nd_remote_at n)(r \<mapsto> rn\<lparr>rn_ids := ids\<rparr>)\<rparr>"] ok rn
    by (simp add: node_ok_def latest_ok_def)
qed

lemma store_ok:
  assumes ok: "node_ok n" and i: "n_id info \<noteq> nd_id n"
  shows "node_ok (store_info info n)" and "map_of (nd_latest (store_info info n)) (n_id info) = Some info"
proof -
  have "node_wired (store_info info n)"
    by (rule wired_links [of n]) (use ok in \<open>simp_all add: node_ok_def store_info_def tally_def untally_def Let_def split: option.split\<close>)
  then show "node_ok (store_info info n)" using ok store_info_latest_ok [OF _ i] by (simp add: node_ok_def)
  show "map_of (nd_latest (store_info info n)) (n_id info) = Some info"
    by (simp add: store_info_def tally_def Let_def AList.update_conv')
qed

lemma store_info_keeps [simp]:
  "nd_remotes (store_info info n) = nd_remotes n" "nd_remote_at (store_info info n) = nd_remote_at n"
  "nd_thread (store_info info n) = nd_thread n" "nd_id (store_info info n) = nd_id n"
  "nd_publishers (store_info info n) = nd_publishers n" "nd_subscribers (store_info info n) = nd_subscribers n"
  by (simp_all add: store_info_def tally_def untally_def Let_def split: option.split)

lemma sample_connected:
  assumes h: "ucast (h :: u64) \<noteq> (9 :: u32)"
  shows "\<exists>(n :: (sample_doc, sample_log) node) info. node_ok n \<and> nd_remotes n = [20] \<and>
     nd_remote_at n 20 = Some \<lparr>rn_mode = Allow_internal, rn_link = 1, rn_ids = {9}\<rparr> \<and>
     th_buffers (nd_thread n) = [(1, buffer_new\<lparr>bf_in := qs\<rparr>)] \<and>
     socket_of n 20 = Some 7 \<and> transport_sound n 20 \<and> nd_publishers n = [] \<and> nd_subscribers n = [] \<and> nd_id n = ucast h \<and>
     map_of (nd_latest n) 9 = Some info \<and> n_alive info"
proof -
  obtain n0 :: "(sample_doc, sample_log) node" where n0: "node_ok n0" "nd_publishers n0 = []" "nd_subscribers n0 = []" "nd_remotes n0 = []"
      "nd_remote_at n0 = Map.empty" "members (nd_dave n0) = (\<lambda>t. if t = topic_internal then {10} else {})"
      "nd_id n0 = ucast h XOR word_of_int 0" "nd_thread n0 = tcp_thread_new (\<lambda>_. quiet_link)"
    using node_new_ok [of sample_env "''robot''" h 0 10 "\<lambda>_. quiet_link" "[]"] by (elim exE conjE) (rule that; assumption)
  have f0: "fresh_box (nd_dave n0) 20" by (simp add: fresh_box_def n0(6) box_key_def mailbox_id_def)
  have l0: "(1 :: tp) \<noteq> null_tp" "map_of (th_buffers (nd_thread n0)) 1 = None" by (simp_all add: null_tp_def n0(8) tcp_thread_new_def)
  have s0: "tl_heap (quiet_link\<lparr>tl_heap := [7 \<mapsto> open_socket]\<rparr>) 7 = Some open_socket" "is_open open_socket"
      "associated_address open_socket = Some \<lparr>sa_host = ''10.0.0.2'', sa_port = 40000\<rparr>"
    by (simp_all add: open_socket_def is_open_def)
  obtain n1 :: "(sample_doc, sample_log) node" where n1: "node_ok n1" "nd_remotes n1 = nd_remotes n0 @ [20]"
      "nd_remote_at n1 20 = Some \<lparr>rn_mode = Allow_internal, rn_link = 1, rn_ids = {}\<rparr>" "socket_of n1 20 = Some 7"
      "transport_sound n1 20" "nd_id n1 = nd_id n0" "nd_publishers n1 = nd_publishers n0" "nd_subscribers n1 = nd_subscribers n0"
      "map fst (th_buffers (nd_thread n1)) = map fst (th_buffers (nd_thread n0)) @ [1]"
    using server_connection_ok [OF n0(1) sample_env_users f0 l0 s0] by (elim exE conjE) (rule that; assumption)
  let ?info = "sample_info\<lparr>n_id := 9, n_alive := True, n_in_topics := [''/t'']\<rparr>"
  define n2 where "n2 = store_info ?info n1"
  have id: "n_id ?info \<noteq> nd_id n1" using h by (simp add: n1(6) n0(7))
  have n2: "node_ok n2" "map_of (nd_latest n2) 9 = Some ?info"
    using store_ok [OF n1(1) id] by (simp_all add: n2_def)
  have r2: "nd_remote_at n2 20 = Some \<lparr>rn_mode = Allow_internal, rn_link = 1, rn_ids = {}\<rparr>" by (simp add: n2_def n1(3))
  have l2: "map fst (th_buffers (nd_thread n2)) = [1]" by (simp add: n2_def n1(9) n0(8) tcp_thread_new_def)
  let ?n = "n2\<lparr>nd_thread := (nd_thread n2)\<lparr>th_buffers := [(1, buffer_new\<lparr>bf_in := qs\<rparr>)]\<rparr>,
    nd_remote_at := (nd_remote_at n2)(20 \<mapsto> \<lparr>rn_mode = Allow_internal, rn_link = 1, rn_ids = {}\<rparr>\<lparr>rn_ids := {9}\<rparr>)\<rparr>"
  have "node_ok ?n" by (rule queue_ok [OF n2(1) r2 l2])
  moreover have "socket_of ?n 20 = Some 7" "transport_sound ?n 20"
    using n1(3-5) by (simp_all add: socket_of_def transport_sound_def n2_def)
  ultimately show ?thesis
    using n2(2) n1(2,6-8) n0(2-4,7) by (intro exI [of _ ?n] exI [of _ ?info]) (simp add: n2_def)
qed

lemma sample_connected_exists:
  "\<exists>(n :: (sample_doc, sample_log) node) info. node_ok n \<and> nd_remotes n = [20] \<and>
     nd_remote_at n 20 = Some \<lparr>rn_mode = Allow_internal, rn_link = 1, rn_ids = {9}\<rparr> \<and> in_queue 1 n = qs \<and>
     socket_of n 20 = Some 7 \<and> transport_sound n 20 \<and> nd_publishers n = [] \<and> nd_subscribers n = [] \<and> nd_id n = 42 \<and>
     map_of (nd_latest n) 9 = Some info \<and> n_alive info"
proof -
  have "ucast (42 :: u64) \<noteq> (9 :: u32)" by simp
  from sample_connected [OF this, of qs] show ?thesis by (elim exE conjE) (intro exI conjI; (assumption | simp add: in_queue_def))
qed

subsection \<open>Properties\<close>

text \<open>C16: A remote's turn in the spinner returns and empties its queue: when a node's invariant
  holds, users' functions return and every waiting packet may be delivered, \<open>spin_update\<close>
  succeeds after one turn per packet, keeps the invariant and leaves the queue empty; the ids
  associated with the remote grow by exactly the senders of the packets that have not been here
  before, and a packet that comes from this node or passed it is dropped.\<close>

theorem remote_spin_drains:
  assumes "node_ok n" and "users_return env" and "r \<in> set (nd_remotes n)" and "nd_remote_at n r = Some rn"
    and "\<forall>p \<in> set (in_queue (rn_link rn) n). deliverable p"
  shows "\<exists>n'. remote_spin_update env r n = Inr (success, n') \<and> node_ok n' \<and> in_queue (rn_link rn) n' = [] \<and>
    ids_of n' r = rn_ids rn \<union> (\<lambda>p. m_id (p_meta p)) ` {p \<in> set (in_queue (rn_link rn) n). \<not> seen (nd_id n) p}"
  using remote_loop_drains [OF assms lessI] assms(4) by (auto simp: remote_spin_update_def ids_of_def)

theorem remote_spin_drains_witness:
  "\<exists>(n :: (sample_doc, sample_log) node) n'. length (in_queue 1 n) = 2 \<and>
     remote_spin_update sample_env 20 n = Inr (success, n') \<and> in_queue 1 n' = [] \<and> ids_of n' 20 = {9, 5}"
proof -
  let ?p = "\<lambda>i path. (sample_packet ''/t'')\<lparr>p_meta := (p_meta (sample_packet ''/t''))\<lparr>m_id := i, m_path := path\<rparr>\<rparr>"
  obtain n :: "(sample_doc, sample_log) node" where n: "node_ok n" "nd_remotes n = [20]"
      "nd_remote_at n 20 = Some \<lparr>rn_mode = Allow_internal, rn_link = 1, rn_ids = {9}\<rparr>" "in_queue 1 n = [?p 5 [5], ?p 6 [42, 6]]"
      "nd_id n = 42"
    using sample_connected_exists [of "[?p 5 [5], ?p 6 [42, 6]]"] by (elim exE conjE) (rule that; assumption)
  have r: "20 \<in> set (nd_remotes n)" using n(2) by simp
  have q: "\<forall>p \<in> set (in_queue (rn_link \<lparr>rn_mode = Allow_internal, rn_link = 1, rn_ids = {9}\<rparr>) n). deliverable p"
    using n(4) by (simp add: deliverable_def sample_packet_def packet_topic_def topic_internal_def)
  have "{p \<in> set (in_queue 1 n). \<not> seen (nd_id n) p} = {?p 5 [5]}"
    unfolding n(4,5) by (auto simp: seen_def)
  with remote_spin_drains [OF n(1) sample_env_users r n(3) q] obtain n' where
    "remote_spin_update sample_env 20 n = Inr (success, n')" "in_queue 1 n' = []" "ids_of n' 20 = {9, 5}"
    by (auto simp: insert_commute)
  moreover have "length (in_queue 1 n) = 2" using n(4) by simp
  ultimately show ?thesis by blast
qed

text \<open>C18: A client that connects becomes a remote, and is gone when it disconnects: when a node's
  invariant holds, its server has accepted the client (so that the socket is open and has the
  client's address) and the new objects have addresses of their own, the listener's
  \<open>server_connection\<close> succeeds, keeps the invariant and appends one remote that takes internal
  packets and sends on that socket; if no other remote used the socket, \<open>server_disconnection\<close>
  for the same client then succeeds and restores the list of remotes.\<close>

theorem connection_comes_and_goes:
  assumes "node_ok n" and "users_return env" and "fresh_box (nd_dave n) r"
    and "l \<noteq> null_tp" and "map_of (th_buffers (nd_thread n)) l = None"
    and "tl_heap base c = Some s" and "is_open s" and "associated_address s = Some addr"
  shows "\<exists>n1. server_connection env r l base c n = Inr n1 \<and> node_ok n1 \<and> nd_remotes n1 = nd_remotes n @ [r] \<and>
    nd_remote_at n1 r = Some \<lparr>rn_mode = Allow_internal, rn_link = l, rn_ids = {}\<rparr> \<and> socket_of n1 r = Some c \<and>
    ((\<forall>x \<in> set (nd_remotes n). socket_of n1 x \<noteq> Some c) \<longrightarrow>
      (\<exists>n2. server_disconnection env c n1 = Inr n2 \<and> node_ok n2 \<and> nd_remotes n2 = nd_remotes n))"
proof -
  from server_connection_ok [OF assms] obtain n1 where
    n1: "server_connection env r l base c n = Inr n1" "node_ok n1" "nd_remotes n1 = nd_remotes n @ [r]"
      "nd_remote_at n1 r = Some \<lparr>rn_mode = Allow_internal, rn_link = l, rn_ids = {}\<rparr>" "socket_of n1 r = Some c"
      "transport_sound n1 r"
    by blast
  have "\<exists>n2. server_disconnection env c n1 = Inr n2 \<and> node_ok n2 \<and> nd_remotes n2 = nd_remotes n"
    if only: "\<forall>x \<in> set (nd_remotes n). socket_of n1 x \<noteq> Some c"
  proof -
    have "\<forall>x \<in> set (nd_remotes n1). socket_of n1 x = Some c \<longrightarrow> transport_sound n1 x"
      using only n1(3,6) by auto
    from server_disconnection_ok [OF n1(2) assms(2) this] obtain n2 where
      n2: "server_disconnection env c n1 = Inr n2" "node_ok n2"
        "nd_remotes n2 = filter (\<lambda>x. socket_of n1 x \<noteq> Some c) (nd_remotes n1)"
      by auto
    have "nd_remotes n2 = nd_remotes n" using only n1(3,5) by (simp add: n2(3) filter_id_conv)
    then show ?thesis using n2 by blast
  qed
  then show ?thesis using n1 by blast
qed

theorem connection_comes_and_goes_witness:
  "\<exists>(n :: (sample_doc, sample_log) node) base n1 n2. server_connection sample_env 30 2 base 8 n = Inr n1 \<and> nd_remotes n1 = [30] \<and>
     server_disconnection sample_env 8 n1 = Inr n2 \<and> nd_remotes n2 = []"
proof -
  obtain n :: "(sample_doc, sample_log) node" where n: "node_ok n" "nd_remotes n = []"
      "members (nd_dave n) = (\<lambda>t. if t = topic_internal then {10} else {})" "nd_thread n = tcp_thread_new (\<lambda>_. quiet_link)"
    using node_new_ok [of sample_env "''robot''" 42 0 10 "\<lambda>_. quiet_link" "[]"] by (elim exE conjE) (rule that; assumption)
  have f: "fresh_box (nd_dave n) 30" by (simp add: fresh_box_def n(3) box_key_def mailbox_id_def)
  have l: "(2 :: tp) \<noteq> null_tp" "map_of (th_buffers (nd_thread n)) 2 = None" by (simp_all add: null_tp_def n(4) tcp_thread_new_def)
  have s: "tl_heap (quiet_link\<lparr>tl_heap := [8 \<mapsto> open_socket]\<rparr>) 8 = Some open_socket" "is_open open_socket"
      "associated_address open_socket = Some \<lparr>sa_host = ''10.0.0.2'', sa_port = 40000\<rparr>"
    by (simp_all add: open_socket_def is_open_def)
  obtain n1 n2 where "server_connection sample_env 30 2 (quiet_link\<lparr>tl_heap := [8 \<mapsto> open_socket]\<rparr>) 8 n = Inr n1"
      "nd_remotes n1 = [30]" "server_disconnection sample_env 8 n1 = Inr n2" "nd_remotes n2 = []"
    using connection_comes_and_goes [OF n(1) sample_env_users f l s] n(2) by auto
  then show ?thesis by blast
qed

text \<open>C17: When a client disconnects, the nodes reached through it are marked dead: with the
  invariant, and while the transports on the client's socket are sound, \<open>server_disconnection\<close>
  succeeds and drops exactly the remotes on that socket; the latest information of every node
  whose packets came through one of them is kept but marked dead, without topics (its
  subscriptions leave the counts, which stay exact), that of every other node is untouched, and
  then the node tells the network, the dead included.\<close>

theorem disconnection_marks_dead:
  assumes "node_ok n" and "users_return env"
    and "\<forall>r \<in> set (nd_remotes n). socket_of n r = Some c \<longrightarrow> transport_sound n r"
  shows "\<exists>n1 n'. server_disconnection env c n = Inr n' \<and> send_info env True n1 = Inr n' \<and> node_ok n1 \<and> node_ok n' \<and>
    nd_remotes n' = filter (\<lambda>r. socket_of n r \<noteq> Some c) (nd_remotes n) \<and>
    (\<forall>i. map_of (nd_latest n1) i = map_option (\<lambda>info. if \<exists>r \<in> set (nd_remotes n). socket_of n r = Some c \<and> i \<in> ids_of n r
       then info\<lparr>n_alive := False, n_out_topics := [], n_in_topics := [], n_splats := []\<rparr> else info) (map_of (nd_latest n) i))"
  using server_disconnection_ok [OF assms] unfolding dead_def by metis

theorem disconnection_marks_dead_witness:
  "\<exists>(n :: (sample_doc, sample_log) node) n1 n' info. nd_remotes n = [20] \<and> map_of (nd_latest n) 9 = Some info \<and> n_alive info \<and>
     server_disconnection sample_env 7 n = Inr n' \<and> send_info sample_env True n1 = Inr n' \<and> nd_remotes n' = [] \<and>
     map_of (nd_latest n1) 9 = Some (info\<lparr>n_alive := False, n_out_topics := [], n_in_topics := [], n_splats := []\<rparr>)"
proof -
  obtain n :: "(sample_doc, sample_log) node" and info where n: "node_ok n" "nd_remotes n = [20]"
      "nd_remote_at n 20 = Some \<lparr>rn_mode = Allow_internal, rn_link = 1, rn_ids = {9}\<rparr>" "socket_of n 20 = Some 7"
      "transport_sound n 20" "map_of (nd_latest n) 9 = Some info" "n_alive info"
    using sample_connected_exists [of "[]"] by (elim exE conjE) (rule that; assumption)
  have sound: "\<forall>r \<in> set (nd_remotes n). socket_of n r = Some 7 \<longrightarrow> transport_sound n r" using n(2,5) by simp
  have ids: "9 \<in> ids_of n 20" using n(3) by (simp add: ids_of_def)
  from disconnection_marks_dead [OF n(1) sample_env_users sound] obtain n1 n' where
    n': "server_disconnection sample_env 7 n = Inr n'" "send_info sample_env True n1 = Inr n'"
      "nd_remotes n' = filter (\<lambda>r. socket_of n r \<noteq> Some 7) (nd_remotes n)"
      "map_of (nd_latest n1) 9 = map_option (\<lambda>info. if \<exists>r \<in> set (nd_remotes n). socket_of n r = Some 7 \<and> 9 \<in> ids_of n r
       then info\<lparr>n_alive := False, n_out_topics := [], n_in_topics := [], n_splats := []\<rparr> else info) (map_of (nd_latest n) 9)"
    by blast
  then show ?thesis using n(2,4,6,7) ids by (intro exI [of _ n] exI [of _ n1] exI [of _ n'] exI [of _ info]) simp
qed

text \<open>C19: \<open>stop\<close> is only safe for a node nobody uses. Once the gateway has stopped, a node that
  still has a publisher or a subscriber dereferences a null pointer: the mailman has been
  cleared, which resets the mailboxes' back pointers, before \<open>set_husk\<close> unregisters them.
  Without endpoints, \<open>stop\<close> uses a socket after free when a transport is not sound, and every
  client the gateway still had is such a case, because closing the server has deleted its
  socket. Otherwise it succeeds, with no remote left and an empty mailman: the node's internal
  mailbox is gone as well, and nothing registers it again when the node is started once more.\<close>

theorem stop_outcome:
  assumes "node_ok n" and "stop_gateway_service this n = Inr (x, n1)"
  shows "(if nd_publishers n \<noteq> [] \<or> nd_subscribers n \<noteq> [] then node_stop env this n = Inl Null_deref
     else if \<exists>r \<in> set (nd_remotes n). \<not> transport_sound n1 r then node_stop env this n = Inl Use_after_free
     else (\<exists>n'. node_stop env this n = Inr (success, n') \<and> nd_remotes n' = [] \<and> (\<forall>t. members (nd_dave n') t = {}))) \<and>
    (\<forall>r \<in> set (nd_remotes n). \<forall>sv c. nd_server n = Some sv \<longrightarrow> c \<in> set (sv_clients sv) \<longrightarrow> socket_of n r = Some c \<longrightarrow>
      \<not> transport_sound n1 r)"
proof (intro conjI ballI allI impI)
  have w: "node_wired n" using assms(1) by (simp add: node_ok_def)
  note eq = stop_eq [OF w assms(2), of env]
  show "if nd_publishers n \<noteq> [] \<or> nd_subscribers n \<noteq> [] then node_stop env this n = Inl Null_deref
     else if \<exists>r \<in> set (nd_remotes n). \<not> transport_sound n1 r then node_stop env this n = Inl Use_after_free
     else (\<exists>n'. node_stop env this n = Inr (success, n') \<and> nd_remotes n' = [] \<and> (\<forall>t. members (nd_dave n') t = {}))"
    using eq by (cases "nd_publishers n \<noteq> [] \<or> nd_subscribers n \<noteq> []"; cases "\<exists>r \<in> set (nd_remotes n). \<not> transport_sound n1 r")
      simp_all
next
  fix r sv c assume r: "r \<in> set (nd_remotes n)" "nd_server n = Some sv" "c \<in> set (sv_clients sv)" "socket_of n r = Some c"
  note k = stop_gateway_keeps [OF assms(2)]
  obtain rn where rn: "nd_remote_at n r = Some rn" "tt_socket (tl_transport (th_link (nd_thread n) (rn_link rn))) = Some c"
    using r(4) by (auto simp: socket_of_def split: option.splits)
  then have "tt_socket (tl_transport (th_link (nd_thread n1) (rn_link rn))) = Some c" by (simp add: k(10))
  moreover have "tl_heap (th_link (nd_thread n1) (rn_link rn)) c = None" by (rule k(11) [OF r(2,3)])
  ultimately show "\<not> transport_sound n1 r"
    using rn(1) by (simp add: transport_sound_def k(7) tcp_transport_destroy_freed)
qed

theorem stop_outcome_witness:
  "\<exists>n m k k' :: (sample_doc, sample_log) node. node_ok n \<and> node_stop sample_env 9 n = Inl Null_deref \<and>
     node_ok m \<and> node_stop sample_env 9 m = Inl Use_after_free \<and>
     node_ok k \<and> node_stop sample_env 9 k = Inr (success, k')"
proof -
  obtain n :: "(sample_doc, sample_log) node" where n: "node_ok n" "nd_publishers n = [5]" "nd_subscribers n = [1]"
    using sample_node_exists by (elim exE conjE) (rule that; assumption)
  obtain m :: "(sample_doc, sample_log) node" where m: "node_ok m" "nd_remotes m = [20]" "socket_of m 20 = Some 7"
      "nd_publishers m = []" "nd_subscribers m = []"
    using sample_connected_exists [of "[]"] by (elim exE conjE) (rule that; assumption)
  obtain k :: "(sample_doc, sample_log) node" where k: "node_ok k" "nd_publishers k = []" "nd_subscribers k = []" "nd_remotes k = []"
    using node_new_ok [of sample_env "''robot''" 42 0 10 "\<lambda>_. quiet_link" "[]"] by (elim exE conjE) (rule that; assumption)
  define sv where "sv = \<lparr>sv_address = \<lparr>sa_host = [], sa_port = 8374\<rparr>, sv_socket = \<lparr>sk_fd = 3, associated_address = None\<rparr>,
     sv_clients = [7], sv_listeners = [9], sv_heap = [7 \<mapsto> \<lparr>sk_fd = 4, associated_address = None\<rparr>],
     sv_kernel = [3 \<mapsto> 0, 4 \<mapsto> 0], sv_in = (\<lambda>_. []), sv_world = ()\<rparr>"
  have with_server: "node_ok (x\<lparr>nd_server := s\<rparr>)" if "node_ok x" for x :: "(sample_doc, sample_log) node" and s
    using wired_links [of x "x\<lparr>nd_server := s\<rparr>"] that by (simp add: node_ok_def latest_ok_def)
  have gw: "\<exists>x y. stop_gateway_service 9 (z\<lparr>nd_server := Some sv\<rparr>) = Inr (x, y)" for z :: "(sample_doc, sample_log) node"
    by (simp add: stop_gateway_service_def sv_def server_close_def remove_tcp_server_listener_def drop_client_def tcp_close_def is_open_def deref_def split: if_splits prod.splits)
  obtain x y where y: "stop_gateway_service 9 (n\<lparr>nd_server := Some sv\<rparr>) = Inr (x, y)" using gw by blast
  obtain x' y' where y': "stop_gateway_service 9 (m\<lparr>nd_server := Some sv\<rparr>) = Inr (x', y')" using gw by blast
  obtain x'' y'' where y'': "stop_gateway_service 9 (k\<lparr>nd_server := Some sv\<rparr>) = Inr (x'', y'')" using gw by blast
  have c: "socket_of (m\<lparr>nd_server := Some sv\<rparr>) 20 = Some 7" using m(3) by (auto simp: socket_of_def split: option.splits)
  have "node_stop sample_env 9 (n\<lparr>nd_server := Some sv\<rparr>) = Inl Null_deref"
    using stop_outcome [OF with_server [OF n(1)] y, of sample_env] n by simp
  moreover have "node_stop sample_env 9 (m\<lparr>nd_server := Some sv\<rparr>) = Inl Use_after_free"
  proof -
    have cl: "sv_clients sv = [7]" by (simp add: sv_def)
    show ?thesis using stop_outcome [OF with_server [OF m(1)] y', of sample_env] m c cl by auto
  qed
  moreover have "\<exists>k'. node_stop sample_env 9 (k\<lparr>nd_server := Some sv\<rparr>) = Inr (success, k')"
    using stop_outcome [OF with_server [OF k(1)] y'', of sample_env] k by auto
  ultimately show ?thesis using with_server n(1) m(1) k(1) by blast
qed

text \<open>C5: The invariant holds in every state a node reaches from its construction by any sequence of
  its users' and its network's actions: making, using and destroying publishers and subscribers,
  accepting, losing and opening connections, packets taken from remotes, sections of the thread.
  In particular the counts of remote and local subscribers are exact modulo \<open>2 ^ 32\<close>, the node
  never keeps information about itself, every listed object is alive and its mailbox registered.\<close>

theorem node_reachable_inv:
  assumes "node_new env name h rnd a link u = Inr n0" and "(node_step env)\<^sup>*\<^sup>* n0 n" and "users_return env"
  shows "node_ok n \<and>
    (\<forall>t. entry_of (nd_subs n) t = word_of_nat (listed (nd_latest n) t)) \<and>
    (\<forall>t. entry_of (nd_local n) t = word_of_nat (length (filter (\<lambda>s. topic_at n s = t) (nd_subscribers n)))) \<and>
    map_of (nd_latest n) (nd_id n) = None \<and>
    (\<forall>s \<in> set (nd_subscribers n). \<exists>sb b. nd_sub_at n s = Some sb \<and> sb_box sb = Some b \<and> b \<in> members (nd_dave n) (sb_topic sb)) \<and>
    (\<forall>s \<in> set (nd_publishers n). \<exists>pb b. nd_pub_at n s = Some pb \<and> pb_box pb = Some b \<and> b \<in> members (nd_dave n) (pb_topic pb)) \<and>
    (\<forall>r \<in> set (nd_remotes n). r \<in> members (nd_dave n) topic_any)"
proof -
  have "node_ok n0" using node_new_ok [of env name h rnd a link u] assms(1) by auto
  with assms(2) have ok: "node_ok n" by (induction rule: rtranclp_induct) (use node_ok_step assms(3) in blast)+
  then have w: "node_wired n" and l: "latest_ok n" by (simp_all add: node_ok_def)
  note d = node_wiredD [OF w]
  have "entry_of (nd_subs n) t = word_of_nat (listed (nd_latest n) t)" for t
    using l by (simp add: latest_ok_def counts_match_def)
  moreover have "entry_of (nd_local n) t = word_of_nat (length (filter (\<lambda>s. topic_at n s = t) (nd_subscribers n)))" for t
    using d(6) by (simp add: subs_wired_def counts_match_def)
  moreover have "map_of (nd_latest n) (nd_id n) = None"
    using l by (force simp: latest_ok_def map_of_eq_None_iff)
  moreover have "\<exists>sb b. nd_sub_at n s = Some sb \<and> sb_box sb = Some b \<and> b \<in> members (nd_dave n) (sb_topic sb)"
    if "s \<in> set (nd_subscribers n)" for s by (rule subs_wiredE [OF d(6) that]) blast
  moreover have "\<exists>pb b. nd_pub_at n s = Some pb \<and> pb_box pb = Some b \<and> b \<in> members (nd_dave n) (pb_topic pb)"
    if "s \<in> set (nd_publishers n)" for s by (rule pubs_wiredE [OF d(7) that]) blast
  moreover have "\<forall>r \<in> set (nd_remotes n). r \<in> members (nd_dave n) topic_any" using d(8) by (simp add: remotes_wired_def)
  ultimately show ?thesis using ok by blast
qed

theorem node_reachable_inv_witness:
  "\<exists>(n0 :: (sample_doc, sample_log) node) n. node_new sample_env ''robot'' 42 0 10 (\<lambda>_. quiet_link) [] = Inr n0 \<and>
     (node_step sample_env)\<^sup>*\<^sup>* n0 n \<and> nd_publishers n = [5] \<and> node_ok n"
proof -
  obtain n0 :: "(sample_doc, sample_log) node" where n0: "node_new sample_env ''robot'' 42 0 10 (\<lambda>_. quiet_link) [] = Inr n0"
      "node_ok n0" "nd_publishers n0 = []" "nd_pub_at n0 = Map.empty" "members (nd_dave n0) = (\<lambda>t. if t = topic_internal then {10} else {})"
    using node_new_ok [of sample_env "''robot''" 42 0 10 "\<lambda>_. quiet_link" "[]"] by (elim exE conjE) (rule that; assumption)
  have f: "nd_pub_at n0 5 = None" "fresh_box (nd_dave n0) 20" by (simp_all add: fresh_box_def n0(4,5) box_key_def mailbox_id_def)
  obtain n :: "(sample_doc, sample_log) node" where n: "publisher_new sample_env 5 20 ''/t'' n0 = Inr n" "nd_publishers n = nd_publishers n0 @ [5]"
    using publisher_new_ok [OF n0(2) sample_env_users f, of "''/t''"] by (elim exE conjE) (rule that; assumption)
  have "(node_step sample_env)\<^sup>*\<^sup>* n0 n" using node_step.Advertise [OF f n(1)] by blast
  with node_reachable_inv [OF n0(1) this sample_env_users] n0(1,3) n(2) show ?thesis by auto
qed

end
