(* ===== verification/Network.thy ===== *)
theory Network
  imports Node_Life
begin

text \<open>
  Several nodes joined by links: a packet floods the network, because every node passes what it
  takes from one remote on to all the others. The path in its metadata stops it: no packet
  passes a node twice. The proof weighs each queued packet by the turns it can still cause.
\<close>

subsection \<open>The network\<close>

text \<open>
  The nodes by number, the environment each runs in, and for each end of a link the other end.
\<close>

record ('b, 'u) topology =
  tg_nodes :: "nat set"
  tg_env :: "nat \<Rightarrow> ('b, 'u) node_env"
  tg_peer :: "nat \<Rightarrow> tp \<Rightarrow> (nat \<times> tp) option"

definition put_buffer :: "tp \<Rightarrow> 'b buffer \<Rightarrow> ('b, 'u) node \<Rightarrow> ('b, 'u) node" where
  "put_buffer l b n = n\<lparr>nd_thread := (nd_thread n)\<lparr>th_buffers := AList.update l b (th_buffers (nd_thread n))\<rparr>\<rparr>"

text \<open>
  \<open>Taken\<close> is a turn of \<open>remote_node::spin_update\<close> that finds a packet. \<open>Carried\<close> is what the two
  threads and the transports between them do to the first packet of an out queue: it leaves,
  and what the peer reads has the same metadata and message, and a local-only flag nobody has
  written. A flush may also have emptied the set of topics that the out queue drops.
\<close>

inductive net_step :: "('b, 'u) topology \<Rightarrow> (nat \<Rightarrow> ('b, 'u) node) \<Rightarrow> (nat \<Rightarrow> ('b, 'u) node) \<Rightarrow> bool"
  for tg :: "('b, 'u) topology" where
  Taken: "i \<in> tg_nodes tg \<Longrightarrow> r \<in> set (nd_remotes (net i)) \<Longrightarrow>
    remote_take (tg_env tg i) r (net i) = Inr (True, n) \<Longrightarrow> net_step tg net (net(i := n))"
| Carried: "i \<in> tg_nodes tg \<Longrightarrow> tg_peer tg i l = Some (j, m) \<Longrightarrow> j \<in> tg_nodes tg \<Longrightarrow>
    map_of (th_buffers (nd_thread (net i))) l = Some b \<Longrightarrow> bf_out b = p # ps \<Longrightarrow> F \<subseteq> bf_out_firehose b \<Longrightarrow>
    net' = net(i := put_buffer l (b\<lparr>bf_out := ps, bf_out_firehose := F\<rparr>) (net i)) \<Longrightarrow>
    map_of (th_buffers (nd_thread (net' j))) m = Some c \<Longrightarrow>
    p_meta q = p_meta p \<Longrightarrow> p_msg q = p_msg p \<Longrightarrow> \<not> p_null q \<Longrightarrow>
    p_local_only q = ne_junk (tg_env tg j) \<Longrightarrow> net_step tg net (net'(j := put_buffer m (buffer_accept q c) (net' j)))"

inductive_cases net_stepE: "net_step tg net net'"

subsection \<open>Weights\<close>

definition hop :: "nat \<Rightarrow> nat \<Rightarrow> 'b packet \<Rightarrow> nat" where
  "hop D N p = Suc D ^ (N - length (m_path (p_meta p)))"

definition buffer_load :: "nat \<Rightarrow> nat \<Rightarrow> 'b buffer \<Rightarrow> nat" where
  "buffer_load D N b = (\<Sum>p\<leftarrow>bf_in b. 2 * hop D N p - 1) + (\<Sum>p\<leftarrow>bf_out b. 2 * hop D N p)"

definition buffers_load :: "nat \<Rightarrow> nat \<Rightarrow> (tp \<times> 'b buffer) list \<Rightarrow> nat" where
  "buffers_load D N bs = (\<Sum>x\<leftarrow>bs. buffer_load D N (snd x))"

definition node_load :: "nat \<Rightarrow> nat \<Rightarrow> ('b, 'u) node \<Rightarrow> nat" where
  "node_load D N n = buffers_load D N (th_buffers (nd_thread n))"

definition net_load :: "nat \<Rightarrow> nat \<Rightarrow> nat set \<Rightarrow> (nat \<Rightarrow> ('b, 'u) node) \<Rightarrow> nat" where
  "net_load D N I net = (\<Sum>i \<in> I. node_load D N (net i))"

lemma hop_pos [simp]: "0 < hop D N p"
  by (simp add: hop_def)

lemma hop_cong: "p_meta q = p_meta p \<Longrightarrow> hop D N q = hop D N p"
  by (simp add: hop_def)

lemma hop_stamped:
  assumes "length (m_path (p_meta p)) < N"
  shows "Suc D * hop D N (stamped lib i p) = hop D N p"
proof -
  have "N - length (m_path (p_meta p)) = Suc (N - Suc (length (m_path (p_meta p))))" using assms by simp
  then show ?thesis by (simp add: hop_def)
qed

lemma load_send: "buffer_load D N (buffer_send p b) \<le> buffer_load D N b + 2 * hop D N p"
  by (simp add: buffer_load_def buffer_send_def)

lemma load_accept: "buffer_load D N (buffer_accept p b) \<le> buffer_load D N b + (2 * hop D N p - 1)"
  by (simp add: buffer_load_def buffer_accept_def)

lemma buffers_load_update:
  "map_of bs l = Some b \<Longrightarrow>
   buffers_load D N (AList.update l b' bs) + buffer_load D N b = buffers_load D N bs + buffer_load D N b'"
  by (induction bs) (auto simp: buffers_load_def split: if_splits)

text \<open>Every packet in the queues of a node has a property.\<close>

definition packets_all :: "('b packet \<Rightarrow> bool) \<Rightarrow> ('b, 'u) node \<Rightarrow> bool" where
  "packets_all P n \<longleftrightarrow> (\<forall>(l, b) \<in> set (th_buffers (nd_thread n)). \<forall>p \<in> set (bf_in b) \<union> set (bf_out b). P p)"

lemma packets_allD:
  "packets_all P n \<Longrightarrow> map_of (th_buffers (nd_thread n)) l = Some b \<Longrightarrow> p \<in> set (bf_in b) \<or> p \<in> set (bf_out b) \<Longrightarrow> P p"
  by (auto simp: packets_all_def dest!: map_of_SomeD)

lemma packets_all_update:
  assumes "packets_all P n" and "th_buffers (nd_thread n') = AList.update l b (th_buffers (nd_thread n))"
    and "\<And>p. p \<in> set (bf_in b) \<or> p \<in> set (bf_out b) \<Longrightarrow> P p"
  shows "packets_all P n'"
proof -
  have "set (AList.update l b bs) \<subseteq> insert (l, b) (set bs)" for bs :: "(tp \<times> 'a buffer) list"
    by (induction bs) auto
  with assms show ?thesis unfolding packets_all_def assms(2) by fastforce
qed

subsection \<open>What one delivery adds to the queues\<close>

lemma remote_send_buffers:
  assumes "remote_send env r p n = Inr (ret, n')"
  shows "th_buffers (nd_thread n') = th_buffers (nd_thread n) \<or>
    (\<exists>l b. map_of (th_buffers (nd_thread n)) l = Some b \<and> th_buffers (nd_thread n') =
       AList.update l (buffer_send (stamped (ne_lib env) (nd_id n) p) b) (th_buffers (nd_thread n)))"
proof (cases "n' = n")
  case False
  then obtain l t where n': "n' = n\<lparr>nd_thread := t\<rparr>"
      and "thread_send (ne_dbg env) l (stamped (ne_lib env) (nd_id n) p) (nd_thread n) = Inr (ret, t)"
    using assms by (auto simp: remote_send_def exec_simps split: if_splits)
  from this(2) show ?thesis by (cases rule: thread_send_cases) (use n' in auto)
qed simp

lemma place_into_node:
  assumes "place_into (node_run env) mm p n x = Inr n'"
  shows "(n' = n \<or> (\<exists>cb ret. mb_incoming (the (mm_boxes mm x)) = Some cb \<and> node_run env cb p n = Inr (ret, n')))"
  using assms by (auto simp: place_into_def place_incoming_mail_def exec_simps split: option.splits)

lemma node_run_buffers:
  assumes "node_run env cb p n = Inr (ret, n')" and "\<forall>r. cb \<noteq> Remote_cb r"
  shows "th_buffers (nd_thread n') = th_buffers (nd_thread n)"
proof (cases cb)
  case Internal_cb
  then show ?thesis
    using assms by (auto simp: internal_handler_def update_time_def Let_def split: option.splits if_splits)
next
  case (Subscriber_cb s c arg)
  then show ?thesis
    using assms by (auto simp: subscriber_handler_def exec_simps split: callback.splits)
qed (use assms in simp)

text \<open>One mailbox: nothing, or one packet more for a remote.\<close>

lemma place_load:
  assumes live: "node_live n" and x: "x \<in> members (nd_dave n) t" and f: "frame n s"
    and run: "place_into (node_run env) (nd_dave n) p s x = Inr s'"
    and Q: "packets_all Q s" "Q (stamped (ne_lib env) (nd_id n) p)"
  shows "frame n s' \<and> packets_all Q s' \<and> node_load D N s' \<le> node_load D N s +
    (if x \<in> set (nd_remotes n) then 2 * hop D N (stamped (ne_lib env) (nd_id n) p) else 0)"
proof (cases "s' = s")
  case False
  obtain mb where mb: "mm_boxes (nd_dave n) x = Some mb" by (rule memberD [OF node_liveD(1) [OF live] x])
  from place_into_node [OF run] False obtain cb ret where
    cb: "mb_incoming mb = Some cb" "node_run env cb p s = Inr (ret, s')" using mb by auto
  have f': "frame n s'" using frame_trans [OF f node_run_frame [OF cb(2)]] .
  show ?thesis
  proof (cases "\<exists>r. cb = Remote_cb r")
    case False
    then have "th_buffers (nd_thread s') = th_buffers (nd_thread s)" using node_run_buffers [OF cb(2)] by blast
    then show ?thesis using f' Q by (simp add: node_load_def packets_all_def)
  next
    case True
    then have x': "cb = Remote_cb x" "x \<in> set (nd_remotes n)"
      using node_liveD(2) [OF live x mb] cb(1) by (auto simp: closure_ok_def)
    then have "remote_send env x p s = Inr (ret, s')" using cb(2) by simp
    from remote_send_buffers [OF this] show ?thesis
    proof (elim disjE exE conjE)
      assume "th_buffers (nd_thread s') = th_buffers (nd_thread s)"
      then show ?thesis using f' Q by (simp add: node_load_def packets_all_def)
    next
      fix l b assume b: "map_of (th_buffers (nd_thread s)) l = Some b"
        and s': "th_buffers (nd_thread s') = AList.update l (buffer_send (stamped (ne_lib env) (nd_id s) p) b) (th_buffers (nd_thread s))"
      have id: "nd_id s = nd_id n" by (rule frameD(8) [OF f])
      have "packets_all Q s'"
        by (rule packets_all_update [OF Q(1) s'])
           (use packets_allD [OF Q(1) b] Q(2) in \<open>auto simp: buffer_send_def id split: if_splits\<close>)
      then show ?thesis
        using f' x'(2) buffers_load_update [OF b, of D N "buffer_send (stamped (ne_lib env) (nd_id s) p) b"]
          load_send [of D N "stamped (ne_lib env) (nd_id s) p" b]
        by (simp add: node_load_def s' id)
    qed
  qed
qed (use assms in simp)

lemma foldl_load:
  assumes live: "node_live n" and Q: "Q (stamped (ne_lib env) (nd_id n) p)"
  shows "\<forall>x \<in> set xs. \<exists>t. x \<in> members (nd_dave n) t \<Longrightarrow> frame n s \<Longrightarrow> packets_all Q s \<Longrightarrow>
    exec_foldl (place_into (node_run env) (nd_dave n) p) s xs = Inr s' \<Longrightarrow>
    packets_all Q s' \<and> node_load D N s' \<le> node_load D N s +
      length (filter (\<lambda>x. x \<in> set (nd_remotes n)) xs) * (2 * hop D N (stamped (ne_lib env) (nd_id n) p))"
proof (induction xs arbitrary: s)
  case (Cons x xs)
  obtain t where t: "x \<in> members (nd_dave n) t" using Cons.prems(1) by auto
  obtain s1 where s1: "place_into (node_run env) (nd_dave n) p s x = Inr s1"
      "exec_foldl (place_into (node_run env) (nd_dave n) p) s1 xs = Inr s'"
    using Cons.prems(4) by (auto simp: exec_simps)
  note l = place_load [OF live t Cons.prems(2) s1(1) Cons.prems(3) Q]
  have "packets_all Q s' \<and> node_load D N s' \<le> node_load D N s1 +
      length (filter (\<lambda>x. x \<in> set (nd_remotes n)) xs) * (2 * hop D N (stamped (ne_lib env) (nd_id n) p))"
    by (rule Cons.IH) (use Cons.prems(1) l s1(2) in auto)
  moreover have "node_load D N s1 \<le> node_load D N s +
    (if x \<in> set (nd_remotes n) then 2 * hop D N (stamped (ne_lib env) (nd_id n) p) else 0)" using l by blast
  ultimately show ?case by (auto split: if_splits)
qed simp

text \<open>A packet on the topic \<open>*\<close> would reach its mailboxes twice, hence the factor.\<close>

lemma mail_load:
  assumes live: "node_live n" and mail: "node_mail env a p n = Inr (ret, n')"
    and Q: "packets_all Q n" "Q (stamped (ne_lib env) (nd_id n) p)"
  shows "packets_all Q n' \<and> node_load D N n' \<le> node_load D N n +
    2 * length (nd_remotes n) * (2 * hop D N (stamped (ne_lib env) (nd_id n) p))"
proof -
  have inv: "mailman_inv (nd_dave n)" by (rule node_liveD(1) [OF live])
  let ?r = "\<lambda>t. slot_recipients (box_key a) (topic_slot (nd_dave n) t)"
  let ?xs = "?r (packet_topic p) @ ?r topic_any"
  obtain mb where mb: "box_at (nd_dave n) (Some a) = Inr mb" "(if mb_outgoing mb
      then mailman_send (node_run env) (nd_dave n) (box_key a) p n else Inr (success, n)) = Inr (ret, n')"
    using mail by (auto simp: node_mail_def place_outgoing_mail_def exec_simps)
  have set_xs: "\<forall>x \<in> set ?xs. \<exists>t. x \<in> members (nd_dave n) t" using slot_recipients_spec(2) [OF inv] by fastforce
  have part: "length (filter (\<lambda>x. x \<in> set (nd_remotes n)) (?r t)) \<le> length (nd_remotes n)" for t
  proof -
    have "length (filter (\<lambda>x. x \<in> set (nd_remotes n)) (?r t)) = card (set (filter (\<lambda>x. x \<in> set (nd_remotes n)) (?r t)))"
      using slot_recipients_spec(1) [OF inv] by (intro distinct_card [symmetric] distinct_filter)
    also have "\<dots> \<le> card (set (nd_remotes n))" by (rule card_mono) auto
    also have "\<dots> \<le> length (nd_remotes n)" by (rule card_length)
    finally show ?thesis .
  qed
  then have len: "length (filter (\<lambda>x. x \<in> set (nd_remotes n)) ?xs) \<le> 2 * length (nd_remotes n)"
    using add_mono [OF part [of "packet_topic p"] part [of topic_any]] by simp
  show ?thesis
  proof (cases "mb_outgoing mb")
    case True
    then have "exec_foldl (place_into (node_run env) (nd_dave n) p) n ?xs = Inr n'"
      using mb(2) by (auto simp: mailman_send_eq [OF inv] exec_simps)
    from foldl_load [OF live, OF Q(2) set_xs frame_refl Q(1) this, of D N] show ?thesis
      using mult_le_mono1 [OF len, of "2 * hop D N (stamped (ne_lib env) (nd_id n) p)"] by linarith
  qed (use mb(2) Q(1) in simp)
qed

subsection \<open>The invariant of the network\<close>

definition flows :: "u32 set \<Rightarrow> 'b packet \<Rightarrow> bool" where
  "flows ids p \<longleftrightarrow> deliverable p \<and> distinct (m_path (p_meta p)) \<and> set (m_path (p_meta p)) \<subseteq> ids"

lemma flows_cong: "p_meta q = p_meta p \<Longrightarrow> p_msg q = p_msg p \<Longrightarrow> \<not> p_null q \<Longrightarrow> flows ids p \<Longrightarrow> flows ids q"
  by (simp add: flows_def deliverable_def packet_topic_def)

lemma flows_stamped:
  assumes "flows ids p" and "i \<in> ids" and "\<not> seen i p"
  shows "flows ids (stamped lib i p)"
  using assms by (auto simp: flows_def deliverable_def seen_def)

lemma flows_short:
  assumes "flows ids p" and "finite ids" and "i \<in> ids" and "\<not> seen i p"
  shows "length (m_path (p_meta p)) < card ids"
proof -
  have "set (m_path (p_meta p)) \<subset> ids" using assms by (auto simp: flows_def seen_def)
  from psubset_card_mono [OF assms(2) this] show ?thesis
    using assms(1) by (simp add: flows_def distinct_card)
qed

definition node_flows :: "nat \<Rightarrow> u32 set \<Rightarrow> ('b, 'u) node \<Rightarrow> bool" where
  "node_flows D ids n \<longleftrightarrow> node_ok n \<and> nd_id n \<in> ids \<and> 2 * length (nd_remotes n) \<le> D \<and> packets_all (flows ids) n"

text \<open>A turn of \<open>spin_update\<close> that finds a packet makes the load of its node smaller.\<close>

lemma take_load:
  assumes fin: "finite ids" and n: "node_flows D ids n" and r: "r \<in> set (nd_remotes n)"
    and take: "remote_take env r n = Inr (True, n')"
  shows "node_flows D ids n' \<and> node_load D (card ids) n' < node_load D (card ids) n \<and>
    map fst (th_buffers (nd_thread n')) = map fst (th_buffers (nd_thread n)) \<and> nd_remotes n' = nd_remotes n"
proof -
  let ?none = "packet_null (ne_lib env) (ne_junk env)"
  let ?N = "card ids"
  have ok: "node_ok n" "nd_id n \<in> ids" "2 * length (nd_remotes n) \<le> D" "packets_all (flows ids) n"
    using n by (simp_all add: node_flows_def)
  obtain rn b where rn: "nd_remote_at n r = Some rn" "rn_link rn \<noteq> null_tp"
      and b: "map_of (th_buffers (nd_thread n)) (rn_link rn) = Some b"
    using node_liveD(4) [OF node_wiredD(1) r] ok(1) by (auto simp: node_ok_def)
  have "bf_in b \<noteq> []"
    using take rn remote_take_empty [OF ok(1) r rn(1), of env] b by (auto simp: in_queue_def)
  then obtain p ps where q: "bf_in b = p # ps" by (cases "bf_in b") auto
  define b' where "b' = snd (buffer_next ?none b)"
  have b': "buffer_next ?none b = (p, b')" "bf_in b' = ps" "bf_out b' = bf_out b"
    using q by (simp_all add: b'_def buffer_next_def)
  define t where "t = (nd_thread n)\<lparr>th_buffers := AList.update (rn_link rn) b' (th_buffers (nd_thread n))\<rparr>"
  have nx: "next_packet (ne_dbg env) ?none (rn_link rn) (nd_thread n) = Inr (p, t)"
    using next_packet_watched [OF rn(2) b, of "ne_dbg env" ?none] b' by (simp add: t_def)
  have keys: "map fst (th_buffers t) = map fst (th_buffers (nd_thread n))"
    using same_in_update [OF b, of "b'\<lparr>bf_in := bf_in b\<rparr>"] b unfolding t_def
    by (simp add: AList.update_keys map_of_eq_None_iff [symmetric] split: if_splits)
  define m where "m ids' = n\<lparr>nd_thread := t, nd_remote_at := (nd_remote_at n)(r \<mapsto> rn\<lparr>rn_ids := ids'\<rparr>)\<rparr>" for ids'
  have p: "flows ids p" "\<not> p_null p" using packets_allD [OF ok(4) b, of p] q by (simp_all add: flows_def deliverable_def)
  have m: "node_ok (m x)" "nd_id (m x) = nd_id n" "nd_remotes (m x) = nd_remotes n" for x
  proof -
    have "node_wired (m x)"
      by (rule wired_links [of n]) (use ok(1) rn(1) b in \<open>auto simp: node_ok_def m_def t_def AList.update_conv'\<close>)
    then show "node_ok (m x)" using ok(1) by (simp add: node_ok_def latest_ok_def m_def)
  qed (simp_all add: m_def)
  have all: "packets_all (flows ids) (m x)" for x
    by (rule packets_all_update [OF ok(4), of _ "rn_link rn" b']) (use packets_allD [OF ok(4) b] q b' in \<open>auto simp: m_def t_def\<close>)
  have "buffer_load D ?N b = buffer_load D ?N b' + (2 * hop D ?N p - 1)"
    by (simp add: buffer_load_def q b')
  then have load: "node_load D ?N (m x) + (2 * hop D ?N p - 1) = node_load D ?N n" for x
    using buffers_load_update [OF b, of D ?N b'] by (simp add: node_load_def m_def t_def)
  have pos: "0 < 2 * hop D ?N p - 1" using hop_pos [of D ?N p] by linarith
  show ?thesis
  proof (cases "seen (nd_id n) p")
    case True
    have "m (rn_ids rn) = n\<lparr>nd_thread := t\<rparr>"
      by (rule node.equality) (use rn(1) in \<open>auto simp: m_def\<close>)
    then have "n' = m (rn_ids rn)"
      using take rn(1) nx True p(2) by (simp add: remote_take_def)
    then show ?thesis
      using m all load [of "rn_ids rn"] pos ok keys by (simp add: node_flows_def) (simp add: m_def)
  next
    case False
    let ?m = "m (insert (m_id (p_meta p)) (rn_ids rn))" and ?s = "stamped (ne_lib env) (nd_id n) p"
    obtain ret where mail: "node_mail env r p ?m = Inr (ret, n')"
      using take rn(1) nx False p(2) by (auto simp: remote_take_def m_def exec_simps)
    have live: "node_live ?m" using node_wiredD(1) m(1) by (auto simp: node_ok_def)
    have s: "flows ids (stamped (ne_lib env) (nd_id ?m) p)" using flows_stamped [OF p(1) ok(2) False] by (simp add: m(2))
    note ml = mail_load [OF live mail all s, of D ?N]
    note f = node_mail_frame [OF mail]
    have "node_flows D ids n'"
      using frame_ok [OF f m(1)] frameD(5,8) [OF f] ml ok m by (simp add: node_flows_def)
    moreover have "node_load D ?N n' < node_load D ?N n"
    proof -
      have h: "Suc D * hop D ?N ?s = hop D ?N p" by (rule hop_stamped [OF flows_short [OF p(1) fin ok(2) False]])
      have "2 * length (nd_remotes n) * (2 * hop D ?N ?s) \<le> D * (2 * hop D ?N ?s)" by (rule mult_le_mono1 [OF ok(3)])
      also have "\<dots> = 2 * hop D ?N p - 2 * hop D ?N ?s" using h by (simp add: algebra_simps)
      finally have "node_load D ?N n' \<le> node_load D ?N ?m + (2 * hop D ?N p - 2 * hop D ?N ?s)"
        using ml by (simp add: m(2,3))
      moreover have "2 * hop D ?N p - 2 * hop D ?N ?s < 2 * hop D ?N p - 1" using hop_pos [of D ?N ?s] h hop_pos [of D ?N p] by linarith
      ultimately show ?thesis using load [of "insert (m_id (p_meta p)) (rn_ids rn)"] by linarith
    qed
    ultimately show ?thesis using frameD(5,15) [OF f] keys by (simp add: m_def)
  qed
qed

subsection \<open>Steps of the network\<close>

definition flood_ok :: "('b, 'u) topology \<Rightarrow> nat \<Rightarrow> u32 set \<Rightarrow> (nat \<Rightarrow> ('b, 'u) node) \<Rightarrow> bool" where
  "flood_ok tg D ids net \<longleftrightarrow> finite (tg_nodes tg) \<and> finite ids \<and>
     (\<forall>i \<in> tg_nodes tg. users_return (tg_env tg i) \<and> node_flows D ids (net i) \<and>
        (\<forall>l j m. tg_peer tg i l = Some (j, m) \<longrightarrow> j \<in> tg_nodes tg \<and> map_of (th_buffers (nd_thread (net j))) m \<noteq> None))"

text \<open>Nothing waits in a queue that a remote reads or that a link carries.\<close>

definition quiet :: "('b, 'u) topology \<Rightarrow> (nat \<Rightarrow> ('b, 'u) node) \<Rightarrow> bool" where
  "quiet tg net \<longleftrightarrow> (\<forall>i \<in> tg_nodes tg.
     (\<forall>r \<in> set (nd_remotes (net i)). \<forall>rn. nd_remote_at (net i) r = Some rn \<longrightarrow> in_queue (rn_link rn) (net i) = []) \<and>
     (\<forall>l b. tg_peer tg i l \<noteq> None \<longrightarrow> map_of (th_buffers (nd_thread (net i))) l = Some b \<longrightarrow> bf_out b = []))"

lemma put_buffer_flows:
  assumes n: "node_flows D ids n" and b: "map_of (th_buffers (nd_thread n)) l = Some b"
    and b': "\<forall>p \<in> set (bf_in b') \<union> set (bf_out b'). flows ids p"
  shows "node_flows D ids (put_buffer l b' n)"
    and "node_load D N (put_buffer l b' n) + buffer_load D N b = node_load D N n + buffer_load D N b'"
    and "map_of (th_buffers (nd_thread (put_buffer l b' n))) m = None \<longleftrightarrow> map_of (th_buffers (nd_thread n)) m = None"
proof -
  have ok: "node_ok n" using n by (simp add: node_flows_def)
  have "node_wired (put_buffer l b' n)"
    by (rule wired_links [of n]) (use ok b in \<open>auto simp: node_ok_def put_buffer_def AList.update_conv'\<close>)
  then have "node_ok (put_buffer l b' n)" using ok by (simp add: node_ok_def latest_ok_def put_buffer_def)
  moreover have "packets_all (flows ids) (put_buffer l b' n)"
    by (rule packets_all_update [of _ n _ l b']) (use n b' in \<open>auto simp: node_flows_def put_buffer_def\<close>)
  ultimately show "node_flows D ids (put_buffer l b' n)" using n by (simp add: node_flows_def put_buffer_def)
  show "node_load D N (put_buffer l b' n) + buffer_load D N b = node_load D N n + buffer_load D N b'"
    using buffers_load_update [OF b] by (simp add: node_load_def put_buffer_def)
  show "map_of (th_buffers (nd_thread (put_buffer l b' n))) m = None \<longleftrightarrow> map_of (th_buffers (nd_thread n)) m = None"
    using b by (auto simp: put_buffer_def AList.update_conv')
qed

lemma net_load_update:
  assumes "finite I" and "i \<in> I"
  shows "net_load D N I (net(i := n)) + node_load D N (net i) = net_load D N I net + node_load D N n"
proof -
  have "(\<Sum>x \<in> I - {i}. node_load D N ((net(i := n)) x)) = (\<Sum>x \<in> I - {i}. node_load D N (net x))"
    by (rule sum.cong) auto
  then show ?thesis using assms by (simp add: net_load_def sum.remove [of I i])
qed

lemma flood_ok_update:
  assumes "flood_ok tg D ids net" and "node_flows D ids n"
    and "\<And>m. map_of (th_buffers (nd_thread n)) m = None \<longleftrightarrow> map_of (th_buffers (nd_thread (net i))) m = None"
  shows "flood_ok tg D ids (net(i := n))"
proof -
  have "map_of (th_buffers (nd_thread ((net(i := n)) j))) m = None \<longleftrightarrow> map_of (th_buffers (nd_thread (net j))) m = None" for j m
    using assms(3) by (cases "j = i") simp_all
  with assms(1,2) show ?thesis unfolding flood_ok_def by simp
qed

lemma net_step_load:
  assumes "net_step tg net net'" and "flood_ok tg D ids net"
  shows "flood_ok tg D ids net' \<and> net_load D (card ids) (tg_nodes tg) net' < net_load D (card ids) (tg_nodes tg) net"
  using assms
proof (cases rule: net_step.cases)
  case (Taken i r n)
  have fin: "finite ids" "finite (tg_nodes tg)" and n: "node_flows D ids (net i)" using assms(2) Taken(2) by (auto simp: flood_ok_def)
  note t = take_load [OF fin(1) n Taken(3,4)]
  have "map_of (th_buffers (nd_thread n)) m = None \<longleftrightarrow> map_of (th_buffers (nd_thread (net i))) m = None" for m
    using t by (metis map_of_eq_None_iff list.set_map)
  then show ?thesis
    using flood_ok_update [OF assms(2)] t net_load_update [OF fin(2) Taken(2), of D "card ids" net n] unfolding Taken(1) by auto
next
  case (Carried i l j m b p ps F net1 c q)
  let ?N = "card ids" and ?b = "b\<lparr>bf_out := ps, bf_out_firehose := F\<rparr>"
  have fin: "finite ids" "finite (tg_nodes tg)" and n: "node_flows D ids (net i)" using assms(2) Carried(2) by (auto simp: flood_ok_def)
  have all: "flows ids x" if "x \<in> set (bf_in b) \<or> x \<in> set (bf_out b)" for x
    using packets_allD [OF _ Carried(5) that, of "flows ids"] n by (simp add: node_flows_def)
  have "\<forall>x \<in> set (bf_in ?b) \<union> set (bf_out ?b). flows ids x" using all Carried(6) by auto
  note out = put_buffer_flows [OF n Carried(5) this]
  have ok1: "flood_ok tg D ids net1" unfolding Carried(8)
    by (rule flood_ok_update [OF assms(2)]) (use out in auto)
  then have n1: "node_flows D ids (net1 j)" using Carried(4) by (simp add: flood_ok_def)
  have q: "flows ids q" by (rule flows_cong [OF Carried(10-12) all]) (simp add: Carried(6))
  have "packets_all (flows ids) (net1 j)" using n1 by (simp add: node_flows_def)
  then have acc: "\<forall>x \<in> set (bf_in (buffer_accept q c)) \<union> set (bf_out (buffer_accept q c)). flows ids x"
    using packets_allD [OF _ Carried(9), of "flows ids"] q by (auto simp: buffer_accept_def split: if_splits)
  note into = put_buffer_flows [OF n1 Carried(9) acc]
  have ok2: "flood_ok tg D ids net'" unfolding Carried(1)
    by (rule flood_ok_update [OF ok1]) (use into in auto)
  have "buffer_load D ?N b = buffer_load D ?N ?b + 2 * hop D ?N p" by (simp add: buffer_load_def Carried(6))
  then have "net_load D ?N (tg_nodes tg) net1 + 2 * hop D ?N p = net_load D ?N (tg_nodes tg) net"
    using out(2) [of ?N] net_load_update [OF fin(2) Carried(2), of D ?N net "put_buffer l ?b (net i)"]
    unfolding Carried(8) by auto
  moreover have "net_load D ?N (tg_nodes tg) net' + buffer_load D ?N c =
      net_load D ?N (tg_nodes tg) net1 + buffer_load D ?N (buffer_accept q c)"
    using into(2) [of ?N] net_load_update [OF fin(2) Carried(4), of D ?N net1 "put_buffer m (buffer_accept q c) (net1 j)"]
    unfolding Carried(1) by auto
  moreover have "buffer_load D ?N (buffer_accept q c) \<le> buffer_load D ?N c + (2 * hop D ?N p - 1)"
    using load_accept [of D ?N q c] hop_cong [OF Carried(10), of D ?N] by simp
  ultimately have "net_load D ?N (tg_nodes tg) net' < net_load D ?N (tg_nodes tg) net"
    using hop_pos [of D ?N p] by linarith
  then show ?thesis using ok2 by simp
qed

text \<open>While something waits, somebody can move.\<close>

lemma net_stuck_quiet:
  assumes ok: "flood_ok tg D ids net" and stuck: "\<And>net'. \<not> net_step tg net net'"
  shows "quiet tg net"
  unfolding quiet_def
proof (intro ballI conjI allI impI)
  fix i r rn assume i: "i \<in> tg_nodes tg" and r: "r \<in> set (nd_remotes (net i))" and rn: "nd_remote_at (net i) r = Some rn"
  have n: "users_return (tg_env tg i)" "node_ok (net i)" "packets_all (flows ids) (net i)"
    using ok i by (auto simp: flood_ok_def node_flows_def)
  show "in_queue (rn_link rn) (net i) = []"
  proof (cases "in_queue (rn_link rn) (net i)")
    case (Cons p ps)
    then obtain b where "map_of (th_buffers (nd_thread (net i))) (rn_link rn) = Some b" "bf_in b = p # ps"
      by (auto simp: in_queue_def split: option.splits)
    then have "deliverable p" using packets_allD [OF n(3), of _ b p] by (auto simp: flows_def)
    from remote_take_step [OF n(2,1) r rn Cons this] obtain n' where "remote_take (tg_env tg i) r (net i) = Inr (True, n')" by blast
    with i r have "net_step tg net (net(i := n'))" by (rule net_step.Taken)
    then show ?thesis using stuck by blast
  qed simp
next
  fix i l b assume i: "i \<in> tg_nodes tg" and peer: "tg_peer tg i l \<noteq> None"
    and b: "map_of (th_buffers (nd_thread (net i))) l = Some b"
  obtain j m where jm: "tg_peer tg i l = Some (j, m)" using peer by auto
  show "bf_out b = []"
  proof (rule ccontr)
    assume "bf_out b \<noteq> []"
    then obtain p ps where out: "bf_out b = p # ps" by (cases "bf_out b") auto
    let ?b = "b\<lparr>bf_out := ps, bf_out_firehose := bf_out_firehose b\<rparr>"
    let ?net = "net(i := put_buffer l ?b (net i))"
    have j: "j \<in> tg_nodes tg" "map_of (th_buffers (nd_thread (net j))) m \<noteq> None" using ok i jm by (auto simp: flood_ok_def)
    have n: "node_flows D ids (net i)" using ok i by (simp add: flood_ok_def)
    have all: "flows ids x" if "x \<in> set (bf_in b) \<or> x \<in> set (bf_out b)" for x
      using packets_allD [OF _ b that, of "flows ids"] n by (simp add: node_flows_def)
    have "\<forall>x \<in> set (bf_in ?b) \<union> set (bf_out ?b). flows ids x" using all out by auto
    note put = put_buffer_flows(3) [OF n b this, of m]
    have "map_of (th_buffers (nd_thread (?net j))) m \<noteq> None" using j put by (cases "j = i") simp_all
    then obtain c where c: "map_of (th_buffers (nd_thread (?net j))) m = Some c" by blast
    have p: "\<not> p_null p" using all [of p] out by (simp add: flows_def deliverable_def)
    let ?q = "p\<lparr>p_local_only := ne_junk (tg_env tg j)\<rparr>"
    from net_step.Carried [OF i jm j(1) b out subset_refl refl c, of ?q] p show False using stuck by simp
  qed
qed

lemma net_runs:
  assumes "(net_step tg ^^ k) net net'" and "flood_ok tg D ids net"
  shows "flood_ok tg D ids net' \<and> k + net_load D (card ids) (tg_nodes tg) net' \<le> net_load D (card ids) (tg_nodes tg) net"
  using assms
proof (induction k arbitrary: net')
  case (Suc k)
  then obtain net1 where "(net_step tg ^^ k) net net1" "net_step tg net1 net'" by auto
  with Suc net_step_load [of tg net1 net' D ids] show ?case by fastforce
qed simp

subsection \<open>Properties\<close>

text \<open>C6: Flooding ends: in a network of nodes whose invariants hold, with links whose two ends are
  watched and queued packets whose paths have no node twice, every run of takes and transfers
  has at most as many steps as the initial load, a number computed from the queues, the number
  of nodes and the greatest number of remotes; the invariants hold all along; and a network in
  which nothing can move any more has empty queues on every link. Cycles of connections are
  allowed: it is the path in the metadata that ends the flood.\<close>

theorem flooding_terminates:
  assumes "flood_ok tg D ids net" and "(net_step tg ^^ k) net net'"
  shows "k \<le> net_load D (card ids) (tg_nodes tg) net \<and> flood_ok tg D ids net' \<and>
    ((\<forall>net''. \<not> net_step tg net' net'') \<longrightarrow> quiet tg net')"
proof -
  have "flood_ok tg D ids net' \<and> k + net_load D (card ids) (tg_nodes tg) net' \<le> net_load D (card ids) (tg_nodes tg) net"
    by (rule net_runs [OF assms(2,1)])
  moreover from this have "(\<forall>net''. \<not> net_step tg net' net'') \<longrightarrow> quiet tg net'" using net_stuck_quiet by blast
  ultimately show ?thesis by auto
qed

definition pair_topology :: "(sample_doc, sample_log) topology" where
  "pair_topology = \<lparr>tg_nodes = {0, 1}, tg_env = (\<lambda>_. sample_env),
     tg_peer = (\<lambda>i l. if i < 2 \<and> l = 1 then Some (1 - i, 1) else None)\<rparr>"

theorem flooding_terminates_witness:
  "\<exists>(net :: nat \<Rightarrow> (sample_doc, sample_log) node) net'. net_step pair_topology net net' \<and>
     (\<forall>k net''. (net_step pair_topology ^^ k) net net'' \<longrightarrow> k \<le> net_load 2 3 {0, 1} net)"
proof -
  let ?p = "(sample_packet ''/t'')\<lparr>p_meta := (p_meta (sample_packet ''/t''))\<lparr>m_id := 5, m_path := [5]\<rparr>\<rparr>"
  have h: "ucast (42 :: u64) \<noteq> (9 :: u32)" "ucast (43 :: u64) \<noteq> (9 :: u32)" by simp_all
  obtain a :: "(sample_doc, sample_log) node" where a: "node_ok a" "nd_remotes a = [20]"
      "nd_remote_at a 20 = Some \<lparr>rn_mode = Allow_internal, rn_link = 1, rn_ids = {9}\<rparr>"
      "th_buffers (nd_thread a) = [(1, buffer_new\<lparr>bf_in := [?p]\<rparr>)]" "nd_id a = ucast (42 :: u64)"
    using sample_connected [OF h(1), of "[?p]"] by (elim exE conjE) (rule that; assumption)
  obtain b :: "(sample_doc, sample_log) node" where b: "node_ok b" "nd_remotes b = [20]"
      "th_buffers (nd_thread b) = [(1, buffer_new\<lparr>bf_in := []\<rparr>)]" "nd_id b = ucast (43 :: u64)"
    using sample_connected [OF h(2), of "[]"] by (elim exE conjE) (rule that; assumption)
  let ?net = "\<lambda>i :: nat. if i = 0 then a else b" and ?ids = "{5, 42, 43} :: u32 set"
  have p: "flows ?ids ?p"
    by (simp add: flows_def deliverable_def sample_packet_def packet_topic_def topic_internal_def)
  have "node_flows 2 ?ids a" "node_flows 2 ?ids b"
    using a b p by (simp_all add: node_flows_def packets_all_def buffer_new_def)
  then have ok: "flood_ok pair_topology 2 ?ids ?net"
    using a(4) b(3) sample_env_users by (simp add: flood_ok_def pair_topology_def)
  have r: "20 \<in> set (nd_remotes a)" and q: "in_queue (rn_link \<lparr>rn_mode = Allow_internal, rn_link = 1, rn_ids = {9}\<rparr>) a = [?p]"
    using a(2,4) by (simp_all add: in_queue_def)
  obtain a' where "remote_take sample_env 20 a = Inr (True, a')"
    using remote_take_step [OF a(1) sample_env_users r a(3) q] p by (auto simp: flows_def)
  then have "net_step pair_topology ?net (?net(0 := a'))"
    using net_step.Taken [where tg = pair_topology and net = ?net and i = 0 and r = 20] r by (simp add: pair_topology_def)
  moreover have "k \<le> net_load 2 3 {0, 1} ?net" if "(net_step pair_topology ^^ k) ?net net''" for k net''
  proof -
    have "card ?ids = 3" "tg_nodes pair_topology = {0, 1}" by (simp_all add: pair_topology_def)
    with flooding_terminates [OF ok that] show ?thesis by simp
  qed
  ultimately show ?thesis by blast
qed

end
