(* ===== verification/Flood_Reach.thy ===== *)
theory Flood_Reach
  imports Network
begin

text \<open>
  A flood reaches everyone: in a network whose links lead both ways, a message that is published
  at one node is given to the subscribers at every node that links connect with it, by the time
  nothing waits on a link any more. The proof follows the set of nodes that have the message: a
  copy on a link was sent by one of them, and each of their neighbours has it or is being sent
  it.
\<close>

subsection \<open>What a delivery adds\<close>

definition out_queue :: "tp \<Rightarrow> ('b, 'u) node \<Rightarrow> 'b packet list" where
  "out_queue l n = (case map_of (th_buffers (nd_thread n)) l of None \<Rightarrow> [] | Some b \<Rightarrow> bf_out b)"

text \<open>Users whose functions note what they are called with.\<close>

definition recording :: "('b, (nat \<times> nat \<times> 'b bson) list) node_env \<Rightarrow> bool" where
  "recording env \<longleftrightarrow> (\<forall>f arg d u. ne_user env f arg d u = Inr (u @ [(f, arg, d)]))"

lemma recording_return: "recording env \<Longrightarrow> users_return env"
  by (simp add: recording_def users_return_def)

lemma recording_calls: "recording env \<Longrightarrow> call_users env cs u = Inr (u @ cs)"
  by (induction cs arbitrary: u rule: rev_induct) (auto simp: recording_def split: prod.split)

text \<open>The parts of a node that deliveries and transfers leave alone, and what only grows.\<close>

definition lasts :: "('b, (nat \<times> nat \<times> 'b bson) list) node \<Rightarrow> ('b, (nat \<times> nat \<times> 'b bson) list) node \<Rightarrow> bool" where
  "lasts n n' \<longleftrightarrow> nd_id n' = nd_id n \<and> nd_dave n' = nd_dave n \<and> nd_remotes n' = nd_remotes n \<and>
     nd_subscribers n' = nd_subscribers n \<and> nd_sub_at n' = nd_sub_at n \<and>
     (\<forall>r. map_option rn_link (nd_remote_at n' r) = map_option rn_link (nd_remote_at n r)) \<and>
     (\<forall>t. nd_subs n t \<noteq> None \<longrightarrow> nd_subs n' t \<noteq> None) \<and> set (nd_user n) \<subseteq> set (nd_user n')"

lemma lastsD:
  assumes "lasts n n'"
  shows "nd_id n' = nd_id n" "nd_remotes n' = nd_remotes n"
    "map_option rn_link (nd_remote_at n' r) = map_option rn_link (nd_remote_at n r)"
    "nd_subs n t \<noteq> None \<Longrightarrow> nd_subs n' t \<noteq> None"
  using assms unfolding lasts_def by blast+

lemma lasts_refl [simp]: "lasts n n"
  by (simp add: lasts_def)

lemma lasts_trans: "lasts n n' \<Longrightarrow> lasts n' n'' \<Longrightarrow> lasts n n''"
  by (auto simp: lasts_def)

text \<open>A delivery appends copies of the stamped packet to queues.\<close>

definition adds :: "'b packet \<Rightarrow> ('b, (nat \<times> nat \<times> 'b bson) list) node \<Rightarrow> ('b, (nat \<times> nat \<times> 'b bson) list) node \<Rightarrow> bool" where
  "adds q n n' \<longleftrightarrow> lasts n n' \<and> (\<forall>l. in_queue l n' = in_queue l n) \<and>
     (\<forall>l. \<exists>k. out_queue l n' = out_queue l n @ replicate k q)"

lemma adds_refl: "adds q n n"
  unfolding adds_def by (auto intro: exI [of _ 0])

lemma adds_trans:
  assumes "adds q n n'" and "adds q n' n''"
  shows "adds q n n''"
proof -
  have "\<exists>k. out_queue l n'' = out_queue l n @ replicate k q" for l
  proof -
    obtain k k' where "out_queue l n' = out_queue l n @ replicate k q" "out_queue l n'' = out_queue l n' @ replicate k' q"
      using assms unfolding adds_def by blast
    then have "out_queue l n'' = out_queue l n @ replicate (k + k') q" by (simp add: replicate_add)
    then show ?thesis ..
  qed
  with assms show ?thesis by (auto simp: adds_def intro: lasts_trans)
qed

lemma frame_lasts:
  assumes "frame n n'" and "\<And>t. nd_subs n t \<noteq> None \<Longrightarrow> nd_subs n' t \<noteq> None" and "set (nd_user n) \<subseteq> set (nd_user n')"
  shows "lasts n n'"
  using frameD [OF assms(1)] assms(2,3) by (simp add: lasts_def)

lemma out_queue_same: "th_buffers (nd_thread n') = th_buffers (nd_thread n) \<Longrightarrow> out_queue l n' = out_queue l n"
  by (simp add: out_queue_def)

lemma buffer_send_out: "\<exists>k. bf_out (buffer_send p b) = bf_out b @ replicate k p \<and> (\<not> droppable p \<longrightarrow> k = 1)"
proof -
  have "bf_out (buffer_send p b) = bf_out b @ replicate (if droppable p \<and> packet_topic p \<in> bf_out_firehose b then 0 else 1) p"
    by (simp add: buffer_send_def)
  then show ?thesis by (intro exI conjI) auto
qed

lemma store_info_subs: "nd_subs n t \<noteq> None \<Longrightarrow> nd_subs (store_info info n) t \<noteq> None"
  unfolding store_info_def tally_def untally_def Let_def
  by (simp add: fold_incr(2) fold_decr(2) del: not_None_eq split: option.split)

lemma node_run_adds:
  assumes rec: "recording env" and run: "node_run env cb p n = Inr (ret, n')"
  shows "adds (stamped (ne_lib env) (nd_id n) p) n n'"
proof -
  note f = node_run_frame [OF run]
  have ins: "in_queue l n' = in_queue l n" for l by (rule in_queue_frame [OF f])
  show ?thesis
  proof (cases cb)
    case Internal_cb
    define n2 where "n2 = (if later (packet_stamp p) (nd_time (update_time env n))
      then (update_time env n)\<lparr>nd_time := packet_stamp p\<rparr> else update_time env n)"
    have n2: "nd_subs n2 = nd_subs n" "nd_user n2 = nd_user n" "th_buffers (nd_thread n2) = th_buffers (nd_thread n)"
      by (simp_all add: n2_def update_time_def Let_def)
    have cases: "n' = n2 \<or> (\<exists>info. n' = store_info info n2)"
      using run by (auto simp: Internal_cb internal_handler_def Let_def n2_def [symmetric] split: option.splits if_splits)
    have subs: "nd_subs n' t \<noteq> None" if "nd_subs n t \<noteq> None" for t
      using cases store_info_subs [of n2 t] that n2(1) by auto
    have "nd_user n' = nd_user n" "th_buffers (nd_thread n') = th_buffers (nd_thread n)"
      using cases n2(2,3) by (auto simp: store_info_def tally_def untally_def Let_def split: option.splits)
    with frame_lasts [OF f subs] out_queue_same [of n' n] ins show ?thesis
      by (auto simp: adds_def intro: exI [of _ 0])
  next
    case (Subscriber_cb s c arg)
    have "set (nd_user n) \<subseteq> set (nd_user n')" "nd_subs n' = nd_subs n" "th_buffers (nd_thread n') = th_buffers (nd_thread n)"
      using run rec by (auto simp: Subscriber_cb subscriber_handler_def exec_simps recording_def split: callback.splits)
    with frame_lasts [OF f] out_queue_same [of n' n] ins show ?thesis
      by (auto simp: adds_def intro: exI [of _ 0])
  next
    case (Remote_cb r)
    then have send: "remote_send env r p n = Inr (ret, n')" using run by simp
    then have "nd_subs n' = nd_subs n" "nd_user n' = nd_user n"
      by (auto simp: remote_send_def exec_simps split: if_splits)
    then have "lasts n n'" by (intro frame_lasts [OF f]) simp_all
    moreover have "\<exists>k. out_queue l n' = out_queue l n @ replicate k (stamped (ne_lib env) (nd_id n) p)" for l
      using remote_send_buffers [OF send]
    proof (elim disjE exE conjE)
      assume "th_buffers (nd_thread n') = th_buffers (nd_thread n)"
      then show ?thesis using out_queue_same [of n' n l] by (intro exI [of _ 0]) simp
    next
      fix l' b assume "map_of (th_buffers (nd_thread n)) l' = Some b"
        "th_buffers (nd_thread n') = AList.update l' (buffer_send (stamped (ne_lib env) (nd_id n) p) b) (th_buffers (nd_thread n))"
      then show ?thesis
        using buffer_send_out [of "stamped (ne_lib env) (nd_id n) p" b]
        by (cases "l' = l") (auto simp: out_queue_def AList.update_conv' intro: exI [of _ 0])
    qed
    ultimately show ?thesis using ins by (simp add: adds_def)
  qed
qed

lemma node_mail_adds:
  assumes rec: "recording env" and mail: "node_mail env a p n = Inr (ret, n')"
  shows "adds (stamped (ne_lib env) (nd_id n) p) n n'"
proof (rule place_outgoing_invariant [where P = "adds (stamped (ne_lib env) (nd_id n) p) n", OF mail [unfolded node_mail_def] adds_refl])
  fix cb w r w' assume run: "node_run env cb p w = Inr (r, w')" and w: "adds (stamped (ne_lib env) (nd_id n) p) n w"
  have "nd_id w = nd_id n" using w by (simp add: adds_def lasts_def)
  with node_run_adds [OF rec run] adds_trans [OF w] show "adds (stamped (ne_lib env) (nd_id n) p) n w'" by simp
qed

text \<open>
  Every subscriber of a topic or of \<open>*\<close> that takes unpacked messages has been given the message.
\<close>

definition heard :: "('b, (nat \<times> nat \<times> 'b bson) list) node \<Rightarrow> topic \<Rightarrow> 'b bson \<Rightarrow> bool" where
  "heard n t d \<longleftrightarrow> (\<forall>s \<in> set (nd_subscribers n). \<forall>sb b f arg. nd_sub_at n s = Some sb \<longrightarrow>
     (sb_topic sb = t \<or> sb_topic sb = topic_any) \<longrightarrow> \<not> sb_packed sb \<longrightarrow> sb_box sb = Some b \<longrightarrow>
     box_incoming n b = Some (Subscriber_cb s (User_callback f) arg) \<longrightarrow> (f, arg, d) \<in> set (nd_user n))"

lemma heard_lasts: "lasts n n' \<Longrightarrow> heard n t d \<Longrightarrow> heard n' t d"
  unfolding heard_def lasts_def box_incoming_def by auto

lemma mail_spreads:
  assumes w: "node_wired n" and a: "a \<in> members (nd_dave n) t0"
    and other: "\<And>s cb arg. box_incoming n a \<noteq> Some (Subscriber_cb s cb arg)" and rec: "recording env"
    and p: "\<not> p_null p" "packet_topic p \<noteq> topic_internal" "packet_topic p \<noteq> topic_any" "\<not> p_local_only p" "\<not> droppable p"
  shows "\<exists>n'. node_mail env a p n = Inr (success, n') \<and> heard n' (packet_topic p) (p_msg p) \<and>
    (\<forall>r \<in> set (nd_remotes n). r \<noteq> a \<longrightarrow> (\<forall>rn. nd_remote_at n r = Some rn \<longrightarrow> wanted n rn (packet_topic p) \<longrightarrow>
       stamped (ne_lib env) (nd_id n) p \<in> set (out_queue (rn_link rn) n')))"
proof -
  note d = node_wiredD [OF w]
  let ?q = "stamped (ne_lib env) (nd_id n) p" and ?t = "packet_topic p"
  obtain mb where mb: "mm_boxes (nd_dave n) a = Some mb" "mb_outgoing mb" by (rule memberD [OF d(3) a])
  have key: "\<forall>t. \<forall>b \<in> members (nd_dave n) t. box_key b = box_key a \<longrightarrow> b = a"
    using d(2) a unfolding keys_distinct_def by blast
  obtain xs where xs: "distinct xs" "set xs = (members (nd_dave n) ?t \<union> members (nd_dave n) topic_any) - {a}"
    and run: "\<And>u. call_users env (concat (map (calls n p) xs)) (nd_user n) = Inr u \<Longrightarrow>
      \<exists>n'. node_mail env a p n = Inr (success, n') \<and> handled env p n (set xs) u n'"
    by (rule node_mail_handled [OF d(1) mb key p(1-3), where env = env]) (rule that)
  let ?cs = "concat (map (calls n p) xs)"
  obtain n' where n': "node_mail env a p n = Inr (success, n')" "handled env p n (set xs) (nd_user n @ ?cs) n'"
    using run [OF recording_calls [OF rec]] by blast
  have f: "frame n n'" and user: "nd_user n' = nd_user n @ ?cs" using n'(2) by (simp_all add: handled_def)
  have "heard n' ?t (p_msg p)"
    unfolding heard_def box_incoming_def frameD [OF f]
  proof (intro ballI allI impI)
    fix s sb b g arg
    assume s: "s \<in> set (nd_subscribers n)" "nd_sub_at n s = Some sb" "sb_topic sb = ?t \<or> sb_topic sb = topic_any"
      "\<not> sb_packed sb" "sb_box sb = Some b"
      "(case mm_boxes (nd_dave n) b of None \<Rightarrow> None | Some mb \<Rightarrow> mb_incoming mb) = Some (Subscriber_cb s (User_callback g) arg)"
    have "sub_calls n p s = [(g, arg, p_msg p)]"
      using s(2,4-6) by (auto simp: sub_calls_def calls_def split: option.splits)
    moreover have "topic_at n s = sb_topic sb" by (simp add: topic_at_def s(2))
    ultimately have "(g, arg, p_msg p) \<in># mset (concat (map (sub_calls n p)
        (filter (\<lambda>s. topic_at n s = ?t \<or> topic_at n s = topic_any) (nd_subscribers n))))"
      using s(1,3) by force
    then have "(g, arg, p_msg p) \<in># mset ?cs"
      using calls_of_subscribers [OF w xs(1,2) other, of p] by simp
    then show "(g, arg, p_msg p) \<in> set (nd_user n')" by (simp add: user)
  qed
  moreover have "?q \<in> set (out_queue (rn_link rn) n')"
    if r: "r \<in> set (nd_remotes n)" "r \<noteq> a" "nd_remote_at n r = Some rn" "wanted n rn ?t" for r rn
  proof -
    have "r \<in> set xs" using d(8) r(1,2) unfolding xs(2) remotes_wired_def by blast
    moreover have "sends_to n p r (rn_link rn)" using sends_to_remote [OF w r(1,3) p(4)] r(4) by simp
    moreover obtain b where b: "map_of (th_buffers (nd_thread n)) (rn_link rn) = Some b"
      using node_liveD(4) [OF d(1) r(1)] r(3) by auto
    ultimately have "map_of (th_buffers (nd_thread n')) (rn_link rn) = Some (buffer_send ?q b)"
      using n'(2) unfolding handled_def by auto
    moreover have "\<not> droppable ?q" using p(5) by (simp add: droppable_def)
    ultimately show ?thesis by (simp add: out_queue_def buffer_send_def)
  qed
  ultimately show ?thesis using n'(1) by blast
qed

subsection \<open>What a turn of a remote does\<close>

text \<open>The node in the middle of a turn, its packet taken and its sender noted.\<close>

definition taken :: "('b, 'u) node_env \<Rightarrow> u64 \<Rightarrow> remote_node \<Rightarrow> u32 set \<Rightarrow> ('b, 'u) node \<Rightarrow> ('b, 'u) node" where
  "taken env r rn ids n =
     (let b = the (map_of (th_buffers (nd_thread n)) (rn_link rn))
      in n\<lparr>nd_thread := (nd_thread n)\<lparr>th_buffers := AList.update (rn_link rn)
              (snd (buffer_next (packet_null (ne_lib env) (ne_junk env)) b)) (th_buffers (nd_thread n))\<rparr>,
           nd_remote_at := (nd_remote_at n)(r \<mapsto> rn\<lparr>rn_ids := ids\<rparr>)\<rparr>)"

lemma taken_ok:
  assumes ok: "node_ok n" and r: "r \<in> set (nd_remotes n)" and rn: "nd_remote_at n r = Some rn"
    and q: "in_queue (rn_link rn) n = p # ps" and p: "\<not> p_null p"
  shows "node_ok (taken env r rn ids n)"
    and "nd_id (taken env r rn ids n) = nd_id n" "nd_remotes (taken env r rn ids n) = nd_remotes n"
    and "nd_remote_at (taken env r rn ids n) = (nd_remote_at n)(r \<mapsto> rn\<lparr>rn_ids := ids\<rparr>)"
    and "nd_subs (taken env r rn ids n) = nd_subs n" "nd_dave (taken env r rn ids n) = nd_dave n"
    and "in_queue l (taken env r rn ids n) = (if l = rn_link rn then ps else in_queue l n)"
    and "out_queue l (taken env r rn ids n) = out_queue l n"
    and "remote_take env r n =
      (if seen (nd_id n) p then Inr (True, taken env r rn (rn_ids rn) n)
       else exec_bind (node_mail env r p (taken env r rn (insert (m_id (p_meta p)) (rn_ids rn)) n)) (\<lambda>(ret, n'). Inr (True, n')))"
proof -
  let ?none = "packet_null (ne_lib env) (ne_junk env)"
  obtain b where link: "rn_link rn \<noteq> null_tp" and b: "map_of (th_buffers (nd_thread n)) (rn_link rn) = Some b"
    using node_liveD(4) [OF node_wiredD(1) r] ok rn by (auto simp: node_ok_def)
  have bn: "buffer_next ?none b = (p, snd (buffer_next ?none b))" "bf_in (snd (buffer_next ?none b)) = ps"
      "bf_out (snd (buffer_next ?none b)) = bf_out b" "fst (buffer_next ?none b) = p"
    using q b by (simp_all add: in_queue_def buffer_next_def)
  note t = taken_def [of env r rn _ n, unfolded Let_def b option.sel]
  have "node_wired (taken env r rn ids n)" for ids
    by (rule wired_links [of n]) (use ok rn b in \<open>auto simp: node_ok_def t AList.update_conv'\<close>)
  then show "node_ok (taken env r rn ids n)" using ok by (simp add: node_ok_def latest_ok_def t)
  show "nd_id (taken env r rn ids n) = nd_id n" "nd_remotes (taken env r rn ids n) = nd_remotes n"
    "nd_remote_at (taken env r rn ids n) = (nd_remote_at n)(r \<mapsto> rn\<lparr>rn_ids := ids\<rparr>)"
    "nd_subs (taken env r rn ids n) = nd_subs n" "nd_dave (taken env r rn ids n) = nd_dave n"
    by (simp_all add: t)
  show "in_queue l (taken env r rn ids n) = (if l = rn_link rn then ps else in_queue l n)"
    "out_queue l (taken env r rn ids n) = out_queue l n"
    using bn(2,3) b by (auto simp: t in_queue_def out_queue_def AList.update_conv')
  have "next_packet (ne_dbg env) ?none (rn_link rn) (nd_thread n) = Inr (p, (nd_thread n)\<lparr>th_buffers :=
      AList.update (rn_link rn) (snd (buffer_next ?none b)) (th_buffers (nd_thread n))\<rparr>)"
    using next_packet_watched [OF link b, of "ne_dbg env" ?none] bn(4) by simp
  moreover have "taken env r rn (rn_ids rn) n = n\<lparr>nd_thread := (nd_thread n)\<lparr>th_buffers :=
      AList.update (rn_link rn) (snd (buffer_next ?none b)) (th_buffers (nd_thread n))\<rparr>\<rparr>"
    by (rule node.equality) (use rn in \<open>auto simp: t\<close>)
  ultimately show "remote_take env r n =
      (if seen (nd_id n) p then Inr (True, taken env r rn (rn_ids rn) n)
       else exec_bind (node_mail env r p (taken env r rn (insert (m_id (p_meta p)) (rn_ids rn)) n)) (\<lambda>(ret, n'). Inr (True, n')))"
    using rn p by (simp add: remote_take_def t)
qed

lemma take_effect:
  assumes ok: "node_ok n" and rec: "recording env" and r: "r \<in> set (nd_remotes n)" and rn: "nd_remote_at n r = Some rn"
    and q: "in_queue (rn_link rn) n = p # ps" and p: "\<not> p_null p" and take: "remote_take env r n = Inr (True, n')"
  shows "lasts n n'" and "in_queue l n' = (if l = rn_link rn then ps else in_queue l n)"
    and "\<exists>k. out_queue l n' = out_queue l n @ replicate k (stamped (ne_lib env) (nd_id n) p) \<and> (seen (nd_id n) p \<longrightarrow> k = 0)"
    and "\<lbrakk>\<not> seen (nd_id n) p; packet_topic p \<noteq> topic_internal; packet_topic p \<noteq> topic_any; \<not> p_local_only p; \<not> droppable p\<rbrakk> \<Longrightarrow>
      heard n' (packet_topic p) (p_msg p) \<and>
      (\<forall>x \<in> set (nd_remotes n). x \<noteq> r \<longrightarrow> (\<forall>xn. nd_remote_at n x = Some xn \<longrightarrow> wanted n xn (packet_topic p) \<longrightarrow>
         stamped (ne_lib env) (nd_id n) p \<in> set (out_queue (rn_link xn) n')))"
proof -
  note t = taken_ok [OF ok r rn q p, where env = env]
  have last: "lasts n (taken env r rn ids n)" for ids
    using rn by (auto simp: lasts_def t taken_def Let_def)
  have step: "n' = taken env r rn (rn_ids rn) n" if "seen (nd_id n) p"
    using take that by (simp add: t(9))
  let ?m = "taken env r rn (insert (m_id (p_meta p)) (rn_ids rn)) n"
  have mail: "\<exists>ret. node_mail env r p ?m = Inr (ret, n')" if "\<not> seen (nd_id n) p"
    using take that by (auto simp: t(9) exec_simps)
  have a: "adds (stamped (ne_lib env) (nd_id n) p) ?m n'" if ns: "\<not> seen (nd_id n) p"
    using mail [OF ns] node_mail_adds [OF rec] by (metis t(2))
  show "lasts n n'"
    using step a last lasts_trans unfolding adds_def by (cases "seen (nd_id n) p") blast+
  show "in_queue l n' = (if l = rn_link rn then ps else in_queue l n)"
    using step a t(7) unfolding adds_def by (cases "seen (nd_id n) p") auto
  show "\<exists>k. out_queue l n' = out_queue l n @ replicate k (stamped (ne_lib env) (nd_id n) p) \<and> (seen (nd_id n) p \<longrightarrow> k = 0)"
    using step a t(8) unfolding adds_def by (cases "seen (nd_id n) p") auto
  assume c: "\<not> seen (nd_id n) p" "packet_topic p \<noteq> topic_internal" "packet_topic p \<noteq> topic_any" "\<not> p_local_only p" "\<not> droppable p"
  have w: "node_wired ?m" using t(1) by (simp add: node_ok_def)
  have mem: "r \<in> members (nd_dave ?m) topic_any" "box_incoming ?m r = Some (Remote_cb r)"
    using node_wiredD(8) [OF w] r by (simp_all add: remotes_wired_def t(3))
  then obtain n2 where "node_mail env r p ?m = Inr (success, n2)" "heard n2 (packet_topic p) (p_msg p)"
      "\<forall>x \<in> set (nd_remotes ?m). x \<noteq> r \<longrightarrow> (\<forall>xn. nd_remote_at ?m x = Some xn \<longrightarrow> wanted ?m xn (packet_topic p) \<longrightarrow>
         stamped (ne_lib env) (nd_id ?m) p \<in> set (out_queue (rn_link xn) n2))"
    using mail_spreads [OF w mem(1) _ rec p c(2-5)] by auto
  moreover from this have "n2 = n'" using mail [OF c(1)] by auto
  moreover have "wanted ?m = wanted n" by (simp add: wanted_def fun_eq_iff t(5))
  ultimately show "heard n' (packet_topic p) (p_msg p) \<and>
      (\<forall>x \<in> set (nd_remotes n). x \<noteq> r \<longrightarrow> (\<forall>xn. nd_remote_at n x = Some xn \<longrightarrow> wanted n xn (packet_topic p) \<longrightarrow>
         stamped (ne_lib env) (nd_id n) p \<in> set (out_queue (rn_link xn) n')))"
    by (simp add: t(2-4))
qed

text \<open>What a transfer does.\<close>

lemma put_buffer_lasts: "lasts n (put_buffer l b n)"
  by (simp add: lasts_def put_buffer_def)

lemma put_buffer_queues:
  "in_queue x (put_buffer l b n) = (if x = l then bf_in b else in_queue x n)"
  "out_queue x (put_buffer l b n) = (if x = l then bf_out b else out_queue x n)"
  by (simp_all add: in_queue_def out_queue_def put_buffer_def AList.update_conv')

lemma carry_effect:
  assumes b: "map_of (th_buffers (nd_thread (net i))) l = Some b" "bf_out b = p # ps"
    and net1: "net1 = net(i := put_buffer l (b\<lparr>bf_out := ps, bf_out_firehose := F\<rparr>) (net i))"
    and c: "map_of (th_buffers (nd_thread (net1 j))) m = Some c"
    and net': "net' = net1(j := put_buffer m (buffer_accept q c) (net1 j))"
  shows "lasts (net k) (net' k)"
    and "out_queue l (net i) = p # ps"
    and "out_queue x (net' k) = (if k = i \<and> x = l then ps else out_queue x (net k))"
    and "\<exists>qs. in_queue x (net' k) = in_queue x (net k) @ qs \<and> set qs \<subseteq> (if k = j \<and> x = m then {q} else {})"
    and "\<not> droppable q \<Longrightarrow> in_queue m (net' j) = in_queue m (net j) @ [q]"
proof -
  show "lasts (net k) (net' k)"
  proof -
    have "lasts (net k) (net1 k)" by (simp add: net1 put_buffer_lasts)
    moreover have "lasts (net1 k) (net' k)" by (simp add: net' put_buffer_lasts)
    ultimately show ?thesis by (rule lasts_trans)
  qed
  show out: "out_queue l (net i) = p # ps" using b by (simp add: out_queue_def)
  have c1: "in_queue m (net1 j) = bf_in c" "out_queue m (net1 j) = bf_out c"
    using c by (simp_all add: in_queue_def out_queue_def)
  have in1: "in_queue x (net1 k) = in_queue x (net k)" for x k
  proof -
    have "in_queue l (net i) = bf_in b" using b(1) by (simp add: in_queue_def)
    then show ?thesis by (simp add: net1 put_buffer_queues)
  qed
  have out1: "out_queue x (net1 k) = (if k = i \<and> x = l then ps else out_queue x (net k))" for x k
    by (auto simp: net1 put_buffer_queues)
  have acc: "bf_out (buffer_accept q c) = bf_out c" "\<exists>qs. bf_in (buffer_accept q c) = bf_in c @ qs \<and> set qs \<subseteq> {q}"
    "\<not> droppable q \<Longrightarrow> bf_in (buffer_accept q c) = bf_in c @ [q]"
    by (auto simp: buffer_accept_def)
  show "out_queue x (net' k) = (if k = i \<and> x = l then ps else out_queue x (net k))"
    using c1 out1 [of x k] by (auto simp: net' put_buffer_queues acc(1))
  show "\<exists>qs. in_queue x (net' k) = in_queue x (net k) @ qs \<and> set qs \<subseteq> (if k = j \<and> x = m then {q} else {})"
    using c1 in1 [of x k] acc(2) by (auto simp: net' put_buffer_queues)
  show "in_queue m (net' j) = in_queue m (net j) @ [q]" if "\<not> droppable q"
    using c1 in1 [of m j] acc(3) [OF that] by (simp add: net' put_buffer_queues)
qed

subsection \<open>Where a message is\<close>

text \<open>
  \<open>two_way\<close>: nodes have ids of their own, links lead both ways and end at remotes. \<open>spread\<close>: the
  message is with the nodes \<open>H\<close>, and every node next to one of them has it too or has a copy on
  the way.
\<close>

definition two_way :: "('b, 'u) topology \<Rightarrow> (nat \<Rightarrow> ('b, 'u) node) \<Rightarrow> bool" where
  "two_way tg net \<longleftrightarrow> inj_on (\<lambda>i. nd_id (net i)) (tg_nodes tg) \<and>
     (\<forall>i \<in> tg_nodes tg. \<forall>l j m. tg_peer tg i l = Some (j, m) \<longrightarrow> tg_peer tg j m = Some (i, l) \<and>
        (\<exists>r \<in> set (nd_remotes (net i)). map_option rn_link (nd_remote_at (net i) r) = Some l))"

definition is_copy :: "topic \<Rightarrow> 'b bson \<Rightarrow> 'b packet \<Rightarrow> bool" where
  "is_copy t d p \<longleftrightarrow> packet_topic p = t \<and> p_msg p = d"

definition traced :: "(nat \<Rightarrow> ('b, 'u) node) \<Rightarrow> nat set \<Rightarrow> 'b packet \<Rightarrow> bool" where
  "traced net H p \<longleftrightarrow> \<not> droppable p \<and> insert (m_id (p_meta p)) (set (m_path (p_meta p))) \<subseteq> (\<lambda>i. nd_id (net i)) ` H"

type_synonym 'b recorded = "('b, (nat \<times> nat \<times> 'b bson) list) node"

definition spread :: "('b, (nat \<times> nat \<times> 'b bson) list) topology \<Rightarrow> topic \<Rightarrow> 'b bson \<Rightarrow> nat set \<Rightarrow>
    (nat \<Rightarrow> 'b recorded) \<Rightarrow> bool" where
  "spread tg t d H net \<longleftrightarrow> H \<subseteq> tg_nodes tg \<and> (\<forall>i \<in> H. heard (net i) t d) \<and>
     (\<forall>i \<in> tg_nodes tg. \<forall>l. \<forall>p \<in> set (out_queue l (net i)). is_copy t d p \<longrightarrow> i \<in> H \<and> traced net H p) \<and>
     (\<forall>i \<in> tg_nodes tg. \<forall>l. \<forall>p \<in> set (in_queue l (net i)). is_copy t d p \<longrightarrow> \<not> p_local_only p \<and> traced net H p \<and>
        (\<forall>j m. tg_peer tg i l = Some (j, m) \<longrightarrow> j \<in> H)) \<and>
     (\<forall>i \<in> H. \<forall>l j m. tg_peer tg i l = Some (j, m) \<longrightarrow> j \<in> H \<or>
        (\<exists>p \<in> set (out_queue l (net i)). is_copy t d p) \<or> (\<exists>p \<in> set (in_queue m (net j)). is_copy t d p))"

definition ready :: "('b, (nat \<times> nat \<times> 'b bson) list) topology \<Rightarrow> topic \<Rightarrow> (nat \<Rightarrow> 'b recorded) \<Rightarrow> bool" where
  "ready tg t net \<longleftrightarrow> t \<noteq> topic_internal \<and> t \<noteq> topic_any \<and>
     (\<forall>i \<in> tg_nodes tg. recording (tg_env tg i) \<and> \<not> ne_junk (tg_env tg i) \<and> nd_subs (net i) t \<noteq> None)"

lemma spreadD:
  assumes "spread tg t d H net"
  shows "H \<subseteq> tg_nodes tg" and "i \<in> H \<Longrightarrow> heard (net i) t d"
    and "i \<in> tg_nodes tg \<Longrightarrow> p \<in> set (out_queue l (net i)) \<Longrightarrow> is_copy t d p \<Longrightarrow> i \<in> H \<and> traced net H p"
    and "i \<in> tg_nodes tg \<Longrightarrow> p \<in> set (in_queue l (net i)) \<Longrightarrow> is_copy t d p \<Longrightarrow> \<not> p_local_only p \<and> traced net H p"
    and "i \<in> tg_nodes tg \<Longrightarrow> p \<in> set (in_queue l (net i)) \<Longrightarrow> is_copy t d p \<Longrightarrow> tg_peer tg i l = Some (j, m) \<Longrightarrow> j \<in> H"
    and "i \<in> H \<Longrightarrow> tg_peer tg i l = Some (j, m) \<Longrightarrow> j \<in> H \<or>
        (\<exists>p \<in> set (out_queue l (net i)). is_copy t d p) \<or> (\<exists>p \<in> set (in_queue m (net j)). is_copy t d p)"
proof -
  note s = assms [unfolded spread_def]
  note s2 = conjunct2 [OF s] and s3 = conjunct2 [OF conjunct2 [OF s]]
  note s4 = conjunct2 [OF s3]
  show "H \<subseteq> tg_nodes tg" by (rule conjunct1 [OF s])
  show "i \<in> H \<Longrightarrow> heard (net i) t d" using conjunct1 [OF s2] by blast
  show "i \<in> tg_nodes tg \<Longrightarrow> p \<in> set (out_queue l (net i)) \<Longrightarrow> is_copy t d p \<Longrightarrow> i \<in> H \<and> traced net H p"
    using conjunct1 [OF s3] by blast
  show "i \<in> tg_nodes tg \<Longrightarrow> p \<in> set (in_queue l (net i)) \<Longrightarrow> is_copy t d p \<Longrightarrow> \<not> p_local_only p \<and> traced net H p"
    "i \<in> tg_nodes tg \<Longrightarrow> p \<in> set (in_queue l (net i)) \<Longrightarrow> is_copy t d p \<Longrightarrow> tg_peer tg i l = Some (j, m) \<Longrightarrow> j \<in> H"
    using conjunct1 [OF s4] by blast+
  show "i \<in> H \<Longrightarrow> tg_peer tg i l = Some (j, m) \<Longrightarrow> j \<in> H \<or>
        (\<exists>p \<in> set (out_queue l (net i)). is_copy t d p) \<or> (\<exists>p \<in> set (in_queue m (net j)). is_copy t d p)"
    using conjunct2 [OF s4] by blast
qed

lemma two_wayD:
  assumes "two_way tg net" and "i \<in> tg_nodes tg"
  shows "j \<in> tg_nodes tg \<Longrightarrow> nd_id (net i) = nd_id (net j) \<Longrightarrow> i = j"
    and "tg_peer tg i l = Some (j, m) \<Longrightarrow> tg_peer tg j m = Some (i, l)"
    and "tg_peer tg i l = Some (j, m) \<Longrightarrow> \<exists>r rn. r \<in> set (nd_remotes (net i)) \<and> nd_remote_at (net i) r = Some rn \<and> rn_link rn = l"
proof -
  note w = assms(1) [unfolded two_way_def]
  show "j \<in> tg_nodes tg \<Longrightarrow> nd_id (net i) = nd_id (net j) \<Longrightarrow> i = j"
    using inj_onD [OF conjunct1 [OF w], of i j] assms(2) by blast
  have p: "tg_peer tg i l = Some (j, m) \<Longrightarrow> tg_peer tg j m = Some (i, l) \<and>
      (\<exists>r \<in> set (nd_remotes (net i)). map_option rn_link (nd_remote_at (net i) r) = Some l)"
    using conjunct2 [OF w] assms(2) by blast
  then show "tg_peer tg i l = Some (j, m) \<Longrightarrow> tg_peer tg j m = Some (i, l)" by blast
  from p show "\<exists>r rn. r \<in> set (nd_remotes (net i)) \<and> nd_remote_at (net i) r = Some rn \<and> rn_link rn = l"
    if "tg_peer tg i l = Some (j, m)" using that by (fastforce simp: map_option_eq_Some)
qed

lemma lasts_net:
  assumes "\<forall>k. lasts (net k) (net' k)"
  shows "two_way tg net \<Longrightarrow> two_way tg net'" and "ready tg t net \<Longrightarrow> ready tg t net'"
    and "H \<subseteq> H' \<Longrightarrow> traced net H p \<Longrightarrow> traced net' H' p"
proof -
  note k = lastsD [OF assms [rule_format]]
  show "two_way tg net \<Longrightarrow> two_way tg net'" unfolding two_way_def k(1-3) .
  show "ready tg t net'" if rdy: "ready tg t net"
    unfolding ready_def
  proof (intro conjI ballI)
    show "t \<noteq> topic_internal" "t \<noteq> topic_any" using rdy by (simp_all add: ready_def)
    fix i assume "i \<in> tg_nodes tg"
    then have "recording (tg_env tg i)" "\<not> ne_junk (tg_env tg i)" "nd_subs (net i) t \<noteq> None"
      using rdy by (simp_all add: ready_def)
    then show "recording (tg_env tg i)" "\<not> ne_junk (tg_env tg i)" "nd_subs (net' i) t \<noteq> None"
      using k(4) by blast+
  qed
  show "H \<subseteq> H' \<Longrightarrow> traced net H p \<Longrightarrow> traced net' H' p"
    unfolding traced_def k(1) using image_mono [of H H' "\<lambda>i. nd_id (net i)"] by blast
qed

subsection \<open>Steps keep track of the message\<close>

lemma spread_take:
  assumes ok: "flood_ok tg D ids net" and two: "two_way tg net" and rdy: "ready tg t net" and sp: "spread tg t d H net"
    and i: "i \<in> tg_nodes tg" and r: "r \<in> set (nd_remotes (net i))"
    and take: "remote_take (tg_env tg i) r (net i) = Inr (True, n)"
  shows "(\<forall>k. lasts (net k) ((net(i := n)) k)) \<and> (\<exists>H'. H \<subseteq> H' \<and> spread tg t d H' (net(i := n)))"
proof -
  have nf: "node_ok (net i)" "packets_all (flows ids) (net i)" using ok i by (auto simp: flood_ok_def node_flows_def)
  have rec: "recording (tg_env tg i)" and t: "t \<noteq> topic_internal" "t \<noteq> topic_any" and sub: "nd_subs (net i) t \<noteq> None"
    using rdy i by (auto simp: ready_def)
  obtain rn b where rn: "nd_remote_at (net i) r = Some rn" "map_of (th_buffers (nd_thread (net i))) (rn_link rn) = Some b"
    using node_liveD(4) [OF node_wiredD(1) r] nf(1) by (auto simp: node_ok_def)
  have "in_queue (rn_link rn) (net i) \<noteq> []"
    using take remote_take_empty [OF nf(1) r rn(1), of "tg_env tg i"] by auto
  then obtain p ps where q: "in_queue (rn_link rn) (net i) = p # ps" by (cases "in_queue (rn_link rn) (net i)") auto
  have "bf_in b = p # ps" using q rn(2) by (simp add: in_queue_def)
  then have nn: "\<not> p_null p" using packets_allD [OF nf(2) rn(2), of p] by (simp add: flows_def deliverable_def)
  note e = take_effect [OF nf(1) rec r rn(1) q nn take]
  let ?net = "net(i := n)" and ?s = "stamped (ne_lib (tg_env tg i)) (nd_id (net i)) p"
  let ?seen = "seen (nd_id (net i)) p"
  define H' where "H' = (if \<not> ?seen \<and> is_copy t d p then insert i H else H)"
  note s = spreadD [OF sp]
  have sub_H: "H \<subseteq> H'" "H' \<subseteq> tg_nodes tg" using s(1) i by (auto simp: H'_def)
  have last: "\<forall>k. lasts (net k) (?net k)" using e(1) by simp
  note tr = lasts_net(3) [OF last sub_H(1)]
  have pin: "p \<in> set (in_queue (rn_link rn) (net i))" using q by simp
  have copy_p: "\<not> p_local_only p" "traced net H p" "\<not> droppable p" if "is_copy t d p"
    using s(4) [OF i pin that] by (auto simp: traced_def)
  have have_it: "i \<in> H'" if c: "is_copy t d p"
  proof (cases ?seen)
    case True
    then have "nd_id (net i) \<in> insert (m_id (p_meta p)) (set (m_path (p_meta p)))" by (auto simp: seen_def)
    then obtain k where k: "k \<in> H" "nd_id (net i) = nd_id (net k)" using copy_p(2) [OF c] by (auto simp: traced_def)
    then have "i = k" using two_wayD(1) [OF two i, of k] s(1) by blast
    then show ?thesis using k(1) sub_H(1) by blast
  qed (use c in \<open>simp add: H'_def\<close>)
  have copy_s: "is_copy t d ?s \<longleftrightarrow> is_copy t d p" by (simp add: is_copy_def)
  have hears: "heard n t d \<and> (\<forall>x \<in> set (nd_remotes (net i)). x \<noteq> r \<longrightarrow> (\<forall>xn. nd_remote_at (net i) x = Some xn \<longrightarrow>
      ?s \<in> set (out_queue (rn_link xn) n)))" if c: "\<not> ?seen" "is_copy t d p"
  proof -
    have "wanted (net i) xn t" for xn using sub by (simp add: wanted_def)
    then show ?thesis using e(4) [OF c(1)] c(2) copy_p [OF c(2)] t by (auto simp: is_copy_def)
  qed
  have out_old: "out_queue l (?net k) = out_queue l (net k)" if "k \<noteq> i" for l k using that by simp
  have out_i: "\<exists>k. out_queue l n = out_queue l (net i) @ replicate k ?s \<and> (?seen \<longrightarrow> k = 0)" for l by (rule e(3))
  have in_sub: "set (in_queue l (?net k)) \<subseteq> set (in_queue l (net k))" for l k using e(2) [of l] q by auto
  have "spread tg t d H' ?net"
    unfolding spread_def
  proof (intro conjI ballI allI impI)
    show "H' \<subseteq> tg_nodes tg" by (rule sub_H(2))
  next
    fix k assume k: "k \<in> H'"
    show "heard (?net k) t d"
    proof (cases "k \<in> H")
      case True
      then show ?thesis using heard_lasts [OF spec [OF last, of k]] s(2) by blast
    next
      case False
      then have "k = i" "\<not> ?seen" "is_copy t d p" using k by (auto simp: H'_def split: if_splits)
      then show ?thesis using hears by simp
    qed
  next
    fix k l x assume k: "k \<in> tg_nodes tg" and x: "x \<in> set (out_queue l (?net k))" "is_copy t d x"
    have "x \<in> set (out_queue l (net k)) \<or> k = i \<and> x = ?s \<and> \<not> ?seen"
    proof (cases "k = i")
      case True
      then show ?thesis using out_i [of l] x(1) by (auto split: if_splits)
    qed (use x out_old in simp)
    then have "k \<in> H' \<and> traced ?net H' x"
    proof (elim disjE conjE)
      assume "x \<in> set (out_queue l (net k))"
      from s(3) [OF k this x(2)] tr sub_H(1) show ?thesis by blast
    next
      assume c: "k = i" "x = ?s" "\<not> ?seen"
      then have p: "is_copy t d p" using x(2) copy_s by simp
      have "k \<in> H'" using have_it [OF p] c(1) by simp
      moreover have "traced ?net H' p" using tr copy_p(2) [OF p] by blast
      moreover have "nd_id (net i) \<in> (\<lambda>k. nd_id (?net k)) ` H'"
        using have_it [OF p] e(1) by (intro image_eqI [of _ _ i]) (simp_all add: lasts_def)
      ultimately show ?thesis by (simp add: c(2) traced_def droppable_def)
    qed
    then show "k \<in> H'" "traced ?net H' x" by blast+
  next
    fix k l x assume k: "k \<in> tg_nodes tg" and x: "x \<in> set (in_queue l (?net k))" "is_copy t d x"
    then have x': "x \<in> set (in_queue l (net k))" using in_sub by blast
    show "\<not> p_local_only x" "traced ?net H' x" using s(4) [OF k x' x(2)] tr by blast+
  next
    fix k l x j m assume k: "k \<in> tg_nodes tg" and x: "x \<in> set (in_queue l (?net k))" "is_copy t d x"
      and peer: "tg_peer tg k l = Some (j, m)"
    then have x': "x \<in> set (in_queue l (net k))" using in_sub by blast
    show "j \<in> H'" using s(5) [OF k x' x(2) peer] sub_H(1) by blast
  next
    fix k l j m assume k: "k \<in> H'" and peer: "tg_peer tg k l = Some (j, m)"
    have kn: "k \<in> tg_nodes tg" using k sub_H(2) by blast
    show "j \<in> H' \<or> (\<exists>p \<in> set (out_queue l (?net k)). is_copy t d p) \<or> (\<exists>p \<in> set (in_queue m (?net j)). is_copy t d p)"
    proof (cases "k \<in> H")
      case True
      from s(6) [OF this peer] show ?thesis
      proof (elim disjE bexE)
        assume "j \<in> H" then show ?thesis using sub_H(1) by blast
      next
        fix x assume x: "x \<in> set (out_queue l (net k))" "is_copy t d x"
        then have "x \<in> set (out_queue l (?net k))" using out_i [of l] by (cases "k = i") auto
        then show ?thesis using x(2) by blast
      next
        fix x assume x: "x \<in> set (in_queue m (net j))" "is_copy t d x"
        show ?thesis
        proof (cases "j = i \<and> m = rn_link rn \<and> x = p")
          case True
          then show ?thesis using have_it x(2) by blast
        next
          case False
          then have "x \<in> set (in_queue m (?net j))" using x(1) e(2) [of m] q by auto
          then show ?thesis using x(2) by blast
        qed
      qed
    next
      case False
      then have c: "k = i" "\<not> ?seen" "is_copy t d p" using k by (auto simp: H'_def split: if_splits)
      obtain x xn where x: "x \<in> set (nd_remotes (net i))" "nd_remote_at (net i) x = Some xn" "rn_link xn = l"
        using two_wayD(3) [OF two kn peer] c(1) by blast
      show ?thesis
      proof (cases "x = r")
        case True
        then have "l = rn_link rn" using x rn(1) by simp
        then have "j \<in> H" using s(5) [OF i pin c(3)] peer c(1) by blast
        then show ?thesis using sub_H(1) by blast
      next
        case False
        then have "?s \<in> set (out_queue l n)" using hears [OF c(2,3)] x by blast
        then show ?thesis using c copy_s by auto
      qed
    qed
  qed
  then show ?thesis using last sub_H(1) by blast
qed

lemma spread_carry:
  assumes two: "two_way tg net" and rdy: "ready tg t net" and sp: "spread tg t d H net"
    and i: "i \<in> tg_nodes tg" "tg_peer tg i l = Some (j, m)" "j \<in> tg_nodes tg"
    and b: "map_of (th_buffers (nd_thread (net i))) l = Some b" "bf_out b = p # ps"
    and net1: "net1 = net(i := put_buffer l (b\<lparr>bf_out := ps, bf_out_firehose := F\<rparr>) (net i))"
    and c: "map_of (th_buffers (nd_thread (net1 j))) m = Some c"
    and q: "p_meta q = p_meta p" "p_msg q = p_msg p" "p_local_only q = ne_junk (tg_env tg j)"
    and net': "net' = net1(j := put_buffer m (buffer_accept q c) (net1 j))"
  shows "(\<forall>k. lasts (net k) (net' k)) \<and> spread tg t d H net'"
proof -
  note e = carry_effect [OF b net1 c net'] and s = spreadD [OF sp]
  have last: "\<forall>k. lasts (net k) (net' k)" using e(1) by simp
  note tr = lasts_net(3) [OF last order_refl]
  have copy_q: "is_copy t d q \<longleftrightarrow> is_copy t d p" by (simp add: is_copy_def packet_topic_def q(1,2))
  have traced_q: "traced net H q \<longleftrightarrow> traced net H p" for net by (simp add: traced_def droppable_def q(1))
  have pin: "p \<in> set (out_queue l (net i))" by (simp add: e(2))
  have p: "i \<in> H" "traced net H p" if "is_copy t d p" using s(3) [OF i(1) pin that] by blast+
  have out_sub: "set (out_queue x (net' k)) \<subseteq> set (out_queue x (net k))" for x k using e(2) e(3) [of x k] by auto
  have in_new: "y \<in> set (in_queue x (net k)) \<or> k = j \<and> x = m \<and> y = q" if "y \<in> set (in_queue x (net' k))" for x k y
    using e(4) [of x k] that by (auto split: if_splits)
  have in_keep: "set (in_queue x (net k)) \<subseteq> set (in_queue x (net' k))" for x k
    using e(4) [of x k] by auto
  have "spread tg t d H net'"
    unfolding spread_def
  proof (intro conjI ballI allI impI)
    show "H \<subseteq> tg_nodes tg" by (rule s(1))
    show "heard (net' k) t d" if "k \<in> H" for k using heard_lasts [OF e(1)] s(2) [OF that] .
  next
    fix k x y assume k: "k \<in> tg_nodes tg" and y: "y \<in> set (out_queue x (net' k))" "is_copy t d y"
    have "y \<in> set (out_queue x (net k))" using y(1) out_sub by blast
    from s(3) [OF k this y(2)] tr show "k \<in> H" "traced net' H y" by blast+
  next
    fix k x y assume k: "k \<in> tg_nodes tg" and y: "y \<in> set (in_queue x (net' k))" "is_copy t d y"
    have "\<not> p_local_only y \<and> traced net' H y"
      using in_new [OF y(1)]
    proof (elim disjE conjE)
      assume "y \<in> set (in_queue x (net k))"
      from s(4) [OF k this y(2)] tr show ?thesis by blast
    next
      assume "k = j" "y = q"
      then show ?thesis using p y(2) copy_q traced_q tr q(3) rdy k by (auto simp: ready_def)
    qed
    then show "\<not> p_local_only y" "traced net' H y" by blast+
  next
    fix k x y k' x' assume k: "k \<in> tg_nodes tg" and y: "y \<in> set (in_queue x (net' k))" "is_copy t d y"
      and peer: "tg_peer tg k x = Some (k', x')"
    show "k' \<in> H"
      using in_new [OF y(1)]
    proof (elim disjE conjE)
      assume "y \<in> set (in_queue x (net k))"
      from s(5) [OF k this y(2) peer] show ?thesis .
    next
      assume "k = j" "x = m" "y = q"
      moreover have "tg_peer tg j m = Some (i, l)" by (rule two_wayD(2) [OF two i(1,2)])
      ultimately show ?thesis using peer p(1) y(2) copy_q by simp
    qed
  next
    fix k x k' x' assume k: "k \<in> H" and peer: "tg_peer tg k x = Some (k', x')"
    from s(6) [OF this] show "k' \<in> H \<or> (\<exists>p \<in> set (out_queue x (net' k)). is_copy t d p) \<or> (\<exists>p \<in> set (in_queue x' (net' k')). is_copy t d p)"
    proof (elim disjE bexE)
      fix y assume y: "y \<in> set (out_queue x (net k))" "is_copy t d y"
      show ?thesis
      proof (cases "k = i \<and> x = l \<and> y = p")
        case True
        then have "\<not> droppable q" using p(2) y(2) traced_q by (auto simp: traced_def)
        from e(5) [OF this] have "q \<in> set (in_queue m (net' j))" by simp
        then show ?thesis using True peer i(2) y(2) copy_q by auto
      next
        case False
        then have "y \<in> set (out_queue x (net' k))" using y(1) e(2) e(3) [of x k] by auto
        then show ?thesis using y(2) by blast
      qed
    qed (use in_keep in blast)+
  qed
  then show ?thesis using last by blast
qed

lemma spread_step:
  assumes "net_step tg net net'" and "flood_ok tg D ids net" and "two_way tg net" and "ready tg t net" and "spread tg t d H net"
  shows "(\<forall>k. lasts (net k) (net' k)) \<and> (\<exists>H'. H \<subseteq> H' \<and> spread tg t d H' net')"
  using assms(1)
proof (cases rule: net_step.cases)
  case (Taken i r n)
  from spread_take [OF assms(2-5) Taken(2-4)] show ?thesis unfolding Taken(1) .
next
  case (Carried i l j m b p ps F net1 c q)
  have "net' = net1(j := put_buffer m (buffer_accept q c) (net1 j))" by (rule Carried(1))
  from spread_carry [OF assms(3-5) Carried(2-6,8,9,10,11,13) this] show ?thesis by blast
qed

lemma spread_steps:
  assumes "(net_step tg)\<^sup>*\<^sup>* net net'" and "flood_ok tg D ids net" and "two_way tg net" and "ready tg t net" and "spread tg t d H net"
  shows "\<exists>H'. H \<subseteq> H' \<and> spread tg t d H' net' \<and> flood_ok tg D ids net' \<and> two_way tg net' \<and> ready tg t net' \<and>
    (\<forall>k. lasts (net k) (net' k))"
  using assms(1)
proof (induction rule: rtranclp_induct)
  case base
  show ?case using assms(2-) by (intro exI [of _ H]) simp
next
  case (step x y)
  then obtain H' where H': "H \<subseteq> H'" "spread tg t d H' x" "flood_ok tg D ids x" "two_way tg x" "ready tg t x" "\<forall>k. lasts (net k) (x k)"
    by blast
  from spread_step [OF step(2) H'(3-5,2)] obtain H'' where
    s: "\<forall>k. lasts (x k) (y k)" "H' \<subseteq> H''" "spread tg t d H'' y" by blast
  have "flood_ok tg D ids y" using net_step_load [OF step(2) H'(3)] by blast
  moreover have "\<forall>k. lasts (net k) (y k)" using H'(6) s(1) lasts_trans by blast
  ultimately show ?case
    using H'(1) s lasts_net(1,2) [OF s(1)] H'(4,5) by (intro exI [of _ H'']) blast
qed

text \<open>Nodes that links connect.\<close>

definition linked :: "('b, 'u) topology \<Rightarrow> nat \<Rightarrow> nat \<Rightarrow> bool" where
  "linked tg i j \<longleftrightarrow> i \<in> tg_nodes tg \<and> (\<exists>l m. tg_peer tg i l = Some (j, m))"

lemma quiet_spread:
  assumes ok: "flood_ok tg D ids net" and two: "two_way tg net" and sp: "spread tg t d H net" and q: "quiet tg net"
    and i: "i \<in> H" and path: "(linked tg)\<^sup>*\<^sup>* i j"
  shows "j \<in> H"
  using path
proof (induction rule: rtranclp_induct)
  case base
  show ?case by (rule i)
next
  case (step k k')
  note s = spreadD [OF sp]
  obtain l m where peer: "tg_peer tg k l = Some (k', m)" and k: "k \<in> tg_nodes tg" using step(2) by (auto simp: linked_def)
  have k': "k' \<in> tg_nodes tg" using ok k peer by (auto simp: flood_ok_def)
  note rev = two_wayD(2) [OF two k peer]
  obtain r rn where r: "r \<in> set (nd_remotes (net k'))" "nd_remote_at (net k') r = Some rn" "rn_link rn = m"
    using two_wayD(3) [OF two k' rev] by blast
  have "in_queue m (net k') = []" using q k' r unfolding quiet_def by blast
  moreover have "out_queue l (net k) = []"
  proof (cases "map_of (th_buffers (nd_thread (net k))) l")
    case (Some b)
    moreover have "tg_peer tg k l \<noteq> None" using peer by simp
    ultimately have "bf_out b = []" using q k unfolding quiet_def by blast
    then show ?thesis using Some by (simp add: out_queue_def)
  qed (simp add: out_queue_def)
  ultimately show ?case using s(6) [OF step(3) peer] by simp
qed

subsection \<open>Publishing starts a flood\<close>

lemma update_time_same [simp]:
  "nd_id (update_time env n) = nd_id n" "nd_subs (update_time env n) = nd_subs n" "nd_user (update_time env n) = nd_user n"
  "nd_thread (update_time env n) = nd_thread n" "nd_remotes (update_time env n) = nd_remotes n"
  "nd_remote_at (update_time env n) = nd_remote_at n" "nd_dave (update_time env n) = nd_dave n"
  "nd_subscribers (update_time env n) = nd_subscribers n" "nd_sub_at (update_time env n) = nd_sub_at n"
  by (simp_all add: update_time_def Let_def)

lemma publish_start:
  assumes flows: "node_flows D ids n" and rec: "recording env" and a: "a \<in> set (nd_publishers n)" "nd_pub_at n a = Some pb"
    and t: "pb_topic pb = t" "t \<noteq> topic_internal" "t \<noteq> topic_any" "\<not> pb_firehose pb" and sub: "nd_subs n t \<noteq> None"
    and path: "m_path (meta_default (ne_lib env)) = []"
  shows "\<exists>n' q. publish env a msg n = Inr (success, n') \<and> node_flows D ids n' \<and> adds q n n' \<and> heard n' t msg \<and>
    is_copy t msg q \<and> \<not> droppable q \<and> m_id (p_meta q) = nd_id n \<and> m_path (p_meta q) = [nd_id n] \<and>
    map fst (th_buffers (nd_thread n')) = map fst (th_buffers (nd_thread n)) \<and>
    (\<forall>r \<in> set (nd_remotes n). \<forall>rn. nd_remote_at n r = Some rn \<longrightarrow> q \<in> set (out_queue (rn_link rn) n'))"
proof -
  define m where "m = update_time env n"
  define p where "p = published env pb (packet_new (ne_lib env) (pb_topic pb) (nd_time m) msg False) n"
  let ?q = "stamped (ne_lib env) (nd_id n) p"
  have ok: "node_ok n" "nd_id n \<in> ids" "2 * length (nd_remotes n) \<le> D" "packets_all (flows ids) n"
    using flows by (simp_all add: node_flows_def)
  have f: "frame n m" unfolding m_def by (rule frame_update_time)
  have okm: "node_ok m" by (rule frame_ok [OF f ok(1)])
  then have wm: "node_wired m" by (simp add: node_ok_def)
  have w: "node_wired n" using ok(1) by (simp add: node_ok_def)
  have p: "\<not> p_null p" "packet_topic p = t" "\<not> p_local_only p" "\<not> droppable p" "p_msg p = msg" "m_path (p_meta p) = []"
    using t by (simp_all add: p_def published_def packet_topic_def droppable_def packet_new_def path)
  obtain b where b: "publish env a msg n = node_mail env b p m" "b \<in> members (nd_dave n) (pb_topic pb)" "box_incoming n b = None"
    using publish_mail [OF w a p_def [unfolded m_def]] by (auto simp: m_def)
  have other: "box_incoming m b \<noteq> Some (Subscriber_cb s cb arg)" for s cb arg
    using b(3) by (simp add: box_incoming_def m_def)
  have b': "b \<in> members (nd_dave m) (pb_topic pb)" using b(2) by (simp add: m_def)
  obtain n' where n': "node_mail env b p m = Inr (success, n')" "heard n' t msg"
    "\<forall>r \<in> set (nd_remotes n). r \<noteq> b \<longrightarrow> (\<forall>rn. nd_remote_at n r = Some rn \<longrightarrow> wanted m rn t \<longrightarrow> ?q \<in> set (out_queue (rn_link rn) n'))"
    using mail_spreads [OF wm b' other rec p(1)] p t by (auto simp: m_def)
  have q: "is_copy t msg ?q" "\<not> droppable ?q" "m_id (p_meta ?q) = nd_id n" "m_path (p_meta ?q) = [nd_id n]"
    using p by (simp_all add: is_copy_def droppable_def)
  have "lasts n m" by (simp add: lasts_def m_def)
  then have "adds ?q n m" by (auto simp: adds_def in_queue_def out_queue_def m_def intro: exI [of _ 0])
  moreover have "adds ?q m n'" using node_mail_adds [OF rec n'(1)] by (simp add: m_def)
  ultimately have add: "adds ?q n n'" by (rule adds_trans)
  have "flows ids ?q"
    using p q t ok(2) by (simp add: flows_def deliverable_def is_copy_def)
  then have "packets_all (flows ids) n'"
    using mail_load [OF node_wiredD(1) [OF wm] n'(1), of "flows ids"] ok(4) by (simp add: m_def packets_all_def)
  moreover note fr = node_mail_frame [OF n'(1)]
  ultimately have "node_flows D ids n'"
    using frame_ok [OF fr okm] frameD(5,8) [OF fr] ok by (simp add: node_flows_def m_def)
  moreover have "?q \<in> set (out_queue (rn_link rn) n')" if r: "r \<in> set (nd_remotes n)" "nd_remote_at n r = Some rn" for r rn
  proof -
    have "box_incoming n r = Some (Remote_cb r)" using node_wiredD(8) [OF w] r(1) by (simp add: remotes_wired_def)
    then have "r \<noteq> b" using b(3) by auto
    moreover have "wanted m rn t" using sub by (simp add: wanted_def m_def)
    ultimately show ?thesis using n'(3) r by blast
  qed
  moreover have "map fst (th_buffers (nd_thread n')) = map fst (th_buffers (nd_thread n))"
    using frameD(15) [OF fr] by (simp add: m_def)
  ultimately show ?thesis using b(1) n'(1,2) add q by (intro exI [of _ n'] exI [of _ ?q]) simp
qed

text \<open>The network right after a message nobody has seen before was published.\<close>

lemma spread_start:
  assumes ok: "flood_ok tg D ids net" and two: "two_way tg net" and rdy: "ready tg t net"
    and i: "i \<in> tg_nodes tg" "a \<in> set (nd_publishers (net i))" "nd_pub_at (net i) a = Some pb" "pb_topic pb = t" "\<not> pb_firehose pb"
    and path: "m_path (meta_default (ne_lib (tg_env tg i))) = []"
    and new: "\<forall>k \<in> tg_nodes tg. \<forall>l. \<forall>p \<in> set (in_queue l (net k)) \<union> set (out_queue l (net k)). \<not> is_copy t msg p"
  shows "\<exists>n. publish (tg_env tg i) a msg (net i) = Inr (success, n) \<and> flood_ok tg D ids (net(i := n)) \<and>
    two_way tg (net(i := n)) \<and> ready tg t (net(i := n)) \<and> spread tg t msg {i} (net(i := n))"
proof -
  have nf: "node_flows D ids (net i)" using ok i(1) by (simp add: flood_ok_def)
  have rd: "recording (tg_env tg i)" "t \<noteq> topic_internal" "t \<noteq> topic_any" "nd_subs (net i) t \<noteq> None"
    using rdy i(1) by (simp_all add: ready_def)
  obtain n q where n: "publish (tg_env tg i) a msg (net i) = Inr (success, n)" "node_flows D ids n" "adds q (net i) n" "heard n t msg"
      and q: "is_copy t msg q" "\<not> droppable q" "m_id (p_meta q) = nd_id (net i)" "m_path (p_meta q) = [nd_id (net i)]"
      and keys: "map fst (th_buffers (nd_thread n)) = map fst (th_buffers (nd_thread (net i)))"
      and sent: "\<forall>r \<in> set (nd_remotes (net i)). \<forall>rn. nd_remote_at (net i) r = Some rn \<longrightarrow> q \<in> set (out_queue (rn_link rn) n)"
    using publish_start [OF nf rd(1) i(2-4) rd(2,3) i(5) rd(4) path, of msg] by (elim exE conjE) (rule that; assumption)
  let ?net = "net(i := n)"
  have last: "\<forall>k. lasts (net k) (?net k)" using n(3) by (simp add: adds_def)
  have "map_of (th_buffers (nd_thread n)) m = None \<longleftrightarrow> map_of (th_buffers (nd_thread (net i))) m = None" for m
    using keys by (metis map_of_eq_None_iff list.set_map)
  from flood_ok_update [OF ok n(2) this] have ok': "flood_ok tg D ids ?net" .
  have ins: "in_queue l (?net k) = in_queue l (net k)" for l k using n(3) by (simp add: adds_def)
  have none: "\<not> is_copy t msg x" if "k \<in> tg_nodes tg" "x \<in> set (in_queue l (?net k))" for x l k
    using new that unfolding ins by blast
  have outs: "x = q \<and> k = i \<or> x \<in> set (out_queue l (net k))" if x: "x \<in> set (out_queue l (?net k))" for x l k
  proof (cases "k = i")
    case True
    obtain j where "out_queue l n = out_queue l (net i) @ replicate j q" using n(3) unfolding adds_def by blast
    then show ?thesis using x True by (auto split: if_splits)
  qed (use x in simp)
  have "spread tg t msg {i} ?net"
    unfolding spread_def
  proof (intro conjI ballI allI impI)
    show "heard (?net k) t msg" if "k \<in> {i}" for k using that n(4) by simp
  next
    fix k l x assume k: "k \<in> tg_nodes tg" and x: "x \<in> set (out_queue l (?net k))" "is_copy t msg x"
    then have "x = q \<and> k = i" using outs [OF x(1)] new by blast
    then show "k \<in> {i}" "traced ?net {i} x"
      using q(2-4) lastsD(1) [OF last [rule_format, of i]] by (simp_all add: traced_def)
  next
    fix k l j m assume k: "k \<in> {i}" and peer: "tg_peer tg k l = Some (j, m)"
    obtain r rn where r: "r \<in> set (nd_remotes (net i))" "nd_remote_at (net i) r = Some rn" "rn_link rn = l"
      using two_wayD(3) [OF two i(1)] peer k by blast
    then have "q \<in> set (out_queue l n)" using sent by blast
    then show "j \<in> {i} \<or> (\<exists>p \<in> set (out_queue l (?net k)). is_copy t msg p) \<or> (\<exists>p \<in> set (in_queue m (?net j)). is_copy t msg p)"
      using k q(1) by auto
  qed (use i(1) none in blast)+
  then show ?thesis using n(1) ok' lasts_net(1,2) [OF last] two rdy by blast
qed

subsection \<open>Properties\<close>


text \<open>Two nodes, each with a publisher, a subscriber of the topic and a link to the other.\<close>

definition clean_env :: "(sample_doc, sample_log) node_env" where
  "clean_env = sample_env\<lparr>ne_junk := False\<rparr>"

lemma clean_env_recording: "recording clean_env" "users_return clean_env" "\<not> ne_junk clean_env"
  by (simp_all add: recording_def users_return_def clean_env_def sample_env_def)

lemma sample_neighbour:
  assumes h: "ucast (h :: u64) \<noteq> (9 :: u32)"
  shows "\<exists>n :: (sample_doc, sample_log) node. node_ok n \<and> nd_id n = ucast h \<and> nd_publishers n = [5] \<and> nd_subscribers n = [1] \<and>
     nd_pub_at n 5 = Some \<lparr>pb_topic = ''/t'', pb_box = Some 20, pb_firehose = False, pb_husk = False\<rparr> \<and>
     nd_sub_at n 1 = Some \<lparr>sb_topic = ''/t'', sb_box = Some 30, sb_husk = False, sb_packed = False\<rparr> \<and>
     box_incoming n 30 = Some (Subscriber_cb 1 (User_callback 7) 0) \<and> nd_subs n ''/t'' \<noteq> None \<and> nd_remotes n = [40] \<and>
     nd_remote_at n 40 = Some \<lparr>rn_mode = Allow_internal, rn_link = 1, rn_ids = {}\<rparr> \<and>
     th_buffers (nd_thread n) = [(1, buffer_new\<lparr>bf_in := []\<rparr>)]"
proof -
  note users = clean_env_recording(2)
  obtain n0 :: "(sample_doc, sample_log) node" where n0: "node_ok n0" "nd_publishers n0 = []" "nd_subscribers n0 = []" "nd_remotes n0 = []"
      "nd_pub_at n0 = Map.empty" "nd_sub_at n0 = Map.empty" "nd_id n0 = ucast h XOR word_of_int 0" "nd_thread n0 = tcp_thread_new (\<lambda>_. quiet_link)"
      "members (nd_dave n0) = (\<lambda>t. if t = topic_internal then {10} else {})"
    using node_new_ok [of clean_env "''robot''" h 0 10 "\<lambda>_. quiet_link" "[]"] by (elim exE conjE) (rule that; assumption)
  have f0: "nd_pub_at n0 5 = None" "fresh_box (nd_dave n0) 20" by (simp_all add: fresh_box_def n0(5,9) box_key_def mailbox_id_def)
  obtain n1 :: "(sample_doc, sample_log) node" where n1: "node_ok n1" "nd_publishers n1 = nd_publishers n0 @ [5]" "nd_subscribers n1 = nd_subscribers n0"
      "nd_remotes n1 = nd_remotes n0" "nd_sub_at n1 = nd_sub_at n0"
      "nd_pub_at n1 = (nd_pub_at n0)(5 \<mapsto> \<lparr>pb_topic = ''/t'', pb_box = Some 20, pb_firehose = False, pb_husk = False\<rparr>)"
      "members (nd_dave n1) = (members (nd_dave n0))(''/t'' := insert 20 (members (nd_dave n0) ''/t''))"
      "nd_id n1 = nd_id n0" "map fst (th_buffers (nd_thread n1)) = map fst (th_buffers (nd_thread n0))"
    using publisher_new_ok [OF n0(1) users f0, of "''/t''"] by (elim exE conjE) (rule that; assumption)
  have f1: "nd_sub_at n1 1 = None" "fresh_box (nd_dave n1) 30"
    by (auto simp: fresh_box_def n1(5,7) n0(6,9) box_key_def mailbox_id_def)
  have cb: "User_callback 7 \<noteq> Service_callback" by simp
  obtain n2 :: "(sample_doc, sample_log) node" where n2: "node_ok n2" "nd_publishers n2 = nd_publishers n1" "nd_subscribers n2 = nd_subscribers n1 @ [1]"
      "nd_remotes n2 = nd_remotes n1" "nd_pub_at n2 = nd_pub_at n1"
      "nd_sub_at n2 = (nd_sub_at n1)(1 \<mapsto> \<lparr>sb_topic = ''/t'', sb_box = Some 30, sb_husk = False, sb_packed = False\<rparr>)"
      "members (nd_dave n2) = (members (nd_dave n1))(''/t'' := insert 30 (members (nd_dave n1) ''/t''))"
      "box_incoming n2 30 = Some (Subscriber_cb 1 (User_callback 7) 0)"
      "nd_id n2 = nd_id n1" "map fst (th_buffers (nd_thread n2)) = map fst (th_buffers (nd_thread n1))"
    using subscriber_new_ok [OF n1(1) users f1 cb, of "''/t''" 0] by (elim exE conjE) (rule that; assumption)
  have f2: "fresh_box (nd_dave n2) 40" by (auto simp: fresh_box_def n2(7) n1(7) n0(9) box_key_def mailbox_id_def)
  have keys: "map fst (th_buffers (nd_thread n2)) = []" by (simp add: n2(10) n1(9) n0(8) tcp_thread_new_def)
  have l: "(1 :: tp) \<noteq> null_tp" "map_of (th_buffers (nd_thread n2)) 1 = None" using keys by (simp_all add: null_tp_def)
  have c: "tl_heap (quiet_link\<lparr>tl_heap := [7 \<mapsto> open_socket]\<rparr>) 7 = Some open_socket" "is_open open_socket"
      "associated_address open_socket = Some \<lparr>sa_host = ''10.0.0.2'', sa_port = 40000\<rparr>"
    by (simp_all add: open_socket_def is_open_def)
  obtain n3 :: "(sample_doc, sample_log) node" where n3: "node_ok n3" "nd_remotes n3 = nd_remotes n2 @ [40]"
      "nd_remote_at n3 40 = Some \<lparr>rn_mode = Allow_internal, rn_link = 1, rn_ids = {}\<rparr>" "nd_id n3 = nd_id n2"
      "nd_publishers n3 = nd_publishers n2" "nd_subscribers n3 = nd_subscribers n2"
      "map fst (th_buffers (nd_thread n3)) = map fst (th_buffers (nd_thread n2)) @ [1]" "nd_pub_at n3 = nd_pub_at n2" "nd_sub_at n3 = nd_sub_at n2"
      "\<forall>t. \<forall>c \<in> members (nd_dave n2) t. box_incoming n3 c = box_incoming n2 c"
    using server_connection_ok [OF n2(1) users f2 l c] by (elim exE conjE) (rule that; assumption)
  have box: "box_incoming n3 30 = Some (Subscriber_cb 1 (User_callback 7) 0)"
    using n3(10) n2(7,8) by (metis fun_upd_same insertI1)
  let ?info = "sample_info\<lparr>n_id := 9, n_alive := True, n_in_topics := [''/t'']\<rparr>"
  define n4 where "n4 = store_info ?info n3"
  have id: "n_id ?info \<noteq> nd_id n3" using h by (simp add: n3(4) n2(9) n1(8) n0(7))
  have ok4: "node_ok n4" unfolding n4_def by (rule store_ok(1) [OF n3(1) id])
  have same: "nd_pub_at n4 = nd_pub_at n3" "nd_sub_at n4 = nd_sub_at n3" "nd_dave n4 = nd_dave n3"
    by (simp_all add: n4_def store_info_def tally_def untally_def Let_def split: option.split)
  have subs: "nd_subs n4 ''/t'' \<noteq> None"
    by (simp add: n4_def store_info_def tally_def Let_def incr_None del: not_None_eq)
  have r4: "nd_remote_at n4 40 = Some \<lparr>rn_mode = Allow_internal, rn_link = 1, rn_ids = {}\<rparr>" by (simp add: n4_def n3(3))
  have l4: "map fst (th_buffers (nd_thread n4)) = [1]" by (simp add: n4_def n3(7) keys)
  let ?n = "n4\<lparr>nd_thread := (nd_thread n4)\<lparr>th_buffers := [(1, buffer_new\<lparr>bf_in := []\<rparr>)]\<rparr>,
    nd_remote_at := (nd_remote_at n4)(40 \<mapsto> \<lparr>rn_mode = Allow_internal, rn_link = 1, rn_ids = {}\<rparr>\<lparr>rn_ids := {}\<rparr>)\<rparr>"
  have "node_ok ?n" by (rule queue_ok [OF ok4 r4 l4])
  moreover have "box_incoming ?n 30 = Some (Subscriber_cb 1 (User_callback 7) 0)"
    using box by (simp add: box_incoming_def same(3))
  ultimately show ?thesis
    using subs n3 n2 n1 n0 same by (intro exI [of _ ?n]) (simp add: n4_def)
qed


end
