(* ===== verification/Wire.thy ===== *)
theory Wire
  imports Flood_Reach
begin

text \<open>
  A message on its way from one process to another, through everything between them: the publisher,
  the mailman and the remote of the one node, the queue and the channel of its thread, the bytes on the
  connection, the channel and the queue of the other's thread, its remote, mailman and subscribers.
\<close>

subsection \<open>From the publisher to the wire\<close>

lemma sendable_wire:
  assumes "packet_sendable lib q" and "wire_laws lib (the (p_packed q))"
  shows "tcp_wire_of lib q = Some (bson_data lib (the (p_packed q)))"
proof -
  obtain doc where doc: "p_packed q = Some doc" using sendable_packed [OF assms(1)] by blast
  have "unat (le32 (bson_data lib doc)) < 2 ^ LENGTH(32)" by (rule unsigned_less)
  then show ?thesis using assms(2) doc by (simp add: tcp_wire_of_def wire_laws_def Let_def)
qed

lemma publish_queues:
  fixes env :: "('b, 'u) node_env"
  assumes ok: "node_ok n" and users: "users_return env" and a: "a \<in> set (nd_publishers n)" "nd_pub_at n a = Some pb"
    and t: "pb_topic pb \<noteq> topic_internal" "pb_topic pb \<noteq> topic_any" and f: "\<not> pb_firehose pb"
    and r: "r \<in> set (nd_remotes n)" "nd_remote_at n r = Some rn" "wanted n rn (pb_topic pb)"
    and p: "p = published env pb (packet_new (ne_lib env) (pb_topic pb) (nd_time (update_time env n)) msg False) n"
  defines "q \<equiv> stamped (ne_lib env) (nd_id n) p"
  shows "\<exists>n'. publish env a msg n = Inr (success, n') \<and> frame n n' \<and>
    (\<forall>l b'. map_of (th_buffers (nd_thread n')) l = Some b' \<longrightarrow>
       (\<exists>b. map_of (th_buffers (nd_thread n)) l = Some b \<and> (bf_out b' = bf_out b \<or> bf_out b' = bf_out b @ [q]) \<and>
          (l = rn_link rn \<longrightarrow> bf_out b' = bf_out b @ [q])))"
proof -
  define m where "m = update_time env n"
  have w: "node_wired n" using ok by (simp add: node_ok_def)
  have f0: "frame n m" unfolding m_def by (rule frame_update_time)
  note same = frameD [OF f0]
  have wm: "node_wired m" using w frame_wired [OF f0] by simp
  note d = node_wiredD [OF wm]
  from publish_mail [OF w a p] obtain c where c: "publish env a msg n = node_mail env c p m"
      "c \<in> members (nd_dave n) (pb_topic pb)" "box_incoming n c = None" unfolding m_def by blast
  have cm: "c \<in> members (nd_dave m) (pb_topic pb)" using c(2) same by simp
  obtain mb where mb: "mm_boxes (nd_dave m) c = Some mb" "mb_outgoing mb" by (rule memberD [OF d(3) cm])
  have key: "\<forall>t. \<forall>b \<in> members (nd_dave m) t. box_key b = box_key c \<longrightarrow> b = c"
    using d(2) cm unfolding keys_distinct_def by blast
  have pk: "\<not> p_null p" "packet_topic p = pb_topic pb" "\<not> p_local_only p" "\<not> droppable p"
    using f by (simp_all add: p published_def packet_topic_def droppable_def)
  obtain xs where xs: "set xs = (members (nd_dave m) (packet_topic p) \<union> members (nd_dave m) topic_any) - {c}"
    and run: "\<And>u. call_users env (concat (map (calls m p) xs)) (nd_user m) = Inr u \<Longrightarrow>
      \<exists>n'. node_mail env c p m = Inr (success, n') \<and> handled env p m (set xs) u n'"
    by (rule node_mail_handled [OF d(1) mb key, where p = p and env = env]) (use pk t in simp_all)
  obtain u where "call_users env (concat (map (calls m p) xs)) (nd_user m) = Inr u" using call_users_total [OF users] by blast
  from run [OF this] obtain n' where n': "node_mail env c p m = Inr (success, n')" "handled env p m (set xs) u n'" by blast
  have q: "stamped (ne_lib env) (nd_id m) p = q" using same by (simp add: q_def)
  have nq: "\<not> droppable q" using pk(4) by (simp add: q_def stamped_def droppable_def)
  have bufs: "th_buffers (nd_thread m) = th_buffers (nd_thread n)" by (simp add: m_def)
  have rm: "r \<in> set (nd_remotes m)" "nd_remote_at m r = Some rn" using r(1,2) same by simp_all
  have "r \<noteq> c"
    using c(3) node_wiredD(8) [OF w] r(1) by (auto simp: remotes_wired_def)
  then have "r \<in> set xs" using d(8) rm(1) unfolding xs remotes_wired_def by blast
  moreover have "wanted m rn (packet_topic p)" using r(3) by (simp add: m_def pk(2) wanted_def)
  then have "sends_to m p r (rn_link rn)" using sends_to_remote [OF wm rm pk(3)] by simp
  ultimately have mine: "\<exists>x \<in> set xs. sends_to m p x (rn_link rn)" by blast
  have sent: "bf_out (buffer_send q b) = bf_out b @ [q]" for b using nq by (simp add: buffer_send_def)
  have "\<exists>b. map_of (th_buffers (nd_thread n)) l = Some b \<and> (bf_out b' = bf_out b \<or> bf_out b' = bf_out b @ [q]) \<and>
      (l = rn_link rn \<longrightarrow> bf_out b' = bf_out b @ [q])"
    if b': "map_of (th_buffers (nd_thread n')) l = Some b'" for l b'
  proof -
    have "map_of (th_buffers (nd_thread n')) l = map_option (\<lambda>b. if \<exists>x \<in> set xs. sends_to m p x l then buffer_send q b else b)
        (map_of (th_buffers (nd_thread n)) l)"
      using n'(2) unfolding handled_def q bufs by blast
    with b' obtain b where b: "map_of (th_buffers (nd_thread n)) l = Some b"
        "b' = (if \<exists>x \<in> set xs. sends_to m p x l then buffer_send q b else b)" by auto
    then show ?thesis using mine sent by (intro exI [of _ b]) auto
  qed
  moreover have "frame m n'" using n'(2) by (simp add: handled_def)
  ultimately show ?thesis using c(1) n'(1) frame_trans [OF f0] by (intro exI [of _ n']) auto
qed

subsection \<open>From the wire to the subscribers\<close>

lemma run_times_keys: "run_times ops k t = Inr t' \<Longrightarrow> map fst (th_buffers t') = map fst (th_buffers t)"
proof (induction k arbitrary: t)
  case (Suc k)
  have keys: "map fst (AList.update l b' al) = map fst al" if "map_of al l = Some b" for l and b b' :: "'b buffer" and al
    using that by (simp add: AList.update_keys) (metis domI dom_map_of_conv_image_fst)
  have link: "map fst (th_buffers (fst acc')) = map fst (th_buffers (fst acc))" if "run_link ops acc l = Inr acc'" for acc acc' l
  proof (cases "map_of (th_buffers (fst acc)) l")
    case None
    then show ?thesis using that by (cases acc) (simp add: run_link_def)
  next
    case (Some b)
    then show ?thesis using that keys [OF Some] by (cases acc) (auto simp: run_link_def exec_simps)
  qed
  obtain t1 where t1: "run_once ops t = Inr t1" "run_times ops k t1 = Inr t'" using Suc.prems by (auto simp: exec_simps)
  then obtain acc where acc: "exec_foldl (run_link ops) (t, 0, 0) (map fst (th_buffers t)) = Inr acc" "th_buffers t1 = th_buffers (fst acc)"
    by (auto simp: run_once_def exec_simps)
  have "map fst (th_buffers (fst acc)) = map fst (th_buffers t)"
    by (rule exec_foldl_invariant [OF acc(1)]) (use link in auto)
  then have "map fst (th_buffers t1) = map fst (th_buffers t)" using acc(2) by simp
  then show ?case using Suc.IH [OF t1(2)] by simp
qed simp

lemma sub_calls_same:
  assumes "nd_sub_at m = nd_sub_at n" and "nd_dave m = nd_dave n"
  shows "sub_calls m = sub_calls n" and "topic_at m = topic_at n"
  by (simp_all only: sub_calls_def calls_def topic_at_def fun_eq_iff assms) simp_all

lemma remote_turn_calls:
  fixes env :: "('b, 'u) node_env"
  assumes ok: "node_ok n" and users: "users_return env" and s: "s \<in> set (nd_remotes n)" "nd_remote_at n s = Some sn"
    and q: "in_queue (rn_link sn) n = [p]" and p: "\<not> p_null p" "packet_topic p \<noteq> topic_internal" "packet_topic p \<noteq> topic_any"
    and new: "\<not> seen (nd_id n) p"
  shows "\<exists>n' cs. remote_spin_update env s n = Inr (success, n') \<and> node_ok n' \<and>
    call_users env cs (nd_user n) = Inr (nd_user n') \<and>
    mset cs = mset (concat (map (sub_calls n p)
      (filter (\<lambda>x. topic_at n x = packet_topic p \<or> topic_at n x = topic_any) (nd_subscribers n))))"
proof -
  define m where "m = taken env s sn (insert (m_id (p_meta p)) (rn_ids sn)) n"
  note t = taken_ok(1-8) [OF ok s q p(1), where env = env and ids = "insert (m_id (p_meta p)) (rn_ids sn)", folded m_def]
  note step = taken_ok(9) [OF ok s q p(1), where env = env]
  have ok_m: "node_ok m" by (rule t(1))
  then have w: "node_wired m" by (simp add: node_ok_def)
  note d = node_wiredD [OF w]
  have sm: "s \<in> set (nd_remotes m)" using s(1) t(3) by simp
  have mem: "s \<in> members (nd_dave m) topic_any" "box_incoming m s = Some (Remote_cb s)"
    using d(8) sm by (simp_all add: remotes_wired_def)
  obtain mb where mb: "mm_boxes (nd_dave m) s = Some mb" "mb_outgoing mb" by (rule memberD [OF d(3) mem(1)])
  have key: "\<forall>t. \<forall>b \<in> members (nd_dave m) t. box_key b = box_key s \<longrightarrow> b = s"
    using d(2) mem(1) unfolding keys_distinct_def by blast
  obtain xs where xs: "distinct xs" "set xs = (members (nd_dave m) (packet_topic p) \<union> members (nd_dave m) topic_any) - {s}"
    and run: "\<And>u. call_users env (concat (map (calls m p) xs)) (nd_user m) = Inr u \<Longrightarrow>
      \<exists>n'. node_mail env s p m = Inr (success, n') \<and> handled env p m (set xs) u n'"
    by (rule node_mail_handled [OF d(1) mb key p, where env = env]) (rule that)
  let ?cs = "concat (map (calls m p) xs)"
  obtain u where u: "call_users env ?cs (nd_user m) = Inr u" using call_users_total [OF users] by blast
  from run [OF this] obtain n' where n': "node_mail env s p m = Inr (success, n')" "handled env p m (set xs) u n'" by blast
  have f: "frame m n'" and user: "nd_user n' = u" using n'(2) by (simp_all add: handled_def)
  have take: "remote_take env s n = Inr (True, n')"
    using step new n'(1) by (simp add: m_def)
  have empty: "in_queue (rn_link sn) n' = []" using in_queue_frame [OF f, of "rn_link sn"] t(7) [of "rn_link sn"] by simp
  have s': "s \<in> set (nd_remotes n')" "nd_remote_at n' s = Some (sn\<lparr>rn_ids := insert (m_id (p_meta p)) (rn_ids sn)\<rparr>)"
    using sm t(4) by (simp_all add: frameD [OF f])
  have ok': "node_ok n'" using frame_ok [OF f] ok_m by simp
  have "remote_take env s n' = Inr (False, n')"
    by (rule remote_take_empty [OF ok' s']) (use empty in simp)
  then have "remote_spin_update env s n = Inr (success, n')"
    using s(2) q take by (simp add: remote_spin_update_def)
  moreover have user_m: "nd_user m = nd_user n" and at_m: "nd_sub_at m = nd_sub_at n" and subs_m: "nd_subscribers m = nd_subscribers n"
    by (simp_all add: m_def taken_def Let_def)
  note same = sub_calls_same [OF at_m t(6)]
  have "mset ?cs = mset (concat (map (sub_calls n p)
      (filter (\<lambda>x. topic_at n x = packet_topic p \<or> topic_at n x = topic_any) (nd_subscribers n))))"
    using calls_of_subscribers [OF w xs, of p] mem(2) subs_m same by simp
  ultimately show ?thesis using ok' u user user_m by (intro exI [of _ n'] exI [of _ ?cs]) simp
qed

subsection \<open>Properties\<close>

text \<open>C3: A message crosses from one process to another. A node publishes on a topic that a neighbour
  has announced; a turn of its thread puts the packet's bytes, and nothing else, on the connection;
  the network hands them to the neighbour in whatever pieces; after as many turns of the neighbour's
  thread as the connection has bytes and calls left, and one turn of its remote, the function of
  every subscriber of the topic or of \<open>*\<close> there has been called exactly once, with the very
  message, and no other has been called. Nothing on the way fails, and both nodes' invariants hold.\<close>

theorem message_crosses_wire:
  assumes lib: "bson_laws (ne_lib eA)" "ne_lib eB = ne_lib eA" "m_path (meta_default (ne_lib eA)) = []"
    and A: "node_ok nA" "users_return eA" "a \<in> set (nd_publishers nA)" "nd_pub_at nA a = Some pb"
    and t: "pb_topic pb \<noteq> topic_internal" "pb_topic pb \<noteq> topic_any" "\<not> pb_firehose pb"
    and r: "r \<in> set (nd_remotes nA)" "nd_remote_at nA r = Some rn" "wanted nA rn (pb_topic pb)" "out_queue (rn_link rn) nA = []"
    and q: "q = stamped (ne_lib eA) (nd_id nA)
      (published eA pb (packet_new (ne_lib eA) (pb_topic pb) (nd_time (update_time eA nA)) msg False) nA)"
      "packet_sendable (ne_lib eA) q" "wire_laws (ne_lib eA) (the (p_packed q))"
    and upA: "distinct (map fst (th_buffers (nd_thread nA)))"
      "\<forall>(l, b) \<in> set (th_buffers (nd_thread nA)). tcp_up (ne_lib eA) jA (ne_strerror eA) (th_link (nd_thread nA) l) (PA l) \<and>
         (\<forall>p \<in> set (bf_out b). tcp_wire_of (ne_lib eA) p \<noteq> None)"
    and B: "node_ok nB" "users_return eB" "s \<in> set (nd_remotes nB)" "nd_remote_at nB s = Some sn"
      "in_queue (rn_link sn) nB = []" "nd_id nB \<noteq> nd_id nA"
    and upB: "distinct (map fst (th_buffers (nd_thread nB)))"
      "\<forall>(l, b) \<in> set (th_buffers (nd_thread nB)). (l \<noteq> rn_link sn \<longrightarrow>
           tcp_up (ne_lib eB) jB (ne_strerror eB) (th_link (nd_thread nB) l) (PB l)) \<and>
         (\<forall>p \<in> set (bf_out b). tcp_wire_of (ne_lib eB) p \<noteq> None)"
    and cable: "cable = th_link (nd_thread nB) (rn_link sn)" "tcp_connected (ne_strerror eB) cable"
      "\<forall>e \<in> set (tl_in cable). delivers e" "\<forall>e \<in> set (tl_script cable). soft e"
      "ic_buffer (the (tt_input (tl_transport cable))) @ stream (tl_in cable) = bson_data (ne_lib eA) (the (p_packed q))"
      "0 < k" "tcp_todo cable \<le> k"
  shows "\<exists>n1 tA tB n2 cs.
    publish eA a msg nA = Inr (success, n1) \<and> node_ok n1 \<and>
    run_times (tcp_ops (ne_dbg eA) (ne_lib eA) jA (ne_strerror eA)) 1 (nd_thread n1) = Inr tA \<and>
    tl_wire (th_link tA (rn_link rn)) =
      tl_wire (th_link (nd_thread nA) (rn_link rn)) @ bson_data (ne_lib eA) (the (p_packed q)) \<and>
    run_times (tcp_ops (ne_dbg eB) (ne_lib eB) jB (ne_strerror eB)) k (nd_thread nB) = Inr tB \<and>
    remote_spin_update eB s (nB\<lparr>nd_thread := tB\<rparr>) = Inr (success, n2) \<and> node_ok n2 \<and>
    call_users eB cs (nd_user nB) = Inr (nd_user n2) \<and>
    mset cs = mset (concat (map (sub_calls nB (set_local_only jB q))
      (filter (\<lambda>x. topic_at nB x = pb_topic pb \<or> topic_at nB x = topic_any) (nd_subscribers nB)))) \<and>
    p_msg (set_local_only jB q) = msg"
proof -
  let ?lib = "ne_lib eA"
  let ?p = "published eA pb (packet_new ?lib (pb_topic pb) (nd_time (update_time eA nA)) msg False) nA"
  let ?bytes = "bson_data ?lib (the (p_packed q))" and ?q = "set_local_only jB q"
  note wire = sendable_wire [OF q(2,3)]
  have look: "map_of (th_buffers x) l = Some b \<longleftrightarrow> (l, b) \<in> set (th_buffers x)" if "distinct (map fst (th_buffers x))"
    for x :: "(tcp_link, 'a) tcp_thread" and l b using that by simp
  obtain n1 where n1: "publish eA a msg nA = Inr (success, n1)" "frame nA n1"
    and out: "\<And>l b'. map_of (th_buffers (nd_thread n1)) l = Some b' \<Longrightarrow>
       \<exists>b. map_of (th_buffers (nd_thread nA)) l = Some b \<and> (bf_out b' = bf_out b \<or> bf_out b' = bf_out b @ [q]) \<and>
          (l = rn_link rn \<longrightarrow> bf_out b' = bf_out b @ [q])"
    using publish_queues [OF A t r(1-3) refl, where msg = msg, folded q(1)] by blast
  note f1 = frameD [OF n1(2)]
  have ok1: "node_ok n1" using frame_ok [OF n1(2) A(1)] .
  have d1: "distinct (map fst (th_buffers (nd_thread n1)))" using upA(1) f1 by simp
  have up1: "\<forall>l b. map_of (th_buffers (nd_thread n1)) l = Some b \<longrightarrow> tcp_up ?lib jA (ne_strerror eA) (th_link (nd_thread n1) l) (PA l) \<and>
      (\<forall>p \<in> set (bf_out b). tcp_wire_of ?lib p \<noteq> None)"
  proof (intro allI impI)
    fix l b' assume "map_of (th_buffers (nd_thread n1)) l = Some b'"
    from out [OF this] obtain b where b: "(l, b) \<in> set (th_buffers (nd_thread nA))" "bf_out b' = bf_out b \<or> bf_out b' = bf_out b @ [q]"
      using look [OF upA(1)] by blast
    then show "tcp_up ?lib jA (ne_strerror eA) (th_link (nd_thread n1) l) (PA l) \<and> (\<forall>p \<in> set (bf_out b'). tcp_wire_of ?lib p \<noteq> None)"
      using upA(2) wire f1 by fastforce
  qed
  obtain bA where "map_of (th_buffers (nd_thread n1)) (rn_link rn) = Some bA"
    using node_liveD(4) [of n1 r] ok1 node_wiredD(1) r(1,2) f1 by (auto simp: node_ok_def)
  moreover from out [OF this] r(4) have "bf_out bA = [q]" by (auto simp: out_queue_def)
  moreover note tcp.run_times_link [where n = 1 and dbg = "ne_dbg eA", OF d1 up1]
  ultimately obtain tA where tA: "run_times (tcp_ops (ne_dbg eA) ?lib jA (ne_strerror eA)) 1 (nd_thread n1) = Inr tA"
      "tl_wire (th_link tA (rn_link rn)) = tl_wire (th_link (nd_thread n1) (rn_link rn)) @ ?bytes"
    using wire by (elim exE conjE) (rule that, assumption, fastforce)
  have path: "m_path (p_meta q) = [nd_id nA]" "m_id (p_meta q) = nd_id nA" "packet_topic q = pb_topic pb" "p_msg q = msg" "\<not> p_null q"
      "\<not> droppable q"
    using lib(3) t(3) by (simp_all add: q(1) stamped_def published_def packet_new_def Let_def packet_topic_def droppable_def)
  let ?P = "\<lambda>l. if l = rn_link sn then [?q] else PB l"
  have frame: "frame_ok ?lib jB ?bytes ?q"
    using sendable_read_back [OF lib(1) q(2), of jB] q(3) sendable_packed [OF q(2)]
    by (auto simp: frame_ok_def wire_laws_def Let_def set_local_only_def)
  have "tcp_up ?lib jB (ne_strerror eB) cable [?q]"
    unfolding tcp_up_def using cable(2-5) frame by (intro conjI exI [of _ "[?bytes]"]) simp_all
  then have upB': "\<forall>l b. map_of (th_buffers (nd_thread nB)) l = Some b \<longrightarrow>
      tcp_up ?lib jB (ne_strerror eB) (th_link (nd_thread nB) l) (?P l) \<and> (\<forall>p \<in> set (bf_out b). tcp_wire_of ?lib p \<noteq> None)"
    using upB(2) cable(1) unfolding look [OF upB(1)] lib(2) by fastforce
  obtain bB where bB: "map_of (th_buffers (nd_thread nB)) (rn_link sn) = Some bB"
    using node_liveD(4) [of nB s] B(1) node_wiredD(1) B(3,4) by (auto simp: node_ok_def)
  have inB: "bf_in bB = []" using B(5) bB by (simp add: in_queue_def)
  from tcp.run_times_link [where n = k and dbg = "ne_dbg eB", OF upB(1) upB'] obtain tB where
    tB: "run_times (tcp_ops (ne_dbg eB) ?lib jB (ne_strerror eB)) k (nd_thread nB) = Inr tB" and
    each: "\<forall>l b. map_of (th_buffers (nd_thread nB)) l = Some b \<longrightarrow> (\<exists>b' qs rest. map_of (th_buffers tB) l = Some b' \<and>
      received qs b b' \<and> ?P l = qs @ rest \<and> (tcp_todo (th_link (nd_thread nB) l) \<le> k \<longrightarrow> rest = []))"
    by blast
  have "\<exists>b' qs rest. map_of (th_buffers tB) (rn_link sn) = Some b' \<and> received qs bB b' \<and> ?P (rn_link sn) = qs @ rest \<and>
      (tcp_todo (th_link (nd_thread nB) (rn_link sn)) \<le> k \<longrightarrow> rest = [])"
    using each bB by blast
  then obtain b' qs where b': "map_of (th_buffers tB) (rn_link sn) = Some b'" "received qs bB b'" "qs = [?q]"
    using cable(7) unfolding cable(1) by auto
  have nq: "\<not> droppable ?q" using path(6) by (simp add: droppable_def set_local_only_def)
  then have "bf_in b' = [?q]" using received_keep [OF b'(2)] inB b'(3) by simp
  define m where "m = nB\<lparr>nd_thread := tB\<rparr>"
  have keys: "map_of (th_buffers tB) l = None \<longleftrightarrow> map_of (th_buffers (nd_thread nB)) l = None" for l
    using arg_cong [OF run_times_keys [OF tB], of set] by (simp add: map_of_eq_None_iff)
  have "node_ok m"
    using wired_links [of nB m] B(1) keys by (simp add: node_ok_def latest_ok_def m_def)
  moreover have "in_queue (rn_link sn) m = [?q]" using b'(1) \<open>bf_in b' = [?q]\<close> by (simp add: in_queue_def m_def)
  moreover have "\<not> p_null ?q" "packet_topic ?q = pb_topic pb" "p_msg ?q = msg"
    using path by (simp_all add: set_local_only_def packet_topic_def)
  moreover have "\<not> seen (nd_id m) ?q" using path B(6) by (simp add: seen_def set_local_only_def m_def)
  ultimately obtain n2 cs where n2: "remote_spin_update eB s m = Inr (success, n2)" "node_ok n2"
      "call_users eB cs (nd_user m) = Inr (nd_user n2)" "mset cs = mset (concat (map (sub_calls m ?q)
      (filter (\<lambda>x. topic_at m x = pb_topic pb \<or> topic_at m x = topic_any) (nd_subscribers m))))"
    using remote_turn_calls [of m eB s sn ?q] B(2-4) t(1,2) by (auto simp: m_def)
  have "sub_calls m = sub_calls nB" "topic_at m = topic_at nB"
    by (rule sub_calls_same; simp add: m_def)+
  then show ?thesis
    using n1(1) ok1 tA tB n2 f1 lib(2) \<open>p_msg ?q = msg\<close>
    by (intro exI [of _ n1] exI [of _ tA] exI [of _ tB] exI [of _ n2] exI [of _ cs]) (simp add: m_def)
qed

subsection \<open>A sample pair\<close>

text \<open>A library whose documents all take five bytes, which are read as one of them.\<close>

definition cable_lib :: "sample_doc \<Rightarrow> sample_doc bson_lib" where
  "cable_lib doc = sample_lib\<lparr>bson_data := (\<lambda>_. [5, 0, 0, 0, 0]), bson_read := (\<lambda>_. Some doc)\<rparr>"

definition cable_env :: "sample_doc \<Rightarrow> (sample_doc, sample_log) node_env" where
  "cable_env doc = sample_env\<lparr>ne_lib := cable_lib doc\<rparr>"

lemma cable_build: "packet_build (cable_lib doc) = packet_build sample_lib"
  "packet_new (cable_lib doc) = packet_new sample_lib" "stamped (cable_lib doc) = stamped sample_lib"
  by (simp_all add: fun_eq_iff packet_build_def packet_new_def stamped_def cable_lib_def Let_def)

theorem message_crosses_wire_witness:
  "\<exists>env (nA :: (sample_doc, sample_log) node) (nB :: (sample_doc, sample_log) node) n1 tA tB n2 k.
     publish env 5 (Some (Text_doc ''hi'')) nA = Inr (success, n1) \<and>
     run_times (tcp_ops True (ne_lib env) True (ne_strerror env)) 1 (nd_thread n1) = Inr tA \<and> tl_wire (th_link tA 1) = [5, 0, 0, 0, 0] \<and>
     run_times (tcp_ops True (ne_lib env) True (ne_strerror env)) k (nd_thread nB) = Inr tB \<and>
     remote_spin_update env 40 (nB\<lparr>nd_thread := tB\<rparr>) = Inr (success, n2) \<and>
     nd_user n2 = nd_user nB @ [(7, 0, Some (Text_doc ''hi''))]"
proof -
  let ?msg = "Some (Text_doc ''hi'')" and ?rn = "\<lparr>rn_mode = Allow_internal, rn_link = 1, rn_ids = {}\<rparr>"
  obtain a :: "(sample_doc, sample_log) node" where a: "node_ok a" "nd_id a = ucast (42 :: u64)" "nd_publishers a = [5]"
      "nd_pub_at a 5 = Some \<lparr>pb_topic = ''/t'', pb_box = Some 20, pb_firehose = False, pb_husk = False\<rparr>"
      "nd_subs a ''/t'' \<noteq> None" "nd_remotes a = [40]" "nd_remote_at a 40 = Some ?rn"
      "th_buffers (nd_thread a) = [(1, buffer_new\<lparr>bf_in := []\<rparr>)]"
    using sample_neighbour [of 42] by (auto simp del: not_None_eq)
  obtain b :: "(sample_doc, sample_log) node" where b: "node_ok b" "nd_id b = ucast (43 :: u64)" "nd_subscribers b = [1]"
      "nd_sub_at b 1 = Some \<lparr>sb_topic = ''/t'', sb_box = Some 30, sb_husk = False, sb_packed = False\<rparr>"
      "box_incoming b 30 = Some (Subscriber_cb 1 (User_callback 7) 0)" "nd_remotes b = [40]" "nd_remote_at b 40 = Some ?rn"
      "th_buffers (nd_thread b) = [(1, buffer_new\<lparr>bf_in := []\<rparr>)]"
    using sample_neighbour [of 43] by (auto simp del: not_None_eq)
  define nA where "nA = a\<lparr>nd_thread := (nd_thread a)\<lparr>th_link := (\<lambda>_. opened_link True)\<rparr>\<rparr>"
  define nB where "nB = b\<lparr>nd_thread := (nd_thread b)\<lparr>th_link := (\<lambda>_. busy_link)\<rparr>\<rparr>"
  have ok: "node_ok nA" "node_ok nB"
    using a(1) b(1) wired_links [of a nA] wired_links [of b nB] by (simp_all add: node_ok_def latest_ok_def nA_def nB_def)
  define pb where "pb = \<lparr>pb_topic = ''/t'', pb_box = Some 20, pb_firehose = False, pb_husk = False\<rparr>"
  define q where "q env = stamped (ne_lib env) (nd_id nA)
      (published env pb (packet_new (ne_lib env) (pb_topic pb) (nd_time (update_time env nA)) ?msg False) nA)"
    for env :: "(sample_doc, sample_log) node_env"
  define env where "env = cable_env (the (p_packed (q sample_env)))"
  have lib: "ne_lib env = cable_lib (the (p_packed (q sample_env)))" by (simp add: env_def cable_env_def)
  have same: "q env = q sample_env"
    by (simp add: q_def lib cable_build published_def update_time_def env_def cable_env_def sample_env_def)
  have users: "users_return env" by (simp add: users_return_def env_def cable_env_def sample_env_def)
  have sendable: "packet_sendable (ne_lib env) (q env)"
    by (simp add: packet_sendable_def q_def stamped_def published_def lib) (simp add: cable_lib_def)
  have laws: "wire_laws (ne_lib env) (the (p_packed (q env)))"
    by (simp add: wire_laws_def lib same) (simp add: cable_lib_def le32_def sample_lib_def)
  have bson: "bson_laws (ne_lib env)" "m_path (meta_default (ne_lib env)) = []"
    using sample_lib_laws by (simp_all add: bson_laws_def lib cable_lib_def sample_meta_def)
  have pub: "5 \<in> set (nd_publishers nA)" "nd_pub_at nA 5 = Some pb" "pb_topic pb \<noteq> topic_internal" "pb_topic pb \<noteq> topic_any" "\<not> pb_firehose pb"
    using a(3,4) by (simp_all add: nA_def pb_def topic_internal_def topic_any_def)
  have rem: "40 \<in> set (nd_remotes nA)" "nd_remote_at nA 40 = Some ?rn" "wanted nA ?rn (pb_topic pb)" "out_queue (rn_link ?rn) nA = []"
    using a(5-8) by (simp_all add: nA_def pb_def wanted_def out_queue_def buffer_new_def)
  have upA: "distinct (map fst (th_buffers (nd_thread nA)))"
    "\<forall>(l, b) \<in> set (th_buffers (nd_thread nA)). tcp_up (ne_lib env) True (ne_strerror env) (th_link (nd_thread nA) l) [] \<and>
         (\<forall>p \<in> set (bf_out b). tcp_wire_of (ne_lib env) p \<noteq> None)"
    using opened_connected
    by (simp_all add: a(8) nA_def tcp_up_def buffer_new_def) (simp add: opened_link_def quiet_link_def)
  have remB: "40 \<in> set (nd_remotes nB)" "nd_remote_at nB 40 = Some ?rn" "in_queue (rn_link ?rn) nB = []" "nd_id nB \<noteq> nd_id nA"
    using a(2) b(2,6-8) by (simp_all add: nA_def nB_def in_queue_def buffer_new_def)
  have upB: "distinct (map fst (th_buffers (nd_thread nB)))"
    "\<forall>(l, b) \<in> set (th_buffers (nd_thread nB)). (l \<noteq> rn_link ?rn \<longrightarrow>
           tcp_up (ne_lib env) True (ne_strerror env) (th_link (nd_thread nB) l) []) \<and>
         (\<forall>p \<in> set (bf_out b). tcp_wire_of (ne_lib env) p \<noteq> None)"
    by (simp_all add: b(8) nB_def buffer_new_def)
  have link: "busy_link = th_link (nd_thread nB) (rn_link ?rn)" by (simp add: nB_def)
  have cable: "tcp_connected (ne_strerror env) busy_link" "\<forall>e \<in> set (tl_in busy_link). delivers e" "\<forall>e \<in> set (tl_script busy_link). soft e"
    using busy_up [of "ne_strerror env"] by (simp_all add: tcp_up_def)
  have bytes: "ic_buffer (the (tt_input (tl_transport busy_link))) @ stream (tl_in busy_link) = bson_data (ne_lib env) (the (p_packed (q env)))"
    by (simp add: busy_link_def opened_link_def lib cable_lib_def)
  obtain n1 tA tB n2 cs where
    res: "publish env 5 ?msg nA = Inr (success, n1)"
      "run_times (tcp_ops (ne_dbg env) (ne_lib env) True (ne_strerror env)) 1 (nd_thread n1) = Inr tA"
      "tl_wire (th_link tA (rn_link ?rn)) = tl_wire (th_link (nd_thread nA) (rn_link ?rn)) @ bson_data (ne_lib env) (the (p_packed (q env)))"
      "run_times (tcp_ops (ne_dbg env) (ne_lib env) True (ne_strerror env)) (Suc (tcp_todo busy_link)) (nd_thread nB) = Inr tB"
      "remote_spin_update env 40 (nB\<lparr>nd_thread := tB\<rparr>) = Inr (success, n2)"
      "call_users env cs (nd_user nB) = Inr (nd_user n2)"
      "mset cs = mset (concat (map (sub_calls nB (set_local_only True (q env)))
        (filter (\<lambda>x. topic_at nB x = pb_topic pb \<or> topic_at nB x = topic_any) (nd_subscribers nB))))"
      "p_msg (set_local_only True (q env)) = ?msg"
    using message_crosses_wire [OF bson(1) refl bson(2) ok(1) users pub rem q_def sendable laws upA ok(2) users remB upB link cable bytes
        zero_less_Suc le_SucI [OF order_refl]]
    by (elim exE conjE) (rule that)
  have "sub_calls nB (set_local_only True (q env)) 1 = [(7, 0, ?msg)]" "topic_at nB 1 = ''/t''"
    using b(4,5) res(8) by (auto simp: sub_calls_def calls_def topic_at_def nB_def box_incoming_def split: option.splits)
  then have "mset cs = mset [(7, 0, ?msg)]" using res(7) b(3) by (simp add: nB_def pb_def)
  moreover from mset_eq_length [OF this] obtain c where "cs = [c]" by (auto simp: length_Suc_conv)
  ultimately have "cs = [(7, 0, ?msg)]" by simp
  then have "nd_user n2 = nd_user nB @ [(7, 0, ?msg)]" using res(6) by (simp add: env_def cable_env_def sample_env_def)
  moreover have "ne_dbg env = True" "tl_wire (th_link tA 1) = [5, 0, 0, 0, 0]"
    using res(3) by (simp_all add: env_def cable_env_def sample_env_def cable_lib_def nA_def opened_link_def quiet_link_def)
  ultimately show ?thesis using res(1,2,4,5)
    by (intro exI [of _ env] exI [of _ nA] exI [of _ nB] exI [of _ n1] exI [of _ tA] exI [of _ tB] exI [of _ n2]
        exI [of _ "Suc (tcp_todo busy_link)"]) simp
qed

end
