(* ===== verification/Gateway.thy ===== *)
theory Gateway
  imports Node_Life
begin

text \<open>
  The node as the listener of its TCP server: \<open>node_notify\<close> under the contract of a listener, and a
  whole turn of the server in the spinner (\<open>gateway_spin_update\<close>): the clients that have gone, the
  connections that wait, and what both do to the node's remotes.
\<close>

subsection \<open>Calls that queue nothing for a remote\<close>

text \<open>The listener's callbacks add nothing to the queues of received packets.\<close>

definition calm :: "('b, 'u) node \<Rightarrow> ('b, 'u) node \<Rightarrow> bool" where
  "calm n n' \<longleftrightarrow> nd_auto_exit n' = nd_auto_exit n \<and> (\<forall>l. set (in_queue l n') \<subseteq> set (in_queue l n))"

lemma calm_trans: "calm n n' \<Longrightarrow> calm n' n'' \<Longrightarrow> calm n n''"
  unfolding calm_def by (metis order_trans)

lemma calm_frame: "frame n n' \<Longrightarrow> calm n n'"
  by (simp add: calm_def frameD(10) in_queue_frame)

lemma calm_same: "nd_auto_exit n' = nd_auto_exit n \<Longrightarrow> nd_thread n' = nd_thread n \<Longrightarrow> calm n n'"
  by (simp add: calm_def in_queue_def)

lemma send_info_frame:
  assumes "send_info env b n = Inr n'"
  shows "frame n n'"
proof -
  have one: "frame m m'" if "send_one_info env info m = Inr m'" for info m m'
    using that by (auto simp: send_one_info_def exec_simps dest: node_mail_frame)
  from assms obtain m where m: "frame (update_time env n) m"
      "exec_foldl (\<lambda>n peer. if \<not> b \<and> \<not> n_alive (snd peer) then Inr n else send_one_info env (snd peer) n) m (nd_latest m) = Inr n'"
    by (auto simp: send_info_def Let_def exec_simps dest: one)
  have "frame m n'"
    by (rule exec_foldl_invariant [OF m(2), where P = "frame m"]) (auto split: if_splits intro: frame_trans dest: one)
  with m(1) show ?thesis using frame_update_time frame_trans by blast
qed

lemma calm_buffers:
  assumes "nd_auto_exit n' = nd_auto_exit n"
    and "\<And>l b. map_of (th_buffers (nd_thread n')) l = Some b \<Longrightarrow> bf_in b = [] \<or> map_of (th_buffers (nd_thread n)) l = Some b"
  shows "calm n n'"
proof -
  have "set (in_queue l n') \<subseteq> set (in_queue l n)" for l
    using assms(2) [of l] by (cases "map_of (th_buffers (nd_thread n')) l") (auto simp: in_queue_def)
  then show ?thesis using assms(1) by (simp add: calm_def)
qed

lemma adopt_calm:
  assumes "adopt_remote env r l mode m = Inr m'"
  shows "calm m m'"
proof -
  from assms obtain m1 m2 where m: "remote_new env r l mode m = Inr m1" "node_register r m1 = Inr m2"
      "send_info env False (m2\<lparr>nd_remotes := nd_remotes m2 @ [r]\<rparr>) = Inr m'"
    by (auto simp: adopt_remote_def exec_simps)
  have 1: "calm m m1"
    by (rule calm_buffers)
       (use m(1) in \<open>auto simp: remote_new_def Let_def exec_simps add_socket_def put_box_def buffer_new_def AList.update_conv' split: if_splits\<close>)
  have 2: "calm m1 (m2\<lparr>nd_remotes := nd_remotes m2 @ [r]\<rparr>)"
    by (rule calm_same) (use m(2) in \<open>auto simp: node_register_def exec_simps\<close>)
  show ?thesis using 1 2 calm_frame [OF send_info_frame [OF m(3)]] calm_trans by blast
qed

lemma server_connection_calm:
  assumes "server_connection env r l base c n = Inr n'"
  shows "calm n n'"
proof -
  have put: "calm n (put_link l s n)" for s by (rule calm_buffers) (simp_all add: put_link_def)
  note adopt = calm_trans [OF put adopt_calm]
  from assms obtain ret :: void_result and s where
    "(if \<not> to_bool ret then exec_bind (tcp_transport_destroy s) (\<lambda>s'. Inr (put_link l s' n))
      else adopt_remote env r l Allow_internal (put_link l s n)) = Inr n'"
    unfolding server_connection_def exec_bind_Inr_iff case_prod_beta by (elim exE conjE) (rule that)
  then show ?thesis using adopt put by (cases "to_bool ret") (auto simp: exec_simps)
qed

lemma server_disconnection_calm:
  assumes "server_disconnection env c n = Inr n'"
  shows "calm n n'"
proof -
  have marks: "frame m (foldl mark_dead m is)" for m :: "('a, 'b) node" and "is" by (rule frame_mark_all)
  have shut: "calm m m'" if sh: "remote_shutdown env r m = Inr m'" for r m m'
  proof -
    obtain rn where rn: "nd_remote_at m r = Some rn" using sh by (auto simp: remote_shutdown_def exec_simps)
    show ?thesis
    proof (cases "rn_link rn = null_tp")
      case True
      then show ?thesis using sh rn by (simp add: remote_shutdown_def calm_same)
    next
      case False
      then obtain ret t s where t: "remove_socket (ne_dbg env) (rn_link rn) (nd_thread m) = Inr (ret, t)"
          "m' = m\<lparr>nd_thread := t\<lparr>th_link := s\<rparr>, nd_remote_at := (nd_remote_at m)(r \<mapsto> rn\<lparr>rn_link := null_tp\<rparr>)\<rparr>"
        using sh rn unfolding remote_shutdown_def by (auto simp: exec_bind_Inr_iff)
      have "map_of (th_buffers t) l = Some b \<Longrightarrow> map_of (th_buffers (nd_thread m)) l = Some b" for l b
        using t(1) by (auto simp: remove_socket_def exec_simps AList.delete_conv' split: if_splits)
      then show ?thesis by (intro calm_buffers) (simp_all add: t(2))
    qed
  qed
  have drop: "calm m m'" if d: "drop_remote env r m = Inr m'" for r m m'
  proof -
    from d obtain m1 where m1: "remote_shutdown env r m = Inr m1" "nd_auto_exit m' = nd_auto_exit m1" "nd_thread m' = nd_thread m1"
      by (auto simp: drop_remote_def remote_delete_def exec_simps)
    show ?thesis by (rule calm_trans [OF shut [OF m1(1)] calm_same [OF m1(2,3)]])
  qed
  have un: "calm m m'" if "node_unregister r m = Inr m'" for r m m'
    by (rule calm_same) (use that in \<open>auto simp: node_unregister_def exec_simps\<close>)
  have one: "calm m m'" if "disconnect_remote env c m r = Inr m'" for r m m'
    using that calm_trans [OF un calm_trans [OF calm_frame [OF marks] drop]]
    by (auto simp: disconnect_remote_def exec_simps calm_same split: if_splits)
  from assms obtain m where m: "exec_foldl (disconnect_remote env c) n (nd_remotes n) = Inr m" "send_info env True m = Inr n'"
    by (auto simp: server_disconnection_def exec_simps)
  have "calm n m" by (rule exec_foldl_invariant [OF m(1), where P = "calm n"]) (auto intro: calm_same calm_trans one)
  then show ?thesis using calm_frame [OF send_info_frame [OF m(2)]] calm_trans by blast
qed

subsection \<open>The contract\<close>

text \<open>
  \<open>sk c\<close> is the socket the client \<open>c\<close> is accepted with, \<open>addr c\<close> the addresses its remote and its
  transport get.
\<close>

definition gw_good :: "('b, 'u) node_env \<Rightarrow> (nat \<Rightarrow> u64 \<times> tp) \<Rightarrow> (nat \<Rightarrow> tcp_socket) \<Rightarrow> bool \<times> nat \<times> nat \<Rightarrow>
    ('b, 'u) node \<Rightarrow> bool" where
  "gw_good env addr sk e n \<longleftrightarrow> users_return env \<and> node_ok n \<and>
     (case e of (b, this, c) \<Rightarrow>
        if b then fresh_box (nd_dave n) (fst (addr c)) \<and> snd (addr c) \<noteq> null_tp \<and>
          map_of (th_buffers (nd_thread n)) (snd (addr c)) = None \<and> is_open (sk c) \<and> associated_address (sk c) \<noteq> None
        else \<forall>r \<in> set (nd_remotes n). socket_of n r = Some c \<longrightarrow> transport_sound n r)"

definition connected :: "(nat \<Rightarrow> u64 \<times> tp) \<Rightarrow> (nat \<Rightarrow> tcp_socket) \<Rightarrow> nat \<Rightarrow> ('b, 'u) node \<Rightarrow> ('b, 'u) node \<Rightarrow> bool" where
  "connected addr sk c n n' \<longleftrightarrow> nd_remotes n' = nd_remotes n @ [fst (addr c)] \<and>
     nd_remote_at n' (fst (addr c)) = Some \<lparr>rn_mode = Allow_internal, rn_link = snd (addr c), rn_ids = {}\<rparr> \<and>
     socket_of n' (fst (addr c)) = Some c \<and> transport_sound n' (fst (addr c)) \<and>
     \<not> tt_owns (tl_transport (th_link (nd_thread n') (snd (addr c)))) \<and>
     tl_heap (th_link (nd_thread n') (snd (addr c))) c = Some (sk c) \<and>
     map fst (th_buffers (nd_thread n')) = map fst (th_buffers (nd_thread n)) @ [snd (addr c)] \<and>
     members (nd_dave n') = (members (nd_dave n))(topic_any := insert (fst (addr c)) (members (nd_dave n) topic_any)) \<and>
     (\<forall>x. x \<noteq> fst (addr c) \<longrightarrow> nd_remote_at n' x = nd_remote_at n x) \<and>
     (\<forall>x. x \<noteq> snd (addr c) \<longrightarrow> th_link (nd_thread n') x = th_link (nd_thread n) x)"

definition gw_effect :: "(nat \<Rightarrow> u64 \<times> tp) \<Rightarrow> (nat \<Rightarrow> tcp_socket) \<Rightarrow> bool \<times> nat \<times> nat \<Rightarrow> ('b, 'u) node \<Rightarrow> ('b, 'u) node \<Rightarrow> bool" where
  "gw_effect addr sk e n n' \<longleftrightarrow> node_ok n' \<and> calm n n' \<and>
     (case e of (b, this, c) \<Rightarrow>
        if b then connected addr sk c n n'
        else nd_remotes n' = filter (\<lambda>r. socket_of n r \<noteq> Some c) (nd_remotes n) \<and> shrinks n n')"

lemma gw_events:
  "gw_good env addr sk (False, this, c) n \<longleftrightarrow> users_return env \<and> node_ok n \<and>
     (\<forall>r \<in> set (nd_remotes n). socket_of n r = Some c \<longrightarrow> transport_sound n r)"
  "gw_good env addr sk (True, this, c) n \<longleftrightarrow> users_return env \<and> node_ok n \<and>
     fresh_box (nd_dave n) (fst (addr c)) \<and> snd (addr c) \<noteq> null_tp \<and>
     map_of (th_buffers (nd_thread n)) (snd (addr c)) = None \<and> is_open (sk c) \<and> associated_address (sk c) \<noteq> None"
  "gw_effect addr sk (False, this, c) n n' \<longleftrightarrow> node_ok n' \<and> calm n n' \<and>
     nd_remotes n' = filter (\<lambda>r. socket_of n r \<noteq> Some c) (nd_remotes n) \<and> shrinks n n'"
  "gw_effect addr sk (True, this, c) n n' \<longleftrightarrow> node_ok n' \<and> calm n n' \<and> connected addr sk c n n'"
  by (simp_all add: gw_good_def gw_effect_def)

interpretation gw: server_listener "node_notify env addr" "\<lambda>c s. s = sk c" "gw_good env addr sk" "gw_effect addr sk"
  for env :: "('b, 'u) node_env" and addr sk
proof
  fix b l c s and sv :: "('b, 'u) node tcp_server"
  let ?n = "sv_world sv"
  assume good: "gw_good env addr sk (b, l, c) ?n" and heap: "sv_heap sv c = Some s" and fit: "b \<longrightarrow> s = sk c"
  show "\<exists>w. node_notify env addr b l c sv = Inr (sv\<lparr>sv_world := w\<rparr>) \<and> gw_effect addr sk (b, l, c) ?n w"
  proof (cases b)
    case True
    define base where "base = (th_link (nd_thread ?n) (snd (addr c)))\<lparr>tl_heap := sv_heap sv, tl_kernel := sv_kernel sv, tl_in := sv_in sv c\<rparr>"
    have base: "tl_heap base c = Some s" "is_open s" using good heap fit True by (simp_all add: base_def gw_good_def)
    from good fit True obtain a where a: "associated_address s = Some a" by (auto simp: gw_good_def)
    from good True have g: "node_ok ?n" "users_return env" "fresh_box (nd_dave ?n) (fst (addr c))" "snd (addr c) \<noteq> null_tp"
        "map_of (th_buffers (nd_thread ?n)) (snd (addr c)) = None" by (simp_all add: gw_good_def)
    obtain n' where n': "server_connection env (fst (addr c)) (snd (addr c)) base c ?n = Inr n'" "node_ok n'"
        "connected addr sk c ?n n'"
      using server_connection_ok [OF g base a] base(1) fit True
      by (elim exE conjE) (rule that, (assumption | simp add: connected_def)+)
    then show ?thesis
      using True by (intro exI [of _ n']) (simp add: node_notify_def Let_def base_def [symmetric] gw_effect_def server_connection_calm [OF n'(1)])
  next
    case False
    then have g: "node_ok ?n" "users_return env" "\<forall>r \<in> set (nd_remotes ?n). socket_of ?n r = Some c \<longrightarrow> transport_sound ?n r"
      using good by (simp_all add: gw_good_def)
    from server_disconnection_ok [OF g] obtain n' where
      "server_disconnection env c ?n = Inr n'" "node_ok n'" "shrinks ?n n'"
      "nd_remotes n' = filter (\<lambda>r. socket_of ?n r \<noteq> Some c) (nd_remotes ?n)"
      by (elim exE conjE) (rule that, assumption+, simp)
    then show ?thesis
      using False server_disconnection_calm by (intro exI [of _ n']) (simp add: node_notify_def Let_def gw_effect_def)
  qed
qed

subsection \<open>Sequences of events\<close>

lemma shrinks_same: "shrinks n m \<Longrightarrow> r \<in> set (nd_remotes m) \<Longrightarrow> same_remote n m r"
  by (simp add: shrinks_def)

lemma gone_run:
  assumes "run_to (gw_effect addr sk) (map (\<lambda>c. (False, this, c)) cs) n n'" and "node_ok n"
  shows "node_ok n' \<and> calm n n' \<and> shrinks n n' \<and> nd_remotes n' = filter (\<lambda>r. \<forall>c \<in> set cs. socket_of n r \<noteq> Some c) (nd_remotes n)"
  using assms
proof (induction cs arbitrary: n)
  case Nil
  then show ?case by (simp add: shrinks_refl calm_same)
next
  case (Cons c cs)
  then obtain m where m: "node_ok m" "nd_remotes m = filter (\<lambda>r. socket_of n r \<noteq> Some c) (nd_remotes n)" "shrinks n m"
      "run_to (gw_effect addr sk) (map (\<lambda>c. (False, this, c)) cs) m n'" "calm n m"
    by (auto simp: gw_events)
  from Cons.IH [OF m(4,1)] have n': "node_ok n'" "shrinks m n'" "calm m n'"
      and rs: "nd_remotes n' = filter (\<lambda>r. \<forall>c \<in> set cs. socket_of m r \<noteq> Some c) (nd_remotes m)" by auto
  have "socket_of m r = socket_of n r" if "r \<in> set (nd_remotes m)" for r
    using same_remoteD(2) [OF shrinks_same [OF m(3) that]] .
  then have "nd_remotes n' = filter (\<lambda>r. \<forall>c \<in> set cs. socket_of n r \<noteq> Some c) (nd_remotes m)"
    unfolding rs by (intro filter_cong) simp_all
  then show ?case using n'(1) shrinks_trans [OF m(3) n'(2)] calm_trans [OF m(5) n'(3)] by (auto simp: m(2) conj_commute)
qed

lemma gone_safe:
  assumes "node_ok n" and "users_return env" and "\<forall>r \<in> set (nd_remotes n). transport_sound n r"
  shows "safe_run (gw_good env addr sk) (gw_effect addr sk) (map (\<lambda>c. (False, this, c)) cs) n"
  using assms
proof (induction cs arbitrary: n)
  case (Cons c cs)
  have "safe_run (gw_good env addr sk) (gw_effect addr sk) (map (\<lambda>c. (False, this, c)) cs) m"
    if m: "gw_effect addr sk (False, this, c) n m" for m
  proof (rule Cons.IH)
    have sh: "shrinks n m" using m by (simp add: gw_events)
    show "\<forall>r \<in> set (nd_remotes m). transport_sound m r"
    proof
      fix r assume r: "r \<in> set (nd_remotes m)"
      then have "same_remote n m r" "r \<in> set (nd_remotes n)" using sh by (auto simp: shrinks_def)
      then show "transport_sound m r" using same_remoteD(3) Cons.prems(3) by blast
    qed
  qed (use m Cons.prems in \<open>simp_all add: gw_events\<close>)
  then show ?case using Cons.prems by (simp add: gw_events)
qed simp

text \<open>The addresses of connections that wait: not in use and apart from each other.\<close>

definition apart :: "(nat \<Rightarrow> u64 \<times> tp) \<Rightarrow> nat list \<Rightarrow> ('b, 'u) node \<Rightarrow> bool" where
  "apart addr cs n \<longleftrightarrow> distinct (map (\<lambda>c. box_key (fst (addr c))) cs) \<and> distinct (map (\<lambda>c. snd (addr c)) cs) \<and>
     (\<forall>c \<in> set cs. fresh_box (nd_dave n) (fst (addr c)) \<and> snd (addr c) \<noteq> null_tp \<and>
        map_of (th_buffers (nd_thread n)) (snd (addr c)) = None)"

lemma fresh_shrinks: "fresh_box (nd_dave n) r \<Longrightarrow> shrinks n n' \<Longrightarrow> fresh_box (nd_dave n') r"
  unfolding shrinks_def fresh_box_def by blast

lemma apart_shrinks: "apart addr cs n \<Longrightarrow> shrinks n n' \<Longrightarrow> apart addr cs n'"
  using fresh_shrinks [of n _ n'] by (simp add: apart_def) (simp add: shrinks_def)

lemma apart_connected:
  assumes "apart addr (c # cs) n" and "connected addr sk c n m"
  shows "apart addr cs m"
proof -
  have "fresh_box (nd_dave m) (fst (addr d)) \<and> map_of (th_buffers (nd_thread m)) (snd (addr d)) = None" if "d \<in> set cs" for d
  proof -
    have "map_of (th_buffers (nd_thread n)) (snd (addr d)) = None" "fresh_box (nd_dave n) (fst (addr d))"
      using assms(1) that by (simp_all add: apart_def)
    moreover have "snd (addr c) \<notin> (\<lambda>c. snd (addr c)) ` set cs" "box_key (fst (addr c)) \<notin> (\<lambda>c. box_key (fst (addr c))) ` set cs"
      using assms(1) by (simp_all add: apart_def)
    then have "snd (addr d) \<noteq> snd (addr c)" "box_key (fst (addr d)) \<noteq> box_key (fst (addr c))"
      using that by (metis image_eqI)+
    moreover have "members (nd_dave m) = (members (nd_dave n))(topic_any := insert (fst (addr c)) (members (nd_dave n) topic_any))"
      and keys: "map fst (th_buffers (nd_thread m)) = map fst (th_buffers (nd_thread n)) @ [snd (addr c)]"
      using assms(2) by (simp_all add: connected_def)
    moreover have "fst ` set (th_buffers (nd_thread m)) = insert (snd (addr c)) (fst ` set (th_buffers (nd_thread n)))"
      using arg_cong [OF keys, of set] by simp
    ultimately show ?thesis by (simp add: fresh_box_def map_of_eq_None_iff)
  qed
  then show ?thesis using assms(1) by (simp add: apart_def)
qed

lemma come_safe:
  assumes "node_ok n" and "users_return env" and "apart addr cs n"
    and "\<forall>c \<in> set cs. is_open (sk c) \<and> associated_address (sk c) \<noteq> None"
  shows "safe_run (gw_good env addr sk) (gw_effect addr sk) (map (\<lambda>c. (True, this, c)) cs) n"
  using assms
proof (induction cs arbitrary: n)
  case (Cons c cs)
  have "safe_run (gw_good env addr sk) (gw_effect addr sk) (map (\<lambda>c. (True, this, c)) cs) m"
    if m: "gw_effect addr sk (True, this, c) n m" for m
    by (rule Cons.IH) (use m Cons.prems apart_connected [OF Cons.prems(3), of sk m] in \<open>simp_all add: gw_events\<close>)
  then show ?case using Cons.prems by (simp add: gw_events apart_def)
qed simp

lemma connected_same:
  assumes "node_ok n" and "fresh_box (nd_dave n) (fst (addr c))" and "map_of (th_buffers (nd_thread n)) (snd (addr c)) = None"
    and "connected addr sk c n m" and "x \<in> set (nd_remotes n)"
  shows "same_remote n m x" and "x \<noteq> fst (addr c)"
proof -
  have w: "node_wired n" using assms(1) by (simp add: node_ok_def)
  note live = node_wiredD(1) [OF w]
  have "x \<in> members (nd_dave n) topic_any" using node_wiredD(8) [OF w] assms(5) by (simp add: remotes_wired_def)
  then show "x \<noteq> fst (addr c)" using assms(2) by (auto simp: fresh_box_def)
  moreover obtain rn b where "nd_remote_at n x = Some rn" "map_of (th_buffers (nd_thread n)) (rn_link rn) = Some b"
    using node_liveD(4) [OF live assms(5)] by blast
  moreover from this(2) have "rn_link rn \<noteq> snd (addr c)" using assms(3) by auto
  ultimately show "same_remote n m x" using assms(3,4) by (auto simp: same_remote_def connected_def)
qed

text \<open>What a connection leaves behind, whatever connections follow it.\<close>

definition client_of :: "(nat \<Rightarrow> u64 \<times> tp) \<Rightarrow> (nat \<Rightarrow> tcp_socket) \<Rightarrow> ('b, 'u) node \<Rightarrow> nat \<Rightarrow> bool" where
  "client_of addr sk n c \<longleftrightarrow> (\<exists>rn. nd_remote_at n (fst (addr c)) = Some rn \<and>
     \<not> tt_owns (tl_transport (th_link (nd_thread n) (rn_link rn))) \<and>
     tl_heap (th_link (nd_thread n) (rn_link rn)) c = Some (sk c)) \<and>
     socket_of n (fst (addr c)) = Some c \<and> transport_sound n (fst (addr c))"

lemma come_run:
  assumes "run_to (gw_effect addr sk) (map (\<lambda>c. (True, this, c)) cs) n n'" and "node_ok n" and "apart addr cs n"
  shows "node_ok n' \<and> calm n n' \<and> nd_remotes n' = nd_remotes n @ map (\<lambda>c. fst (addr c)) cs \<and>
    (\<forall>x \<in> set (nd_remotes n). same_remote n n' x) \<and> (\<forall>c \<in> set cs. client_of addr sk n' c)"
  using assms
proof (induction cs arbitrary: n)
  case Nil
  then show ?case by (simp add: same_remote_def calm_same)
next
  case (Cons c cs)
  then obtain m where m: "node_ok m" "connected addr sk c n m"
      "run_to (gw_effect addr sk) (map (\<lambda>c. (True, this, c)) cs) m n'" "calm n m"
    by (auto simp: gw_events)
  have rm: "nd_remotes m = nd_remotes n @ [fst (addr c)]" using m(2) by (simp add: connected_def)
  from Cons.IH [OF m(3,1) apart_connected [OF Cons.prems(3) m(2)]] have n': "node_ok n'"
      "nd_remotes n' = nd_remotes m @ map (\<lambda>c. fst (addr c)) cs"
      "\<And>x. x \<in> set (nd_remotes m) \<Longrightarrow> same_remote m n' x" "\<forall>c \<in> set cs. client_of addr sk n' c" "calm m n'"
    by auto
  have "same_remote n n' x" if "x \<in> set (nd_remotes n)" for x
    using connected_same(1) [OF Cons.prems(2) _ _ m(2) that] n'(3) [of x] Cons.prems(3) that rm
    by (auto simp: apart_def intro: same_remote_trans)
  moreover have "client_of addr sk n' c"
    using same_remoteD [OF n'(3) [of "fst (addr c)"]] rm m(2) by (simp add: client_of_def connected_def)
  ultimately show ?case using n' rm calm_trans [OF m(4) n'(5)] by simp
qed

subsection \<open>A turn\<close>

lemma destroy_sound:
  "(\<exists>s. tcp_transport_destroy l = Inr s) \<longleftrightarrow> (\<forall>a. tt_socket (tl_transport l) = Some a \<longrightarrow> tl_heap l a \<noteq> None)"
  by (cases "tt_socket (tl_transport l)")
     (auto simp: tcp_transport_destroy_def tcp_transport_close_def deref_def Let_def split: option.splits prod.splits)

lemma round_events_one:
  assumes "sv_listeners sv = [this]"
  shows "round_events sv as =
    map (\<lambda>c. (False, this, c)) (filter (\<lambda>c. \<not> client_stays sv c) (sv_clients sv)) @ map (\<lambda>c. (True, this, c)) (map fst as)"
proof -
  have "concat (map (\<lambda>c. if client_stays sv c then [] else [(False, this, c)]) cs) =
      map (\<lambda>c. (False, this, c)) (filter (\<lambda>c. \<not> client_stays sv c) cs)" for cs
    by (induction cs) simp_all
  moreover have "concat (map (\<lambda>(c, _). [(True, this, c)]) as) = map (\<lambda>c. (True, this, c)) (map fst as)"
    by (induction "as") auto
  ultimately show ?thesis using assms by (simp add: round_events_def cong: if_cong)
qed

text \<open>
  The client sockets, the links and the remotes agree: every client has exactly one remote, and
  what the server sees of the clients is in order.
\<close>

definition one_remote :: "('b, 'u) node \<Rightarrow> bool" where
  "one_remote n \<longleftrightarrow> (\<forall>r \<in> set (nd_remotes n). \<forall>r' \<in> set (nd_remotes n). \<forall>c.
     socket_of n r = Some c \<longrightarrow> socket_of n r' = Some c \<longrightarrow> r = r')"

definition gateway_ok :: "nat \<Rightarrow> ('b, 'u) node \<Rightarrow> bool" where
  "gateway_ok this n \<longleftrightarrow> node_ok n \<and> (\<forall>r \<in> set (nd_remotes n). transport_sound n r) \<and> one_remote n \<and>
     (\<exists>sv. nd_server n = Some sv \<and> sv_listeners sv = [this] \<and> is_open (sv_socket sv) \<and> server_inv (client_view n sv) \<and>
       (\<forall>c \<in> set (sv_clients sv). \<exists>r \<in> set (nd_remotes n). socket_of n r = Some c))"

text \<open>The socket a waiting connection is accepted with.\<close>

definition accepted :: "resolver \<Rightarrow> (nat \<times> int \<times> sockaddr_in) list \<Rightarrow> nat \<Rightarrow> tcp_socket" where
  "accepted rs waiting c = (case map_of waiting c of None \<Rightarrow> tcp_socket_new
     | Some (r, a) \<Rightarrow> \<lparr>sk_fd = r, associated_address = sockaddr_to_socket_address rs a\<rparr>)"

text \<open>
  The connections that wait come with descriptors that no client which stays has and in sockets at
  addresses that no remote uses; both may be those of a client that goes in the same turn.
\<close>

definition waiting_ok :: "(nat \<Rightarrow> u64 \<times> tp) \<Rightarrow> ('b, 'u) node \<Rightarrow> (nat \<times> int \<times> sockaddr_in) list \<Rightarrow> bool" where
  "waiting_ok addr n waiting \<longleftrightarrow> distinct (map fst waiting) \<and> distinct (map (\<lambda>(c, r, a). r) waiting) \<and>
     (\<forall>(c, r, a) \<in> set waiting. 0 \<le> r) \<and> apart addr (map fst waiting) n \<and>
     (\<forall>sv v. nd_server n = Some sv \<longrightarrow> v = client_view n sv \<longrightarrow>
       (\<forall>(c, r, a) \<in> set waiting.
         (\<forall>x \<in> set (nd_remotes n). socket_of n x = Some c \<longrightarrow> c \<in> set (sv_clients sv) \<and> \<not> client_stays v c) \<and>
         (\<forall>d \<in> set (sv_clients sv). \<forall>s. client_stays v d \<longrightarrow> sv_heap v d = Some s \<longrightarrow> sk_fd s \<noteq> r)))"

lemma client_link_eq:
  assumes "one_remote n" and "r \<in> set (nd_remotes n)" and "socket_of n r = Some c" and "nd_remote_at n r = Some rn"
  shows "client_link n c = Some (th_link (nd_thread n) (rn_link rn))"
proof -
  have "r \<in> set (filter (\<lambda>r. socket_of n r = Some c) (nd_remotes n))" using assms(2,3) by simp
  then obtain x xs where x: "filter (\<lambda>r. socket_of n r = Some c) (nd_remotes n) = x # xs"
    by (cases "filter (\<lambda>r. socket_of n r = Some c) (nd_remotes n)") auto
  then have "x \<in> set (filter (\<lambda>r. socket_of n r = Some c) (nd_remotes n))" by simp
  then have "x = r" using assms(1-3) by (auto simp: one_remote_def)
  with x assms(4) show ?thesis by (simp add: client_link_def)
qed

lemma accepted_of:
  "distinct (map fst waiting) \<Longrightarrow> (c, r, a) \<in> set waiting \<Longrightarrow>
   accepted rs waiting c = \<lparr>sk_fd = r, associated_address = sockaddr_to_socket_address rs a\<rparr>"
  by (simp add: accepted_def)

text \<open>
  What the server's update does in a state where the gateway is in order: the clients and their
  sockets, and the remotes of the node after the disconnections (\<open>m\<close>) and at the end.
\<close>

definition turned :: "(nat \<Rightarrow> u64 \<times> tp) \<Rightarrow> (nat \<Rightarrow> tcp_socket) \<Rightarrow> nat list \<Rightarrow> ('b, 'u) node tcp_server \<Rightarrow>
    ('b, 'u) node \<Rightarrow> ('b, 'u) node tcp_server \<Rightarrow> bool" where
  "turned addr sk cs v m v' \<longleftrightarrow>
     sv_clients v' = filter (client_stays v) (sv_clients v) @ cs \<and>
     (\<forall>c. c \<notin> set cs \<longrightarrow> sv_heap v' c = (if c \<in> set (sv_clients v) \<and> \<not> client_stays v c then None else sv_heap v c)) \<and>
     (\<forall>c \<in> set cs. sv_heap v' c = Some (sk c)) \<and>
     sv_listeners v' = sv_listeners v \<and> sv_socket v' = sv_socket v \<and> shrinks (sv_world v) m \<and>
     nd_remotes m = filter (\<lambda>r. \<forall>c \<in> set (sv_clients v). socket_of (sv_world v) r = Some c \<longrightarrow> client_stays v c)
       (nd_remotes (sv_world v)) \<and>
     node_ok (sv_world v') \<and> calm (sv_world v) (sv_world v') \<and> nd_remotes (sv_world v') = nd_remotes m @ map (\<lambda>c. fst (addr c)) cs \<and>
     (\<forall>x \<in> set (nd_remotes m). same_remote m (sv_world v') x) \<and>
     (\<forall>c \<in> set cs. client_of addr sk (sv_world v') c)"

lemma client_view_simps [simp]:
  "sv_clients (client_view n sv) = sv_clients sv" "sv_listeners (client_view n sv) = sv_listeners sv"
  "sv_socket (client_view n sv) = sv_socket sv" "sv_world (client_view n sv) = n" "sv_heap (client_view n sv) = client_socket n sv"
  by (simp_all add: client_view_def server_with_def)

lemma server_with_simps [simp]:
  "sv_clients (server_with w sv) = sv_clients sv" "sv_listeners (server_with w sv) = sv_listeners sv"
  "sv_socket (server_with w sv) = sv_socket sv"
  by (simp_all add: server_with_def)

lemma gateway_round:
  assumes ok: "gateway_ok this n" and users: "users_return env" and w: "waiting_ok addr n waiting" and sv: "nd_server n = Some sv"
  defines "v \<equiv> client_view n sv" and "sk \<equiv> accepted (ne_resolver env) waiting"
  obtains sv' m where "server_spin_update (ne_strerror env) (ne_resolver env) (node_notify env addr) waiting v = Inr (success, sv')"
    and "turned addr sk (map fst waiting) v m sv'"
proof -
  let ?gone = "map (\<lambda>c. (False, this, c)) (filter (\<lambda>c. \<not> client_stays v c) (sv_clients sv))"
  let ?come = "map (\<lambda>c. (True, this, c)) (map fst waiting)"
  have g: "node_ok n" "\<forall>r \<in> set (nd_remotes n). transport_sound n r" "sv_listeners sv = [this]" "is_open (sv_socket sv)" "server_inv v"
    using ok sv by (auto simp: gateway_ok_def v_def)
  have same: "sv_clients v = sv_clients sv" "sv_listeners v = [this]" "sv_socket v = sv_socket sv" "sv_world v = n"
    using g(3) by (simp_all add: v_def)
  have d: "distinct (map fst waiting)" "apart addr (map fst waiting) n" and r: "\<forall>(c, r, a) \<in> set waiting. 0 \<le> r"
    using w by (simp_all add: waiting_ok_def)
  have sk: "sk c = \<lparr>sk_fd = r, associated_address = sockaddr_to_socket_address (ne_resolver env) a\<rparr>"
    if "(c, r, a) \<in> set waiting" for c r a using accepted_of [OF d(1) that] by (simp add: sk_def)
  have "is_open (sk c) \<and> associated_address (sk c) \<noteq> None" if "c \<in> set (map fst waiting)" for c
    using that r sk by (force simp: is_open_def sockaddr_to_socket_address_def)
  then have skc: "\<forall>c \<in> set (map fst waiting). is_open (sk c) \<and> associated_address (sk c) \<noteq> None" by blast
  have "safe_run (gw_good env addr sk) (gw_effect addr sk) ?come m" if "run_to (gw_effect addr sk) ?gone n m" for m
    using gone_run [OF that g(1)] come_safe [OF _ users apart_shrinks [OF d(2)] skc] by blast
  then have safe: "safe_run (gw_good env addr sk) (gw_effect addr sk) (round_events v waiting) (sv_world v)"
    using gone_safe [OF g(1) users g(2)] by (simp add: round_events_one [OF same(2)] same safe_run_append del: map_map)
  have opn: "is_open (sv_socket v)" using g(4) same(3) by simp
  have "\<forall>(c, r, a) \<in> set waiting. 0 \<le> r \<and> \<lparr>sk_fd = r, associated_address = sockaddr_to_socket_address (ne_resolver env) a\<rparr> = sk c"
    using r sk by auto
  from gw.server_round [OF g(5) opn this safe, of "ne_strerror env"] obtain sv' where
    sv': "server_spin_update (ne_strerror env) (ne_resolver env) (node_notify env addr) waiting v = Inr (success, sv')"
      "sv_clients sv' = filter (client_stays v) (sv_clients v) @ map fst waiting"
      "run_to (gw_effect addr sk) (round_events v waiting) (sv_world v) (sv_world sv')"
      "\<forall>c. c \<notin> fst ` set waiting \<longrightarrow> sv_heap sv' c = (if c \<in> set (sv_clients v) \<and> \<not> client_stays v c then None else sv_heap v c)"
      "\<forall>c \<in> fst ` set waiting. \<exists>r a. (c, r, a) \<in> set waiting \<and>
         sv_heap sv' c = Some \<lparr>sk_fd = r, associated_address = sockaddr_to_socket_address (ne_resolver env) a\<rparr>"
      "sv_listeners sv' = sv_listeners v" "sv_socket sv' = sv_socket v"
    by (elim exE conjE) (rule that, assumption+)
  have heap: "\<forall>c \<in> fst ` set waiting. sv_heap sv' c = Some (sk c)" using sv'(5) sk by metis
  from sv'(3) obtain m where m: "run_to (gw_effect addr sk) ?gone n m" "run_to (gw_effect addr sk) ?come m (sv_world sv')"
    by (auto simp: round_events_one [OF same(2)] same run_to_append simp del: map_map)
  from gone_run [OF m(1) g(1)] have 1: "node_ok m" "shrinks n m" and calm: "calm n m" and rs:
      "nd_remotes m = filter (\<lambda>r. \<forall>c \<in> set (filter (\<lambda>c. \<not> client_stays v c) (sv_clients sv)). socket_of n r \<noteq> Some c) (nd_remotes n)"
    by blast+
  have "nd_remotes m = filter (\<lambda>r. \<forall>c \<in> set (sv_clients sv). socket_of n r = Some c \<longrightarrow> client_stays v c) (nd_remotes n)"
    unfolding rs by (rule filter_cong) auto
  with calm_trans [OF calm] come_run [OF m(2) 1(1) apart_shrinks [OF d(2) 1(2)]]
  show thesis using sv' heap 1(1,2) same by (intro that [of sv' m]) (simp_all add: turned_def)
qed

text \<open>The end of the turn only touches what the links hold of the sockets.\<close>

lemma turn_end:
  assumes "n' = free_sockets F (client_events sv' (w\<lparr>nd_server := x\<rparr>))"
  shows "nd_server n' = x" and "nd_remotes n' = nd_remotes w" and "nd_remote_at n' = nd_remote_at w"
    and "socket_of n' r = socket_of w r"
    and "tl_heap (th_link (nd_thread n') l) a = (if a \<in> F then None else tl_heap (th_link (nd_thread w) l) a)"
    and "node_ok w \<Longrightarrow> node_ok n'"
    and "transport_sound w r \<Longrightarrow> (\<And>a. socket_of w r = Some a \<Longrightarrow> a \<notin> F) \<Longrightarrow> transport_sound n' r"
proof -
  show s: "nd_remotes n' = nd_remotes w" "nd_remote_at n' = nd_remote_at w" "nd_server n' = x"
      "socket_of n' r = socket_of w r"
    by (simp_all add: assms free_sockets_def client_events_def socket_of_def split: option.splits)
  show "tl_heap (th_link (nd_thread n') l) a = (if a \<in> F then None else tl_heap (th_link (nd_thread w) l) a)" for l a
    by (simp add: assms free_sockets_def client_events_def)
  then show "transport_sound n' r" if "transport_sound w r" "\<And>a. socket_of w r = Some a \<Longrightarrow> a \<notin> F"
    using that s(2)
    by (auto simp: transport_sound_def destroy_sound socket_of_def assms free_sockets_def client_events_def split: if_splits)
  show "node_ok n'" if "node_ok w"
    using wired_links [of w n'] that
    by (simp add: node_ok_def latest_ok_def s) (simp add: assms free_sockets_def client_events_def)
qed

lemma client_ofD:
  assumes "client_of addr sk n c"
  obtains rn where "nd_remote_at n (fst (addr c)) = Some rn" and "tl_heap (th_link (nd_thread n) (rn_link rn)) c = Some (sk c)"
    and "socket_of n (fst (addr c)) = Some c" and "transport_sound n (fst (addr c))"
  using assms by (auto simp: client_of_def)

text \<open>Every remote at the end has stayed or is new; none of them is on a socket that is gone.\<close>

definition gone_sockets :: "'w tcp_server \<Rightarrow> 'v tcp_server \<Rightarrow> nat set" where
  "gone_sockets v v' = {a. sv_heap v a \<noteq> None \<and> sv_heap v' a = None}"

text \<open>A new client's socket may only be where that of a client that goes has been.\<close>

definition sockets_free :: "nat list \<Rightarrow> ('b, 'u) node tcp_server \<Rightarrow> bool" where
  "sockets_free cs v \<longleftrightarrow> (\<forall>c \<in> set cs. \<forall>x \<in> set (nd_remotes (sv_world v)). socket_of (sv_world v) x = Some c \<longrightarrow>
     c \<in> set (sv_clients v) \<and> \<not> client_stays v c)"

lemma turned_gone:
  assumes "turned addr sk cs v m v'" and "c \<in> gone_sockets v v'"
  shows "c \<in> set (sv_clients v)" and "\<not> client_stays v c" and "c \<notin> set cs"
  using assms by (cases "c \<in> set cs"; auto simp: turned_def gone_sockets_def split: if_splits)+

lemma turned_old:
  assumes t: "turned addr sk cs v m v'" and r: "r \<in> set (nd_remotes m)"
    and w: "sockets_free cs v"
  shows "r \<in> set (nd_remotes (sv_world v))" and "same_remote (sv_world v) (sv_world v') r"
    and "socket_of (sv_world v) r = Some c \<Longrightarrow> c \<notin> gone_sockets v v' \<and> c \<notin> set cs"
proof -
  have rn: "r \<in> set (nd_remotes (sv_world v))" "\<forall>c \<in> set (sv_clients v). socket_of (sv_world v) r = Some c \<longrightarrow> client_stays v c"
    using t r by (simp_all add: turned_def)
  then show "r \<in> set (nd_remotes (sv_world v))" by blast
  have "shrinks (sv_world v) m" "same_remote m (sv_world v') r" using t r by (simp_all add: turned_def)
  from shrinks_same [OF this(1) r] this(2) show "same_remote (sv_world v) (sv_world v') r" by (rule same_remote_trans)
  show "c \<notin> gone_sockets v v' \<and> c \<notin> set cs" if "socket_of (sv_world v) r = Some c"
    using turned_gone [OF t, of c] w rn that unfolding sockets_free_def by blast
qed

lemma turned_remotes:
  assumes t: "turned addr sk cs v m v'" and r: "r \<in> set (nd_remotes (sv_world v'))"
    and w: "sockets_free cs v"
  obtains (old) "r \<in> set (nd_remotes m)" and "r \<in> set (nd_remotes (sv_world v))" and "same_remote (sv_world v) (sv_world v') r"
      and "\<And>c. socket_of (sv_world v') r = Some c \<Longrightarrow> socket_of (sv_world v) r = Some c \<and> c \<notin> gone_sockets v v' \<and> c \<notin> set cs"
  | (new) c where "c \<in> set cs" and "r = fst (addr c)" and "socket_of (sv_world v') r = Some c"
      and "transport_sound (sv_world v') r" and "c \<notin> gone_sockets v v'"
proof -
  have "r \<in> set (nd_remotes m) \<or> (\<exists>c \<in> set cs. r = fst (addr c))" using r t by (auto simp: turned_def)
  then show thesis
  proof (elim disjE bexE)
    assume m: "r \<in> set (nd_remotes m)"
    note o = turned_old [OF t m w]
    show thesis using o(3) same_remoteD(2) [OF o(2)] by (intro old [OF m o(1,2)]) simp_all
  next
    fix c assume c: "c \<in> set cs" "r = fst (addr c)"
    then have "client_of addr sk (sv_world v') c" using t by (simp add: turned_def)
    then show thesis using c turned_gone(3) [OF t] by (intro new) (auto elim: client_ofD)
  qed
qed

text \<open>The state at the end is in order again.\<close>

definition turn_over :: "('b, 'u) node tcp_server \<Rightarrow> ('b, 'u) node tcp_server \<Rightarrow> ('b, 'u) node" where
  "turn_over v v' = free_sockets (gone_sockets v v') (client_events v' ((sv_world v')\<lparr>nd_server := Some (server_with () v')\<rparr>))"

lemma turned_sound:
  assumes t: "turned addr sk cs v m v'" and sound: "\<forall>r \<in> set (nd_remotes (sv_world v)). transport_sound (sv_world v) r"
    and w: "sockets_free cs v"
    and r: "r \<in> set (nd_remotes (turn_over v v'))"
  shows "transport_sound (turn_over v v') r"
proof (rule turn_end(7) [OF turn_over_def])
  have r: "r \<in> set (nd_remotes (sv_world v'))" using r turn_end(2) [OF turn_over_def] by metis
  show "transport_sound (sv_world v') r"
    by (rule turned_remotes [OF t r w]) (use sound same_remoteD(3) [of "sv_world v" "sv_world v'" r] in \<open>auto; fail\<close>)+
  show "a \<notin> gone_sockets v v'" if "socket_of (sv_world v') r = Some a" for a
    by (rule turned_remotes [OF t r w]) (use that in \<open>auto; fail\<close>)+
qed

lemma turned_one:
  assumes t: "turned addr sk cs v m v'" and one: "one_remote (sv_world v)"
    and w: "sockets_free cs v"
  shows "one_remote (turn_over v v')"
  unfolding one_remote_def turn_end(2,4) [OF turn_over_def]
proof (intro ballI allI impI)
  fix r r' c assume r: "r \<in> set (nd_remotes (sv_world v'))" "r' \<in> set (nd_remotes (sv_world v'))"
    and s: "socket_of (sv_world v') r = Some c" "socket_of (sv_world v') r' = Some c"
  have cases: "(q \<in> set (nd_remotes (sv_world v)) \<and> socket_of (sv_world v) q = Some c \<and> c \<notin> set cs) \<or>
      (q = fst (addr c) \<and> c \<in> set cs)"
    if q: "q \<in> set (nd_remotes (sv_world v'))" "socket_of (sv_world v') q = Some c" for q
    by (rule turned_remotes [OF t q(1) w]) (use q(2) in \<open>auto; fail\<close>)+
  show "r = r'" using cases [OF r(1) s(1)] cases [OF r(2) s(2)] one unfolding one_remote_def by blast
qed

text \<open>Each client at the end has its remote, and the server sees its socket there.\<close>

lemma turned_kept:
  assumes t: "turned addr sk cs (client_view n sv) m v'" and one: "one_remote n" and ok: "node_ok n"
    and w: "sockets_free cs (client_view n sv)"
    and c: "c \<in> set (sv_clients sv)" "client_stays (client_view n sv) c" "\<exists>r \<in> set (nd_remotes n). socket_of n r = Some c"
  shows "\<exists>r \<in> set (nd_remotes (turn_over (client_view n sv) v')). socket_of (turn_over (client_view n sv) v') r = Some c"
    and "client_socket (turn_over (client_view n sv) v') (server_with () v') c = client_socket n sv c" and "c \<notin> set cs"
proof -
  let ?n = "turn_over (client_view n sv) v'"
  note e = turn_end [OF turn_over_def [of "client_view n sv" v']]
  obtain r where r: "r \<in> set (nd_remotes n)" "socket_of n r = Some c" using c(3) by blast
  obtain rn where rn: "nd_remote_at n r = Some rn" using r(2) by (auto simp: socket_of_def split: option.splits)
  have m: "r \<in> set (nd_remotes m)" using t r c(2) by (simp add: turned_def)
  have r': "r \<in> set (nd_remotes ?n)" using t m by (simp add: turned_def e(2))
  have old: "same_remote n (sv_world v') r" "c \<notin> gone_sockets (client_view n sv) v' \<and> c \<notin> set cs"
    using turned_old [OF t m] w r(2) by simp_all
  note s = same_remoteD [OF old(1)]
  have so: "socket_of ?n r = Some c" "nd_remote_at ?n r = Some rn" using s r(2) rn by (simp_all add: e)
  then show "\<exists>r \<in> set (nd_remotes ?n). socket_of ?n r = Some c" using r' by blast
  show "c \<notin> set cs" using old(2) by blast
  have "one_remote ?n" using turned_one [OF t] one w by simp
  from client_link_eq [OF this r' so] client_link_eq [OF one r rn]
  show "client_socket ?n (server_with () v') c = client_socket n sv c"
    using old(2) s(4) [OF rn] by (simp add: client_socket_def e(5))
qed

lemma turned_new:
  assumes t: "turned addr sk cs (client_view n sv) m v'" and one: "one_remote n"
    and w: "sockets_free cs (client_view n sv)"
    and c: "c \<in> set cs"
  shows "fst (addr c) \<in> set (nd_remotes (turn_over (client_view n sv) v'))"
    and "socket_of (turn_over (client_view n sv) v') (fst (addr c)) = Some c"
    and "client_socket (turn_over (client_view n sv) v') (server_with () v') c = Some (sk c)"
proof -
  let ?n = "turn_over (client_view n sv) v'"
  note e = turn_end [OF turn_over_def [of "client_view n sv" v']]
  have "client_of addr sk (sv_world v') c" using t c by (simp add: turned_def)
  then obtain rn where rn: "nd_remote_at (sv_world v') (fst (addr c)) = Some rn"
      "tl_heap (th_link (nd_thread (sv_world v')) (rn_link rn)) c = Some (sk c)" "socket_of (sv_world v') (fst (addr c)) = Some c"
    by (rule client_ofD) blast
  show r: "fst (addr c) \<in> set (nd_remotes ?n)" using t c by (simp add: turned_def e(2))
  show s: "socket_of ?n (fst (addr c)) = Some c" using rn(3) by (simp add: e(4))
  have "one_remote ?n" using turned_one [OF t] one w by simp
  moreover have "nd_remote_at ?n (fst (addr c)) = Some rn" using rn(1) by (simp add: e(3))
  ultimately show "client_socket ?n (server_with () v') c = Some (sk c)"
    using client_link_eq [OF _ r s] rn(2) turned_gone(3) [OF t, of c] c by (auto simp: client_socket_def e(5))
qed

lemma turned_inv:
  assumes t: "turned addr (accepted rs waiting) (map fst waiting) (client_view n sv) m v'"
    and ok: "gateway_ok this n" and sv: "nd_server n = Some sv" and w: "waiting_ok addr n waiting"
  shows "gateway_ok this (turn_over (client_view n sv) v')"
proof -
  let ?v = "client_view n sv" and ?n = "turn_over (client_view n sv) v'" and ?sv = "server_with () v'" and ?sk = "accepted rs waiting"
  note e = turn_end [OF turn_over_def [of "client_view n sv" v']]
  have g: "node_ok n" "\<forall>r \<in> set (nd_remotes n). transport_sound n r" "one_remote n" "is_open (sv_socket sv)" "server_inv ?v"
      "\<And>c. c \<in> set (sv_clients sv) \<Longrightarrow> \<exists>r \<in> set (nd_remotes n). socket_of n r = Some c" "sv_listeners sv = [this]"
    using ok sv by (auto simp: gateway_ok_def)
  have wt: "distinct (map fst waiting)" "distinct (map (\<lambda>(c, r, a). r) waiting)"
      "sockets_free (map fst waiting) ?v"
      "\<And>c r a d s. (c, r, a) \<in> set waiting \<Longrightarrow> d \<in> set (sv_clients sv) \<Longrightarrow> client_stays ?v d \<Longrightarrow>
        client_socket n sv d = Some s \<Longrightarrow> sk_fd s \<noteq> r"
    using w sv by (force simp: waiting_ok_def sockets_free_def)+
  have old: "client_socket ?n ?sv c = client_socket n sv c \<and> c \<notin> set (map fst waiting) \<and>
      (\<exists>r \<in> set (nd_remotes ?n). socket_of ?n r = Some c)" if "c \<in> set (sv_clients sv)" "client_stays ?v c" for c
    using turned_kept [OF t g(3,1) wt(3) that g(6) [OF that(1)]] by blast
  have new: "client_socket ?n ?sv c = Some \<lparr>sk_fd = r, associated_address = sockaddr_to_socket_address rs a\<rparr> \<and>
      (\<exists>x \<in> set (nd_remotes ?n). socket_of ?n x = Some c)" if "(c, r, a) \<in> set waiting" for c r a
  proof -
    from that have "c \<in> set (map fst waiting)" by force
    from turned_new [OF t g(3) wt(3) this] accepted_of [OF wt(1) that, of rs] show ?thesis by auto
  qed
  have clients: "sv_clients v' = filter (client_stays ?v) (sv_clients sv) @ map fst waiting" using t by (simp add: turned_def)
  have dist: "distinct (sv_clients v')" using g(5) wt(1) old by (auto simp: clients server_inv_def)
  have live: "client_socket ?n ?sv c \<noteq> None \<and> (\<exists>r \<in> set (nd_remotes ?n). socket_of ?n r = Some c)" if "c \<in> set (sv_clients v')" for c
    using that old [of c] new [of c] g(5) by (auto simp: clients server_inv_def)
  have apart: "sk_fd s \<noteq> sk_fd t"
    if cd: "c \<in> set (sv_clients v')" "d \<in> set (sv_clients v')" "c \<noteq> d" and st: "client_socket ?n ?sv c = Some s" "client_socket ?n ?sv d = Some t"
      and opn: "is_open s" "is_open t" for c d s t
  proof -
    have kk: "sk_fd s \<noteq> sk_fd t" if "c \<in> set (sv_clients sv)" "client_stays ?v c" "d \<in> set (sv_clients sv)" "client_stays ?v d"
      using g(5) old [OF that(1,2)] old [OF that(3,4)] st opn cd(3) that unfolding server_inv_def by auto
    have kn: "sk_fd s \<noteq> sk_fd t"
      if "client_socket ?n ?sv x = Some s" "client_socket ?n ?sv y = Some t" "x \<in> set (sv_clients sv)" "client_stays ?v x" "(y, r, a) \<in> set waiting"
      for x y r a s t using old [OF that(3,4)] new [OF that(5)] wt(4) [OF that(5,3,4)] that(1,2) by auto
    have nn: "sk_fd s \<noteq> sk_fd t" if "(c, r, a) \<in> set waiting" "(d, q, b) \<in> set waiting" for r a q b
    proof -
      have "r \<noteq> q" using wt(2) that cd(3) by (auto simp: distinct_map inj_on_def)
      then show ?thesis using new [OF that(1)] new [OF that(2)] st by auto
    qed
    show ?thesis using cd(1,2) kk nn kn [OF st] kn [OF st(2,1)] by (fastforce simp: clients)
  qed
  have "server_inv (client_view ?n ?sv)" using dist live apart by (simp add: server_inv_def)
  moreover have "is_open (sv_socket v')" "sv_listeners v' = [this]" "node_ok (sv_world v')" using t g(4,7) by (simp_all add: turned_def)
  ultimately show ?thesis
    using e(1,6) live turned_sound [OF t] turned_one [OF t] g(2,3) wt(3) by (simp add: gateway_ok_def)
qed

text \<open>The remotes of clients do not own their sockets, which are the server's.\<close>

definition unowned :: "('b, 'u) node \<Rightarrow> u64 \<Rightarrow> bool" where
  "unowned n r \<longleftrightarrow> socket_of n r \<noteq> None \<and>
     (\<forall>rn. nd_remote_at n r = Some rn \<longrightarrow> \<not> tt_owns (tl_transport (th_link (nd_thread n) (rn_link rn))))"

lemma turned_unowned:
  assumes t: "turned addr sk cs v m v'" and un: "\<forall>r \<in> set (nd_remotes (sv_world v)). unowned (sv_world v) r"
    and w: "sockets_free cs v" and r: "r \<in> set (nd_remotes (turn_over v v'))"
  shows "unowned (turn_over v v') r"
proof -
  note e = turn_end [OF turn_over_def [of v v']]
  have r: "r \<in> set (nd_remotes (sv_world v'))" using r e(2) by metis
  have "unowned (sv_world v') r"
  proof (rule turned_remotes [OF t r w])
    assume o: "r \<in> set (nd_remotes (sv_world v))" "same_remote (sv_world v) (sv_world v') r"
    then show ?thesis using un same_remoteD [OF o(2)] by (auto simp: unowned_def)
  next
    fix c assume c: "c \<in> set cs" "r = fst (addr c)"
    then have "client_of addr sk (sv_world v') c" using t by (simp add: turned_def)
    then show ?thesis using c by (auto simp: client_of_def unowned_def)
  qed
  then show ?thesis by (simp add: unowned_def e(3,4)) (simp add: turn_over_def free_sockets_def client_events_def)
qed

text \<open>A turn of the gateway, with everything that is known of the state it leads to.\<close>

lemma gateway_turn_full:
  assumes "gateway_ok this n" and "users_return env" and "waiting_ok addr n waiting" and "nd_server n = Some sv"
  obtains n' sv' where "gateway_spin_update env addr waiting n = Inr n'" and "gateway_ok this n'" and "nd_server n' = Some sv'"
    and "sv_clients sv' = filter (client_stays (client_view n sv)) (sv_clients sv) @ map fst waiting"
    and "nd_remotes n' = filter (\<lambda>r. \<forall>c \<in> set (sv_clients sv). socket_of n r = Some c \<longrightarrow> client_stays (client_view n sv) c) (nd_remotes n) @
      map (\<lambda>c. fst (addr c)) (map fst waiting)"
    and "\<forall>c \<in> set (map fst waiting). socket_of n' (fst (addr c)) = Some c"
    and "calm n n'" and "\<forall>r \<in> set (nd_remotes n). unowned n r \<Longrightarrow> \<forall>r \<in> set (nd_remotes n'). unowned n' r"
proof -
  let ?v = "client_view n sv"
  obtain sv' m where r: "server_spin_update (ne_strerror env) (ne_resolver env) (node_notify env addr) waiting ?v = Inr (success, sv')"
    and t: "turned addr (accepted (ne_resolver env) waiting) (map fst waiting) ?v m sv'"
    by (rule gateway_round [OF assms])
  note e = turn_end [OF turn_over_def [of ?v sv']]
  have spin: "gateway_spin_update env addr waiting n = Inr (turn_over ?v sv')"
    using r assms(4) by (simp add: gateway_spin_update_def turn_over_def gone_sockets_def)
  have new: "socket_of (turn_over ?v sv') (fst (addr c)) = Some c" if "c \<in> set (map fst waiting)" for c
  proof -
    have "client_of addr (accepted (ne_resolver env) waiting) (sv_world sv') c" using t that unfolding turned_def by blast
    then show ?thesis by (simp add: client_of_def e(4))
  qed
  have "calm (sv_world sv') (turn_over ?v sv')"
    by (rule calm_buffers) (simp_all add: turn_over_def free_sockets_def client_events_def)
  then have calm: "calm n (turn_over ?v sv')" using t calm_trans by (auto simp: turned_def)
  have free: "sockets_free (map fst waiting) ?v" using assms(3,4) by (force simp: waiting_ok_def sockets_free_def)
  show thesis
    by (rule that [OF spin turned_inv [OF t assms(1,4,3)] e(1)])
       (use t new calm turned_unowned [OF t _ free] in \<open>simp_all add: turned_def e(2)\<close>)
qed

subsection \<open>Properties\<close>

text \<open>C15: A turn of the gateway: in every state in which each client of the server has exactly one
  remote and the node's invariant holds, the server's update returns, whatever the clients have
  done in the meantime and however many connections wait. The clients whose stream has ended or
  whose transport has closed are dropped together with their remotes, the waiting connections
  become clients with a remote each, every other remote stays where it is, and clients and
  remotes correspond again: nothing is leaked, used after free or left without its counterpart.\<close>

theorem gateway_turn:
  assumes "gateway_ok this n" and "users_return env" and "waiting_ok addr n waiting" and "nd_server n = Some sv"
  shows "\<exists>n' sv'. gateway_spin_update env addr waiting n = Inr n' \<and> gateway_ok this n' \<and> nd_server n' = Some sv' \<and>
    sv_clients sv' = filter (client_stays (client_view n sv)) (sv_clients sv) @ map fst waiting \<and>
    nd_remotes n' = filter (\<lambda>r. \<forall>c \<in> set (sv_clients sv). socket_of n r = Some c \<longrightarrow> client_stays (client_view n sv) c) (nd_remotes n) @
      map (\<lambda>c. fst (addr c)) (map fst waiting) \<and>
    (\<forall>c \<in> set (map fst waiting). socket_of n' (fst (addr c)) = Some c)"
  by (rule gateway_turn_full [OF assms]) blast

theorem gateway_turn_witness:
  "\<exists>(n :: (sample_doc, sample_log) node) n' sv'.
     gateway_spin_update sample_env (\<lambda>c. (30, 2)) [(8, 6, \<lparr>sin_port = 0, s_addr = 0\<rparr>)] n = Inr n' \<and> gateway_ok 9 n' \<and>
     nd_remotes n' = [30] \<and> socket_of n' 30 = Some 8 \<and> nd_server n' = Some sv' \<and> sv_clients sv' = [8]"
proof -
  obtain n0 :: "(sample_doc, sample_log) node" where n0: "node_ok n0" "nd_remotes n0 = []"
      "members (nd_dave n0) = (\<lambda>t. if t = topic_internal then {10} else {})" "nd_thread n0 = tcp_thread_new (\<lambda>_. quiet_link)"
    using node_new_ok [of sample_env "''robot''" 42 0 10 "\<lambda>_. quiet_link" "[]"] by (elim exE conjE) (rule that; assumption)
  define sv where "sv = \<lparr>sv_address = \<lparr>sa_host = [], sa_port = 8374\<rparr>, sv_socket = \<lparr>sk_fd = 3, associated_address = None\<rparr>,
     sv_clients = [], sv_listeners = [9], sv_heap = Map.empty, sv_kernel = [3 \<mapsto> 0], sv_in = (\<lambda>_. []), sv_world = ()\<rparr>"
  let ?n = "n0\<lparr>nd_server := Some sv\<rparr>"
  have "node_ok ?n" using wired_links [of n0 ?n] n0(1) by (simp add: node_ok_def latest_ok_def)
  then have ok: "gateway_ok 9 ?n"
    using n0(2) by (simp add: gateway_ok_def one_remote_def sv_def server_inv_def is_open_def)
  have w: "waiting_ok (\<lambda>c. (30, 2)) ?n [(8, 6, \<lparr>sin_port = 0, s_addr = 0\<rparr>)]"
    using n0 by (simp add: waiting_ok_def apart_def fresh_box_def box_key_def mailbox_id_def tcp_thread_new_def null_tp_def sv_def)
  have "nd_server ?n = Some sv" by simp
  from gateway_turn [OF ok sample_env_users w this] obtain n' sv' where
    "gateway_spin_update sample_env (\<lambda>c. (30, 2)) [(8, 6, \<lparr>sin_port = 0, s_addr = 0\<rparr>)] ?n = Inr n'" "gateway_ok 9 n'"
    "nd_server n' = Some sv'" "sv_clients sv' = [8]" "nd_remotes n' = [30]" "socket_of n' 30 = Some 8"
    using n0(2) by (elim exE conjE) (rule that, assumption+, simp_all add: sv_def)
  then show ?thesis by blast
qed

end
