(* ===== verification/Spinner.thy ===== *)
theory Spinner
  imports Results
begin

text \<open>
  \<open>class spinett\<close> and \<open>class spinner_impl\<close> (\<open>spinner_impl.hpp\<close>, \<open>spinner_impl.cpp\<close>): the list of
  objects whose \<open>spin_update\<close> the application's loop calls. Pointers are numbers, 0 is null;
  \<open>sp_alive\<close> are the objects that exist. \<open>spin_update\<close> is the argument \<open>upd\<close>, which may change
  the whole state: it may construct and destroy other spinetts.
\<close>

record 'w spinner =
  sp_to_add :: "nat list"
  sp_list :: "nat list"
  sp_alive :: "nat set"
  sp_world :: 'w

definition register_spinett :: "nat \<Rightarrow> 'w spinner \<Rightarrow> 'w spinner" where
  "register_spinett sp st = st\<lparr>sp_to_add := sp_to_add st @ [sp]\<rparr>"

definition unregister_spinett :: "nat \<Rightarrow> 'w spinner \<Rightarrow> 'w spinner" where
  "unregister_spinett sp st = st\<lparr>sp_list := map (\<lambda>p. if p \<noteq> sp then p else 0) (sp_list st)\<rparr>"

text \<open>The constructor and the destructor of \<open>spinett\<close>.\<close>

definition spinett_new :: "nat \<Rightarrow> 'w spinner \<Rightarrow> 'w spinner" where
  "spinett_new sp st = register_spinett sp (st\<lparr>sp_alive := insert sp (sp_alive st)\<rparr>)"

definition spinett_destroy :: "nat \<Rightarrow> 'w spinner \<Rightarrow> 'w spinner" where
  "spinett_destroy sp st = (unregister_spinett sp st)\<lparr>sp_alive := sp_alive st - {sp}\<rparr>"

text \<open>
  The first loop of \<open>spin_once\<close>: the elements are read when their turn comes. Outside the
  vector the iterator would no longer be valid.
\<close>

type_synonym 'w update = "nat \<Rightarrow> 'w spinner \<Rightarrow> (void_result \<times> 'w spinner) exec"

fun spin_from :: "'w update \<Rightarrow> nat list \<Rightarrow> 'w spinner \<Rightarrow> (void_result \<times> 'w spinner) exec" where
  "spin_from upd [] st = Inr (success, st)"
| "spin_from upd (i # is) st =
     (if length (sp_list st) \<le> i then Inl Iterator_invalidated
      else let sp = sp_list st ! i in
        if sp = 0 then spin_from upd is st
        else if sp \<notin> sp_alive st then Inl Use_after_free
        else exec_bind (upd sp st) (\<lambda>(ret, st').
          if \<not> to_bool ret then Inr (ret, st') else spin_from upd is st'))"

definition spin_add :: "'w spinner \<Rightarrow> 'w spinner" where
  "spin_add st =
     (if length (sp_to_add st) \<noteq> 0
      then st\<lparr>sp_list := sp_list st @ sp_to_add st, sp_to_add := []\<rparr> else st)"

text \<open>The last loop erases the first null pointer and stops.\<close>

definition spin_prune :: "'w spinner \<Rightarrow> 'w spinner" where
  "spin_prune st = st\<lparr>sp_list := remove1 0 (sp_list st)\<rparr>"

definition spin_once :: "'w update \<Rightarrow> 'w spinner \<Rightarrow> (void_result \<times> 'w spinner) exec" where
  "spin_once upd st =
     exec_bind (spin_from upd [0..<length (sp_list st)] st) (\<lambda>(ret, st').
       if \<not> to_bool ret then Inr (ret, st')
       else Inr (success, spin_prune (spin_add st')))"

text \<open>\<open>spin\<close> returns only when an update fails; \<open>None\<close> is a run that goes on forever.\<close>

partial_function (option) spin :: "'w update \<Rightarrow> 'w spinner \<Rightarrow> (void_result \<times> 'w spinner) exec option" where
  "spin upd st =
     (case spin_once upd st of
        Inl f \<Rightarrow> Some (Inl f)
      | Inr r \<Rightarrow> if \<not> to_bool (fst r) then Some (Inr r) else spin upd (snd r))"

fun spin_times :: "nat \<Rightarrow> 'w update \<Rightarrow> 'w spinner \<Rightarrow> (void_result \<times> 'w spinner) exec" where
  "spin_times 0 upd st = Inr (success, st)"
| "spin_times (Suc n) upd st =
     exec_bind (spin_once upd st) (\<lambda>(ret, st').
       if \<not> to_bool ret then Inr (ret, st') else spin_times n upd st')"

subsection \<open>Facts\<close>

text \<open>Every pointer the spinner holds is null or points to a live object.\<close>

definition spin_ok :: "'w spinner \<Rightarrow> bool" where
  "spin_ok st \<longleftrightarrow> (\<forall>p \<in> set (sp_list st). p \<noteq> 0 \<longrightarrow> p \<in> sp_alive st) \<and>
     (\<forall>p \<in> set (sp_to_add st). p \<in> sp_alive st)"

lemma spin_ok_new [intro]: "spin_ok st \<Longrightarrow> spin_ok (spinett_new sp st)"
  by (auto simp: spin_ok_def spinett_new_def register_spinett_def)

lemma spin_ok_destroy [intro]:
  "spin_ok st \<Longrightarrow> sp \<notin> set (sp_to_add st) \<Longrightarrow> spin_ok (spinett_destroy sp st)"
  by (auto simp: spin_ok_def spinett_destroy_def unregister_spinett_def)

lemma spin_ok_end: "spin_ok st \<Longrightarrow> spin_ok (spin_prune (spin_add st))"
  unfolding spin_ok_def spin_prune_def spin_add_def using notin_set_remove1 by fastforce

lemma length_destroy [simp]: "length (sp_list (spinett_destroy sp st)) = length (sp_list st)"
  "length (sp_list (spinett_new sp st)) = length (sp_list st)"
  by (simp_all add: spinett_destroy_def unregister_spinett_def spinett_new_def register_spinett_def)

text \<open>An update that keeps to the rules.\<close>

definition tame :: "'w update \<Rightarrow> bool" where
  "tame upd \<longleftrightarrow> (\<forall>sp st. spin_ok st \<longrightarrow> (\<exists>ret st'. upd sp st = Inr (ret, st') \<and> spin_ok st' \<and>
     length (sp_list st') = length (sp_list st)))"

lemma spin_from_ok:
  assumes "tame upd" and "spin_ok st" and "\<forall>i \<in> set is. i < length (sp_list st)"
  shows "\<exists>ret st'. spin_from upd is st = Inr (ret, st') \<and> spin_ok st'"
  using assms(2,3)
proof (induction "is" arbitrary: st)
  case (Cons i js)
  let ?sp = "sp_list st ! i"
  from Cons.prems have "?sp \<in> set (sp_list st)" by simp
  then have live: "?sp = 0 \<or> ?sp \<in> sp_alive st" using Cons.prems(1) by (auto simp: spin_ok_def)
  from assms(1) Cons.prems(1) obtain ret st' where
    u: "upd ?sp st = Inr (ret, st')" "spin_ok st'" "length (sp_list st') = length (sp_list st)"
    unfolding tame_def by blast
  show ?case
    using Cons.IH [of st] Cons.IH [of st'] Cons.prems live u by (auto simp: Let_def)
qed auto

lemma spin_once_ok:
  assumes "tame upd" and "spin_ok st"
  shows "\<exists>ret st'. spin_once upd st = Inr (ret, st') \<and> spin_ok st'"
proof -
  from spin_from_ok [OF assms, of "[0..<length (sp_list st)]"] obtain ret st' where
    "spin_from upd [0..<length (sp_list st)] st = Inr (ret, st')" "spin_ok st'" by auto
  then show ?thesis by (auto simp: spin_once_def intro: spin_ok_end)
qed

text \<open>An update that changes the world only, and succeeds.\<close>

definition log_update :: "(nat \<Rightarrow> 'w \<Rightarrow> 'w) \<Rightarrow> 'w update" where
  "log_update g sp st = Inr (success, st\<lparr>sp_world := g sp (sp_world st)\<rparr>)"

lemma spin_from_log:
  "\<forall>i \<in> set is. i < length (sp_list st) \<and> (sp_list st ! i \<noteq> 0 \<longrightarrow> sp_list st ! i \<in> sp_alive st) \<Longrightarrow>
   spin_from (log_update g) is st =
     Inr (success, st\<lparr>sp_world := fold g (filter (\<lambda>p. p \<noteq> 0) (map ((!) (sp_list st)) is)) (sp_world st)\<rparr>)"
  by (induction "is" arbitrary: st) (auto simp: log_update_def Let_def)

lemma spin_once_log:
  assumes "\<forall>p \<in> set (sp_list st). p \<noteq> 0 \<longrightarrow> p \<in> sp_alive st"
  shows "spin_once (log_update g) st =
    Inr (success, spin_prune (spin_add (st\<lparr>sp_world := fold g (filter (\<lambda>p. p \<noteq> 0) (sp_list st)) (sp_world st)\<rparr>)))"
proof -
  have "\<forall>i \<in> set [0..<length (sp_list st)]. i < length (sp_list st) \<and>
      (sp_list st ! i \<noteq> 0 \<longrightarrow> sp_list st ! i \<in> sp_alive st)"
    using assms by auto
  from spin_from_log [OF this, of g] show ?thesis
    by (simp add: spin_once_def map_nth)
qed

lemma spin_from_dead:
  assumes "\<exists>i \<in> set is. sp_list st ! i = sp" and "\<forall>i \<in> set is. i < length (sp_list st)"
    and "sp \<notin> sp_alive st" and "sp \<noteq> 0"
  shows "spin_from (log_update g) is st = Inl Use_after_free"
  using assms
proof (induction "is" arbitrary: st)
  case (Cons i js)
  let ?st = "st\<lparr>sp_world := g (sp_list st ! i) (sp_world st)\<rparr>"
  have "spin_from (log_update g) js st = Inl Use_after_free \<and> spin_from (log_update g) js ?st = Inl Use_after_free"
    if "sp_list st ! i \<noteq> sp"
    using Cons.IH [of st] Cons.IH [of ?st] Cons.prems that by auto
  moreover have "log_update g (sp_list st ! i) st = Inr (success, ?st)" by (simp add: log_update_def)
  ultimately show ?case using Cons.prems by (cases "sp_list st ! i = sp") (auto simp: Let_def)
qed simp

lemma tame_log: "tame (log_update g)"
  by (auto simp: tame_def log_update_def spin_ok_def)

subsection \<open>Properties\<close>

text \<open>C29: The spinner is safe as long as no object is destroyed before it has been adopted: when
  every update keeps all pointers the spinner holds live (constructing objects does, and so
  does destroying objects that are not waiting to be adopted, both even during the loop), then
  any number of spins never touches a dead object, and the pointers stay live.\<close>

theorem spin_times_safe:
  assumes "tame upd" and "spin_ok st"
  shows "(\<exists>ret st'. spin_times n upd st = Inr (ret, st') \<and> spin_ok st') \<and>
    spin_ok (spinett_new sp st) \<and> (sp \<notin> set (sp_to_add st) \<longrightarrow> spin_ok (spinett_destroy sp st))"
proof -
  have "\<exists>ret st'. spin_times n upd st = Inr (ret, st') \<and> spin_ok st'"
    using assms(2)
  proof (induction n arbitrary: st)
    case (Suc n)
    from spin_once_ok [OF assms(1) Suc.prems] obtain ret st' where
      "spin_once upd st = Inr (ret, st')" "spin_ok st'" by blast
    then show ?case using Suc.IH by (cases "to_bool ret") auto
  qed auto
  then show ?thesis using assms(2) by blast
qed

theorem spin_times_safe_witness:
  "\<exists>ret st'. spin_times 5 (\<lambda>sp st. Inr (success, spinett_new 7 st))
      \<lparr>sp_to_add = [2], sp_list = [1, 0], sp_alive = {1, 2}, sp_world = ()\<rparr> = Inr (ret, st') \<and> spin_ok st'"
proof -
  have "tame (\<lambda>sp st. Inr (success, spinett_new 7 st))" by (auto simp: tame_def)
  moreover have "spin_ok \<lparr>sp_to_add = [2], sp_list = [1, 0], sp_alive = {1, 2}, sp_world = ()\<rparr>"
    by (simp add: spin_ok_def)
  ultimately show ?thesis using spin_times_safe by blast
qed



text \<open>The destructor does not look at the objects that wait to be adopted: an object that is
  constructed and destroyed between two spins leaves its pointer behind, the next spin adopts
  it, and the spin after that calls the destroyed object.\<close>

theorem spin_dangling_spinett:
  assumes "spin_ok st" and "sp \<noteq> 0" and "sp \<notin> set (sp_list st)"
  shows "\<exists>st'. spin_once (log_update g) (spinett_destroy sp (spinett_new sp st)) = Inr (success, st') \<and>
    sp \<in> set (sp_list st') \<and> sp \<notin> sp_alive st' \<and> spin_once (log_update g) st' = Inl Use_after_free"
proof -
  define u where "u = spinett_destroy sp (spinett_new sp st)"
  have m: "map (\<lambda>p. if p \<noteq> sp then p else 0) (sp_list st) = sp_list st"
    using assms(3) by (intro map_idI) auto
  have u: "sp_list u = sp_list st" "sp_to_add u = sp_to_add st @ [sp]" "sp_alive u = insert sp (sp_alive st) - {sp}"
    by (simp_all add: u_def spinett_destroy_def unregister_spinett_def spinett_new_def register_spinett_def m)
  have "\<forall>p \<in> set (sp_list u). p \<noteq> 0 \<longrightarrow> p \<in> sp_alive u"
    using assms(1,3) by (auto simp: u spin_ok_def)
  from spin_once_log [OF this, of g] obtain st' where
    st': "spin_once (log_update g) u = Inr (success, st')" "sp_list st' = remove1 0 (sp_list st @ sp_to_add st @ [sp])"
    "sp_alive st' = sp_alive u"
    by (auto simp: spin_prune_def spin_add_def u)
  have bad: "sp \<in> set (sp_list st')" "sp \<notin> sp_alive st'"
    using assms(2) by (auto simp: st'(2,3) u remove1_append)
  have "spin_from (log_update g) [0..<length (sp_list st')] st' = Inl Use_after_free"
    by (rule spin_from_dead [OF _ _ bad(2) assms(2)]) (use bad(1) in \<open>auto simp: in_set_conv_nth\<close>)
  then show ?thesis using st'(1) bad by (auto simp: u_def spin_once_def)
qed

theorem spin_dangling_spinett_witness:
  "\<exists>st'. spin_once (log_update (\<lambda>_ w. w)) (spinett_destroy 2 (spinett_new 2
      \<lparr>sp_to_add = [], sp_list = [1], sp_alive = {1}, sp_world = ()\<rparr>)) = Inr (success, st') \<and>
    spin_once (log_update (\<lambda>_ w. w)) st' = Inl Use_after_free"
  using spin_dangling_spinett [of "\<lparr>sp_to_add = [], sp_list = [1], sp_alive = {1}, sp_world = ()\<rparr>" 2 "\<lambda>_ w. w"]
  by (auto simp: spin_ok_def)

end
