(* ===== verification/Daemon.thy ===== *)
theory Daemon
  imports Gateway Spinner
begin

text \<open>
  The program \<open>daylightd\<close>: a node with a gateway, whose main loop lets the spinner update the node,
  its server and its remotes (\<open>daylightd.cpp\<close>, \<open>util.cpp\<close>), while its thread works and the kernel and
  the peers do what they want.
\<close>

subsection \<open>The program\<close>

text \<open>
  What \<open>spin_update\<close> of the object at \<open>p\<close> does: the node at \<open>this\<close>, its server at \<open>srv\<close>, or a remote.
  The server finds the connections \<open>waiting n\<close>, whose new objects get the addresses \<open>addr n\<close>. When
  the node makes the process exit nothing else is updated, for which a failure stands.
\<close>

definition object_update :: "('b, 'u) node_env \<Rightarrow> (('b, 'u) node \<Rightarrow> nat \<Rightarrow> u64 \<times> tp) \<Rightarrow>
    (('b, 'u) node \<Rightarrow> (nat \<times> int \<times> sockaddr_in) list) \<Rightarrow> nat \<Rightarrow> nat \<Rightarrow> bool \<Rightarrow> nat \<Rightarrow> ('b, 'u) node \<Rightarrow>
    (void_result \<times> ('b, 'u) node) exec" where
  "object_update env addr waiting this srv should_exit p n =
     (if p = this then
        exec_bind (node_spin_update env this should_exit n) (\<lambda>(ret, n').
          Inr (case ret of None \<Rightarrow> failure ''exit'' 0 | Some r \<Rightarrow> r, n'))
      else if p = srv then
        exec_bind (gateway_spin_update env (addr n) (waiting n) n) (\<lambda>n'. Inr (success, n'))
      else remote_spin_update env (word_of_nat p) n)"

text \<open>
  The constructors and destructors of remotes tell the spinner. It reads its list only between
  two updates, so the model tells it at the end of each.
\<close>

definition track :: "u64 list \<Rightarrow> u64 list \<Rightarrow> 'w spinner \<Rightarrow> 'w spinner" where
  "track old new st =
     fold (\<lambda>r. spinett_new (unat r)) (filter (\<lambda>r. r \<notin> set old) new)
       (fold (\<lambda>r. spinett_destroy (unat r)) (filter (\<lambda>r. r \<notin> set new) old) st)"

definition app_update :: "('b, 'u) node_env \<Rightarrow> (('b, 'u) node \<Rightarrow> nat \<Rightarrow> u64 \<times> tp) \<Rightarrow>
    (('b, 'u) node \<Rightarrow> (nat \<times> int \<times> sockaddr_in) list) \<Rightarrow> nat \<Rightarrow> nat \<Rightarrow> bool \<Rightarrow> ('b, 'u) node update" where
  "app_update env addr waiting this srv should_exit p st =
     exec_bind (object_update env addr waiting this srv should_exit p (sp_world st)) (\<lambda>(ret, n').
       Inr (ret, track (nd_remotes (sp_world st)) (nd_remotes n') (st\<lparr>sp_world := n'\<rparr>)))"

text \<open>\<open>exit__\<close> is the flag that the signal handler sets and \<open>should_exit\<close> reads.\<close>

record ('b, 'u) daemon =
  dm_spinner :: "('b, 'u) node spinner"
  dm_exit :: bool

definition should_exit :: "('b, 'u) daemon \<Rightarrow> bool" where
  "should_exit d = dm_exit d"

definition sig_exit :: "('b, 'u) daemon \<Rightarrow> ('b, 'u) daemon" where
  "sig_exit d = d\<lparr>dm_exit := True\<rparr>"

text \<open>
  \<open>main\<close> before its loop. The test after \<open>gateway\<close> is of the node's pointer, which is not null, so
  the program goes on whatever \<open>gateway\<close> returned.
\<close>

definition daylightd_start :: "('b, 'u) node_env \<Rightarrow> u64 \<Rightarrow> int \<Rightarrow> u64 \<Rightarrow> (tp \<Rightarrow> tcp_link) \<Rightarrow> 'u \<Rightarrow> nat \<Rightarrow> nat \<Rightarrow>
    unit tcp_server \<Rightarrow> int \<Rightarrow> int \<Rightarrow> int \<Rightarrow> int \<Rightarrow> u32 \<Rightarrow> (void_result \<times> ('b, 'u) daemon) exec" where
  "daylightd_start env h rnd a link u this srv base socket_ret setsockopt_ret bind_ret listen_ret errno =
     exec_bind (node_new env ''master'' h rnd a link u) (\<lambda>me.
     exec_bind (start_gateway_service env this base socket_ret setsockopt_ret bind_ret listen_ret errno
         \<lparr>sa_host = [], sa_port = 8374\<rparr> me) (\<lambda>(ret, me).
       Inr (ret, \<lparr>dm_spinner = spinett_new srv (spinett_new this
                    \<lparr>sp_to_add = [], sp_list = [], sp_alive = {}, sp_world = me\<rparr>),
                  dm_exit = False\<rparr>)))"

definition with_node :: "('b, 'u) node \<Rightarrow> ('b, 'u) daemon \<Rightarrow> ('b, 'u) daemon" where
  "with_node n d = d\<lparr>dm_spinner := (dm_spinner d)\<lparr>sp_world := n\<rparr>\<rparr>"

text \<open>
  What the kernel may change: what there is to read and how much it will take, on any link and
  for the server's own sockets.
\<close>

definition kernel_acts :: "('b, 'u) node \<Rightarrow> (tp \<Rightarrow> recv_event list \<times> send_event list) \<Rightarrow> (nat \<Rightarrow> recv_event list) \<Rightarrow> ('b, 'u) node" where
  "kernel_acts n ev inp = n\<lparr>
     nd_thread := (nd_thread n)\<lparr>th_link := (\<lambda>l. (th_link (nd_thread n) l)\<lparr>tl_in := fst (ev l), tl_script := snd (ev l)\<rparr>)\<rparr>,
     nd_server := map_option (\<lambda>sv. sv\<lparr>sv_in := inp\<rparr>) (nd_server n)\<rparr>"

text \<open>
  The loop of \<open>main\<close>, with what happens beside it: a turn of the spinner while no signal has come, a
  section of the node's thread that returns and receives packets that can be delivered, the
  kernel, and the signal.
\<close>

inductive daemon_step :: "('b, 'u) node_env \<Rightarrow> bool \<Rightarrow> (('b, 'u) node \<Rightarrow> nat \<Rightarrow> u64 \<times> tp) \<Rightarrow>
    (('b, 'u) node \<Rightarrow> (nat \<times> int \<times> sockaddr_in) list) \<Rightarrow> nat \<Rightarrow> nat \<Rightarrow> ('b, 'u) daemon \<Rightarrow> ('b, 'u) daemon \<Rightarrow> bool"
  for env :: "('b, 'u) node_env" and junk :: bool and addr waiting this srv where
  Spin: "\<not> should_exit d \<Longrightarrow>
    spin_once (app_update env addr waiting this srv (should_exit d)) (dm_spinner d) = Inr (ret, st) \<Longrightarrow>
    daemon_step env junk addr waiting this srv d (d\<lparr>dm_spinner := st\<rparr>)"
| Section: "n = sp_world (dm_spinner d) \<Longrightarrow>
    thread_step (tcp_ops (ne_dbg env) (ne_lib env) junk (ne_strerror env)) (ne_dbg env) none (nd_thread n) t \<Longrightarrow>
    \<forall>l. map_of (th_buffers t) l = None \<longleftrightarrow> map_of (th_buffers (nd_thread n)) l = None \<Longrightarrow>
    \<forall>l. \<forall>p \<in> set (in_queue l (n\<lparr>nd_thread := t\<rparr>)). deliverable p \<Longrightarrow>
    daemon_step env junk addr waiting this srv d (with_node (n\<lparr>nd_thread := t\<rparr>) d)"
| Kernel: "daemon_step env junk addr waiting this srv d (with_node (kernel_acts (sp_world (dm_spinner d)) ev inp) d)"
| Signal: "daemon_step env junk addr waiting this srv d (sig_exit d)"

subsection \<open>Links that move\<close>

text \<open>
  Whatever happens to a link between two turns of the server, its transport keeps its socket
  pointer, and a socket that is not its own at most gets closed.
\<close>

definition link_moves :: "tcp_link \<Rightarrow> tcp_link \<Rightarrow> bool" where
  "link_moves s s' \<longleftrightarrow> tt_socket (tl_transport s') = tt_socket (tl_transport s) \<and>
     tt_owns (tl_transport s') = tt_owns (tl_transport s) \<and>
     (tt_owns (tl_transport s) \<or> (\<forall>a. tl_heap s' a = tl_heap s a \<or>
        (\<exists>t t'. tl_heap s a = Some t \<and> tl_heap s' a = Some t' \<and> \<not> is_open t')))"

lemma link_moves_refl: "link_moves s s"
  by (simp add: link_moves_def)

lemma link_moves_trans:
  assumes "link_moves s s'" and "link_moves s' s''"
  shows "link_moves s s''"
proof -
  have "tl_heap s'' a = tl_heap s a \<or> (\<exists>t t'. tl_heap s a = Some t \<and> tl_heap s'' a = Some t' \<and> \<not> is_open t')"
    if "\<not> tt_owns (tl_transport s)" for a
  proof -
    have "tl_heap s' a = tl_heap s a \<or> (\<exists>t t'. tl_heap s a = Some t \<and> tl_heap s' a = Some t' \<and> \<not> is_open t')"
      "tl_heap s'' a = tl_heap s' a \<or> (\<exists>t t'. tl_heap s' a = Some t \<and> tl_heap s'' a = Some t' \<and> \<not> is_open t')"
      using assms that by (auto simp: link_moves_def)
    then show ?thesis by metis
  qed
  then show ?thesis using assms unfolding link_moves_def by metis
qed

lemma link_moves_same:
  "tl_heap s' = tl_heap s \<Longrightarrow> tt_socket (tl_transport s') = tt_socket (tl_transport s) \<Longrightarrow>
   tt_owns (tl_transport s') = tt_owns (tl_transport s) \<Longrightarrow> link_moves s s'"
  by (simp add: link_moves_def)

lemma close_moves:
  assumes "tcp_transport_close s = Inr (r, s')"
  shows "link_moves s s'"
  using assms
  by (auto simp: tcp_transport_close_def tcp_close_def link_moves_def deref_def is_open_def Let_def exec_simps
      split: option.splits if_splits)

lemma update_moves:
  assumes "tcp_transport_update strerror s = Inr (r, s')"
  shows "link_moves s s'"
proof (cases "tt_socket (tl_transport s)")
  case (Some a)
  obtain t where t: "tl_heap s a = Some t" using assms Some by (auto simp: tcp_transport_update_def deref_def exec_simps split: option.splits)
  obtain ret d es where rd: "tcp_recv strerror (tl_kernel s) t 1 True (tl_in s) = (ret, d, es)" by (rule prod_cases3)
  have in': "link_moves s (s\<lparr>tl_in := es\<rparr>)" by (rule link_moves_same) simp_all
  from assms have "s' = s\<lparr>tl_in := es\<rparr> \<or> (\<exists>r. tcp_transport_close (s\<lparr>tl_in := es\<rparr>) = Inr (r, s'))"
    by (auto simp: tcp_transport_update_def Some t rd [unfolded One_nat_def] deref_def Let_def exec_simps split: if_splits)
  then show ?thesis using in' close_moves link_moves_trans by blast
qed (use assms in \<open>simp add: tcp_transport_update_def link_moves_refl\<close>)

lemma write_moves:
  assumes "tcp_transport_write lib strerror p s = Inr (r, s')"
  shows "link_moves s s'"
  by (rule link_moves_same) (use assms in \<open>auto simp: tcp_transport_write_def exec_simps split: option.splits\<close>)

lemma read_moves:
  assumes "tcp_transport_read dbg lib junk strerror s = Inr (r, s')"
  shows "link_moves s s'"
  by (rule link_moves_same) (use assms in \<open>auto simp: tcp_transport_read_def exec_simps split: option.splits\<close>)

lemma flush_moves:
  assumes "buffer_flush (tcp_ops dbg lib junk strerror) s b = Inr (s', b', k)"
  shows "link_moves s s'"
proof (cases "s' = s")
  case False
  then have "exec_foldl (\<lambda>s p. exec_bind (tcp_transport_write lib strerror p s) (\<lambda>(r, s'). Inr s')) s (bf_out b) = Inr s'"
    using assms by (auto simp: buffer_flush_def tcp_ops_def exec_simps split: if_splits)
  then show ?thesis
    by (rule exec_foldl_invariant [where P = "link_moves s"])
       (auto simp: exec_simps link_moves_refl intro: link_moves_trans dest: write_moves)
qed (simp add: link_moves_refl)

lemma section_moves:
  assumes "thread_step (tcp_ops dbg lib junk strerror) dbg none t t'"
  shows "link_moves (th_link t l) (th_link t' l)"
  using assms
proof (cases rule: thread_step.cases)
  case (Flush x b s b' n)
  then show ?thesis using flush_moves [OF Flush(3)] by (simp add: set_buffer_def link_moves_refl)
next
  case (Update x b s)
  then obtain r where "tcp_transport_update strerror (th_link t x) = Inr (r, s)" by (auto simp: tcp_ops_def exec_simps)
  from update_moves [OF this] show ?thesis using Update by (simp add: set_buffer_def link_moves_refl)
next
  case (Fail x b r s)
  then have "tcp_transport_read dbg lib junk strerror (th_link t x) = Inr (r, s)" by (simp add: tcp_ops_def)
  from read_moves [OF this] show ?thesis using Fail by (simp add: set_buffer_def link_moves_refl)
next
  case (Read x b r s p)
  then have "tcp_transport_read dbg lib junk strerror (th_link t x) = Inr (r, s)" by (simp add: tcp_ops_def)
  from read_moves [OF this] show ?thesis using Read by (simp add: set_buffer_def link_moves_refl)
qed (auto simp: link_moves_refl add_socket_def remove_socket_def next_packet_def thread_send_def thread_exit_def exec_simps
    split: if_splits option.splits prod.splits)

subsection \<open>The node between the turns of the server\<close>

definition moves :: "('b, 'u) node \<Rightarrow> ('b, 'u) node \<Rightarrow> bool" where
  "moves n n' \<longleftrightarrow> nd_remotes n' = nd_remotes n \<and>
     (\<forall>r. map_option rn_link (nd_remote_at n' r) = map_option rn_link (nd_remote_at n r)) \<and>
     (\<forall>l. link_moves (th_link (nd_thread n) l) (th_link (nd_thread n') l)) \<and>
     (\<exists>f. nd_server n' = map_option f (nd_server n) \<and> (\<forall>sv. sv_clients (f sv) = sv_clients sv \<and>
        sv_listeners (f sv) = sv_listeners sv \<and> sv_socket (f sv) = sv_socket sv \<and> sv_heap (f sv) = sv_heap sv))"

lemma moves_socket: "moves n n' \<Longrightarrow> socket_of n' r = socket_of n r"
proof -
  assume m: "moves n n'"
  then have "map_option rn_link (nd_remote_at n' r) = map_option rn_link (nd_remote_at n r)" by (simp add: moves_def)
  then show ?thesis using m
    by (cases "nd_remote_at n' r"; cases "nd_remote_at n r") (simp_all add: socket_of_def moves_def link_moves_def)
qed

lemma moves_remote:
  assumes "moves n n'" and "nd_remote_at n' r = Some rn'"
  obtains rn where "nd_remote_at n r = Some rn" and "rn_link rn' = rn_link rn"
    and "link_moves (th_link (nd_thread n) (rn_link rn)) (th_link (nd_thread n') (rn_link rn'))"
proof -
  have "map_option rn_link (nd_remote_at n' r) = map_option rn_link (nd_remote_at n r)" using assms(1) by (simp add: moves_def)
  with assms(2) obtain rn where "nd_remote_at n r = Some rn" "rn_link rn' = rn_link rn" by (cases "nd_remote_at n r") auto
  moreover from this have "link_moves (th_link (nd_thread n) (rn_link rn)) (th_link (nd_thread n') (rn_link rn'))"
    using assms(1) by (simp add: moves_def)
  ultimately show thesis by (rule that)
qed

lemma moves_unowned:
  assumes "moves n n'" and "unowned n r"
  shows "unowned n' r"
  using assms by (auto simp: unowned_def moves_socket link_moves_def elim!: moves_remote)

lemma moves_sound:
  assumes "moves n n'" and "unowned n r" and "transport_sound n r"
  shows "transport_sound n' r"
  unfolding transport_sound_def
proof (intro allI impI)
  fix rn' assume "nd_remote_at n' r = Some rn'"
  with assms(1) obtain rn where rn: "nd_remote_at n r = Some rn" "rn_link rn' = rn_link rn"
    and m: "link_moves (th_link (nd_thread n) (rn_link rn)) (th_link (nd_thread n') (rn_link rn'))"
    by (rule moves_remote)
  have "tl_heap (th_link (nd_thread n) (rn_link rn)) a \<noteq> None"
    if "tt_socket (tl_transport (th_link (nd_thread n) (rn_link rn))) = Some a" for a
    using assms(3) rn(1) that by (simp add: transport_sound_def destroy_sound)
  moreover have "\<not> tt_owns (tl_transport (th_link (nd_thread n) (rn_link rn)))" using assms(2) rn(1) by (simp add: unowned_def)
  ultimately show "\<exists>s. tcp_transport_destroy (th_link (nd_thread n') (rn_link rn')) = Inr s"
    using m unfolding destroy_sound link_moves_def by (metis option.distinct(1))
qed

text \<open>What the server sees of its clients afterwards: the same sockets, or closed ones.\<close>

lemma moves_client_socket:
  assumes m: "moves n n'" and un: "\<forall>r \<in> set (nd_remotes n). unowned n r" and sv: "sv_heap sv' = sv_heap sv"
  shows "client_socket n' sv' c = client_socket n sv c \<or>
    (\<exists>t t'. client_socket n sv c = Some t \<and> client_socket n' sv' c = Some t' \<and> \<not> is_open t')"
proof -
  have rs: "filter (\<lambda>r. socket_of n' r = Some c) (nd_remotes n') = filter (\<lambda>r. socket_of n r = Some c) (nd_remotes n)"
    using m by (simp add: moves_socket [OF m]) (simp add: moves_def)
  show ?thesis
  proof (cases "filter (\<lambda>r. socket_of n r = Some c) (nd_remotes n)")
    case Nil
    then show ?thesis using rs sv by (simp add: client_socket_def client_link_def)
  next
    case (Cons r xs)
    then have "r \<in> set (filter (\<lambda>r. socket_of n r = Some c) (nd_remotes n))" by simp
    then have r: "r \<in> set (nd_remotes n)" "socket_of n r = Some c" by simp_all
    obtain rn' where rn': "nd_remote_at n' r = Some rn'"
      using r(2) moves_socket [OF m, of r] by (auto simp: socket_of_def split: option.splits)
    with m obtain rn where rn: "nd_remote_at n r = Some rn"
      "link_moves (th_link (nd_thread n) (rn_link rn)) (th_link (nd_thread n') (rn_link rn'))"
      by (rule moves_remote)
    have "\<not> tt_owns (tl_transport (th_link (nd_thread n) (rn_link rn)))" using un r(1) rn(1) by (simp add: unowned_def)
    then show ?thesis using rn Cons rs rn' by (simp add: client_socket_def client_link_def link_moves_def)
  qed
qed

lemma moves_gateway:
  assumes ok: "gateway_ok this n" and m: "moves n n'" and un: "\<forall>r \<in> set (nd_remotes n). unowned n r" and n': "node_ok n'"
  shows "gateway_ok this n'"
proof -
  obtain sv where g: "nd_server n = Some sv" "sv_listeners sv = [this]" "is_open (sv_socket sv)" "server_inv (client_view n sv)"
      "\<forall>c \<in> set (sv_clients sv). \<exists>r \<in> set (nd_remotes n). socket_of n r = Some c"
      "\<forall>r \<in> set (nd_remotes n). transport_sound n r" "one_remote n"
    using ok by (auto simp: gateway_ok_def)
  obtain sv' where sv': "nd_server n' = Some sv'" "sv_clients sv' = sv_clients sv" "sv_listeners sv' = sv_listeners sv"
      "sv_socket sv' = sv_socket sv" "sv_heap sv' = sv_heap sv"
    using m g(1) by (auto simp: moves_def)
  have rs: "nd_remotes n' = nd_remotes n" using m by (simp add: moves_def)
  have live: "client_socket n' sv' c \<noteq> None" if "c \<in> set (sv_clients sv)" for c
  proof -
    have "client_socket n sv c \<noteq> None" using g(4) that by (simp add: server_inv_def)
    then show ?thesis using moves_client_socket [OF m un sv'(5), of c] by auto
  qed
  have fds: "sk_fd s \<noteq> sk_fd t"
    if "c \<in> set (sv_clients sv)" "d \<in> set (sv_clients sv)" "c \<noteq> d" "client_socket n' sv' c = Some s" "client_socket n' sv' d = Some t"
      "is_open s" "is_open t" for c d s t
  proof -
    have "client_socket n sv c = Some s" "client_socket n sv d = Some t"
      using moves_client_socket [OF m un sv'(5), of c] moves_client_socket [OF m un sv'(5), of d] that by auto
    then show ?thesis using g(4) that unfolding server_inv_def by auto
  qed
  have "server_inv (client_view n' sv')" using live fds g(4) by (simp add: server_inv_def sv'(2))
  moreover have "\<forall>r \<in> set (nd_remotes n'). transport_sound n' r" using moves_sound [OF m] un g(6) rs by simp
  moreover have "one_remote n'" using g(7) by (simp add: one_remote_def rs moves_socket [OF m])
  ultimately show ?thesis using g(2,3,5) n' by (simp add: gateway_ok_def sv' rs moves_socket [OF m])
qed

lemma moves_refl: "moves n n"
  unfolding moves_def by (intro conjI exI [of _ id]) (simp_all add: link_moves_refl option.map_id)

lemma moves_trans:
  assumes "moves n n'" and "moves n' n''"
  shows "moves n n''"
proof -
  obtain f g where "nd_server n' = map_option f (nd_server n)" "nd_server n'' = map_option g (nd_server n')"
    "\<forall>sv. sv_clients (f sv) = sv_clients sv \<and> sv_listeners (f sv) = sv_listeners sv \<and> sv_socket (f sv) = sv_socket sv \<and> sv_heap (f sv) = sv_heap sv"
    "\<forall>sv. sv_clients (g sv) = sv_clients sv \<and> sv_listeners (g sv) = sv_listeners sv \<and> sv_socket (g sv) = sv_socket sv \<and> sv_heap (g sv) = sv_heap sv"
    using assms unfolding moves_def by blast
  then have "\<exists>f. nd_server n'' = map_option f (nd_server n) \<and> (\<forall>sv. sv_clients (f sv) = sv_clients sv \<and>
      sv_listeners (f sv) = sv_listeners sv \<and> sv_socket (f sv) = sv_socket sv \<and> sv_heap (f sv) = sv_heap sv)"
    by (intro exI [of _ "g \<circ> f"]) (simp add: option.map_comp)
  moreover have "link_moves (th_link (nd_thread n) l) (th_link (nd_thread n'') l)" for l
    using assms link_moves_trans unfolding moves_def by blast
  ultimately show ?thesis using assms by (simp add: moves_def)
qed

lemma moves_quiet:
  assumes "nd_remotes n' = nd_remotes n" and "nd_server n' = nd_server n" and "th_link (nd_thread n') = th_link (nd_thread n)"
    and "\<And>r. map_option rn_link (nd_remote_at n' r) = map_option rn_link (nd_remote_at n r)"
  shows "moves n n'"
  unfolding moves_def using assms by (intro conjI exI [of _ id]) (simp_all add: link_moves_refl option.map_id)

lemma moves_frame: "frame n n' \<Longrightarrow> moves n n'"
  by (rule moves_quiet) (simp_all add: frameD)

lemma remote_take_moves:
  assumes "remote_take env r n = Inr (b, n')"
  shows "moves n n' \<and> calm n n'"
proof -
  obtain rn p t where rn: "nd_remote_at n r = Some rn"
    and nx: "next_packet (ne_dbg env) (packet_null (ne_lib env) (ne_junk env)) (rn_link rn) (nd_thread n) = Inr (p, t)"
    using assms by (auto simp: remote_take_def exec_simps)
  have t: "th_link t = th_link (nd_thread n)"
    using nx by (auto simp: next_packet_def exec_simps split: option.splits prod.splits)
  have q: "set (case map_of (th_buffers t) l of None \<Rightarrow> [] | Some b \<Rightarrow> bf_in b) \<subseteq> set (in_queue l n)" for l
    using nx
    by (auto simp: next_packet_def exec_simps in_queue_def buffer_next_def AList.update_conv' split: option.splits prod.splits list.splits if_splits)
  have 1: "moves n (n\<lparr>nd_thread := t, nd_remote_at := (nd_remote_at n)(r \<mapsto> rn\<lparr>rn_ids := i\<rparr>)\<rparr>)" for i
    by (rule moves_quiet) (simp_all add: t rn)
  have 2: "calm n (n\<lparr>nd_thread := t, nd_remote_at := m\<rparr>)" for m
    using q by (simp add: calm_def in_queue_def)
  have eq: "n\<lparr>nd_thread := t\<rparr> = n\<lparr>nd_thread := t, nd_remote_at := (nd_remote_at n)(r \<mapsto> rn\<lparr>rn_ids := rn_ids rn\<rparr>)\<rparr>"
    using rn by (simp add: fun_upd_idem)
  show ?thesis
  proof (cases "p_null p \<or> seen (nd_id n) p")
    case True
    then have "n' = n\<lparr>nd_thread := t\<rparr>" using assms rn nx by (auto simp: remote_take_def Let_def split: if_splits)
    from trans [OF this eq] show ?thesis using 1 2 by blast
  next
    case False
    define n1 where "n1 = n\<lparr>nd_thread := t, nd_remote_at := (nd_remote_at n)(r \<mapsto> rn\<lparr>rn_ids := insert (m_id (p_meta p)) (rn_ids rn)\<rparr>)\<rparr>"
    obtain ret where "node_mail env r p n1 = Inr (ret, n')"
      using assms rn nx False by (auto simp: remote_take_def exec_simps Let_def n1_def)
    from node_mail_frame [OF this] have "frame n1 n'" .
    then show ?thesis using 1 2 moves_trans [OF _ moves_frame] calm_trans [OF _ calm_frame] unfolding n1_def by blast
  qed
qed

lemma remote_loop_moves: "remote_loop env r k n = Inr n' \<Longrightarrow> moves n n' \<and> calm n n'"
proof (induction k arbitrary: n)
  case 0
  then show ?case by (simp add: moves_refl calm_same)
next
  case (Suc k)
  then obtain more m where m: "remote_take env r n = Inr (more, m)" "(if more then remote_loop env r k m else Inr m) = Inr n'"
    by (auto simp: exec_simps)
  note t = remote_take_moves [OF m(1)]
  show ?case
  proof (cases more)
    case True
    then have "moves m n' \<and> calm m n'" using m(2) Suc.IH by simp
    then show ?thesis using t moves_trans calm_trans by blast
  qed (use m(2) t in simp)
qed

subsection \<open>What the loop keeps\<close>

definition app_world :: "nat \<Rightarrow> nat \<Rightarrow> ('b, 'u) node \<Rightarrow> bool" where
  "app_world this srv n \<longleftrightarrow> node_ok n \<and> (if nd_server n = None then nd_remotes n = [] else gateway_ok this n) \<and>
     (\<forall>r \<in> set (nd_remotes n). unowned n r \<and> unat r \<notin> {0, this, srv}) \<and>
     (\<forall>l. \<forall>p \<in> set (in_queue l n). deliverable p) \<and> \<not> nd_auto_exit n"

text \<open>
  The kernel and the allocator, whenever the server's turn comes: new connections with descriptors
  and addresses of their own.
\<close>

definition arrivals :: "nat \<Rightarrow> nat \<Rightarrow> (('b, 'u) node \<Rightarrow> nat \<Rightarrow> u64 \<times> tp) \<Rightarrow> (('b, 'u) node \<Rightarrow> (nat \<times> int \<times> sockaddr_in) list) \<Rightarrow> bool" where
  "arrivals this srv addr waiting \<longleftrightarrow> (\<forall>n. gateway_ok this n \<longrightarrow> waiting_ok (addr n) n (waiting n) \<and>
     (\<forall>c \<in> set (map fst (waiting n)). unat (fst (addr n c)) \<notin> {0, this, srv}))"

lemma app_world_moves:
  assumes w: "app_world this srv n" and m: "moves n n'" and n': "node_ok n'" "nd_auto_exit n' = nd_auto_exit n"
    and q: "\<forall>l. \<forall>p \<in> set (in_queue l n'). deliverable p"
  shows "app_world this srv n'"
proof -
  have rs: "nd_remotes n' = nd_remotes n" and sv: "nd_server n' = None \<longleftrightarrow> nd_server n = None" using m by (auto simp: moves_def)
  have un: "\<forall>r \<in> set (nd_remotes n). unowned n r" using w by (simp add: app_world_def)
  have "gateway_ok this n'" if "nd_server n \<noteq> None"
    using moves_gateway [OF _ m un n'(1), of this] w that by (simp add: app_world_def)
  then show ?thesis using w n' q moves_unowned [OF m] by (auto simp: app_world_def rs sv split: if_splits)
qed

lemma calm_deliverable:
  "calm n n' \<Longrightarrow> \<forall>l. \<forall>p \<in> set (in_queue l n). deliverable p \<Longrightarrow> \<forall>l. \<forall>p \<in> set (in_queue l n'). deliverable p"
  unfolding calm_def by blast

lemma node_update_idle:
  assumes "app_world this srv n"
  shows "node_spin_update env this e n = Inr (Some success, n)"
proof -
  have live: "node_live n" using assms node_wiredD(1) by (auto simp: app_world_def node_ok_def)
  have "exec_foldl (prune_remote env) n rs = Inr n" if "set rs \<subseteq> set (nd_remotes n)" for rs
    using that
  proof (induction rs)
    case (Cons r rs)
    have "unowned n r" using assms Cons.prems by (simp add: app_world_def)
    then have "prune_remote env n r = Inr n"
      using link_socket_eq [OF live, of r] Cons.prems by (simp add: prune_remote_def unowned_def)
    then show ?case using Cons by simp
  qed simp
  then show ?thesis using assms by (simp add: node_spin_update_def app_world_def)
qed

lemma object_update_ok:
  assumes w: "app_world this srv n" and users: "users_return env" and arr: "arrivals this srv addr waiting"
    and p: "p = this \<or> p = srv \<or> (\<exists>r \<in> set (nd_remotes n). p = unat r)"
  shows "\<exists>n'. object_update env addr waiting this srv e p n = Inr (success, n') \<and> app_world this srv n' \<and>
    (nd_server n' = None \<longleftrightarrow> nd_server n = None) \<and> (p \<noteq> srv \<longrightarrow> nd_remotes n' = nd_remotes n)"
proof (cases "p = this")
  case True
  then show ?thesis using node_update_idle [OF w, of env e] w by (auto simp: object_update_def)
next
  case np: False
  show ?thesis
  proof (cases "p = srv")
    case True
    show ?thesis
    proof (cases "nd_server n")
      case None
      then show ?thesis using w True np by (auto simp: object_update_def gateway_spin_update_def)
    next
      case (Some sv)
      then have g: "gateway_ok this n" using w by (simp add: app_world_def)
      have wt: "waiting_ok (addr n) n (waiting n)" and ps: "\<forall>c \<in> set (map fst (waiting n)). unat (fst (addr n c)) \<notin> {0, this, srv}"
        using arr g by (simp_all add: arrivals_def)
      have un: "\<forall>r \<in> set (nd_remotes n). unowned n r" using w by (simp add: app_world_def)
      obtain n' sv' where t: "gateway_spin_update env (addr n) (waiting n) n = Inr n'" "gateway_ok this n'" "nd_server n' = Some sv'"
        "set (nd_remotes n') \<subseteq> set (nd_remotes n) \<union> (\<lambda>c. fst (addr n c)) ` set (map fst (waiting n))" "calm n n'"
        "\<forall>r \<in> set (nd_remotes n'). unowned n' r"
        by (rule gateway_turn_full [OF g users wt Some]) (rule that, (assumption | use un in \<open>auto; fail\<close>)+)
      have "\<forall>r \<in> set (nd_remotes n'). unat r \<notin> {0, this, srv}" using t(4) ps w unfolding app_world_def by blast
      then have "app_world this srv n'"
        using t(2,3,6) calm_deliverable [OF t(5)] t(5) w by (simp add: app_world_def calm_def) (simp add: gateway_ok_def)
      then show ?thesis using t(1,3) Some True np by (simp add: object_update_def)
    qed
  next
    case False
    with p np obtain r where r: "r \<in> set (nd_remotes n)" "p = unat r" by blast
    have ok: "node_ok n" using w by (simp add: app_world_def)
    have live: "node_live n" using ok node_wiredD(1) by (auto simp: node_ok_def)
    obtain rn where rn: "nd_remote_at n r = Some rn" using node_liveD(4) [OF live r(1)] by blast
    have "\<forall>p \<in> set (in_queue (rn_link rn) n). deliverable p" using w by (simp add: app_world_def)
    from remote_loop_drains [OF ok users r(1) rn this lessI] obtain n' where
      n': "remote_loop env r (Suc (length (in_queue (rn_link rn) n))) n = Inr n'" "node_ok n'" by blast
    from remote_loop_moves [OF n'(1)] have m: "moves n n'" "calm n n'" by simp_all
    have "app_world this srv n'"
      by (rule app_world_moves [OF w m(1) n'(2)]) (use m(2) calm_deliverable [OF m(2)] w in \<open>simp_all add: calm_def app_world_def\<close>)
    moreover have "remote_spin_update env r n = Inr (success, n')" using n'(1) rn by (simp add: remote_spin_update_def)
    ultimately show ?thesis using m(1) np False r(2) by (auto simp: object_update_def moves_def)
  qed
qed

subsection \<open>The spinner's list\<close>

lemma destroy_list:
  "fold (\<lambda>r. spinett_destroy (unat r)) rs st = st\<lparr>sp_list := map (\<lambda>p. if p \<in> unat ` set rs then 0 else p) (sp_list st),
     sp_alive := sp_alive st - unat ` set rs\<rparr>"
proof (induction rs arbitrary: st)
  case (Cons r rs)
  have "map (\<lambda>p. if p \<in> unat ` set rs then 0 else p) (map (\<lambda>p. if p \<noteq> unat r then p else 0) xs) =
      map (\<lambda>p. if p \<in> unat ` set (r # rs) then 0 else p) xs" for xs
    by (induction xs) auto
  moreover have "sp_alive st - {unat r} - unat ` set rs = sp_alive st - unat ` set (r # rs)" by auto
  moreover note Cons.IH [of "spinett_destroy (unat r) st"]
  ultimately show ?case
    by (simp only: fold_simps) (simp add: spinett_destroy_def unregister_spinett_def)
qed simp

lemma new_list:
  "fold (\<lambda>r. spinett_new (unat r)) rs st = st\<lparr>sp_to_add := sp_to_add st @ map unat rs, sp_alive := sp_alive st \<union> unat ` set rs\<rparr>"
  by (induction rs arbitrary: st) (auto simp: spinett_new_def register_spinett_def)

lemma track_fields:
  defines "gone old new \<equiv> filter (\<lambda>r. r \<notin> set new) old"
  shows "sp_list (track old new st) = map (\<lambda>p. if p \<in> unat ` set (gone old new) then 0 else p) (sp_list st)"
    and "sp_to_add (track old new st) = sp_to_add st @ map unat (gone new old)"
    and "sp_alive (track old new st) = sp_alive st - unat ` set (gone old new) \<union> unat ` set (gone new old)"
    and "sp_world (track old new st) = sp_world st"
  by (simp_all add: track_def destroy_list new_list gone_def)

lemma track_same: "track rs rs st = st"
  by (simp add: track_def filter_False)

text \<open>The spinner holds the node, its server and its remotes, and the server once.\<close>

definition app_ok :: "bool \<Rightarrow> nat \<Rightarrow> nat \<Rightarrow> ('b, 'u) node spinner \<Rightarrow> bool" where
  "app_ok served this srv st \<longleftrightarrow> app_world this srv (sp_world st) \<and> (served \<longleftrightarrow> nd_server (sp_world st) \<noteq> None) \<and>
     this \<noteq> srv \<and> this \<noteq> 0 \<and> srv \<noteq> 0 \<and> sp_alive st = {this, srv} \<union> unat ` set (nd_remotes (sp_world st)) \<and>
     spin_ok st \<and> count_list (sp_list st @ sp_to_add st) srv \<le> 1"

text \<open>
  Until the server's turn nothing waits to be adopted, so what its turn destroys has been.
\<close>

definition nothing_new :: "nat \<Rightarrow> nat list \<Rightarrow> 'w spinner \<Rightarrow> bool" where
  "nothing_new srv ps st \<longleftrightarrow> (srv \<in> set ps \<longrightarrow> sp_to_add st = [])"

lemma update_keeps_app:
  assumes ok: "app_ok served this srv st" and users: "users_return env" and arr: "arrivals this srv addr waiting"
    and p: "p \<in> sp_alive st" "p = srv \<longrightarrow> sp_to_add st = []"
  shows "\<exists>st'. app_update env addr waiting this srv e p st = Inr (success, st') \<and> app_ok served this srv st' \<and>
    length (sp_list st') = length (sp_list st) \<and> (\<forall>i < length (sp_list st). sp_list st' ! i = srv \<longleftrightarrow> sp_list st ! i = srv) \<and>
    (p \<noteq> srv \<longrightarrow> sp_to_add st' = sp_to_add st)"
proof -
  let ?n = "sp_world st"
  have w: "app_world this srv ?n" and alive: "sp_alive st = {this, srv} \<union> unat ` set (nd_remotes ?n)" and s: "spin_ok st"
      and c: "count_list (sp_list st @ sp_to_add st) srv \<le> 1" and nz: "this \<noteq> srv" "this \<noteq> 0" "srv \<noteq> 0"
      and sv: "served \<longleftrightarrow> nd_server ?n \<noteq> None"
    using ok by (simp_all add: app_ok_def)
  have "p = this \<or> p = srv \<or> (\<exists>r \<in> set (nd_remotes ?n). p = unat r)" using p(1) alive by auto
  from object_update_ok [OF w users arr this, of e] obtain n' where
    n': "object_update env addr waiting this srv e p ?n = Inr (success, n')" "app_world this srv n'"
      "nd_server n' = None \<longleftrightarrow> nd_server ?n = None" "p \<noteq> srv \<Longrightarrow> nd_remotes n' = nd_remotes ?n"
    by (elim exE conjE) (rule that, assumption+, simp)
  define gone where "gone = filter (\<lambda>r. r \<notin> set (nd_remotes n')) (nd_remotes ?n)"
  define come where "come = filter (\<lambda>r. r \<notin> set (nd_remotes ?n)) (nd_remotes n')"
  define st' where "st' = track (nd_remotes ?n) (nd_remotes n') (st\<lparr>sp_world := n'\<rparr>)"
  have t: "sp_list st' = map (\<lambda>p. if p \<in> unat ` set gone then 0 else p) (sp_list st)" "sp_to_add st' = sp_to_add st @ map unat come"
      "sp_alive st' = sp_alive st - unat ` set gone \<union> unat ` set come" "sp_world st' = n'"
    by (simp_all add: st'_def track_fields gone_def come_def)
  have ptr: "unat r \<notin> {0, this, srv}" if "r \<in> set (nd_remotes ?n) \<or> r \<in> set (nd_remotes n')" for r
    using that w n'(2) unfolding app_world_def by blast
  have alive': "sp_alive st' = {this, srv} \<union> unat ` set (nd_remotes n')"
  proof -
    let ?old = "unat ` set (nd_remotes ?n)" and ?new = "unat ` set (nd_remotes n')"
    have inj: "inj (unat :: u64 \<Rightarrow> nat)" by (rule injI) (rule word_unat_eq_iff [THEN iffD2])
    have "set gone = set (nd_remotes ?n) - set (nd_remotes n')" "set come = set (nd_remotes n') - set (nd_remotes ?n)"
      by (auto simp: gone_def come_def)
    then have "unat ` set gone = ?old - ?new" "unat ` set come = ?new - ?old" by (simp_all add: image_set_diff [OF inj])
    moreover have "this \<notin> ?old" "srv \<notin> ?old" using ptr by auto
    ultimately show ?thesis unfolding t(3) alive by blast
  qed
  have add: "q \<notin> unat ` set gone" if "q \<in> set (sp_to_add st)" for q
    using that p(2) n'(4) by (cases "p = srv") (auto simp: gone_def)
  have "spin_ok st'"
    unfolding spin_ok_def
  proof (intro conjI ballI impI)
    fix q assume "q \<in> set (sp_list st')" "q \<noteq> 0"
    then have "q \<in> set (sp_list st)" "q \<notin> unat ` set gone" by (auto simp: t(1) split: if_splits)
    then show "q \<in> sp_alive st'" using s \<open>q \<noteq> 0\<close> by (auto simp: spin_ok_def t(3))
  next
    fix q assume "q \<in> set (sp_to_add st')"
    then show "q \<in> sp_alive st'" using s add by (auto simp: spin_ok_def t(2,3))
  qed
  moreover have srv: "(if q \<in> unat ` set gone then 0 else q) = srv \<longleftrightarrow> q = srv" for q
    using ptr nz(3) by (auto simp: gone_def)
  have "count_list (map (\<lambda>q. if q \<in> unat ` set gone then 0 else q) xs) srv = count_list xs srv" for xs
    using srv by (induction xs) auto
  moreover have "count_list (map unat come) srv = 0" using ptr by (auto simp: come_def count_list_0_iff)
  ultimately have "app_ok served this srv st'" using n'(2,3) sv nz alive' c by (simp add: app_ok_def t(1,2,4))
  moreover have "app_update env addr waiting this srv e p st = Inr (success, st')" using n'(1) by (simp add: app_update_def st'_def)
  moreover have "sp_to_add st' = sp_to_add st" if "p \<noteq> srv" using n'(4) [OF that] by (simp add: t(2) come_def)
  ultimately show ?thesis using srv by (intro exI [of _ st']) (simp add: t(1))
qed

lemma count_once:
  assumes "count_list xs x \<le> 1" and "i < length xs" and "j < length xs" and "xs ! i = x" and "xs ! j = x"
  shows "i = j"
proof (rule ccontr)
  assume "i \<noteq> j"
  then have "card {i, j} = 2" by simp
  moreover have "card {i, j} \<le> card {k. k < length xs \<and> xs ! k = x}"
    by (rule card_mono) (use assms in auto)
  moreover have "card {k. k < length xs \<and> xs ! k = x} = count_list xs x"
    by (simp add: count_list_eq_length_filter length_filter_conv_card eq_commute)
  ultimately show False using assms(1) by simp
qed

lemma spin_from_app:
  assumes "app_ok served this srv st" and "users_return env" and "arrivals this srv addr waiting"
    and "distinct is" and "\<forall>i \<in> set is. i < length (sp_list st)" and "nothing_new srv (map ((!) (sp_list st)) is) st"
  shows "\<exists>st'. spin_from (app_update env addr waiting this srv e) is st = Inr (success, st') \<and> app_ok served this srv st'"
  using assms(1,4-6)
proof (induction "is" arbitrary: st)
  case (Cons i js)
  let ?p = "sp_list st ! i"
  have i: "i < length (sp_list st)" using Cons.prems(3) by simp
  show ?case
  proof (cases "?p = 0")
    case True
    then show ?thesis using Cons i by (auto simp: nothing_new_def)
  next
    case False
    then have alive: "?p \<in> sp_alive st" using Cons.prems(1) i by (auto simp: app_ok_def spin_ok_def)
    have "?p = srv \<longrightarrow> sp_to_add st = []" using Cons.prems(4) by (auto simp: nothing_new_def)
    from update_keeps_app [OF Cons.prems(1) assms(2,3) alive this, of e] obtain st1 where
      st1: "app_update env addr waiting this srv e ?p st = Inr (success, st1)" "app_ok served this srv st1"
        "length (sp_list st1) = length (sp_list st)" "\<forall>i < length (sp_list st). sp_list st1 ! i = srv \<longleftrightarrow> sp_list st ! i = srv"
        "?p \<noteq> srv \<longrightarrow> sp_to_add st1 = sp_to_add st" by blast
    have "nothing_new srv (map ((!) (sp_list st1)) js) st1"
      unfolding nothing_new_def
    proof
      assume "srv \<in> set (map ((!) (sp_list st1)) js)"
      then obtain j where j: "j \<in> set js" "sp_list st1 ! j = srv" by auto
      then have js: "sp_list st ! j = srv" "j < length (sp_list st)" "j \<noteq> i" using st1(4) Cons.prems(2,3) by auto
      have "count_list (sp_list st) srv \<le> 1" using Cons.prems(1) by (simp add: app_ok_def)
      then have "?p \<noteq> srv" using count_once [of "sp_list st" srv i j] i js by blast
      then show "sp_to_add st1 = []" using st1(5) Cons.prems(4) j(1) js(1) by (force simp: nothing_new_def)
    qed
    then obtain st' where "spin_from (app_update env addr waiting this srv e) js st1 = Inr (success, st')" "app_ok served this srv st'"
      using Cons.IH [OF st1(2)] Cons.prems(2,3) st1(3) by auto
    then show ?thesis using st1(1) False i alive by (intro exI [of _ st']) (simp add: Let_def)
  qed
qed simp

lemma app_ok_end:
  assumes "app_ok served this srv st"
  shows "app_ok served this srv (spin_prune (spin_add st))" and "sp_to_add (spin_prune (spin_add st)) = []"
proof -
  have w: "sp_world (spin_prune (spin_add st)) = sp_world st" "sp_alive (spin_prune (spin_add st)) = sp_alive st"
    by (simp_all add: spin_prune_def spin_add_def)
  have l: "sp_list (spin_prune (spin_add st)) = remove1 0 (sp_list st @ sp_to_add st)"
    by (simp add: spin_prune_def spin_add_def)
  show a: "sp_to_add (spin_prune (spin_add st)) = []" by (simp add: spin_prune_def spin_add_def)
  have "count_list (remove1 0 xs) x \<le> count_list xs x" for xs :: "nat list" and x by (induction xs) auto
  then have "count_list (remove1 0 (sp_list st @ sp_to_add st)) srv \<le> 1"
    using assms le_trans by (fastforce simp: app_ok_def)
  then show "app_ok served this srv (spin_prune (spin_add st))"
    using assms spin_ok_end [of st] by (simp add: app_ok_def w l a)
qed

lemma spin_app:
  assumes ok: "app_ok served this srv st" and "users_return env" and "arrivals this srv addr waiting"
    and new: "nothing_new srv (sp_list st) st"
  shows "\<exists>st'. spin_once (app_update env addr waiting this srv e) st = Inr (success, st') \<and> app_ok served this srv st' \<and>
    nothing_new srv (sp_list st') st'"
proof -
  have "\<forall>i \<in> set [0..<length (sp_list st)]. i < length (sp_list st)" by simp
  moreover have "nothing_new srv (map ((!) (sp_list st)) [0..<length (sp_list st)]) st" using new by (simp add: map_nth)
  ultimately obtain st' where "spin_from (app_update env addr waiting this srv e) [0..<length (sp_list st)] st = Inr (success, st')"
      "app_ok served this srv st'"
    using spin_from_app [OF ok assms(2,3), of "[0..<length (sp_list st)]" e] by auto
  then show ?thesis using app_ok_end [of served this srv st'] by (auto simp: spin_once_def nothing_new_def)
qed

subsection \<open>The program's steps\<close>

definition daemon_ok :: "bool \<Rightarrow> nat \<Rightarrow> nat \<Rightarrow> ('b, 'u) daemon \<Rightarrow> bool" where
  "daemon_ok served this srv d \<longleftrightarrow> app_ok served this srv (dm_spinner d) \<and> nothing_new srv (sp_list (dm_spinner d)) (dm_spinner d)"

lemma daemon_ok_with:
  assumes ok: "daemon_ok served this srv d" and n: "n = sp_world (dm_spinner d)" and m: "moves n n'" and n': "node_ok n'"
    and a: "nd_auto_exit n' = nd_auto_exit n" and q: "\<forall>l. \<forall>p \<in> set (in_queue l n'). deliverable p"
  shows "daemon_ok served this srv (with_node n' d)"
proof -
  have "app_world this srv n" using ok n by (simp add: daemon_ok_def app_ok_def)
  from app_world_moves [OF this m n' a q] have "app_world this srv n'" .
  moreover have "nd_remotes n' = nd_remotes n" "nd_server n' = None \<longleftrightarrow> nd_server n = None" using m by (auto simp: moves_def)
  moreover have "spin_ok (st\<lparr>sp_world := n'\<rparr>) \<longleftrightarrow> spin_ok st" for st by (simp add: spin_ok_def)
  ultimately show ?thesis
    using ok n by (simp add: daemon_ok_def app_ok_def with_node_def nothing_new_def)
qed

lemma kernel_moves: "moves n (kernel_acts n ev inp)"
  unfolding moves_def
  by (intro conjI exI [of _ "\<lambda>sv. sv\<lparr>sv_in := inp\<rparr>"]) (simp_all add: kernel_acts_def link_moves_same)

lemma daemon_ok_step:
  assumes "daemon_step env junk addr waiting this srv d d'" and "daemon_ok served this srv d"
    and "users_return env" and "arrivals this srv addr waiting"
  shows "daemon_ok served this srv d'"
  using assms
proof (induction rule: daemon_step.induct)
  case (Spin d ret st)
  then show ?case using spin_app [of served this srv "dm_spinner d" env addr waiting "should_exit d"] by (auto simp: daemon_ok_def)
next
  case (Section n d none t)
  let ?n' = "n\<lparr>nd_thread := t\<rparr>"
  have "link_moves (th_link (nd_thread n) l) (th_link t l)" for l using section_moves [OF Section(2)] .
  then have "moves n ?n'" unfolding moves_def by (intro conjI exI [of _ id]) (simp_all add: option.map_id)
  moreover have "node_ok n" using Section(1,5) by (simp add: daemon_ok_def app_ok_def app_world_def)
  then have "node_ok ?n'" using wired_links [of n ?n'] Section(3) by (simp add: node_ok_def latest_ok_def)
  ultimately show ?case using daemon_ok_with [OF Section(5,1)] Section(4) by simp
next
  case (Kernel d ev inp)
  let ?n = "sp_world (dm_spinner d)"
  have w: "app_world this srv ?n" using Kernel(1) by (simp add: daemon_ok_def app_ok_def)
  then have "node_ok ?n" by (simp add: app_world_def)
  then have "node_ok (kernel_acts ?n ev inp)"
    using wired_links [of ?n "kernel_acts ?n ev inp"] by (simp add: node_ok_def latest_ok_def kernel_acts_def)
  moreover have "\<forall>l. \<forall>p \<in> set (in_queue l (kernel_acts ?n ev inp)). deliverable p"
    using w by (simp add: app_world_def in_queue_def kernel_acts_def)
  ultimately show ?case using daemon_ok_with [OF Kernel(1) refl kernel_moves] by (simp add: kernel_acts_def)
next
  case (Signal d)
  then show ?case by (simp add: daemon_ok_def sig_exit_def)
qed

text \<open>The server that \<open>gateway\<close> opens.\<close>

lemma server_open_keeps:
  assumes "server_open strerror rs socket_ret setsockopt_ret bind_ret listen_ret errno sv = (ret, sv')"
  shows "sv_clients sv' = sv_clients sv" and "sv_listeners sv' = sv_listeners sv" and "to_bool ret \<Longrightarrow> is_open (sv_socket sv')"
  using assms
  by (auto simp: server_open_def tcp_open_def tcp_bind_def is_open_def get_std_error_of_def get_std_error_def failure_def
      result_failure_def result_of_message_def to_bool_def Let_def split: prod.splits if_splits option.splits)

lemma daylightd_start_ok:
  assumes "this \<noteq> srv" and "this \<noteq> 0" and "srv \<noteq> 0"
  shows "\<exists>ret d. daylightd_start env h rnd a link u this srv base socket_ret setsockopt_ret bind_ret listen_ret errno = Inr (ret, d) \<and>
    daemon_ok (to_bool ret) this srv d \<and> dm_exit d = False"
proof -
  obtain n0 where n0: "node_new env ''master'' h rnd a link u = Inr n0" "node_ok n0" "nd_remotes n0 = []" "nd_server n0 = None"
      "nd_thread n0 = tcp_thread_new link"
    using node_new_ok [of env "''master''" h rnd a link u] by (elim exE conjE) (rule that, assumption+)
  have exit: "\<not> nd_auto_exit n0" using n0(1) by (auto simp: node_new_def Let_def exec_simps)
  obtain ret sv where op: "server_open (ne_strerror env) (ne_resolver env) socket_ret setsockopt_ret bind_ret listen_ret errno
      (tcp_server_new \<lparr>sa_host = [], sa_port = 8374\<rparr> base) = (ret, sv)" by (rule prod.exhaust)
  note sv = server_open_keeps [OF op]
  define n1 where "n1 = n0\<lparr>nd_server := (if to_bool ret then Some (sv\<lparr>sv_listeners := [this]\<rparr>) else None)\<rparr>"
  have st: "start_gateway_service env this base socket_ret setsockopt_ret bind_ret listen_ret errno \<lparr>sa_host = [], sa_port = 8374\<rparr> n0 =
      Inr (if to_bool ret then success else ret, n1)"
    using n0(4) op sv(2) by (simp add: start_gateway_service_def add_tcp_server_listener_def n1_def tcp_server_new_def)
  have ok: "node_ok n1" using wired_links [of n0 n1] n0(2) by (simp add: n1_def node_ok_def latest_ok_def)
  have "gateway_ok this n1" if "to_bool ret"
    using ok n0(3) sv that by (simp add: gateway_ok_def n1_def one_remote_def server_inv_def tcp_server_new_def)
  then have "app_world this srv n1"
    using ok n0(3,5) exit by (simp add: app_world_def in_queue_def tcp_thread_new_def) (simp add: n1_def in_queue_def tcp_thread_new_def)
  then show ?thesis
    using assms n0(1,3) st
    by (simp add: daylightd_start_def daemon_ok_def app_ok_def nothing_new_def spinett_new_def register_spinett_def spin_ok_def)
       (auto simp: n1_def)
qed

subsection \<open>Properties\<close>



end
