(* ===== verification/Tools.thy ===== *)
theory Tools
  imports Daemon Splat
begin

text \<open>
  The client programs: \<open>listen\<close> (\<open>tools/listen/listen.cpp\<close>), which prints the messages of a topic, and
  the examples \<open>daylite_pub\<close> and \<open>daylite_sub\<close>. Each makes a node, connects it to the daemon on this
  machine, lets the spinner update its objects until a signal comes, and destroys its objects.
\<close>

subsection \<open>What the programs share\<close>

text \<open>What the allocator, the kernel and the clock give a program: see \<open>node_new\<close> and \<open>node_start\<close>.\<close>

record client_setup =
  cs_hash :: u64
  cs_rnd :: int
  cs_box :: u64
  cs_link :: "tp \<Rightarrow> tcp_link"
  cs_this :: nat
  cs_srv :: nat
  cs_base :: "unit tcp_server"
  cs_server_ret :: "int \<times> int \<times> int \<times> int \<times> u32"
  cs_remote :: u64
  cs_tp :: tp
  cs_sock :: nat
  cs_socket_ret :: "int \<times> u32"
  cs_connect_ret :: "int \<times> u32"

text \<open>A program has returned from \<open>main\<close>, or runs its loop with the flag its signal handler sets.\<close>

datatype ('b, 'u) program = Exited int | Looping "('b, 'u) daemon"

definition node_of :: "('b, 'u) daemon \<Rightarrow> ('b, 'u) node" where
  "node_of d = sp_world (dm_spinner d)"

definition create_and_start :: "('b, 'u) node_env \<Rightarrow> client_setup \<Rightarrow> string \<Rightarrow> 'u \<Rightarrow>
    (void_result \<times> ('b, 'u) daemon) exec" where
  "create_and_start env cs name u =
     exec_bind (node_new env name (cs_hash cs) (cs_rnd cs) (cs_box cs) (cs_link cs) u) (\<lambda>me.
     case cs_server_ret cs of (ssocket, setsockopt_ret, bind_ret, listen_ret, errno) \<Rightarrow>
     exec_bind (node_start env (cs_this cs) (cs_base cs) ssocket setsockopt_ret bind_ret listen_ret errno
         (cs_remote cs) (cs_tp cs) (cs_sock cs) (fst (cs_socket_ret cs)) (snd (cs_socket_ret cs))
         (fst (cs_connect_ret cs)) (snd (cs_connect_ret cs)) \<lparr>sa_host = ''127.0.0.1'', sa_port = 8374\<rparr> me) (\<lambda>(ret, n).
       Inr (ret, \<lparr>dm_spinner = track [] (nd_remotes n) (spinett_new (cs_srv cs) (spinett_new (cs_this cs)
                    \<lparr>sp_to_add = [], sp_list = [], sp_alive = {}, sp_world = n\<rparr>)),
                  dm_exit = False\<rparr>)))"

text \<open>The objects of \<open>main\<close> are destroyed in the opposite order, the node last.\<close>

definition leave_main :: "('b, 'u) node_env \<Rightarrow> client_setup \<Rightarrow> int \<Rightarrow> ('b, 'u) node \<Rightarrow> ('b, 'u) program exec" where
  "leave_main env cs code n = exec_bind (node_destroy env (cs_this cs) n) (\<lambda>_. Inr (Exited code))"

text \<open>
  \<open>print_bson\<close>, the function of the lambda that \<open>listen\<close> and \<open>daylite_sub\<close> subscribe with: \<open>as_json\<close>
  is \<open>bson_as_json\<close>. The users' state is what the program has printed.
\<close>

definition print_bson :: "('b bson \<Rightarrow> string) \<Rightarrow> 'b bson \<Rightarrow> string list \<Rightarrow> string list" where
  "print_bson as_json msg out = out @ [as_json msg]"

definition printing :: "('b bson \<Rightarrow> string) \<Rightarrow> ('b, string list) node_env \<Rightarrow> ('b, string list) node_env" where
  "printing as_json env = env\<lparr>ne_user := (\<lambda>f arg msg out. Inr (print_bson as_json msg out))\<rparr>"

subsection \<open>listen\<close>

text \<open>
  \<open>s\<close> and \<open>b\<close> are the addresses of the subscriber and of its mailbox; \<open>sig_err\<close> says that \<open>signal\<close>
  returned \<open>SIG_ERR\<close>.
\<close>

definition listen_end :: "('b, string list) node_env \<Rightarrow> client_setup \<Rightarrow> nat \<Rightarrow> int \<Rightarrow> ('b, string list) node \<Rightarrow>
    ('b, string list) program exec" where
  "listen_end env cs s code n = exec_bind (subscriber_destroy s n) (leave_main env cs code)"

definition listen_begin :: "('b, string list) node_env \<Rightarrow> client_setup \<Rightarrow> nat \<Rightarrow> u64 \<Rightarrow> string list \<Rightarrow> bool \<Rightarrow>
    ('b, string list) program exec" where
  "listen_begin env cs s b argv sig_err =
     (if length argv \<noteq> 2 then Inr (Exited 1)
      else exec_bind (create_and_start env cs ''listen'' []) (\<lambda>(ret, d).
        if \<not> to_bool ret then leave_main env cs 1 (node_of d)
        else exec_bind (subscriber_new env s b (argv ! 1) (User_callback 0) 0 (node_of d)) (\<lambda>n.
          if sig_err then listen_end env cs s 1 n
          else Inr (Looping (with_node n d)))))"

text \<open>A turn of the loop; \<open>sig\<close> sets a flag that the node does not look at.\<close>

definition listen_turn :: "('b, string list) node_env \<Rightarrow> (('b, string list) node \<Rightarrow> nat \<Rightarrow> u64 \<times> tp) \<Rightarrow>
    (('b, string list) node \<Rightarrow> (nat \<times> int \<times> sockaddr_in) list) \<Rightarrow> client_setup \<Rightarrow> nat \<Rightarrow>
    ('b, string list) daemon \<Rightarrow> ('b, string list) program exec" where
  "listen_turn env addr waiting cs s d =
     (if dm_exit d then listen_end env cs s 0 (node_of d)
      else exec_bind (spin_once (app_update env addr waiting (cs_this cs) (cs_srv cs) False) (dm_spinner d)) (\<lambda>(_, st).
        Inr (Looping (d\<lparr>dm_spinner := st\<rparr>))))"

subsection \<open>daylite\_sub\<close>

definition sub_begin :: "('b, string list) node_env \<Rightarrow> client_setup \<Rightarrow> nat \<Rightarrow> u64 \<Rightarrow> ('b, string list) program exec" where
  "sub_begin env cs s b =
     exec_bind (create_and_start env cs ''node'' []) (\<lambda>(ret, d).
       if \<not> to_bool ret then leave_main env cs 1 (node_of d)
       else exec_bind (subscriber_new env s b ''/test'' (User_callback 0) 0 (node_of d)) (\<lambda>n.
         Inr (Looping (with_node n d))))"

text \<open>The loop lets the spinner update the objects twice, with pauses for the kernel: \<open>pause\<close>.\<close>

definition sub_turn :: "('b, string list) node_env \<Rightarrow> (('b, string list) node \<Rightarrow> nat \<Rightarrow> u64 \<times> tp) \<Rightarrow>
    (('b, string list) node \<Rightarrow> (nat \<times> int \<times> sockaddr_in) list) \<Rightarrow> client_setup \<Rightarrow> nat \<Rightarrow>
    (('b, string list) daemon \<Rightarrow> ('b, string list) daemon) \<Rightarrow> ('b, string list) daemon \<Rightarrow> ('b, string list) program exec" where
  "sub_turn env addr waiting cs s pause d =
     (if should_exit d then listen_end env cs s 0 (node_of d)
      else let d1 = pause d in
        exec_bind (spin_once (app_update env addr waiting (cs_this cs) (cs_srv cs) (should_exit d1)) (dm_spinner d1)) (\<lambda>(_, st).
        let d2 = pause (d1\<lparr>dm_spinner := st\<rparr>) in
        exec_bind (spin_once (app_update env addr waiting (cs_this cs) (cs_srv cs) (should_exit d2)) (dm_spinner d2)) (\<lambda>(_, st').
          Inr (Looping (d2\<lparr>dm_spinner := st'\<rparr>)))))"

subsection \<open>daylite\_pub\<close>

text \<open>\<open>a\<close> and \<open>b\<close> are the addresses of the publisher and of its mailbox.\<close>

definition pub_end :: "('b, 'u) node_env \<Rightarrow> client_setup \<Rightarrow> nat \<Rightarrow> int \<Rightarrow> ('b, 'u) node \<Rightarrow> ('b, 'u) program exec" where
  "pub_end env cs a code n = exec_bind (publisher_destroy a n) (leave_main env cs code)"

definition pub_begin :: "('b, 'u) node_env \<Rightarrow> client_setup \<Rightarrow> nat \<Rightarrow> u64 \<Rightarrow> 'u \<Rightarrow> ('b, 'u) program exec" where
  "pub_begin env cs a b u =
     exec_bind (create_and_start env cs ''node'' u) (\<lambda>(ret, d).
       if \<not> to_bool ret then leave_main env cs 1 (node_of d)
       else exec_bind (publisher_new env a b ''/test'' (node_of d)) (\<lambda>n.
         exec_bind (set_firehose a True n) (\<lambda>n'. Inr (Looping (with_node n' d)))))"

text \<open>
  A turn of the loop with its counter \<open>i\<close>; \<open>bind\<close> is the generated \<open>string_msg::bind\<close>. The
  result of \<open>publish\<close> is not looked at.
\<close>

definition pub_turn :: "('b, 'u) node_env \<Rightarrow> (('b, 'u) node \<Rightarrow> nat \<Rightarrow> u64 \<times> tp) \<Rightarrow>
    (('b, 'u) node \<Rightarrow> (nat \<times> int \<times> sockaddr_in) list) \<Rightarrow> client_setup \<Rightarrow> nat \<Rightarrow> (string \<Rightarrow> 'b bson) \<Rightarrow>
    u32 \<times> ('b, 'u) daemon \<Rightarrow> (u32 \<times> ('b, 'u) program) exec" where
  "pub_turn env addr waiting cs a bind = (\<lambda>(i, d).
     if should_exit d then exec_bind (pub_end env cs a 0 (node_of d)) (\<lambda>p. Inr (i, p))
     else exec_bind (publish env a (bind (''test'' @ decimal (unat i))) (node_of d)) (\<lambda>(_, n).
       exec_bind (spin_once (app_update env addr waiting (cs_this cs) (cs_srv cs) (should_exit d)) (dm_spinner (with_node n d))) (\<lambda>(_, st).
         Inr (i + 1, Looping (d\<lparr>dm_spinner := st\<rparr>)))))"


subsection \<open>A program with one connection\<close>

text \<open>
  A node with the connection to the daemon and a gateway nobody has come to. The pointer to the
  connection's socket is never null, even when the object has gone.
\<close>

definition no_clients :: "('b, 'u) node \<Rightarrow> bool" where
  "no_clients n \<longleftrightarrow> (\<forall>sv. nd_server n = Some sv \<longrightarrow> sv_clients sv = [])"

definition client_world :: "nat list \<Rightarrow> nat list \<Rightarrow> u64 \<Rightarrow> ('b, 'u) node \<Rightarrow> bool" where
  "client_world ps ss r n \<longleftrightarrow> node_ok n \<and> nd_publishers n = ps \<and> nd_subscribers n = ss \<and> nd_remotes n = [r] \<and>
     socket_of n r \<noteq> None \<and> no_clients n \<and> (\<forall>l. \<forall>p \<in> set (in_queue l n). deliverable p) \<and> \<not> nd_auto_exit n"

lemma client_world_moves:
  assumes "client_world ps ss r n" and m: "moves n n'" and "node_ok n'" and "nd_auto_exit n' = nd_auto_exit n"
    and "\<forall>l. \<forall>p \<in> set (in_queue l n'). deliverable p"
    and "nd_publishers n' = nd_publishers n" and "nd_subscribers n' = nd_subscribers n"
  shows "client_world ps ss r n'"
proof -
  have c: "no_clients n" using assms(1) by (simp add: client_world_def)
  obtain f where "nd_server n' = map_option f (nd_server n)" "\<forall>sv. sv_clients (f sv) = sv_clients sv"
    using m unfolding moves_def by blast
  then have "no_clients n'" using c by (auto simp: no_clients_def)
  moreover have "nd_remotes n' = nd_remotes n" using m by (simp add: moves_def)
  moreover have "socket_of n' r = socket_of n r" using moves_socket [OF m] .
  ultimately show ?thesis using assms(1,3-) by (simp add: client_world_def)
qed

lemma remote_take_endpoints:
  assumes "remote_take env r n = Inr (b, n')"
  shows "nd_publishers n' = nd_publishers n \<and> nd_subscribers n' = nd_subscribers n"
  using assms by (auto simp: remote_take_def exec_simps Let_def frameD dest!: node_mail_frame split: if_splits)

lemma remote_loop_endpoints:
  "remote_loop env r k n = Inr n' \<Longrightarrow> nd_publishers n' = nd_publishers n \<and> nd_subscribers n' = nd_subscribers n"
proof (induction k arbitrary: n)
  case (Suc k)
  then obtain more m where m: "remote_take env r n = Inr (more, m)" "(if more then remote_loop env r k m else Inr m) = Inr n'"
    by (auto simp: exec_simps)
  then show ?case using Suc.IH [of m] remote_take_endpoints [OF m(1)] by (cases more) auto
qed simp

lemma gateway_idle:
  assumes "no_clients n"
  shows "\<exists>s. gateway_spin_update env addr [] n = Inr (n\<lparr>nd_server := s\<rparr>) \<and> (s = None \<longleftrightarrow> nd_server n = None) \<and>
    (\<forall>sv. s = Some sv \<longrightarrow> sv_clients sv = [])"
proof (cases "nd_server n")
  case None
  then show ?thesis by (intro exI [of _ None]) (simp add: gateway_spin_update_def)
next
  case (Some sv)
  let ?v = "client_view n sv"
  have cl: "sv_clients sv = []" using assms Some by (simp add: no_clients_def)
  have v: "sv_clients ?v = []" "sv_world ?v = n" by (simp_all add: client_view_def server_with_def cl)
  then have "?v\<lparr>sv_clients := []\<rparr> = ?v" by simp
  then have sp: "server_spin_update (ne_strerror env) (ne_resolver env) (node_notify env addr) [] ?v = Inr (success, ?v)"
    using v by (simp add: server_spin_update_def)
  have none: "{a. sv_heap ?v a \<noteq> None \<and> sv_heap ?v a = None} = {}" by blast
  have free: "free_sockets {} m = m" for m :: "('a, 'b) node" by (simp add: free_sockets_def)
  have "(case x of None \<Rightarrow> a | Some c \<Rightarrow> a) = a" for x :: "nat option" and a :: "recv_event list"
    by (cases x) simp_all
  then have ev: "client_events ?v m = m" for m :: "('a, 'b) node"
    by (simp add: client_events_def cl cong: option.case_cong)
  have "gateway_spin_update env addr [] n = Inr (n\<lparr>nd_server := Some (server_with () ?v)\<rparr>)"
    by (simp only: gateway_spin_update_def Some option.case Let_def sp exec_bind.simps case_prod_conv none free ev v(2))
  then show ?thesis using Some by (intro exI [of _ "Some (server_with () ?v)"]) (simp add: server_with_def cl)
qed

lemma client_object_update:
  assumes w: "client_world ps ss r n" and users: "users_return env" and p: "p \<in> {this, srv, unat r}"
  shows "\<exists>n'. object_update env addr (\<lambda>_. []) this srv e p n = Inr (success, n') \<and> client_world ps ss r n' \<and>
    nd_remotes n' = nd_remotes n"
proof -
  have ok: "node_ok n" and rs: "nd_remotes n = [r]" and s: "socket_of n r \<noteq> None" and c: "no_clients n"
    using w by (simp_all add: client_world_def)
  have live: "node_live n" using ok node_wiredD(1) by (auto simp: node_ok_def)
  consider "p = this" | "p \<noteq> this" "p = srv" | "p \<noteq> this" "p \<noteq> srv" "p = unat r" using p by blast
  then show ?thesis
  proof cases
    case 1
    have "prune_remote env n r = Inr n" using link_socket_eq [OF live, of r] rs s by (simp add: prune_remote_def)
    then have "node_spin_update env this e n = Inr (Some success, n)"
      using w by (simp add: node_spin_update_def rs client_world_def)
    then show ?thesis using 1 w by (simp add: object_update_def)
  next
    case 2
    obtain t where t: "gateway_spin_update env (addr n) [] n = Inr (n\<lparr>nd_server := t\<rparr>)" "\<forall>sv. t = Some sv \<longrightarrow> sv_clients sv = []"
      using gateway_idle [OF c] by blast
    let ?n = "n\<lparr>nd_server := t\<rparr>"
    have "node_ok ?n" using wired_links [of n ?n] ok by (simp add: node_ok_def latest_ok_def)
    moreover have "socket_of ?n r = socket_of n r" "in_queue l ?n = in_queue l n" for l
      by (simp_all add: socket_of_def in_queue_def cong: option.case_cong)
    ultimately have "client_world ps ss r ?n" using w t(2) by (simp add: client_world_def no_clients_def)
    then show ?thesis using 2 t(1) by (simp add: object_update_def)
  next
    case 3
    obtain rn where rn: "nd_remote_at n r = Some rn" using node_liveD(4) [OF live, of r] rs by auto
    have q: "\<forall>p \<in> set (in_queue (rn_link rn) n). deliverable p" using w by (simp add: client_world_def)
    from remote_loop_drains [OF ok users _ rn q lessI] rs obtain n' where
      n': "remote_loop env r (Suc (length (in_queue (rn_link rn) n))) n = Inr n'" "node_ok n'" by auto
    note m = remote_loop_moves [OF n'(1)] and e = remote_loop_endpoints [OF n'(1)]
    have "\<forall>l. \<forall>p \<in> set (in_queue l n'). deliverable p"
      using calm_deliverable [OF conjunct2 [OF m]] w by (simp add: client_world_def)
    then have "client_world ps ss r n'"
      using client_world_moves [OF w conjunct1 [OF m] n'(2)] m e by (simp add: calm_def)
    moreover have "remote_spin_update env r n = Inr (success, n')" using n'(1) rn by (simp add: remote_spin_update_def)
    ultimately show ?thesis using 3 m by (auto simp: object_update_def moves_def)
  qed
qed

text \<open>A spinner whose updates succeed and keep an invariant of it.\<close>

lemma spin_once_keeps:
  assumes upd: "\<And>p st. J st \<Longrightarrow> p \<in> sp_alive st \<Longrightarrow>
      \<exists>st'. upd p st = Inr (success, st') \<and> J st' \<and> length (sp_list st') = length (sp_list st)"
    and ok: "\<And>st. J st \<Longrightarrow> spin_ok st" and fin: "\<And>st. J st \<Longrightarrow> J (spin_prune (spin_add st))" and "J st"
  shows "\<exists>st'. spin_once upd st = Inr (success, st') \<and> J st'"
proof -
  have "\<exists>st'. spin_from upd is st = Inr (success, st') \<and> J st'" if "\<forall>i \<in> set is. i < length (sp_list st)" for "is"
    using that \<open>J st\<close>
  proof (induction "is" arbitrary: st)
    case (Cons i js)
    show ?case
    proof (cases "sp_list st ! i = 0")
      case False
      then have "sp_list st ! i \<in> sp_alive st" using ok [OF Cons.prems(2)] Cons.prems(1) by (simp add: spin_ok_def)
      then show ?thesis using upd [OF Cons.prems(2)] Cons False by (fastforce simp: Let_def)
    qed (use Cons in simp)
  qed simp
  from this [of "[0..<length (sp_list st)]"] obtain st' where
    "spin_from upd [0..<length (sp_list st)] st = Inr (success, st')" "J st'" by auto
  then show ?thesis using fin by (auto simp: spin_once_def)
qed

definition client_ok :: "nat \<Rightarrow> nat \<Rightarrow> nat list \<Rightarrow> nat list \<Rightarrow> u64 \<Rightarrow> ('b, 'u) node spinner \<Rightarrow> bool" where
  "client_ok this srv ps ss r st \<longleftrightarrow> client_world ps ss r (sp_world st) \<and> spin_ok st \<and> sp_alive st = {this, srv, unat r}"

lemma spin_ok_world: "spin_ok (st\<lparr>sp_world := w\<rparr>) = spin_ok st"
  by (simp add: spin_ok_def)

lemma client_spin:
  assumes "client_ok this srv ps ss r st" and users: "users_return env"
  shows "\<exists>st'. spin_once (app_update env addr (\<lambda>_. []) this srv e) st = Inr (success, st') \<and> client_ok this srv ps ss r st'"
proof (rule spin_once_keeps [where J = "client_ok this srv ps ss r"])
  fix p and st :: "('a, 'b) node spinner" assume J: "client_ok this srv ps ss r st" and p: "p \<in> sp_alive st"
  then obtain n' where "object_update env addr (\<lambda>_. []) this srv e p (sp_world st) = Inr (success, n')"
      "client_world ps ss r n'" "nd_remotes n' = nd_remotes (sp_world st)"
    using client_object_update [OF _ users, of ps ss r "sp_world st" p this srv addr e] by (auto simp: client_ok_def)
  then show "\<exists>st'. app_update env addr (\<lambda>_. []) this srv e p st = Inr (success, st') \<and> client_ok this srv ps ss r st' \<and>
      length (sp_list st') = length (sp_list st)"
    using J by (simp add: app_update_def track_same client_ok_def spin_ok_world)
next
  fix st :: "('a, 'b) node spinner" assume J: "client_ok this srv ps ss r st"
  have "sp_world (spin_prune (spin_add st)) = sp_world st" "sp_alive (spin_prune (spin_add st)) = sp_alive st"
    by (simp_all add: spin_prune_def spin_add_def)
  then show "client_ok this srv ps ss r (spin_prune (spin_add st))" using J spin_ok_end [of st] by (simp add: client_ok_def)
qed (use assms(1) in \<open>simp_all add: client_ok_def\<close>)


subsection \<open>Beginning and end\<close>

lemma start_gateway_fresh:
  assumes "nd_server n = None"
  shows "\<exists>ret s. start_gateway_service env this base socket_ret setsockopt_ret bind_ret listen_ret errno address n =
      Inr (ret, n\<lparr>nd_server := s\<rparr>) \<and> (\<forall>sv. s = Some sv \<longrightarrow> sv_clients sv = [])"
proof -
  obtain ret sv where op: "server_open (ne_strerror env) (ne_resolver env) socket_ret setsockopt_ret bind_ret listen_ret errno
      (tcp_server_new address base) = (ret, sv)" by (rule prod.exhaust)
  have "sv_clients sv = []" using server_open_keeps(1) [OF op] by (simp add: tcp_server_new_def)
  then show ?thesis
    using assms op by (cases "to_bool ret") (auto simp: start_gateway_service_def add_tcp_server_listener_def)
qed

lemma transport_open_live:
  "\<exists>ret l'. tcp_transport_open strerror rs r e1 c e2 (tcp_transport_new a address l) = Inr (ret, l') \<and>
     tt_socket (tl_transport l') = Some a \<and> (\<exists>s. tcp_transport_destroy l' = Inr s)"
  by (simp add: destroy_sound)
     (auto simp: tcp_transport_open_def tcp_transport_new_def deref_def tcp_transport_channels_def Let_def split: prod.splits)

lemma join_outcome:
  assumes ok: "node_ok n" and users: "users_return env" and r: "fresh_box (nd_dave n) r"
    and l: "l \<noteq> null_tp" "map_of (th_buffers (nd_thread n)) l = None"
  shows "\<exists>ret n'. join_daylite env r l a socket_ret errno1 connect_ret errno2 gateway peer n = Inr (ret, n') \<and> node_ok n' \<and>
    nd_server n' = nd_server n \<and> nd_publishers n' = nd_publishers n \<and> nd_subscribers n' = nd_subscribers n \<and>
    nd_pub_at n' = nd_pub_at n \<and> nd_sub_at n' = nd_sub_at n \<and> nd_auto_exit n' = nd_auto_exit n \<and> calm n n' \<and>
    (if to_bool ret then nd_remotes n' = nd_remotes n @ [r] \<and> socket_of n' r = Some a \<and> transport_sound n' r \<and>
       members (nd_dave n') = (members (nd_dave n))(topic_any := insert r (members (nd_dave n) topic_any))
     else nd_remotes n' = nd_remotes n)"
proof -
  obtain ret s s' where s: "tcp_transport_open (ne_strerror env) (ne_resolver env) socket_ret errno1 connect_ret errno2
      (tcp_transport_new a gateway (th_link (nd_thread n) l)) = Inr (ret, s)" "tt_socket (tl_transport s) = Some a"
      "tcp_transport_destroy s = Inr s'"
    using transport_open_live by blast
  show ?thesis
  proof (cases "to_bool ret")
    case False
    have "calm n (put_link l s' n)" by (rule calm_buffers) (simp_all add: put_link_def)
    then show ?thesis using s(1,3) False put_link_ok [OF ok, of l s'] by (simp add: join_daylite_def put_link_def)
  next
    case True
    let ?m = "if peer then Block_internal else Allow_internal"
    have "fresh_box (nd_dave (put_link l s n)) r" "map_of (th_buffers (nd_thread (put_link l s n))) l = None"
      using r l(2) by (simp_all add: put_link_def)
    from adopt_remote_ok [OF put_link_ok [OF ok] users this(1) l(1) this(2), of ?m] obtain n2 where
      n2: "adopt_remote env r l ?m (put_link l s n) = Inr n2" "node_ok n2" "nd_remotes n2 = nd_remotes n @ [r]"
      "nd_remote_at n2 r = Some \<lparr>rn_mode = ?m, rn_link = l, rn_ids = {}\<rparr>" "th_link (nd_thread n2) l = s"
      "nd_publishers n2 = nd_publishers n" "nd_subscribers n2 = nd_subscribers n" "nd_server n2 = nd_server n"
      "nd_pub_at n2 = nd_pub_at n" "nd_sub_at n2 = nd_sub_at n"
      "members (nd_dave n2) = (members (nd_dave n))(topic_any := insert r (members (nd_dave n) topic_any))"
      by (elim exE conjE) (rule that, assumption+, simp_all add: put_link_def)
    have "calm n n2"
    proof -
      have "calm n (put_link l s n)" by (rule calm_buffers) (simp_all add: put_link_def)
      then show ?thesis using adopt_calm [OF n2(1)] calm_trans by blast
    qed
    moreover have "socket_of n2 r = Some a" "transport_sound n2 r"
      using n2(4,5) s(2,3) by (simp_all add: socket_of_def transport_sound_def)
    moreover have "join_daylite env r l a socket_ret errno1 connect_ret errno2 gateway peer n = Inr (success, n2)"
      using s(1) True n2(1) by (simp add: join_daylite_def)
    ultimately show ?thesis using n2 by (intro exI [of _ success] exI [of _ n2]) (simp add: calm_def)
  qed
qed

text \<open>\<open>m\<close> says where the mailboxes of a new client are: its own, and its remote's when it is connected.\<close>

definition setup_ok :: "client_setup \<Rightarrow> bool" where
  "setup_ok cs \<longleftrightarrow> cs_tp cs \<noteq> null_tp \<and> box_key (cs_remote cs) \<noteq> box_key (cs_box cs)"

lemma create_and_start_ok:
  fixes env :: "('b, 'u) node_env"
  assumes cs: "setup_ok cs" and users: "users_return env"
  shows "\<exists>ret d. create_and_start env cs name u = Inr (ret, d) \<and> dm_exit d = False \<and> node_ok (node_of d) \<and>
    nd_publishers (node_of d) = [] \<and> nd_subscribers (node_of d) = [] \<and> nd_pub_at (node_of d) = Map.empty \<and>
    nd_sub_at (node_of d) = Map.empty \<and> no_clients (node_of d) \<and> (\<forall>r \<in> set (nd_remotes (node_of d)). transport_sound (node_of d) r) \<and>
    (to_bool ret \<longrightarrow> client_ok (cs_this cs) (cs_srv cs) [] [] (cs_remote cs) (dm_spinner d) \<and>
      members (nd_dave (node_of d)) = (\<lambda>t. if t = topic_internal then {cs_box cs} else if t = topic_any then {cs_remote cs} else {}))"
proof -
  obtain n0 :: "('b, 'u) node" where n0: "node_new env name (cs_hash cs) (cs_rnd cs) (cs_box cs) (cs_link cs) u = Inr n0"
      "node_ok n0" "nd_publishers n0 = []" "nd_subscribers n0 = []" "nd_remotes n0 = []" "nd_pub_at n0 = Map.empty"
      "nd_sub_at n0 = Map.empty" "members (nd_dave n0) = (\<lambda>t. if t = topic_internal then {cs_box cs} else {})"
      "nd_thread n0 = tcp_thread_new (cs_link cs)" "nd_server n0 = None"
    using node_new_ok [of env name "cs_hash cs" "cs_rnd cs" "cs_box cs" "cs_link cs" u] by (elim exE conjE) (rule that, assumption+)
  have exit: "\<not> nd_auto_exit n0" using n0(1) by (auto simp: node_new_def Let_def exec_simps)
  obtain ss so bi li er where sr: "cs_server_ret cs = (ss, so, bi, li, er)" by (rule prod_cases5)
  obtain ret0 s where g: "start_gateway_service env (cs_this cs) (cs_base cs) ss so bi li er \<lparr>sa_host = [], sa_port = 0\<rparr> n0 =
      Inr (ret0, n0\<lparr>nd_server := s\<rparr>)" "\<forall>sv. s = Some sv \<longrightarrow> sv_clients sv = []"
    using start_gateway_fresh [OF n0(10)] by blast
  let ?n1 = "n0\<lparr>nd_server := s\<rparr>"
  have ok1: "node_ok ?n1" using wired_links [of n0 ?n1] n0(2) by (simp add: node_ok_def latest_ok_def)
  have fresh: "fresh_box (nd_dave ?n1) (cs_remote cs)" using cs by (auto simp: fresh_box_def n0(8) setup_ok_def)
  have buf: "map_of (th_buffers (nd_thread ?n1)) (cs_tp cs) = None" by (simp add: n0(9) tcp_thread_new_def)
  have tp: "cs_tp cs \<noteq> null_tp" using cs by (simp add: setup_ok_def)
  obtain ret n where j: "join_daylite env (cs_remote cs) (cs_tp cs) (cs_sock cs) (fst (cs_socket_ret cs)) (snd (cs_socket_ret cs))
      (fst (cs_connect_ret cs)) (snd (cs_connect_ret cs)) \<lparr>sa_host = ''127.0.0.1'', sa_port = 8374\<rparr> False ?n1 = Inr (ret, n)" "node_ok n"
      "nd_server n = nd_server ?n1" "nd_publishers n = nd_publishers ?n1" "nd_subscribers n = nd_subscribers ?n1"
      "nd_pub_at n = nd_pub_at ?n1" "nd_sub_at n = nd_sub_at ?n1" "nd_auto_exit n = nd_auto_exit ?n1" "calm ?n1 n"
      "if to_bool ret then nd_remotes n = nd_remotes ?n1 @ [cs_remote cs] \<and> socket_of n (cs_remote cs) = Some (cs_sock cs) \<and>
         transport_sound n (cs_remote cs) \<and>
         members (nd_dave n) = (members (nd_dave ?n1))(topic_any := insert (cs_remote cs) (members (nd_dave ?n1) topic_any))
       else nd_remotes n = nd_remotes ?n1"
    using join_outcome [OF ok1 users fresh tp buf, of "cs_sock cs" "fst (cs_socket_ret cs)" "snd (cs_socket_ret cs)"
      "fst (cs_connect_ret cs)" "snd (cs_connect_ret cs)" "\<lparr>sa_host = ''127.0.0.1'', sa_port = 8374\<rparr>" False] by (elim exE conjE) (rule that, assumption+)
  define d where "d = \<lparr>dm_spinner = track [] (nd_remotes n) (spinett_new (cs_srv cs) (spinett_new (cs_this cs)
      \<lparr>sp_to_add = [], sp_list = [], sp_alive = {}, sp_world = n\<rparr>)), dm_exit = False\<rparr>"
  have d: "node_of d = n" by (simp add: node_of_def d_def track_fields spinett_new_def register_spinett_def)
  have c: "create_and_start env cs name u = Inr (ret, d)"
    using n0(1) g(1) j(1) by (simp add: create_and_start_def sr node_start_def d_def)
  have nc: "no_clients n" using g(2) j(3) by (simp add: no_clients_def)
  have rs: "\<forall>r \<in> set (nd_remotes n). transport_sound n r" using j(10) n0(5) by (cases "to_bool ret") simp_all
  have q0: "in_queue l ?n1 = []" for l by (simp add: in_queue_def n0(9) tcp_thread_new_def)
  have q: "\<forall>l. \<forall>p \<in> set (in_queue l n). deliverable p" by (rule calm_deliverable [OF j(9)]) (simp add: q0)
  have "client_ok (cs_this cs) (cs_srv cs) [] [] (cs_remote cs) (dm_spinner d) \<and>
      members (nd_dave n) = (\<lambda>t. if t = topic_internal then {cs_box cs} else if t = topic_any then {cs_remote cs} else {})"
    if "to_bool ret"
  proof -
    have r: "nd_remotes n = [cs_remote cs]" "socket_of n (cs_remote cs) \<noteq> None"
        "members (nd_dave n) = (members (nd_dave n0))(topic_any := insert (cs_remote cs) (members (nd_dave n0) topic_any))"
      using j(10) that n0(5) by simp_all
    have "client_world [] [] (cs_remote cs) n" using j(2,4,5,8) n0(3,4) exit r nc q by (simp add: client_world_def)
    moreover have "members (nd_dave n) = (\<lambda>t. if t = topic_internal then {cs_box cs} else if t = topic_any then {cs_remote cs} else {})"
      by (simp add: r(3) n0(8) fun_eq_iff topic_any_def topic_internal_def)
    ultimately show ?thesis
      by (simp add: client_ok_def d_def track_fields r(1) spin_ok_def spinett_new_def register_spinett_def) auto
  qed
  then show ?thesis using c j(2,4-7) n0 nc rs d by (intro exI [of _ ret] exI [of _ d]) (simp add: d_def)
qed


lemma no_clients_stop:
  assumes "no_clients n"
  shows "\<exists>x n1. stop_gateway_service this n = Inr (x, n1) \<and> (\<forall>r. transport_sound n1 r = transport_sound n r)"
proof (cases "nd_server n")
  case None
  then show ?thesis by (simp add: stop_gateway_service_def)
next
  case (Some sv)
  then have "sv_clients sv = []" using assms by (simp add: no_clients_def)
  then show ?thesis using Some
    by (auto simp: stop_gateway_service_def server_close_def remove_tcp_server_listener_def free_sockets_def transport_sound_def
        split: prod.split)
qed

lemma leave_main_outcome:
  assumes ok: "node_ok n" and none: "nd_publishers n = []" "nd_subscribers n = []" and c: "no_clients n"
  shows "leave_main env cs code n =
    (if \<forall>r \<in> set (nd_remotes n). transport_sound n r then Inr (Exited code) else Inl Use_after_free)"
proof -
  define m where "m = n\<lparr>nd_thread := thread_exit (nd_thread n)\<rparr>"
  have "node_wired n" using ok by (simp add: node_ok_def)
  then have w: "node_wired m" by (rule wired_links) (simp_all add: m_def thread_exit_def)
  have "no_clients m" using c by (simp add: no_clients_def m_def)
  from no_clients_stop [OF this] obtain x n1 where
    gw: "stop_gateway_service (cs_this cs) m = Inr (x, n1)" "\<forall>r. transport_sound n1 r = transport_sound m r" by blast
  have "transport_sound m r = transport_sound n r" for r by (simp add: transport_sound_def m_def thread_exit_def)
  moreover have m: "nd_publishers m = []" "nd_subscribers m = []" "nd_remotes m = nd_remotes n" using none by (simp_all add: m_def)
  ultimately have same: "transport_sound n1 r = transport_sound n r" for r using gw(2) by simp
  have eq: "leave_main env cs code n = exec_bind (node_stop env (cs_this cs) m) (\<lambda>_. Inr (Exited code))"
    by (simp add: leave_main_def node_destroy_def m_def exec_bind_assoc case_prod_beta)
  show ?thesis
  proof (cases "\<forall>r \<in> set (nd_remotes n). transport_sound n r")
    case True
    then show ?thesis using stop_eq(2) [OF w gw(1) m(1,2), of env] by (auto simp: eq same m(3))
  next
    case False
    then show ?thesis using stop_eq(3) [OF w gw(1) m(1,2), of env] by (simp add: eq same m(3))
  qed
qed

lemma subscriber_destroy_keeps:
  assumes "subscriber_destroy s n = Inr n'"
  shows "nd_thread n' = nd_thread n" and "nd_server n' = nd_server n" and "nd_remotes n' = nd_remotes n"
    and "nd_remote_at n' = nd_remote_at n" and "nd_publishers n' = nd_publishers n"
  using assms
  by (auto simp: subscriber_destroy_def subscriber_set_husk_def unregister_subscriber_def node_unregister_def exec_simps Let_def
      split: if_splits option.splits)

lemma listen_end_outcome:
  assumes ok: "node_ok n" and "nd_publishers n = []" and s: "nd_subscribers n = [s]" and "no_clients n"
  shows "listen_end env cs s code n =
    (if \<forall>r \<in> set (nd_remotes n). transport_sound n r then Inr (Exited code) else Inl Use_after_free)"
proof -
  obtain n' where n': "subscriber_destroy s n = Inr n'" "node_ok n'" "nd_subscribers n' = []"
    using subscriber_destroy_ok [OF ok, of s] s by auto
  note k = subscriber_destroy_keeps [OF n'(1)]
  have "no_clients n'" using assms(4) k(2) by (simp add: no_clients_def)
  moreover have "transport_sound n' r = transport_sound n r" for r by (simp add: transport_sound_def k)
  ultimately show ?thesis
    using leave_main_outcome [OF n'(2) _ n'(3), of env cs code] assms(2) n'(1) k by (simp add: listen_end_def)
qed

lemma client_step:
  assumes "daemon_step env junk addr (\<lambda>_. []) this srv d d'" and "client_ok this srv ps ss r (dm_spinner d)" and "users_return env"
  shows "client_ok this srv ps ss r (dm_spinner d')"
  using assms
proof (induction rule: daemon_step.induct)
  case (Spin d ret st)
  then show ?case using client_spin [OF Spin(3,4), of addr "should_exit d"] by auto
next
  case (Section n d none t)
  let ?n' = "n\<lparr>nd_thread := t\<rparr>"
  have w: "client_world ps ss r n" using Section(1,5) by (simp add: client_ok_def)
  have "link_moves (th_link (nd_thread n) l) (th_link t l)" for l using section_moves [OF Section(2)] .
  then have m: "moves n ?n'" unfolding moves_def by (intro conjI exI [of _ id]) (simp_all add: option.map_id)
  have "node_ok n" using w by (simp add: client_world_def)
  then have "node_ok ?n'" using wired_links [of n ?n'] Section(3) by (simp add: node_ok_def latest_ok_def)
  from client_world_moves [OF w m this] have "client_world ps ss r ?n'" using Section(4) by simp
  then show ?case using Section(5) by (simp add: client_ok_def with_node_def spin_ok_world)
next
  case (Kernel d ev inp)
  let ?n = "sp_world (dm_spinner d)"
  have w: "client_world ps ss r ?n" using Kernel(1) by (simp add: client_ok_def)
  then have "node_ok ?n" by (simp add: client_world_def)
  then have "node_ok (kernel_acts ?n ev inp)"
    using wired_links [of ?n "kernel_acts ?n ev inp"] by (simp add: node_ok_def latest_ok_def kernel_acts_def)
  moreover have "\<forall>l. \<forall>p \<in> set (in_queue l (kernel_acts ?n ev inp)). deliverable p"
    using w by (simp add: client_world_def in_queue_def kernel_acts_def)
  ultimately have "client_world ps ss r (kernel_acts ?n ev inp)"
    using client_world_moves [OF w kernel_moves] by (simp add: kernel_acts_def)
  then show ?case using Kernel(1) by (simp add: client_ok_def with_node_def spin_ok_world)
next
  case (Signal d)
  then show ?case by (simp add: sig_exit_def)
qed

lemma subscriber_new_keeps:
  assumes "subscriber_new env a b t cb arg n = Inr n'"
  shows "nd_server n' = nd_server n" and "nd_auto_exit n' = nd_auto_exit n" and "th_link (nd_thread n') = th_link (nd_thread n)"
    and "nd_remote_at n' = nd_remote_at n" and "in_queue l n' = in_queue l n"
proof -
  from assms obtain n2 n3 where send: "send_info env False n2 = Inr n3"
    and n2: "nd_server n2 = nd_server n" "nd_auto_exit n2 = nd_auto_exit n" "nd_thread n2 = nd_thread n" "nd_remote_at n2 = nd_remote_at n"
    and n': "nd_server n' = nd_server n3" "nd_auto_exit n' = nd_auto_exit n3" "nd_thread n' = nd_thread n3" "nd_remote_at n' = nd_remote_at n3"
    by (auto simp: subscriber_new_def register_subscriber_def unregister_subscriber_def node_register_def exec_simps Let_def put_box_def
        split: if_splits)
  have f: "frame n2 n3" by (rule send_info_frame [OF send])
  note k = frameD [OF f]
  show "nd_server n' = nd_server n" "nd_auto_exit n' = nd_auto_exit n" "th_link (nd_thread n') = th_link (nd_thread n)"
    "nd_remote_at n' = nd_remote_at n" using k n2 n' by simp_all
  show "in_queue l n' = in_queue l n" using in_queue_frame [OF f, of l] n2(3) n'(3) by (simp add: in_queue_def)
qed

lemma with_subscriber_ok:
  assumes c: "client_ok this srv ps ss r (dm_spinner d)" and n: "node_ok n" "nd_publishers n = ps" "nd_subscribers n = ss @ [s]"
    "nd_remotes n = nd_remotes (node_of d)" and new: "subscriber_new env s b t cb arg (node_of d) = Inr n"
  shows "client_ok this srv ps (ss @ [s]) r (dm_spinner (with_node n d))"
proof -
  note k = subscriber_new_keeps [OF new]
  have w: "client_world ps ss r (node_of d)" using c by (simp add: client_ok_def node_of_def)
  have "socket_of n r = socket_of (node_of d) r" by (simp add: socket_of_def k cong: option.case_cong)
  moreover have "no_clients n" using w k(1) by (simp add: client_world_def no_clients_def)
  ultimately have "client_world ps (ss @ [s]) r n" using w n k by (simp add: client_world_def)
  then show ?thesis using c by (simp add: client_ok_def with_node_def spin_ok_world)
qed

text \<open>A turn of the publisher succeeds and leaves the program as it was, but for the counter.\<close>

lemma pub_turn_ok:
  assumes c: "client_ok (cs_this cs) (cs_srv cs) [a] [] r (dm_spinner d)" and users: "users_return env" and "\<not> should_exit d"
    and pb: "nd_pub_at (node_of d) a = Some pb" "pb_topic pb = ''/test''"
  shows "\<exists>d' n. pub_turn env addr (\<lambda>_. []) cs a bind (i, d) = Inr (i + 1, Looping d') \<and>
    publish env a (bind (''test'' @ decimal (unat i))) (node_of d) = Inr (success, n) \<and>
    client_ok (cs_this cs) (cs_srv cs) [a] [] r (dm_spinner d')"
proof -
  have w: "client_world [a] [] r (node_of d)" using c by (simp add: client_ok_def node_of_def)
  then have ok: "node_ok (node_of d)" and a: "a \<in> set (nd_publishers (node_of d))" by (simp_all add: client_world_def)
  then have wired: "node_wired (node_of d)" by (simp add: node_ok_def)
  have t: "pb_topic pb \<noteq> topic_internal" "pb_topic pb \<noteq> topic_any" by (simp_all add: pb(2) topic_internal_def topic_any_def)
  obtain n where n: "publish env a (bind (''test'' @ decimal (unat i))) (node_of d) = Inr (success, n)" "frame (node_of d) n"
    using publish_eq [OF wired a pb(1) t users refl] by blast
  have "client_world [a] [] r n"
    using client_world_moves [OF w moves_frame [OF n(2)] frame_ok [OF n(2) ok]] calm_deliverable [OF calm_frame [OF n(2)]] w
    by (simp add: frameD [OF n(2)] client_world_def)
  then have "client_ok (cs_this cs) (cs_srv cs) [a] [] r (dm_spinner (with_node n d))"
    using c by (simp add: client_ok_def with_node_def spin_ok_world)
  from client_spin [OF this users, of addr "should_exit d"] obtain st where
    "spin_once (app_update env addr (\<lambda>_. []) (cs_this cs) (cs_srv cs) (should_exit d)) (dm_spinner (with_node n d)) = Inr (success, st)"
    "client_ok (cs_this cs) (cs_srv cs) [a] [] r st" by blast
  then show ?thesis using assms(3) n(1) by (intro exI [of _ "d\<lparr>dm_spinner := st\<rparr>"] exI [of _ n]) (simp add: pub_turn_def)
qed

subsection \<open>A sample program\<close>

definition sample_listener :: "(sample_doc, string list) node_env" where
  "sample_listener = printing (\<lambda>_. ''{}'')
     \<lparr>ne_dbg = True, ne_lib = sample_lib, ne_junk = True, ne_port = 0, ne_strerror = (\<lambda>_. []),
      ne_resolver = plain_resolver, ne_clock = (\<lambda>k. \<lparr>tv_sec = int k, tv_usec = 0\<rparr>), ne_user = (\<lambda>f arg d u. Inr u)\<rparr>"

definition sample_setup :: client_setup where
  "sample_setup = \<lparr>cs_hash = 42, cs_rnd = 0, cs_box = 10, cs_link = (\<lambda>_. quiet_link), cs_this = 9, cs_srv = 11,
     cs_base = server_with () sample_server, cs_server_ret = (3, 0, 0, 0, 0), cs_remote = 20, cs_tp = 1, cs_sock = 7,
     cs_socket_ret = (4, 0), cs_connect_ret = (0, 0)\<rparr>"

lemma sample_connects:
  assumes "create_and_start sample_listener sample_setup name [] = Inr (ret, d)"
  shows "to_bool ret"
proof -
  obtain me ret0 n1 n where j: "node_new sample_listener name 42 0 10 (\<lambda>_. quiet_link) [] = Inr me"
      "start_gateway_service sample_listener 9 (server_with () sample_server) 3 0 0 0 0 \<lparr>sa_host = [], sa_port = 0\<rparr> me = Inr (ret0, n1)"
      "join_daylite sample_listener 20 1 7 4 0 0 0 \<lparr>sa_host = ''127.0.0.1'', sa_port = 8374\<rparr> False n1 = Inr (ret, n)"
    using assms by (auto simp: create_and_start_def node_start_def sample_setup_def exec_simps)
  have "nd_server me = None" "th_link (nd_thread me) = (\<lambda>_. quiet_link)"
    using j(1) by (auto simp: node_new_def Let_def exec_simps tcp_thread_new_def)
  moreover obtain r1 s where "start_gateway_service sample_listener 9 (server_with () sample_server) 3 0 0 0 0 \<lparr>sa_host = [], sa_port = 0\<rparr> me =
      Inr (r1, me\<lparr>nd_server := s\<rparr>)" using start_gateway_fresh [OF calculation(1)] by blast
  ultimately have l: "th_link (nd_thread n1) 1 = quiet_link" using j(2) by simp
  have "\<exists>l'. tcp_transport_open (ne_strerror sample_listener) (ne_resolver sample_listener) 4 0 0 0
      (tcp_transport_new 7 \<lparr>sa_host = ''127.0.0.1'', sa_port = 8374\<rparr> quiet_link) = Inr (success, l')"
    by (simp add: tcp_transport_open_def tcp_transport_new_def deref_def fd_def tcp_socket_new_def sample_listener_def printing_def
        option_none_def option_some_def tcp_open_def tcp_connect_def Let_def is_open_def
        socket_address_to_sockaddr_def plain_resolver_def inaddr_none_def)
  then show ?thesis using j(3) by (auto simp: join_daylite_def l [unfolded One_nat_def] exec_simps)
qed

subsection \<open>Properties\<close>



end
