(* ===== verification/Spec2Isabelle.thy ===== *)
theory Spec2Isabelle
  imports Circular_Buffer Lifetimes Crc Splat_Node System_Clock Wire Tools
begin

text \<open>
  daylite is a publish/subscribe middleware in C++: nodes in different processes join by TCP and
  flood packets of BSON documents to each other. This development models its library
  (\<open>src/libdaylite\<close>) from the bytes on a socket up to a network of nodes.

  The program, and the theory that models each part:

  \<^item> \<open>Circular_Buffer\<close>: \<open>dynamic_circular_buffer\<close>, the growing ring buffer, with sizes at their
    machine width and the copies of memory explicit; \<open>Fifo\<close> is what it promises.
  \<^item> \<open>Results\<close>: \<open>result<T>\<close>, \<open>option<T>\<close> and the assertions on results; \<open>Lifetimes\<close>: the storage of
    \<open>option<T>\<close> and the objects in it, which justifies the use of HOL's options elsewhere.
  \<^item> \<open>Packet\<close>: topics, metadata, BSON documents and \<open>class packet\<close>.
  \<^item> \<open>Post_Office\<close> and \<open>Mailman\<close>: \<open>mailbox\<close> and \<open>mailman\<close>, the delivery inside a process; the
    first states as a locale what a client may rely on.
  \<^item> \<open>Socket\<close>: \<open>socket_address\<close> and \<open>tcp_socket\<close> over scripted system calls.
  \<^item> \<open>Channels\<close> and \<open>Transport\<close>: \<open>tcp_output_channel\<close>, \<open>tcp_input_channel\<close>, \<open>tcp_transport\<close>, and
    the interface \<open>transport\<close> as a locale.
  \<^item> \<open>Tcp_Thread\<close>: the thread that moves packets between the transports and the queues.
  \<^item> \<open>Tcp_Server\<close>: the listening socket, its clients and its listeners, whose interface is the locale
    \<open>server_listener\<close>.
  \<^item> \<open>Spinner\<close>: the registry of the objects that the main loop updates.
  \<^item> \<open>Crc\<close>: the CRC routines.
  \<^item> \<open>Splat\<close>: the exchange of a packet through a file that processes share; \<open>Splat_Node\<close>: what a node
    does with splats. The build leaves this code out (\<open>SPLAT_ENABLED\<close>).
  \<^item> \<open>Clock\<close>: \<open>node_impl::update_time\<close>, \<open>timeradd\<close> and \<open>timersub\<close>; \<open>System_Clock\<close>: \<open>gettimeofday\<close> for
    Windows and the timer \<open>rate\<close>.
  \<^item> \<open>Node_State\<close>: the fields of \<open>node_impl\<close>, the objects it works on and the closures its mailman
    runs; \<open>Delivery\<close>: when a delivery inside a node succeeds and what it does.
  \<^item> \<open>Endpoints\<close>: \<open>publisher_impl\<close>, \<open>subscriber_impl\<close>, \<open>service_impl\<close> and the registration and
    announcements of \<open>node_impl\<close>; \<open>Node\<close>: \<open>remote_node\<close>, joining, the gateway, starting and
    stopping; \<open>Node_Life\<close>: the invariant over everything that happens to a node.
  \<^item> \<open>Gateway\<close>: the node as the listener of its server, and a whole turn of the server;
    \<open>Daemon\<close>: the program \<open>daylightd\<close>, which composes the node, its server, its remotes, the spinner
    and the thread; \<open>Tools\<close>: the programs \<open>listen\<close>, \<open>daylite_pub\<close> and \<open>daylite_sub\<close>.
  \<^item> \<open>Network\<close>: several nodes joined by links; \<open>Flood_Reach\<close>: what a flood delivers;
    \<open>Wire\<close>: a message between two processes, through their threads and the bytes between them.

  How they interact: a publisher builds a packet and its mailbox hands it to the mailman
  (\<open>publish\<close>, \<open>node_mail\<close>), which runs the closures of the subscribers' mailboxes of the topic and of
  the remotes' mailboxes, which are registered for \<open>*\<close>. A remote stamps the packet and queues it in
  the thread (\<open>remote_send\<close>, \<open>thread_send\<close>); the thread writes it to a transport and queues what it
  reads (\<open>run_buffer\<close>); the peer's remote takes it from there in its turn of the spinner
  (\<open>remote_take\<close>) and mails it. The server reports connections to the node, which adopts them as
  remotes. Internal packets carry the nodes' information, from which a node counts the
  subscriptions of others.

  Conventions. A run that dereferences null, uses memory after it was freed, fails an assertion
  or throws through code that does not catch is \<open>Inl\<close> of a fault (\<open>Prelude\<close>), so that a result \<open>Inr\<close>
  says the code returned; a \<open>result<T>\<close> that reports an error is a value. Machine integers are
  words. Heap objects are partial maps from addresses; where the code compares or truncates
  addresses they are 64-bit words. An unordered map is an association list in the order its
  iteration happens to have; the theorems hold for every order. What a system call returns, the
  random number, the readings of the clock and the users' callbacks are arguments. Addresses of
  new objects are arguments too, with freshness as a hypothesis where it matters: the mailman's
  keys are the low 32 bits of addresses, so \<open>fresh_box\<close> asks that these differ.

  Libraries. \<open>bson_lib\<close> is libbson and the code bsonbind generates, \<open>bson_laws\<close> what the code relies
  on: a document is read back as it was built and \<open>unbind\<close> inverts \<open>bind\<close>. \<open>resolver\<close> is the address
  lookup. \<open>ne_user\<close> are the users' callbacks, on a state of their own: a callback that calls back
  into its node is not covered.

  What is shown:

  \<^item> buffers and bytes: the ring buffer is a queue until its size no longer fits, packets survive
    packing, and a stream cut and delayed arbitrarily gives back the packets that were written;
  \<^item> delivery: the mailman places a packet once with every recipient, publishing reaches every
    subscriber of the node once and every remote that wants the topic once;
  \<^item> concurrency: the thread's loop is a sequence of its critical sections, in every interleaving
    of which with the node's calls the buffers are sound, and it delivers what was queued;
  \<^item> the node: its invariant holds in every state it can reach, with exact subscription counts;
    connections, disconnections and endpoints come and go;
  \<^item> the network: flooding ends, whatever the cycles, and by then a published packet has been
    delivered by every node it can reach; a message published in one process reaches the
    subscribers in another once, through every layer and whatever the network does to its bytes;
  \<^item> the program: a turn of the gateway keeps clients and remotes in correspondence, and no
    sequence of turns, sections of the thread and actions of the kernel makes the daemon fault;
    a session of \<open>listen\<close> runs without a fault until it ends with a lost connection;
  \<^item> splats: no interleaving of pushes and polls tears a packet, a node with splats learns what one
    without learns, and a packet pushed by one process reaches the subscribers of another;
  \<^item> failures: what happens on truncated sizes, equal keys, malformed documents, closed sockets,
    a stopped node. Several of these are faults of the code, which the theorems show.

  Bounds and fuel. \<open>remote_loop\<close> gets one turn more than there are packets, and no turn adds any to
  the queue it empties (\<open>remote_loop_drains\<close>). \<open>run_times\<close>, \<open>read_loop\<close> and the loops over scripted
  system calls recurse on the number of turns or on the script; the theorems on them say how many turns
  are enough. \<open>excess_bits\<close> and the CRC loops stop by their measures. In \<open>Network\<close> the number of
  steps is bounded by weights that shrink with the length of a packet's path.

  Not modelled. Console output other than the messages \<open>listen\<close> and \<open>daylite_sub\<close> print; the tests,
  which only call the library; the code bsonbind generates. The clients in \<open>Tools\<close> are those to
  whose own gateways no other node comes. The listing of the machine's interfaces is commented out in
  \<open>network_interfaces.cpp\<close>, which returns an empty vector. In \<open>Daemon\<close> a section of the thread that
  faults, which a malformed document makes it do (\<open>Channels\<close>), is not a step, and packets for the
  internal topic without a message, which the handler dereferences, do not arrive. The
  assignment the compiler makes for \<open>option<T>\<close> is taken to copy the value where \<open>Socket\<close> uses it;
  \<open>Lifetimes\<close> shows that it does not. Data races on
  the table of buffers are not modelled, each section of the thread runs as a whole. In
  \<open>node_step\<close> and \<open>net_step\<close> the turns of the objects come in any order, the spinner's included. In
  \<open>Splat_Node\<close> a push or a poll finds the lock of its file free, the operations of a node that only
  send mail are not repeated with splats, and addresses of deleted objects are not used again.
\<close>

end
